(* ===== verification/Prelude.thy ===== *)
theory Prelude
  imports Main "HOL-Library.Monad_Syntax"
begin

text \<open>
  Shared vocabulary of the development.

  \<^item> Machine integers.  A \<^verbatim>\<open>u16\<close>, \<^verbatim>\<open>u32\<close>, \<^verbatim>\<open>u64\<close> or \<^verbatim>\<open>u128\<close> of the source is a
    \<^typ>\<open>nat\<close>; every operation of the source that can leave the range is written
    out with the width as its first argument: \<open>checked_add\<close>, \<open>checked_mul\<close>,
    \<open>checked_sub\<close>, \<open>try_from\<close> give \<^term>\<open>None\<close> outside the range,
    \<open>wrapping_add\<close>, \<open>wrapping_mul\<close> and \<open>wrapping_sub\<close> reduce modulo \<open>2 ^ w\<close> (what the plain
    operators do in the release profile, which sets no overflow checks), and
    \<open>saturating_add\<close>, \<open>saturating_mul\<close> stop at the greatest value.  An \<^verbatim>\<open>i128\<close> is an
    \<^typ>\<open>int\<close>, with \<open>checked_add_int\<close> and \<open>checked_sub_int\<close>.  The saturating
    subtraction is the subtraction of \<^typ>\<open>nat\<close>.

  \<^item> Calls that may not return.  A function whose Rust counterpart can panic
    (\<^verbatim>\<open>expect\<close>, \<^verbatim>\<open>unwrap\<close>, \<^verbatim>\<open>strict_add\<close>, indexing) or loop for ever has a result in
    \<^typ>\<open>'a option\<close>, where \<^term>\<open>None\<close> means that the call does not return.  A Rust
    \<^verbatim>\<open>Option\<close> result then is an inner \<^typ>\<open>'a option\<close>, a Rust \<^verbatim>\<open>Result\<close> an inner sum
    with the error on the left.

  \<^item> Fallible calls.  A call that can both fail and panic has a result in \<^typ>\<open>('e + 'a) option\<close>, written
    \<open>ok a\<close>, \<open>fail e\<close> or \<^term>\<open>None\<close>; \<open>bind_res\<close> is the \<^verbatim>\<open>?\<close> operator, \<open>try_fold\<close> a loop whose body uses it.

  \<^item> Ordered maps.  A \<^verbatim>\<open>BTreeMap\<close> that the source iterates is the list of its entries in
    ascending key order, updated by \<open>btree_insert\<close>.
\<close>

named_theorems int_ops \<open>definitions of the fixed-width integer operations\<close>

definition checked_add :: "nat \<Rightarrow> nat \<Rightarrow> nat \<Rightarrow> nat option" where
  "checked_add w a b = (if a + b < 2 ^ w then Some (a + b) else None)"

definition checked_mul :: "nat \<Rightarrow> nat \<Rightarrow> nat \<Rightarrow> nat option" where
  "checked_mul w a b = (if a * b < 2 ^ w then Some (a * b) else None)"

definition checked_sub :: "nat \<Rightarrow> nat \<Rightarrow> nat option" where
  "checked_sub a b = (if b \<le> a then Some (a - b) else None)"

definition checked_div :: "nat \<Rightarrow> nat \<Rightarrow> nat option" where
  "checked_div a b = (if b = 0 then None else Some (a div b))"

definition try_from :: "nat \<Rightarrow> nat \<Rightarrow> nat option" where
  "try_from w a = (if a < 2 ^ w then Some a else None)"

definition checked_add_int :: "nat \<Rightarrow> int \<Rightarrow> int \<Rightarrow> int option" where
  "checked_add_int w a b = (if - (2 ^ (w - 1)) \<le> a + b \<and> a + b < 2 ^ (w - 1) then Some (a + b) else None)"

definition checked_sub_int :: "nat \<Rightarrow> int \<Rightarrow> int \<Rightarrow> int option" where
  "checked_sub_int w a b = (if - (2 ^ (w - 1)) \<le> a - b \<and> a - b < 2 ^ (w - 1) then Some (a - b) else None)"

definition wrapping_add :: "nat \<Rightarrow> nat \<Rightarrow> nat \<Rightarrow> nat" where
  "wrapping_add w a b = (a + b) mod 2 ^ w"

definition wrapping_mul :: "nat \<Rightarrow> nat \<Rightarrow> nat \<Rightarrow> nat" where
  "wrapping_mul w a b = a * b mod 2 ^ w"

definition wrapping_sub :: "nat \<Rightarrow> nat \<Rightarrow> nat \<Rightarrow> nat" where
  "wrapping_sub w a b = (if b \<le> a then a - b else (a + 2 ^ w - b mod 2 ^ w) mod 2 ^ w)"

definition saturating_add :: "nat \<Rightarrow> nat \<Rightarrow> nat \<Rightarrow> nat" where
  "saturating_add w a b = min (a + b) (2 ^ w - 1)"

definition saturating_mul :: "nat \<Rightarrow> nat \<Rightarrow> nat \<Rightarrow> nat" where
  "saturating_mul w a b = min (a * b) (2 ^ w - 1)"

definition div_ceil :: "nat \<Rightarrow> nat \<Rightarrow> nat" where
  "div_ceil a b = (if b dvd a then a div b else a div b + 1)"

fun btree_insert :: "'k::linorder \<Rightarrow> 'v \<Rightarrow> ('k \<times> 'v) list \<Rightarrow> ('k \<times> 'v) list" where
  "btree_insert k v [] = [(k, v)]"
| "btree_insert k v ((k', v') # m) =
     (if k < k' then (k, v) # (k', v') # m
      else if k = k' then (k, v) # m
      else (k', v') # btree_insert k v m)"

text \<open>A loop over a list whose body may not return.\<close>

fun fold_run :: "('a \<Rightarrow> 'b \<Rightarrow> 'a option) \<Rightarrow> 'a \<Rightarrow> 'b list \<Rightarrow> 'a option" where
  "fold_run f a [] = Some a"
| "fold_run f a (x # xs) = do { a' \<leftarrow> f a x; fold_run f a' xs }"

text \<open>Calls that return an error or a value, or do not return.\<close>

abbreviation ok :: "'a \<Rightarrow> ('e + 'a) option" where
  "ok a \<equiv> Some (Inr a)"

abbreviation fail :: "'e \<Rightarrow> ('e + 'a) option" where
  "fail e \<equiv> Some (Inl e)"

definition bind_res :: "('e + 'a) option \<Rightarrow> ('a \<Rightarrow> ('e + 'b) option) \<Rightarrow> ('e + 'b) option" where
  "bind_res m f = (case m of None \<Rightarrow> None | Some (Inl e) \<Rightarrow> Some (Inl e) | Some (Inr a) \<Rightarrow> f a)"

definition map_err :: "('e \<Rightarrow> 'f) \<Rightarrow> ('e + 'a) option \<Rightarrow> ('f + 'a) option" where
  "map_err g m = map_option (map_sum g id) m"

definition ensure :: "bool \<Rightarrow> 'e \<Rightarrow> ('e + unit) option" where
  "ensure b e = (if b then ok () else fail e)"

definition ok_or :: "'e \<Rightarrow> 'a option \<Rightarrow> ('e + 'a) option" where
  "ok_or e x = (case x of None \<Rightarrow> fail e | Some a \<Rightarrow> ok a)"

text \<open>A call that may panic but has no error of its own.\<close>

definition run :: "'a option \<Rightarrow> ('e + 'a) option" where
  "run x = map_option Inr x"

primrec try_fold :: "('x \<Rightarrow> 's \<Rightarrow> ('e + 's) option) \<Rightarrow> 'x list \<Rightarrow> 's \<Rightarrow> ('e + 's) option" where
  "try_fold f [] s = ok s"
| "try_fold f (x # xs) s = bind_res (f x s) (try_fold f xs)"

text \<open>Loops that only check, and loops that add up.\<close>

abbreviation try_all :: "('x \<Rightarrow> ('e + unit) option) \<Rightarrow> 'x list \<Rightarrow> ('e + unit) option" where
  "try_all f xs \<equiv> try_fold (\<lambda>x _. f x) xs ()"

abbreviation try_sum :: "nat \<Rightarrow> 'e \<Rightarrow> ('x \<Rightarrow> ('e + nat) option) \<Rightarrow> 'x list \<Rightarrow> nat \<Rightarrow> ('e + nat) option" where
  "try_sum w e f \<equiv> try_fold (\<lambda>x a. bind_res (f x) (\<lambda>v. ok_or e (checked_add w a v)))"

text \<open>The total of a measure over the values of a map.\<close>

definition map_total :: "('v \<Rightarrow> nat) \<Rightarrow> ('k \<rightharpoonup> 'v) \<Rightarrow> nat" where
  "map_total f m = (\<Sum>k\<in>dom m. f (the (m k)))"

abbreviation sorted_keys :: "('k::linorder \<times> 'v) list \<Rightarrow> bool" where
  "sorted_keys m \<equiv> sorted_wrt (<) (map fst m)"

subsection \<open>Fixed-width integers\<close>

declare checked_add_def [int_ops] checked_mul_def [int_ops] checked_sub_def [int_ops]
  checked_div_def [int_ops] checked_add_int_def [int_ops] checked_sub_int_def [int_ops] try_from_def [int_ops] wrapping_add_def [int_ops] wrapping_mul_def [int_ops]
  saturating_add_def [int_ops] saturating_mul_def [int_ops]

lemma checked_add_Some_iff:
  "checked_add w a b = Some c \<longleftrightarrow> c = a + b \<and> a + b < 2 ^ w"
  by (auto simp: checked_add_def)

lemma checked_mul_Some_iff:
  "checked_mul w a b = Some c \<longleftrightarrow> c = a * b \<and> a * b < 2 ^ w"
  by (auto simp: checked_mul_def)

lemma checked_sub_Some_iff:
  "checked_sub a b = Some c \<longleftrightarrow> b \<le> a \<and> c = a - b"
  by (auto simp: checked_sub_def)

lemma try_from_Some_iff:
  "try_from w a = Some c \<longleftrightarrow> c = a \<and> a < 2 ^ w"
  by (auto simp: try_from_def)

lemmas checked_Some_iffs =
  checked_add_Some_iff checked_mul_Some_iff checked_sub_Some_iff try_from_Some_iff

lemma wrapping_sub_exact [simp]: "b \<le> a \<Longrightarrow> wrapping_sub w a b = a - b"
  by (simp add: wrapping_sub_def)

lemma wrapping_add_exact: "a + b < 2 ^ w \<Longrightarrow> wrapping_add w a b = a + b"
  by (simp add: wrapping_add_def)

lemma wrapping_mul_exact: "a * b < 2 ^ w \<Longrightarrow> wrapping_mul w a b = a * b"
  by (simp add: wrapping_mul_def)

lemma div_ceil_le_iff: "0 < b \<Longrightarrow> div_ceil a b \<le> c \<longleftrightarrow> a \<le> c * b"
proof (cases "b dvd a")
  case True
  then obtain k where "a = b * k" by blast
  then show "0 < b \<Longrightarrow> ?thesis" by (simp add: div_ceil_def mult.commute)
next
  case False
  assume b: "0 < b"
  have "div_ceil a b \<le> c \<longleftrightarrow> a div b < c" using False by (simp add: div_ceil_def Suc_le_eq)
  also have "\<dots> \<longleftrightarrow> a < c * b" using b by (rule div_less_iff_less_mult)
  also have "\<dots> \<longleftrightarrow> a \<le> c * b" using False by (auto simp: le_less)
  finally show ?thesis .
qed

lemma le_div_ceil_iff: "0 < b \<Longrightarrow> c < div_ceil a b \<longleftrightarrow> c * b < a"
  unfolding not_le [symmetric] using div_ceil_le_iff by blast

lemma wrapping_sub_add:
  assumes "a < 2 ^ w" "b < 2 ^ w"
  shows "wrapping_sub w (wrapping_add w a b) b = a"
proof (cases "a + b < 2 ^ w")
  case False
  with assms have "(a + b) mod 2 ^ w = a + b - 2 ^ w"
    by (simp add: le_mod_geq)
  with False assms show ?thesis
    by (simp add: wrapping_add_def wrapping_sub_def)
qed (simp add: wrapping_add_def)

subsection \<open>Calls that return\<close>

lemma bind_Some_iff:
  "Option.bind x f = Some y \<longleftrightarrow> (\<exists>a. x = Some a \<and> f a = Some y)"
  by (cases x) auto

lemma those_map_Some: "(\<And>x. x \<in> set xs \<Longrightarrow> f x = Some (g x)) \<Longrightarrow> those (map f xs) = Some (map g xs)"
  by (induction xs) auto

lemma those_map_Some_iff:
  "those (map f xs) = Some ys \<longleftrightarrow> length ys = length xs \<and> (\<forall>i<length xs. f (xs ! i) = Some (ys ! i))"
proof (induction xs arbitrary: ys)
  case (Cons x xs)
  show ?case
    by (cases ys) (auto simp: Cons.IH nth_Cons less_Suc_eq_0_disj split: option.splits)
qed auto

text \<open>Loop rule: an invariant over the elements already visited that every iteration keeps.\<close>

lemma fold_run_invariant:
  assumes "P [] a"
    and "\<And>ys x zs b. xs = ys @ x # zs \<Longrightarrow> P ys b \<Longrightarrow> \<exists>b'. f b x = Some b' \<and> P (ys @ [x]) b'"
  shows "\<exists>b. fold_run f a xs = Some b \<and> P xs b"
proof -
  have "\<exists>b'. fold_run f b zs = Some b' \<and> P xs b'" if "xs = ys @ zs" "P ys b" for ys zs b
    using that
  proof (induction zs arbitrary: ys b)
    case (Cons x zs)
    then obtain b' where "f b x = Some b'" "P (ys @ [x]) b'" using assms(2) by blast
    then show ?case using Cons.IH [of "ys @ [x]" b'] Cons.prems(1) by simp
  qed simp
  then show ?thesis using assms(1) by fastforce
qed

lemma fold_run_map: "fold_run f a (map g xs) = fold_run (\<lambda>a x. f a (g x)) a xs"
  by (induction xs arbitrary: a) (auto split: Option.bind_splits)

subsection \<open>Fallible calls\<close>

lemma bind_res_simps [simp]:
  "bind_res None f = None" "bind_res (fail e) f = fail e" "bind_res (ok a) f = f a"
  by (simp_all add: bind_res_def)

lemma bind_res_ok_iff: "bind_res m f = ok y \<longleftrightarrow> (\<exists>a. m = ok a \<and> f a = ok y)"
  by (auto simp: bind_res_def split: option.splits sum.splits)

lemma bind_res_None_iff: "bind_res m f = None \<longleftrightarrow> m = None \<or> (\<exists>a. m = ok a \<and> f a = None)"
  by (auto simp: bind_res_def split: option.splits sum.splits)

lemma bind_res_fail_iff: "bind_res m f = fail e \<longleftrightarrow> m = fail e \<or> (\<exists>a. m = ok a \<and> f a = fail e)"
  by (auto simp: bind_res_def split: option.splits sum.splits)

lemma ensure_iffs [simp]:
  "ensure b e = ok u \<longleftrightarrow> b" "ensure b e = fail e' \<longleftrightarrow> \<not> b \<and> e' = e" "ensure b e \<noteq> None"
  by (auto simp: ensure_def)

lemma bind_ensure: "bind_res (ensure b e) f = (if b then f () else fail e)"
  by (simp add: ensure_def)

lemma ok_or_iffs [simp]:
  "ok_or e x = ok a \<longleftrightarrow> x = Some a" "ok_or e x = fail e' \<longleftrightarrow> x = None \<and> e' = e" "ok_or e x \<noteq> None"
  by (auto simp: ok_or_def split: option.splits)

lemma run_iffs [simp]: "run x = ok a \<longleftrightarrow> x = Some a" "run x \<noteq> fail e" "run x = None \<longleftrightarrow> x = None"
  by (auto simp: run_def)

lemma run_simps [simp]: "run (Some a) = ok a" "run None = None"
  by (simp_all add: run_def)

lemma ok_or_simps [simp]: "ok_or e (Some a) = ok a" "ok_or e None = fail e"
  by (simp_all add: ok_or_def)

lemma map_err_simps [simp]: "map_err g None = None" "map_err g (fail e) = fail (g e)" "map_err g (ok a) = ok a"
  by (simp_all add: map_err_def)

lemma map_err_iffs [simp]:
  "map_err g m = ok a \<longleftrightarrow> m = ok a" "map_err g m = None \<longleftrightarrow> m = None"
  "map_err g m = fail e \<longleftrightarrow> (\<exists>e'. m = fail e' \<and> e = g e')"
  by (auto simp: map_err_def map_option_case map_sum_def split: option.splits sum.splits)

lemma try_fold_append: "try_fold f (xs @ ys) s = bind_res (try_fold f xs s) (try_fold f ys)"
  by (induction xs arbitrary: s) (auto simp: bind_res_def split: option.splits sum.splits)

lemma try_fold_map: "try_fold f (map g xs) s = try_fold (\<lambda>x. f (g x)) xs s"
  by (induction xs arbitrary: s) (auto simp: bind_res_def split: option.splits sum.splits)

text \<open>Loop rules: an invariant that every successful iteration keeps; a loop that does not panic.\<close>

lemma try_fold_invariant:
  assumes "try_fold f xs s = ok s'" "P s" "\<And>x s s'. x \<in> set xs \<Longrightarrow> P s \<Longrightarrow> f x s = ok s' \<Longrightarrow> P s'"
  shows "P s'"
  using assms by (induction xs arbitrary: s) (auto simp: bind_res_ok_iff)

lemma try_fold_returns:
  assumes "P s" "\<And>x s. x \<in> set xs \<Longrightarrow> P s \<Longrightarrow> (\<exists>e. f x s = fail e) \<or> (\<exists>s'. f x s = ok s' \<and> P s')"
  shows "(\<exists>e. try_fold f xs s = fail e) \<or> (\<exists>s'. try_fold f xs s = ok s' \<and> P s')"
  using assms
proof (induction xs arbitrary: s)
  case (Cons x xs)
  from Cons.prems(2) [of x s] Cons.prems(1) consider e where "f x s = fail e" | s1 where "f x s = ok s1" "P s1" by auto
  then show ?case
  proof cases
    case 2
    then show ?thesis using Cons.IH [of s1] Cons.prems(2) by simp
  qed simp
qed simp

lemma try_all_ok_iff: "try_all f xs = ok u \<longleftrightarrow> (\<forall>x \<in> set xs. f x = ok ())"
  by (induction xs) (auto simp: bind_res_ok_iff)

lemma try_all_fail: "try_all f xs = fail e \<Longrightarrow> \<exists>x \<in> set xs. f x = fail e"
  by (induction xs) (auto simp: bind_res_fail_iff)

lemma try_all_returns: "(\<And>x. x \<in> set xs \<Longrightarrow> f x \<noteq> None) \<Longrightarrow> try_all f xs \<noteq> None"
  by (induction xs) (auto simp: bind_res_None_iff)

lemma try_sum_ok_iff:
  "try_sum w e (\<lambda>x. ok_or (g x) (h x)) xs a = ok b \<longleftrightarrow>
     (\<forall>x \<in> set xs. h x \<noteq> None) \<and> b = a + sum_list (map (\<lambda>x. the (h x)) xs) \<and> (xs = [] \<or> b < 2 ^ w)"
proof (induction xs arbitrary: a)
  case (Cons x xs)
  show ?case
  proof (cases "h x")
    case (Some v)
    show ?thesis
    proof (cases "a + v < 2 ^ w")
      case True
      then have "try_sum w e (\<lambda>x. ok_or (g x) (h x)) (x # xs) a = try_sum w e (\<lambda>x. ok_or (g x) (h x)) xs (a + v)"
        using Some by (simp add: ok_or_def checked_add_def)
      then show ?thesis using Cons.IH [of "a + v"] Some True by (cases xs) (auto simp: add.assoc)
    next
      case False
      then show ?thesis using Some by (auto simp: ok_or_def checked_add_def)
    qed
  qed (simp add: ok_or_def)
qed auto

lemma try_sum_returns: "(\<And>x. f x \<noteq> None) \<Longrightarrow> try_sum w e f xs a \<noteq> None"
  by (induction xs arbitrary: a) (auto simp: bind_res_None_iff)

lemma try_collect_ok_iff:
  "try_fold (\<lambda>x ys. bind_res (ok_or (g x) (h x)) (\<lambda>y. ok (ys @ [k y]))) xs ys = ok zs \<longleftrightarrow>
     (\<forall>x \<in> set xs. h x \<noteq> None) \<and> zs = ys @ map (\<lambda>x. k (the (h x))) xs"
proof (induction xs arbitrary: ys)
  case (Cons x xs)
  then show ?case by (cases "h x") (auto simp: ok_or_def)
qed auto

subsection \<open>Ordered maps\<close>

lemma set_btree_insert_subset: "set (btree_insert k v m) \<subseteq> insert (k, v) (set m)"
  by (induction m) (auto split: if_splits)

lemma btree_insert_keys: "fst ` set (btree_insert k v m) = insert k (fst ` set m)"
  by (induction k v m rule: btree_insert.induct) (auto simp: insert_commute)

lemma sorted_btree_insert: "sorted_keys m \<Longrightarrow> sorted_keys (btree_insert k v m)"
proof (induction m)
  case (Cons x m)
  then show ?case
    using btree_insert_keys [of k v m] by (cases x) (fastforce simp: image_iff)
qed simp

lemma map_of_btree_insert:
  "sorted_keys m \<Longrightarrow> map_of (btree_insert k v m) = (map_of m)(k \<mapsto> v)"
  by (induction m) (auto simp: fun_eq_iff)

lemma btree_insert_append:
  "(\<And>k'. k' \<in> fst ` set m \<Longrightarrow> k' < k) \<Longrightarrow> btree_insert k v m = m @ [(k, v)]"
  by (induction m) force+

lemma set_btree_insert: "k \<notin> fst ` set m \<Longrightarrow> set (btree_insert k v m) = insert (k, v) (set m)"
  by (induction k v m rule: btree_insert.induct) auto

lemma set_fold_btree_insert:
  "distinct (map fst xs) \<Longrightarrow> fst ` set xs \<inter> fst ` set m = {} \<Longrightarrow>
   set (fold (\<lambda>(k, v). btree_insert k v) xs m) = set xs \<union> set m"
proof (induction xs arbitrary: m)
  case (Cons x xs)
  then show ?case
    using btree_insert_keys [of "fst x" "snd x" m] by (cases x) (auto simp: set_btree_insert)
qed simp

lemma set_fold_btree_insert_subset:
  "set (fold (\<lambda>(k, v). btree_insert k v) xs m) \<subseteq> set xs \<union> set m"
proof (induction xs arbitrary: m)
  case (Cons x xs)
  then show ?case using set_btree_insert_subset [of "fst x" "snd x" m] by (cases x) fastforce
qed simp

lemma sorted_keys_distinct: "sorted_keys m \<Longrightarrow> distinct (map fst m)"
  using strict_sorted_iff by blast

subsection \<open>Totals over maps\<close>

lemma map_total_empty [simp]: "map_total f Map.empty = 0"
  by (simp add: map_total_def)

lemma map_total_new:
  assumes "finite (dom m)" "m k = None"
  shows "map_total f (m(k \<mapsto> v)) = map_total f m + f v"
proof -
  have "(\<Sum>j\<in>dom m. f (the ((m(k \<mapsto> v)) j))) = (\<Sum>j\<in>dom m. f (the (m j)))"
    using assms(2) by (intro sum.cong) auto
  moreover have "k \<notin> dom m" using assms(2) by (simp add: domIff)
  ultimately show ?thesis using assms(1) by (simp add: map_total_def add.commute)
qed

lemma map_total_remove:
  assumes "finite (dom m)" "m k = Some v"
  shows "map_total f (m(k := None)) + f v = map_total f m"
  using map_total_new [of "m(k := None)" k f v] assms by (simp add: map_upd_triv)

lemma map_total_update:
  assumes "finite (dom m)" "m k = Some w"
  shows "map_total f (m(k \<mapsto> v)) + f w = map_total f m + f v"
  using map_total_new [of "m(k := None)" k f v] map_total_remove [OF assms] assms(1) by simp

lemma map_total_add:
  assumes "finite (dom m)" "distinct (map fst xs)" "\<forall>x \<in> set xs. m (fst x) = None"
  shows "map_total f (m ++ map_of xs) = map_total f m + sum_list (map (\<lambda>x. f (snd x)) xs)"
  using assms(2,3)
proof (induction xs)
  case (Cons x xs)
  have "(m ++ map_of xs) (fst x) = None" using Cons.prems by (auto simp: map_add_None map_of_eq_None_iff)
  moreover have "finite (dom (m ++ map_of xs))" using assms(1) by (simp add: finite_dom_map_of)
  ultimately have "map_total f ((m ++ map_of xs)(fst x \<mapsto> snd x)) = map_total f (m ++ map_of xs) + f (snd x)"
    by (intro map_total_new)
  moreover have "m ++ map_of (x # xs) = (m ++ map_of xs)(fst x \<mapsto> snd x)" by (cases x) (simp del: fun_upd_apply)
  moreover have "map_total f (m ++ map_of xs) = map_total f m + sum_list (map (\<lambda>x. f (snd x)) xs)" using Cons by simp
  ultimately have "map_total f (m ++ map_of (x # xs)) = map_total f m + sum_list (map (\<lambda>x. f (snd x)) xs) + f (snd x)"
    by (simp only:)
  then show ?case by (simp only: list.map sum_list.Cons add.commute add.left_commute)
qed simp

lemma map_total_restrict:
  assumes "finite (dom m)" "distinct ks" "\<forall>k \<in> set ks. m k \<noteq> None"
  shows "map_total f (m |` (- set ks)) + sum_list (map (\<lambda>k. f (the (m k))) ks) = map_total f m"
  using assms
proof (induction ks arbitrary: m)
  case (Cons k ks)
  obtain v where v: "m k = Some v" using Cons.prems(3) by auto
  have e: "m |` (- set (k # ks)) = (m(k := None)) |` (- set ks)" by (auto simp: restrict_map_def fun_eq_iff)
  have "map_total f ((m(k := None)) |` (- set ks)) + sum_list (map (\<lambda>j. f (the ((m(k := None)) j))) ks) = map_total f (m(k := None))"
  proof (rule Cons.IH)
    show "finite (dom (m(k := None)))" using Cons.prems(1) by simp
  qed (use Cons.prems in auto)
  moreover have "map (\<lambda>j. f (the ((m(k := None)) j))) ks = map (\<lambda>j. f (the (m j))) ks" using Cons.prems(2) by auto
  ultimately have "map_total f (m |` (- set (k # ks))) + sum_list (map (\<lambda>j. f (the (m j))) ks) = map_total f (m(k := None))"
    unfolding e by (simp only:)
  then show ?case using map_total_remove [OF Cons.prems(1) v, of f] v by (simp del: fun_upd_apply)
next
  case Nil
  have "m |` (- set []) = m" by (auto simp: restrict_map_def)
  then show ?case by (simp only: list.map sum_list.Nil add_0_right)
qed

end
