(* ===== verification/EraTime.thy ===== *)
theory EraTime
  imports Prelude
begin

text \<open>
  The time of a chain: \<^verbatim>\<open>time/src/lib.rs\<close> (slots and epochs) and \<^verbatim>\<open>time/src/era.rs\<close> (the era
  schedule that lays slots and epochs out in wall-clock time).

  A \<^verbatim>\<open>Slot\<close> is its \<^verbatim>\<open>u64\<close>, an \<^verbatim>\<open>Epoch\<close> its \<^verbatim>\<open>u32\<close>, an \<^verbatim>\<open>Era\<close> its \<^verbatim>\<open>u16\<close>, a \<^verbatim>\<open>Duration\<close> its nanoseconds and an
  \<^verbatim>\<open>OffsetDateTime\<close> the nanoseconds of the instant it names.  The traits \<^verbatim>\<open>SlotDuration\<close> and
  \<^verbatim>\<open>EpochLength\<close> are function arguments.  The external \<^verbatim>\<open>time\<close> crate is the record
  \<open>time_crate\<close>; what the schedule relies on is \<open>time_crate_ok\<close>.

  The lemmas show that resolving a schedule never panics and gives consecutive eras,
  that every slot and epoch belongs to exactly one era, and that the conversions
  between slots, epochs and time are inverse to each other.
\<close>

type_synonym slot = nat
type_synonym epoch = nat
type_synonym era = nat
type_synonym nanos = int

record time_crate =
  duration_try_from :: "nat \<Rightarrow> nanos option"
  datetime_checked_add :: "nanos \<Rightarrow> nanos \<Rightarrow> nanos option"

text \<open>The documented behaviour of the two functions of the \<^verbatim>\<open>time\<close> crate: they are exact, or refuse.\<close>

definition time_crate_ok :: "time_crate \<Rightarrow> bool" where
  "time_crate_ok tc \<longleftrightarrow>
     (\<forall>n d. duration_try_from tc n = Some d \<longrightarrow> d = int n) \<and>
     (\<forall>t d t'. datetime_checked_add tc t d = Some t' \<longrightarrow> t' = t + d)"

subsection \<open>Slots and epochs\<close>

definition slot_strict_add :: "slot \<Rightarrow> slot \<Rightarrow> slot option" where
  "slot_strict_add a b = checked_add 64 a b"

definition slot_saturating_sub :: "slot \<Rightarrow> slot \<Rightarrow> slot" where
  "slot_saturating_sub a b = a - b"

definition slot_checked_sub :: "slot \<Rightarrow> slot \<Rightarrow> slot option" where
  "slot_checked_sub a b = checked_sub a b"

definition epoch_strict_add :: "epoch \<Rightarrow> epoch \<Rightarrow> epoch option" where
  "epoch_strict_add a b = checked_add 32 a b"

definition epoch_strict_sub :: "epoch \<Rightarrow> epoch \<Rightarrow> epoch option" where
  "epoch_strict_sub a b = checked_sub a b"

definition epoch_try_from :: "nat \<Rightarrow> epoch option" where
  "epoch_try_from n = try_from 32 n"

subsection \<open>Era schedules\<close>

record era_timing =
  timing_slot_duration :: nat
  timing_epoch_length :: nat

record 'p era_entry_view =
  ev_era :: era
  ev_first_epoch :: epoch
  ev_first_slot :: slot
  ev_start_time :: nanos
  ev_parameters :: 'p

record 'p stored_entry =
  se_first_slot :: slot
  se_start_time :: nanos
  se_parameters :: 'p

datatype eras_error = Overflow era

record 'p era_schedule =
  es_genesis :: "'p stored_entry"
  es_after_genesis :: "(epoch \<times> 'p stored_entry) list"

definition view :: "'p stored_entry \<Rightarrow> era \<Rightarrow> epoch \<Rightarrow> 'p era_entry_view" where
  "view e era first_epoch =
     \<lparr>ev_era = era, ev_first_epoch = first_epoch, ev_first_slot = se_first_slot e,
      ev_start_time = se_start_time e, ev_parameters = se_parameters e\<rparr>"

definition genesis :: "'p era_schedule \<Rightarrow> 'p era_entry_view" where
  "genesis s = view (es_genesis s) 0 0"

definition eras_after_genesis :: "'p era_schedule \<Rightarrow> (epoch \<times> 'p era_entry_view) list option" where
  "eras_after_genesis s =
     those (map (\<lambda>(index, first_epoch, entry).
                   Option.bind (try_from 16 (index + 1))
                     (\<lambda>era. Some (first_epoch, view entry era first_epoch)))
                (enumerate 0 (es_after_genesis s)))"

definition iter :: "'p era_schedule \<Rightarrow> 'p era_entry_view list option" where
  "iter s = map_option (\<lambda>after. genesis s # map snd after) (eras_after_genesis s)"

definition get_era :: "'p era_schedule \<Rightarrow> era \<Rightarrow> 'p era_entry_view option option" where
  "get_era s era = map_option (\<lambda>es. if era < length es then Some (es ! era) else None) (iter s)"

definition last_started ::
  "'p era_schedule \<Rightarrow> ('p era_entry_view \<Rightarrow> bool) \<Rightarrow> 'p era_entry_view option option" where
  "last_started s condition =
     map_option (\<lambda>es. let started = takeWhile condition es
                       in if started = [] then None else Some (last started)) (iter s)"

definition at_slot :: "'p era_schedule \<Rightarrow> slot \<Rightarrow> 'p era_entry_view option" where
  "at_slot s sl = Option.bind (last_started s (\<lambda>era. ev_first_slot era \<le> sl)) id"

definition at_epoch :: "'p era_schedule \<Rightarrow> epoch \<Rightarrow> 'p era_entry_view option" where
  "at_epoch s ep = Option.bind (last_started s (\<lambda>era. ev_first_epoch era \<le> ep)) id"

definition elapsed_slots_since_era_start :: "'p era_schedule \<Rightarrow> slot \<Rightarrow> nat option" where
  "elapsed_slots_since_era_start s sl =
     do { era \<leftarrow> at_slot s sl; checked_sub sl (ev_first_slot era) }"

definition elapsed_epochs_since_era_start :: "'p era_schedule \<Rightarrow> epoch \<Rightarrow> nat option" where
  "elapsed_epochs_since_era_start s ep =
     do { era \<leftarrow> at_epoch s ep; checked_sub ep (ev_first_epoch era) }"

definition span :: "time_crate \<Rightarrow> nat \<Rightarrow> nat \<Rightarrow> nanos option" where
  "span tc slot_duration slots =
     do { nanos \<leftarrow> checked_mul 128 slot_duration slots;
          if nanos \<le> (2 ^ 64 - 1) * 10 ^ 9 + (10 ^ 9 - 1) then duration_try_from tc nanos else None }"

definition next_era_start ::
  "time_crate \<Rightarrow> ('p \<Rightarrow> nat) \<Rightarrow> ('p \<Rightarrow> nat) \<Rightarrow> 'p era_entry_view \<Rightarrow> epoch \<Rightarrow> (slot \<times> nanos) option" where
  "next_era_start tc slot_duration epoch_length era next_era_first_epoch =
     do { epochs_in_era \<leftarrow> checked_sub next_era_first_epoch (ev_first_epoch era);
          slots_in_era \<leftarrow> checked_mul 64 epochs_in_era (epoch_length (ev_parameters era));
          next_era_first_slot \<leftarrow> checked_add 64 (ev_first_slot era) slots_in_era;
          d \<leftarrow> span tc (slot_duration (ev_parameters era)) slots_in_era;
          next_era_start_time \<leftarrow> datetime_checked_add tc (ev_start_time era) d;
          Some (next_era_first_slot, next_era_start_time) }"

text \<open>The loop of \<^verbatim>\<open>EraSchedule::new\<close> over the entries after genesis.\<close>

fun resolve_eras ::
  "time_crate \<Rightarrow> ('p \<Rightarrow> nat) \<Rightarrow> ('p \<Rightarrow> nat) \<Rightarrow> 'p era_schedule \<Rightarrow> (epoch \<times> 'p) list
     \<Rightarrow> (eras_error + 'p era_schedule) option" where
  "resolve_eras tc sd el s [] = Some (Inr s)"
| "resolve_eras tc sd el s ((first_epoch, parameters) # rest) =
     do { es \<leftarrow> iter s;
          let previous_era = last es;
          era \<leftarrow> checked_add 16 (ev_era previous_era) 1;
          case next_era_start tc sd el previous_era first_epoch of
            None \<Rightarrow> Some (Inl (Overflow era))
          | Some (first_slot, start_time) \<Rightarrow>
              resolve_eras tc sd el
                (s\<lparr>es_after_genesis :=
                     btree_insert first_epoch
                       \<lparr>se_first_slot = first_slot, se_start_time = start_time, se_parameters = parameters\<rparr>
                       (es_after_genesis s)\<rparr>) rest }"

definition new_schedule ::
  "time_crate \<Rightarrow> ('p \<Rightarrow> nat) \<Rightarrow> ('p \<Rightarrow> nat) \<Rightarrow> nanos \<Rightarrow> 'p \<Rightarrow> (epoch \<times> 'p) list
     \<Rightarrow> (eras_error + 'p era_schedule) option" where
  "new_schedule tc sd el genesis_time genesis_parameters after_genesis =
     resolve_eras tc sd el
       \<lparr>es_genesis = \<lparr>se_first_slot = 0, se_start_time = genesis_time, se_parameters = genesis_parameters\<rparr>,
        es_after_genesis = []\<rparr> after_genesis"

definition map_era_values :: "'p era_entry_view \<Rightarrow> 'q \<Rightarrow> 'q stored_entry" where
  "map_era_values era parameters =
     \<lparr>se_first_slot = ev_first_slot era, se_start_time = ev_start_time era, se_parameters = parameters\<rparr>"

definition map_schedule :: "'p era_schedule \<Rightarrow> ('p era_entry_view \<Rightarrow> 'q) \<Rightarrow> 'q era_schedule option" where
  "map_schedule s map_fn =
     map_option
       (\<lambda>after. \<lparr>es_genesis = map_era_values (genesis s) (map_fn (genesis s)),
                 es_after_genesis =
                   fold (\<lambda>(first_epoch, era). btree_insert first_epoch (map_era_values era (map_fn era)))
                     after []\<rparr>)
       (eras_after_genesis s)"

definition starting_slot_for_epoch :: "('p \<Rightarrow> nat) \<Rightarrow> 'p era_schedule \<Rightarrow> epoch \<Rightarrow> slot option" where
  "starting_slot_for_epoch epoch_length s ep =
     do { era_at_epoch \<leftarrow> at_epoch s ep;
          elapsed_era_epochs \<leftarrow> elapsed_epochs_since_era_start s ep;
          elapsed_era_slots \<leftarrow> checked_mul 64 elapsed_era_epochs (epoch_length (ev_parameters era_at_epoch));
          checked_add 64 (ev_first_slot era_at_epoch) elapsed_era_slots }"

definition epoch_for_slot :: "('p \<Rightarrow> nat) \<Rightarrow> 'p era_schedule \<Rightarrow> slot \<Rightarrow> epoch option" where
  "epoch_for_slot epoch_length s sl =
     do { era_at_slot \<leftarrow> at_slot s sl;
          elapsed_era_slots \<leftarrow> checked_sub sl (ev_first_slot era_at_slot);
          let elapsed_era_epochs = elapsed_era_slots div epoch_length (ev_parameters era_at_slot);
          epoch \<leftarrow> checked_add 64 (ev_first_epoch era_at_slot) elapsed_era_epochs;
          try_from 32 epoch }"

definition slot_at :: "('p \<Rightarrow> nat) \<Rightarrow> 'p era_schedule \<Rightarrow> nanos \<Rightarrow> slot option option" where
  "slot_at slot_duration s time =
     do { started \<leftarrow> last_started s (\<lambda>era. ev_start_time era \<le> time);
          case started of
            None \<Rightarrow> Some None
          | Some era_at_time \<Rightarrow>
              (let delta = time - ev_start_time era_at_time in
               if delta < 0 then None
               else do { slots \<leftarrow> checked_div (nat delta) (slot_duration (ev_parameters era_at_time));
                         elapsed_era_slots \<leftarrow> try_from 64 slots;
                         sl \<leftarrow> checked_add 64 (ev_first_slot era_at_time) elapsed_era_slots;
                         Some (Some sl) }) }"

definition checked_time_of ::
  "time_crate \<Rightarrow> ('p \<Rightarrow> nat) \<Rightarrow> 'p era_schedule \<Rightarrow> slot \<Rightarrow> nanos option option" where
  "checked_time_of tc slot_duration s sl =
     do { era_at_slot \<leftarrow> at_slot s sl;
          slots_into_era \<leftarrow> elapsed_slots_since_era_start s sl;
          Some (do { d \<leftarrow> span tc (slot_duration (ev_parameters era_at_slot)) slots_into_era;
                     datetime_checked_add tc (ev_start_time era_at_slot) d }) }"

definition time_of :: "time_crate \<Rightarrow> ('p \<Rightarrow> nat) \<Rightarrow> 'p era_schedule \<Rightarrow> slot \<Rightarrow> nanos option" where
  "time_of tc slot_duration s sl = Option.bind (checked_time_of tc slot_duration s sl) id"

subsection \<open>Resolved schedules\<close>

text \<open>The eras of a schedule, without the conversion of their numbers to \<^verbatim>\<open>u16\<close>.\<close>

definition eras :: "'p era_schedule \<Rightarrow> 'p era_entry_view list" where
  "eras s = genesis s # map (\<lambda>(index, first_epoch, entry). view entry (index + 1) first_epoch)
                          (enumerate 0 (es_after_genesis s))"

text \<open>Era \<open>w\<close> starts where era \<open>v\<close> ends, measured in the slots and epochs of \<open>v\<close>.\<close>

definition follows :: "('p \<Rightarrow> nat) \<Rightarrow> ('p \<Rightarrow> nat) \<Rightarrow> 'p era_entry_view \<Rightarrow> 'p era_entry_view \<Rightarrow> bool" where
  "follows sd el v w \<longleftrightarrow>
     ev_first_epoch v < ev_first_epoch w \<and> ev_first_slot w < 2 ^ 64 \<and>
     ev_first_slot w = ev_first_slot v + (ev_first_epoch w - ev_first_epoch v) * el (ev_parameters v) \<and>
     ev_start_time w = ev_start_time v + int (sd (ev_parameters v) * (ev_first_slot w - ev_first_slot v))"

definition schedule_ok :: "('p \<Rightarrow> nat) \<Rightarrow> ('p \<Rightarrow> nat) \<Rightarrow> 'p era_schedule \<Rightarrow> bool" where
  "schedule_ok sd el s \<longleftrightarrow>
     length (es_after_genesis s) < 2 ^ 16 \<and> se_first_slot (es_genesis s) = 0 \<and>
     successively (follows sd el) (eras s)"

text \<open>Epoch lengths are non-zero, and so are the slot durations where time is divided by them.\<close>

definition lengths_ok :: "('p \<Rightarrow> nat) \<Rightarrow> 'p era_schedule \<Rightarrow> bool" where
  "lengths_ok len s \<longleftrightarrow> list_all (\<lambda>v. 0 < len (ev_parameters v)) (eras s)"

text \<open>The entries after genesis as a schedule lists them: the first epoch and the parameters of each.\<close>

definition entries :: "'p era_schedule \<Rightarrow> (epoch \<times> 'p) list" where
  "entries s = map (\<lambda>(fe, e). (fe, se_parameters e)) (es_after_genesis s)"

lemma iter_eras:
  assumes "length (es_after_genesis s) < 2 ^ 16"
  shows "iter s = Some (eras s)"
proof -
  have "eras_after_genesis s =
    Some (map (\<lambda>(index, fe, entry). (fe, view entry (index + 1) fe)) (enumerate 0 (es_after_genesis s)))"
    unfolding eras_after_genesis_def using assms
    by (intro those_map_Some) (auto simp: in_set_enumerate_eq try_from_def)
  then show ?thesis
    by (simp add: iter_def eras_def case_prod_beta comp_def)
qed

lemma eras_nth_Suc:
  "i < length (es_after_genesis s) \<Longrightarrow>
   eras s ! Suc i = view (snd (es_after_genesis s ! i)) (i + 1) (fst (es_after_genesis s ! i))"
  by (simp add: eras_def nth_enumerate_eq case_prod_beta)

lemma length_eras [simp]: "length (eras s) = Suc (length (es_after_genesis s))"
  by (simp add: eras_def)

lemma eras_not_Nil [simp]: "eras s \<noteq> []"
  by (simp add: eras_def)

lemma eras_0 [simp]: "eras s ! 0 = genesis s"
  by (simp add: eras_def)

text \<open>
  A boundary of the eras (their first epoch, first slot or start time) that increases along
  the schedule locates every point after the first boundary in exactly one era.
\<close>

locale era_boundary =
  fixes boundary :: "'p era_entry_view \<Rightarrow> 'b::linorder"
    and good :: "'p era_schedule \<Rightarrow> bool"
  assumes good_length: "good s \<Longrightarrow> length (es_after_genesis s) < 2 ^ 16"
    and good_step: "good s \<Longrightarrow> Suc i < length (eras s) \<Longrightarrow> boundary (eras s ! i) < boundary (eras s ! Suc i)"
begin

lemma boundary_mono:
  assumes "good s" "i \<le> j" "j < length (eras s)"
  shows "boundary (eras s ! i) \<le> boundary (eras s ! j)"
  using assms(2,3)
proof (induction rule: dec_induct)
  case (step j)
  then show ?case using good_step [OF assms(1), of j] by force
qed simp

lemma last_started_nth:
  assumes "good s" "i < length (eras s)" "boundary (eras s ! i) \<le> x"
    "Suc i < length (eras s) \<Longrightarrow> x < boundary (eras s ! Suc i)"
  shows "last_started s (\<lambda>v. boundary v \<le> x) = Some (Some (eras s ! i))"
proof -
  have "takeWhile (\<lambda>v. boundary v \<le> x) (eras s) = take (Suc i) (eras s)"
    using assms boundary_mono [OF assms(1), of _ i]
    by (intro takeWhile_eq_take_P_nth) (force simp: less_Suc_eq_le)+
  moreover have "last (take (Suc i) (eras s)) = eras s ! i"
    using assms(2) by (simp add: last_conv_nth)
  ultimately show ?thesis
    using iter_eras [OF good_length [OF assms(1)]] assms(2) by (simp add: last_started_def)
qed

lemma located:
  assumes "good s" "boundary (genesis s) \<le> x"
  obtains i where "i < length (eras s)" "boundary (eras s ! i) \<le> x"
    "Suc i < length (eras s) \<Longrightarrow> x < boundary (eras s ! Suc i)"
    "last_started s (\<lambda>v. boundary v \<le> x) = Some (Some (eras s ! i))"
proof -
  let ?I = "{i. i < length (eras s) \<and> boundary (eras s ! i) \<le> x}"
  have I: "finite ?I" "0 \<in> ?I" using assms by auto
  define i where "i = Max ?I"
  have "i \<in> ?I" unfolding i_def using I Max_in by blast
  moreover have "x < boundary (eras s ! Suc i)" if "Suc i < length (eras s)"
  proof (rule ccontr)
    assume "\<not> ?thesis"
    with that have "Suc i \<in> ?I" by simp
    then have "Suc i \<le> Max ?I" by (rule Max_ge [OF I(1)])
    then show False by (simp add: i_def)
  qed
  ultimately show thesis using that last_started_nth [OF assms(1)] by auto
qed

lemma none_started:
  assumes "good s" "x < boundary (genesis s)"
  shows "last_started s (\<lambda>v. boundary v \<le> x) = Some None"
  using assms iter_eras [OF good_length [OF assms(1)]]
  by (auto simp: last_started_def eras_def)

end

lemma schedule_ok_follows:
  "schedule_ok sd el s \<Longrightarrow> Suc i < length (eras s) \<Longrightarrow> follows sd el (eras s ! i) (eras s ! Suc i)"
  by (auto simp: schedule_ok_def successively_conv_nth)

lemma follows_first_slot_less:
  "follows sd el v w \<Longrightarrow> 0 < el (ev_parameters v) \<Longrightarrow> ev_first_slot v < ev_first_slot w"
  by (auto simp: follows_def)

lemma lengths_ok_nth: "lengths_ok len s \<Longrightarrow> i < length (eras s) \<Longrightarrow> 0 < len (ev_parameters (eras s ! i))"
  by (simp add: lengths_ok_def list_all_length)

interpretation by_epoch: era_boundary ev_first_epoch "schedule_ok sd el" for sd el
  using schedule_ok_follows by unfold_locales (fastforce simp: schedule_ok_def follows_def)+

interpretation by_slot: era_boundary ev_first_slot "\<lambda>s. schedule_ok sd el s \<and> lengths_ok el s" for sd el
  by unfold_locales
    (simp add: schedule_ok_def, blast intro: follows_first_slot_less schedule_ok_follows lengths_ok_nth Suc_lessD)

interpretation by_time: era_boundary ev_start_time
  "\<lambda>s. schedule_ok sd el s \<and> lengths_ok el s \<and> lengths_ok sd s" for sd el
proof
  fix s :: "'a era_schedule" and i
  assume s: "schedule_ok sd el s \<and> lengths_ok el s \<and> lengths_ok sd s" and i: "Suc i < length (eras s)"
  then have "follows sd el (eras s ! i) (eras s ! Suc i)" "0 < sd (ev_parameters (eras s ! i))"
    "ev_first_slot (eras s ! i) < ev_first_slot (eras s ! Suc i)"
    using by_slot.good_step schedule_ok_follows lengths_ok_nth Suc_lessD by metis+
  then show "ev_start_time (eras s ! i) < ev_start_time (eras s ! Suc i)"
    by (simp add: follows_def)
qed (simp add: schedule_ok_def)

subsection \<open>Conversions\<close>

lemmas located_slot = by_slot.located [OF conjI]
lemmas located_epoch = by_epoch.located
lemmas located_time = by_time.located [OF conjI [OF _ conjI]]

lemma genesis_boundaries [simp]: "ev_first_epoch (genesis s) = 0"
  by (simp add: genesis_def view_def)

lemma schedule_ok_genesis_slot: "schedule_ok sd el s \<Longrightarrow> ev_first_slot (genesis s) = 0"
  by (simp add: schedule_ok_def genesis_def view_def)

lemma at_epoch_nth:
  assumes "schedule_ok sd el s"
  obtains i where "i < length (eras s)" "at_epoch s ep = Some (eras s ! i)"
    "ev_first_epoch (eras s ! i) \<le> ep" "Suc i < length (eras s) \<Longrightarrow> ep < ev_first_epoch (eras s ! Suc i)"
  by (rule located_epoch [OF assms, of ep]) (auto simp: at_epoch_def)

lemma at_slot_nth:
  assumes "schedule_ok sd el s" "lengths_ok el s"
  obtains i where "i < length (eras s)" "at_slot s sl = Some (eras s ! i)"
    "ev_first_slot (eras s ! i) \<le> sl" "Suc i < length (eras s) \<Longrightarrow> sl < ev_first_slot (eras s ! Suc i)"
  by (rule located_slot [OF assms, of sl])
    (use assms in \<open>auto simp: at_slot_def schedule_ok_genesis_slot\<close>)

lemma at_slot_eqI:
  assumes "schedule_ok sd el s" "lengths_ok el s" "i < length (eras s)" "ev_first_slot (eras s ! i) \<le> sl"
    "Suc i < length (eras s) \<Longrightarrow> sl < ev_first_slot (eras s ! Suc i)"
  shows "at_slot s sl = Some (eras s ! i)"
  using by_slot.last_started_nth [of sd el s i sl] assms by (simp add: at_slot_def)

lemma at_epoch_eqI:
  assumes "schedule_ok sd el s" "i < length (eras s)" "ev_first_epoch (eras s ! i) \<le> ep"
    "Suc i < length (eras s) \<Longrightarrow> ep < ev_first_epoch (eras s ! Suc i)"
  shows "at_epoch s ep = Some (eras s ! i)"
  using by_epoch.last_started_nth [of sd el s i ep] assms by (simp add: at_epoch_def)

lemma at_slot_total:
  assumes "length (es_after_genesis s) < 2 ^ 16" "se_first_slot (es_genesis s) = 0"
  shows "\<exists>v \<in> set (eras s). at_slot s sl = Some v"
proof -
  let ?P = "\<lambda>v. ev_first_slot v \<le> sl"
  have ne: "takeWhile ?P (eras s) \<noteq> []"
    using assms(2) by (simp add: eras_def genesis_def view_def)
  then have "last (takeWhile ?P (eras s)) \<in> set (eras s)"
    using last_in_set set_takeWhileD by fast
  then show ?thesis
    using ne iter_eras [OF assms(1)] by (simp add: at_slot_def last_started_def Let_def)
qed

lemma starting_slot_for_epochE:
  assumes "schedule_ok sd el s" "starting_slot_for_epoch el s ep = Some sl"
  obtains i where "i < length (eras s)" "ev_first_epoch (eras s ! i) \<le> ep"
    "Suc i < length (eras s) \<Longrightarrow> ep < ev_first_epoch (eras s ! Suc i)"
    "sl = ev_first_slot (eras s ! i) + (ep - ev_first_epoch (eras s ! i)) * el (ev_parameters (eras s ! i))"
    "sl < 2 ^ 64"
  by (rule at_epoch_nth [OF assms(1), of ep])
    (use assms(2) in \<open>auto simp: starting_slot_for_epoch_def elapsed_epochs_since_era_start_def
       checked_Some_iffs bind_Some_iff\<close>)

lemma epoch_for_slot_eq:
  assumes "schedule_ok sd el s" "lengths_ok el s" "i < length (eras s)" "ev_first_slot (eras s ! i) \<le> sl"
    "Suc i < length (eras s) \<Longrightarrow> sl < ev_first_slot (eras s ! Suc i)"
    "ep = ev_first_epoch (eras s ! i) + (sl - ev_first_slot (eras s ! i)) div el (ev_parameters (eras s ! i))"
    "ep < 2 ^ 32"
  shows "epoch_for_slot el s sl = Some ep"
  using at_slot_eqI [OF assms(1-5)] assms(4,6,7)
  by (simp add: epoch_for_slot_def checked_sub_def checked_add_def try_from_def)

lemma epoch_start_before_next_era:
  assumes "schedule_ok sd el s" "lengths_ok el s" "Suc i < length (eras s)"
    "ev_first_epoch (eras s ! i) \<le> ep" "ep < ev_first_epoch (eras s ! Suc i)"
  shows "ev_first_slot (eras s ! i) + (ep - ev_first_epoch (eras s ! i)) * el (ev_parameters (eras s ! i))
    < ev_first_slot (eras s ! Suc i)"
  using schedule_ok_follows [OF assms(1,3)] lengths_ok_nth [OF assms(2), of i] assms(3-5)
  by (auto simp: follows_def)

subsection \<open>Resolving a schedule\<close>

lemma eras_snoc:
  "eras (s\<lparr>es_after_genesis := es_after_genesis s @ [(fe, e)]\<rparr>) =
   eras s @ [view e (Suc (length (es_after_genesis s))) fe]"
  by (simp add: eras_def genesis_def enumerate_append_eq)

lemma last_eras: "last (eras s) = eras s ! length (es_after_genesis s)"
  by (simp add: last_conv_nth)

lemma ev_era_nth: "i < length (eras s) \<Longrightarrow> ev_era (eras s ! i) = i"
  by (cases i) (simp_all add: genesis_def view_def eras_nth_Suc)

lemma ev_first_epoch_nth_Suc:
  "i < length (es_after_genesis s) \<Longrightarrow> ev_first_epoch (eras s ! Suc i) = fst (es_after_genesis s ! i)"
  by (simp add: eras_nth_Suc view_def)

lemma span_exact: "time_crate_ok tc \<Longrightarrow> span tc d n = Some t \<Longrightarrow> t = int (d * n)"
  by (auto simp: span_def bind_Some_iff checked_mul_def time_crate_ok_def simp del: of_nat_mult split: if_splits)

lemma next_era_start_follows:
  assumes "time_crate_ok tc" "next_era_start tc sd el v fe = Some (fs, st)" "ev_first_epoch v < fe"
  shows "follows sd el v (view \<lparr>se_first_slot = fs, se_start_time = st, se_parameters = p\<rparr> n fe)"
proof -
  let ?n = "(fe - ev_first_epoch v) * el (ev_parameters v)"
  obtain d where "fs = ev_first_slot v + ?n" "ev_first_slot v + ?n < 2 ^ 64"
    "span tc (sd (ev_parameters v)) ?n = Some d" "datetime_checked_add tc (ev_start_time v) d = Some st"
    using assms(2) by (auto simp: next_era_start_def bind_Some_iff checked_Some_iffs)
  then show ?thesis
    using assms(1,3) span_exact [OF assms(1)]
    by (auto simp: follows_def view_def time_crate_ok_def simp del: of_nat_mult)
qed

lemma schedule_ok_snoc:
  assumes "time_crate_ok tc" "schedule_ok sd el s" "length (es_after_genesis s) + 1 < 2 ^ 16"
    "next_era_start tc sd el (last (eras s)) fe = Some (fs, st)" "ev_first_epoch (last (eras s)) < fe"
  shows "schedule_ok sd el (s\<lparr>es_after_genesis := es_after_genesis s @
    [(fe, \<lparr>se_first_slot = fs, se_start_time = st, se_parameters = p\<rparr>)]\<rparr>)"
  using assms next_era_start_follows [OF assms(1,4,5)]
  by (simp add: schedule_ok_def eras_snoc successively_append_iff)

lemma keys_below_last:
  assumes "schedule_ok sd el s" "k \<in> fst ` set (es_after_genesis s)"
  shows "k \<le> ev_first_epoch (last (eras s))"
proof -
  obtain i where "i < length (es_after_genesis s)" "k = fst (es_after_genesis s ! i)"
    using assms(2) by (auto simp: in_set_conv_nth)
  then show ?thesis
    using by_epoch.boundary_mono [OF assms(1), of "Suc i" "length (es_after_genesis s)"]
    by (simp add: last_eras ev_first_epoch_nth_Suc)
qed

lemma last_eras_snoc_epoch:
  "ev_first_epoch (last (eras (s\<lparr>es_after_genesis := es_after_genesis s @ [(fe, e)]\<rparr>))) = fe"
  by (simp add: eras_snoc view_def)

lemma resolve_eras_ok:
  assumes "time_crate_ok tc" "schedule_ok sd el s"
    "length (es_after_genesis s) + length rest < 2 ^ 16"
    "sorted_keys rest" "\<forall>fe \<in> fst ` set rest. ev_first_epoch (last (eras s)) < fe"
  shows "\<exists>r. resolve_eras tc sd el s rest = Some r \<and>
    (\<forall>s'. r = Inr s' \<longrightarrow> schedule_ok sd el s' \<and> entries s' = entries s @ rest \<and> es_genesis s' = es_genesis s)"
  using assms(2-)
proof (induction rest arbitrary: s)
  case (Cons x rest)
  obtain fe p where x: "x = (fe, p)" by (cases x)
  have it: "iter s = Some (eras s)" and era: "ev_era (last (eras s)) = length (es_after_genesis s)"
    using Cons.prems by (auto simp: iter_eras last_eras ev_era_nth)
  show ?case
  proof (cases "next_era_start tc sd el (last (eras s)) fe")
    case None
    then show ?thesis using Cons.prems(2) by (simp add: x it era checked_add_def)
  next
    case (Some y)
    obtain fs st where y: "y = (fs, st)" by (cases y)
    define e where "e = \<lparr>se_first_slot = fs, se_start_time = st, se_parameters = p\<rparr>"
    define s' where "s' = s\<lparr>es_after_genesis := es_after_genesis s @ [(fe, e)]\<rparr>"
    have lt: "ev_first_epoch (last (eras s)) < fe" using Cons.prems(4) by (simp add: x)
    then have ins: "btree_insert fe e (es_after_genesis s) = es_after_genesis s @ [(fe, e)]"
      using keys_below_last [OF Cons.prems(1)] by (intro btree_insert_append) force
    have "schedule_ok sd el s'" unfolding s'_def e_def
      using schedule_ok_snoc [OF assms(1) Cons.prems(1)] Cons.prems(2) Some y lt by simp
    moreover have "\<forall>k \<in> fst ` set rest. ev_first_epoch (last (eras s')) < k"
      using Cons.prems(3) unfolding s'_def last_eras_snoc_epoch by (simp add: x)
    moreover have "length (es_after_genesis s') + length rest < 2 ^ 16" "sorted_keys rest"
      using Cons.prems(2,3) by (simp_all add: s'_def)
    ultimately obtain r where r: "resolve_eras tc sd el s' rest = Some r"
      "\<forall>s''. r = Inr s'' \<longrightarrow> schedule_ok sd el s'' \<and> entries s'' = entries s' @ rest \<and> es_genesis s'' = es_genesis s'"
      using Cons.IH [of s'] by blast
    have step: "resolve_eras tc sd el s (x # rest) = resolve_eras tc sd el s' rest"
      unfolding s'_def e_def
      using Cons.prems(2) by (simp add: x it era checked_add_def Some y ins [unfolded e_def])
    have "entries s' @ rest = entries s @ x # rest" "es_genesis s' = es_genesis s"
      by (simp_all add: entries_def s'_def e_def x)
    then show ?thesis using r step by metis
  qed
qed simp

lemma slot_at_eq:
  assumes "schedule_ok sd el s" "lengths_ok el s" "lengths_ok sd s" "i < length (eras s)"
    "ev_start_time (eras s ! i) \<le> t" "Suc i < length (eras s) \<Longrightarrow> t < ev_start_time (eras s ! Suc i)"
    "sl = ev_first_slot (eras s ! i) + nat (t - ev_start_time (eras s ! i)) div sd (ev_parameters (eras s ! i))"
    "sl < 2 ^ 64"
  shows "slot_at sd s t = Some (Some sl)"
  using by_time.last_started_nth [of sd el s i t] lengths_ok_nth [OF assms(3,4)] assms
  by (simp add: slot_at_def checked_div_def try_from_def checked_add_def Let_def)

lemma time_ofE:
  assumes "schedule_ok sd el s" "lengths_ok el s" "time_crate_ok tc" "time_of tc sd s sl = Some t"
  obtains i where "i < length (eras s)" "ev_first_slot (eras s ! i) \<le> sl"
    "Suc i < length (eras s) \<Longrightarrow> sl < ev_first_slot (eras s ! Suc i)"
    "t = ev_start_time (eras s ! i) + int (sd (ev_parameters (eras s ! i)) * (sl - ev_first_slot (eras s ! i)))"
proof (rule at_slot_nth [OF assms(1,2), of sl])
  fix i assume i: "i < length (eras s)" "at_slot s sl = Some (eras s ! i)"
    "ev_first_slot (eras s ! i) \<le> sl" "Suc i < length (eras s) \<Longrightarrow> sl < ev_first_slot (eras s ! Suc i)"
  then obtain d where "span tc (sd (ev_parameters (eras s ! i))) (sl - ev_first_slot (eras s ! i)) = Some d"
    "datetime_checked_add tc (ev_start_time (eras s ! i)) d = Some t"
    using assms(4) by (auto simp: time_of_def checked_time_of_def elapsed_slots_since_era_start_def
        bind_Some_iff checked_sub_def)
  then show thesis
    using that i assms(3) span_exact [OF assms(3)] by (auto simp: time_crate_ok_def simp del: of_nat_mult)
qed

lemma slot_start_before_next_era:
  assumes "schedule_ok sd el s" "lengths_ok sd s" "Suc i < length (eras s)"
    "ev_first_slot (eras s ! i) \<le> sl" "sl < ev_first_slot (eras s ! Suc i)"
  shows "ev_start_time (eras s ! i) + int (sd (ev_parameters (eras s ! i)) * (sl - ev_first_slot (eras s ! i)))
    < ev_start_time (eras s ! Suc i)"
proof -
  have "sl - ev_first_slot (eras s ! i) < ev_first_slot (eras s ! Suc i) - ev_first_slot (eras s ! i)"
    using assms(4,5) by linarith
  then have "sd (ev_parameters (eras s ! i)) * (sl - ev_first_slot (eras s ! i))
    < sd (ev_parameters (eras s ! i)) * (ev_first_slot (eras s ! Suc i) - ev_first_slot (eras s ! i))"
    using lengths_ok_nth [OF assms(2), of i] assms(3) by (intro mult_strict_left_mono) auto
  then show ?thesis
    using schedule_ok_follows [OF assms(1,3)] by (simp add: follows_def del: of_nat_mult)
qed

lemma in_epoch_bracket:
  assumes "0 < l" "(a::nat) \<le> x"
  shows "a + (x - a) div l * l \<le> x" "x < a + (x - a) div l * l + l"
  using assms div_mod_decomp [of "x - a" l] mod_less_divisor [of l "x - a"] by linarith+

lemma epoch_before_next_era:
  assumes "schedule_ok sd el s" "Suc i < length (eras s)"
    "ev_first_slot (eras s ! i) \<le> sl" "sl < ev_first_slot (eras s ! Suc i)"
  shows "ev_first_epoch (eras s ! i) + (sl - ev_first_slot (eras s ! i)) div el (ev_parameters (eras s ! i))
    < ev_first_epoch (eras s ! Suc i)"
proof -
  have f: "follows sd el (eras s ! i) (eras s ! Suc i)" by (rule schedule_ok_follows [OF assms(1,2)])
  then have "sl - ev_first_slot (eras s ! i)
    < (ev_first_epoch (eras s ! Suc i) - ev_first_epoch (eras s ! i)) * el (ev_parameters (eras s ! i))"
    using assms(3,4) by (auto simp: follows_def)
  then show ?thesis using f less_mult_imp_div_less by (fastforce simp: follows_def)
qed

subsection \<open>Properties\<close>

text \<open>C32: Resolving a schedule (\<^verbatim>\<open>EraSchedule::new\<close>) always returns, for any list of at most
  65535 eras keyed by increasing non-zero epochs. When it returns a schedule, that schedule lists
  exactly the given eras after the given genesis era, every era starting in slots, epochs and time
  exactly where the previous one ends.\<close>

theorem new_schedule_resolves:
  assumes "time_crate_ok tc" "sorted_keys after" "\<forall>fe \<in> fst ` set after. 0 < fe" "length after < 2 ^ 16"
  shows "\<exists>r. new_schedule tc sd el t0 p0 after = Some r \<and>
    (\<forall>s. r = Inr s \<longrightarrow> schedule_ok sd el s \<and> entries s = after \<and>
      es_genesis s = \<lparr>se_first_slot = 0, se_start_time = t0, se_parameters = p0\<rparr>)"
  unfolding new_schedule_def
  using resolve_eras_ok [OF assms(1), of sd el
      "\<lparr>es_genesis = \<lparr>se_first_slot = 0, se_start_time = t0, se_parameters = p0\<rparr>, es_after_genesis = []\<rparr>" after] assms
  by (simp add: schedule_ok_def eras_def entries_def)

text \<open>The first slot of an epoch belongs to that epoch: \<^verbatim>\<open>epoch_for_slot\<close> undoes
  \<^verbatim>\<open>starting_slot_for_epoch\<close>, across era boundaries with different epoch lengths.\<close>

theorem epoch_of_starting_slot:
  assumes "schedule_ok sd el s" "lengths_ok el s" "ep < 2 ^ 32"
    "starting_slot_for_epoch el s ep = Some sl"
  shows "epoch_for_slot el s sl = Some ep"
proof (rule starting_slot_for_epochE [OF assms(1,4)])
  fix i assume i: "i < length (eras s)" "ev_first_epoch (eras s ! i) \<le> ep"
    "Suc i < length (eras s) \<Longrightarrow> ep < ev_first_epoch (eras s ! Suc i)"
    and sl: "sl = ev_first_slot (eras s ! i) + (ep - ev_first_epoch (eras s ! i)) * el (ev_parameters (eras s ! i))"
  show ?thesis
    using epoch_start_before_next_era [OF assms(1,2)] lengths_ok_nth [OF assms(2) i(1)] i assms(3)
    by (intro epoch_for_slot_eq [OF assms(1,2) i(1)]) (auto simp: sl)
qed

text \<open>Every slot lies within its epoch: the epoch \<^verbatim>\<open>epoch_for_slot\<close> gives starts at or before
  the slot, and the slot is less than one epoch length of its era after that start.\<close>

theorem slot_within_epoch:
  assumes "schedule_ok sd el s" "lengths_ok el s" "sl < 2 ^ 64" "epoch_for_slot el s sl = Some ep"
  shows "\<exists>st era. starting_slot_for_epoch el s ep = Some st \<and> at_slot s sl = Some era \<and>
    at_epoch s ep = Some era \<and> st \<le> sl \<and> sl < st + el (ev_parameters era)"
proof (rule at_slot_nth [OF assms(1,2), of sl])
  fix i assume i: "i < length (eras s)" "at_slot s sl = Some (eras s ! i)"
    "ev_first_slot (eras s ! i) \<le> sl" "Suc i < length (eras s) \<Longrightarrow> sl < ev_first_slot (eras s ! Suc i)"
  let ?v = "eras s ! i" let ?l = "el (ev_parameters ?v)"
  have ep: "ep = ev_first_epoch ?v + (sl - ev_first_slot ?v) div ?l"
    using assms(4) i by (auto simp: epoch_for_slot_def checked_Some_iffs bind_Some_iff)
  then have e: "at_epoch s ep = Some ?v"
    using at_epoch_eqI [OF assms(1) i(1)] epoch_before_next_era [OF assms(1) _ i(3)] i(4) by simp
  have b: "ev_first_slot ?v + (sl - ev_first_slot ?v) div ?l * ?l \<le> sl"
    "sl < ev_first_slot ?v + (sl - ev_first_slot ?v) div ?l * ?l + ?l"
    using in_epoch_bracket [OF lengths_ok_nth [OF assms(2) i(1)] i(3)] by auto
  moreover have "starting_slot_for_epoch el s ep = Some (ev_first_slot ?v + (sl - ev_first_slot ?v) div ?l * ?l)"
    using e b(1) assms(3) ep
    by (simp add: starting_slot_for_epoch_def elapsed_epochs_since_era_start_def
        checked_sub_def checked_mul_def checked_add_def)
  ultimately show ?thesis using i(2) e by blast
qed

text \<open>C33: The slot in progress when a slot starts is that slot: \<^verbatim>\<open>slot_at\<close> undoes \<^verbatim>\<open>time_of\<close>,
  across eras with different slot durations.\<close>

theorem slot_at_time_of:
  assumes "schedule_ok sd el s" "lengths_ok el s" "lengths_ok sd s" "time_crate_ok tc" "sl < 2 ^ 64"
    "time_of tc sd s sl = Some t"
  shows "slot_at sd s t = Some (Some sl)"
proof (rule time_ofE [OF assms(1,2,4,6)])
  fix i assume i: "i < length (eras s)" "ev_first_slot (eras s ! i) \<le> sl"
    "Suc i < length (eras s) \<Longrightarrow> sl < ev_first_slot (eras s ! Suc i)"
    and t: "t = ev_start_time (eras s ! i)
      + int (sd (ev_parameters (eras s ! i)) * (sl - ev_first_slot (eras s ! i)))"
  show ?thesis
    using slot_start_before_next_era [OF assms(1,3) _ i(2)] lengths_ok_nth [OF assms(3) i(1)] i assms(5)
    by (intro slot_at_eq [OF assms(1-3) i(1)]) (auto simp: t simp del: of_nat_mult)
qed

subsection \<open>A schedule of two eras\<close>

text \<open>Ten-slot epochs of one-second slots up to epoch 3, then twenty-slot epochs of half-second slots.\<close>

definition i64_time_crate :: time_crate where
  "i64_time_crate =
     \<lparr>duration_try_from = (\<lambda>n. if n div 10 ^ 9 < 2 ^ 63 then Some (int n) else None),
      datetime_checked_add = (\<lambda>t d. if \<bar>t + d\<bar> < 10 ^ 30 then Some (t + d) else None)\<rparr>"

definition two_eras :: "era_timing era_schedule" where
  "two_eras =
     \<lparr>es_genesis = \<lparr>se_first_slot = 0, se_start_time = 7,
        se_parameters = \<lparr>timing_slot_duration = 10 ^ 9, timing_epoch_length = 10\<rparr>\<rparr>,
      es_after_genesis = [(3, \<lparr>se_first_slot = 30, se_start_time = 30 * 10 ^ 9 + 7,
        se_parameters = \<lparr>timing_slot_duration = 5 * 10 ^ 8, timing_epoch_length = 20\<rparr>\<rparr>)]\<rparr>"

lemma i64_time_crate_ok: "time_crate_ok i64_time_crate"
  by (auto simp: time_crate_ok_def i64_time_crate_def)

lemma two_eras_ok:
  "schedule_ok timing_slot_duration timing_epoch_length two_eras"
  "lengths_ok timing_epoch_length two_eras" "lengths_ok timing_slot_duration two_eras"
  by (simp_all add: schedule_ok_def lengths_ok_def eras_def two_eras_def genesis_def view_def follows_def)

lemmas two_eras_eval = two_eras_def iter_def eras_after_genesis_def genesis_def view_def
  last_started_def at_slot_def at_epoch_def elapsed_slots_since_era_start_def
  elapsed_epochs_since_era_start_def starting_slot_for_epoch_def epoch_for_slot_def slot_at_def
  time_of_def checked_time_of_def span_def i64_time_crate_def int_ops

theorem new_schedule_resolves_witness:
  "\<exists>r. new_schedule i64_time_crate timing_slot_duration timing_epoch_length 7
        \<lparr>timing_slot_duration = 10 ^ 9, timing_epoch_length = 10\<rparr>
        [(3, \<lparr>timing_slot_duration = 5 * 10 ^ 8, timing_epoch_length = 20\<rparr>)] = Some r \<and> r = Inr two_eras \<and>
     schedule_ok timing_slot_duration timing_epoch_length two_eras"
proof -
  have "new_schedule i64_time_crate timing_slot_duration timing_epoch_length 7
        \<lparr>timing_slot_duration = 10 ^ 9, timing_epoch_length = 10\<rparr>
        [(3, \<lparr>timing_slot_duration = 5 * 10 ^ 8, timing_epoch_length = 20\<rparr>)] = Some (Inr two_eras)"
    by (simp add: new_schedule_def next_era_start_def two_eras_eval)
  then show ?thesis
    using new_schedule_resolves [OF i64_time_crate_ok,
      of "[(3, \<lparr>timing_slot_duration = 5 * 10 ^ 8, timing_epoch_length = 20\<rparr>)]"
         timing_slot_duration timing_epoch_length 7 "\<lparr>timing_slot_duration = 10 ^ 9, timing_epoch_length = 10\<rparr>"]
    by auto
qed

theorem epoch_of_starting_slot_witness:
  "starting_slot_for_epoch timing_epoch_length two_eras 5 = Some 70 \<and>
   epoch_for_slot timing_epoch_length two_eras 70 = Some 5"
proof -
  have "starting_slot_for_epoch timing_epoch_length two_eras 5 = Some 70"
    by (simp add: two_eras_eval)
  then show ?thesis
    using epoch_of_starting_slot [OF two_eras_ok(1,2), of 5 70] by simp
qed

theorem slot_within_epoch_witness:
  "\<exists>st era. epoch_for_slot timing_epoch_length two_eras 75 = Some 5 \<and>
    starting_slot_for_epoch timing_epoch_length two_eras 5 = Some st \<and>
    at_slot two_eras 75 = Some era \<and> st \<le> 75 \<and> 75 < st + timing_epoch_length (ev_parameters era)"
proof -
  have "epoch_for_slot timing_epoch_length two_eras 75 = Some 5"
    by (simp add: two_eras_eval)
  then show ?thesis
    using slot_within_epoch [OF two_eras_ok(1,2), of 75 5] by auto
qed

theorem slot_at_time_of_witness:
  "time_of i64_time_crate timing_slot_duration two_eras 33 = Some (31500000007) \<and>
   slot_at timing_slot_duration two_eras 31500000007 = Some (Some 33)"
proof -
  have "time_of i64_time_crate timing_slot_duration two_eras 33 = Some (31500000007)"
    by (simp add: two_eras_eval)
  then show ?thesis
    using slot_at_time_of [OF two_eras_ok i64_time_crate_ok, of 33 31500000007] by simp
qed

end
