(* ===== verification/BlockTree.thy ===== *)
theory BlockTree
  imports EraTime
begin

text \<open>
  The block tree of the consensus engine: \<^verbatim>\<open>Branch\<close>, \<^verbatim>\<open>Branches\<close> and the engine's \<^verbatim>\<open>Config\<close> of
  \<^verbatim>\<open>consensus/cryptarchia-engine/src/\<close>.

  The hash map of branches is a map, the hash set of tips a set.  Walks towards the root are
  \<^theory_text>\<open>partial_function (option)\<close>s: on a map with a cycle they would not return.  The order in which
  the hash set of tips is iterated belongs to the \<^verbatim>\<open>rpds\<close> crate and is the argument \<open>iter_tips\<close> of
  every function that iterates them.

  The lemmas build the theory of ancestors on well-formed trees (\<open>tree_ok\<close>), and show that each walk
  returns and what it returns; \<open>lca\<close> is the lowest common ancestor.
\<close>

subsection \<open>Engine configuration\<close>

text \<open>
  The windows that the source computes from the slot activation coefficient in floating point,
  \<^verbatim>\<open>genesis_density_window\<close> and \<^verbatim>\<open>average_slots_for_blocks\<close>, are fields.
\<close>

record config =
  security_param :: nat
  genesis_density_window :: nat
  average_slots_for_blocks :: "nat \<Rightarrow> nat"
  uncle_reference_window_in_block :: nat
  max_uncles :: nat

definition s_gen :: "config \<Rightarrow> nat option" where
  "s_gen c = (if genesis_density_window c = 0 then None else Some (genesis_density_window c))"

definition nonzero_slots_for_blocks :: "config \<Rightarrow> nat \<Rightarrow> nat option" where
  "nonzero_slots_for_blocks c n =
     (if average_slots_for_blocks c n = 0 then None else Some (average_slots_for_blocks c n))"

definition base_period_length :: "config \<Rightarrow> nat option" where
  "base_period_length c = nonzero_slots_for_blocks c (security_param c)"

definition slot_security_param :: "config \<Rightarrow> nat option" where
  "slot_security_param c = map_option (\<lambda>p. saturating_mul 64 p 3) (base_period_length c)"

definition uncle_reference_window_in_slot :: "config \<Rightarrow> nat option" where
  "uncle_reference_window_in_slot c =
     (if uncle_reference_window_in_block c = 0 then Some 0
      else nonzero_slots_for_blocks c (uncle_reference_window_in_block c))"

definition max_allowed_uncle_reference_window_in_block :: "nat \<Rightarrow> nat option" where
  "max_allowed_uncle_reference_window_in_block k = try_from 32 (k * 6 div 10)"

definition expected_blocks_per_epoch :: "nat \<Rightarrow> nat \<Rightarrow> nat \<Rightarrow> nat option" where
  "expected_blocks_per_epoch epoch_length numerator denominator =
     (let blocks = epoch_length * numerator div denominator;
          blocks = (if 2 ^ 64 - 1 < blocks then 2 ^ 64 - 1 else blocks)
      in if blocks = 0 then None else Some blocks)"

subsection \<open>Branches\<close>

record 'id branch =
  b_id :: 'id
  b_parent :: 'id
  b_slot :: slot
  b_length :: nat
  b_uncle_slots :: "slot list"

record 'id branches =
  br_branches :: "'id \<rightharpoonup> 'id branch"
  br_tips :: "'id set"
  br_lib :: 'id

datatype 'id engine_error = ParentMissing 'id | OrphanMissing 'id | InvalidSlot 'id

definition branches_from_lib :: "'id \<Rightarrow> 'id \<Rightarrow> slot \<Rightarrow> nat \<Rightarrow> slot list \<Rightarrow> 'id branches" where
  "branches_from_lib lib lib_parent sl len uncle_slots =
     \<lparr>br_branches = [lib \<mapsto> \<lparr>b_id = lib, b_parent = lib_parent, b_slot = sl, b_length = len,
                             b_uncle_slots = uncle_slots\<rparr>],
      br_tips = {lib}, br_lib = lib\<rparr>"

definition apply_header ::
  "'id branches \<Rightarrow> 'id \<Rightarrow> 'id \<Rightarrow> slot \<Rightarrow> slot list \<Rightarrow> ('id engine_error + 'id branches) option" where
  "apply_header br header parent sl uncle_slots =
     (case br_branches br parent of
        None \<Rightarrow> Some (Inl (ParentMissing parent))
      | Some parent_branch \<Rightarrow>
          if b_slot parent_branch > sl then Some (Inl (InvalidSlot parent))
          else do { len \<leftarrow> checked_add 64 (b_length parent_branch) 1;
                    Some (Inr (br\<lparr>br_tips := insert header (br_tips br - {parent}),
                                  br_branches := (br_branches br)(header \<mapsto>
                                    \<lparr>b_id = header, b_parent = parent, b_slot = sl, b_length = len,
                                     b_uncle_slots = uncle_slots\<rparr>)\<rparr>)) })"

text \<open>\<^verbatim>\<open>Branches::branches\<close>: the blocks of the tips, in iteration order; indexing panics on a tip outside the map.\<close>

definition tip_branches :: "('id set \<Rightarrow> 'id list) \<Rightarrow> 'id branches \<Rightarrow> 'id branch list option" where
  "tip_branches iter_tips br = those (map (br_branches br) (iter_tips (br_tips br)))"

definition parent :: "'id branches \<Rightarrow> 'id branch \<Rightarrow> 'id branch option" where
  "parent br b = (if b_parent b = b_id b then None else br_branches br (b_parent b))"

text \<open>The loops of \<^verbatim>\<open>lca\<close>; the inner \<^term>\<open>None\<close> is its early return by \<^verbatim>\<open>?\<close>.\<close>

partial_function (option) lower_to ::
  "'id branches \<Rightarrow> 'id branch \<Rightarrow> nat \<Rightarrow> 'id branch option option" where
  "lower_to br b len =
     (if b_length b > len
      then (case parent br b of None \<Rightarrow> Some None | Some p \<Rightarrow> lower_to br p len)
      else Some (Some b))"

partial_function (option) walk_to_common ::
  "'id branches \<Rightarrow> 'id branch \<Rightarrow> 'id branch \<Rightarrow> 'id branch option option" where
  "walk_to_common br b1 b2 =
     (if b_id b1 \<noteq> b_id b2
      then (case parent br b1 of
              None \<Rightarrow> Some None
            | Some p1 \<Rightarrow> (case parent br b2 of
                            None \<Rightarrow> Some None
                          | Some p2 \<Rightarrow> walk_to_common br p1 p2))
      else Some (Some b1))"

definition lca :: "'id branches \<Rightarrow> 'id branch \<Rightarrow> 'id branch \<Rightarrow> 'id branch option option" where
  "lca br b1 b2 =
     do { r1 \<leftarrow> lower_to br b1 (b_length b2);
          case r1 of
            None \<Rightarrow> Some None
          | Some b1 \<Rightarrow>
              do { r2 \<leftarrow> lower_to br b2 (b_length b1);
                   case r2 of None \<Rightarrow> Some None | Some b2 \<Rightarrow> walk_to_common br b1 b2 } }"

partial_function (option) walk_back_before ::
  "'id branches \<Rightarrow> 'id branch \<Rightarrow> slot \<Rightarrow> 'id branch option" where
  "walk_back_before br current sl =
     (if b_slot current > sl
      then (case parent br current of None \<Rightarrow> Some current | Some p \<Rightarrow> walk_back_before br p sl)
      else Some current)"

partial_function (option) walk_back_to_block ::
  "'id branches \<Rightarrow> 'id branch option \<Rightarrow> 'id \<Rightarrow> 'id list option" where
  "walk_back_to_block br current target_exclusive =
     (case current of
        None \<Rightarrow> Some []
      | Some b \<Rightarrow>
          if b_id b = target_exclusive then Some []
          else do { rest \<leftarrow> walk_back_to_block br (parent br b) target_exclusive;
                    Some (b_id b # rest) })"

partial_function (option) tip_to_lib_blocks ::
  "'id branches \<Rightarrow> 'id branch \<Rightarrow> 'id branch list option" where
  "tip_to_lib_blocks br block =
     (case (if b_id block = br_lib br then None else parent br block) of
        None \<Rightarrow> Some [block]
      | Some p \<Rightarrow> do { rest \<leftarrow> tip_to_lib_blocks br p; Some (block # rest) })"

definition lib_to_tip_blocks :: "'id branches \<Rightarrow> 'id branch \<Rightarrow> 'id branch list option" where
  "lib_to_tip_blocks br tip = map_option rev (tip_to_lib_blocks br tip)"

partial_function (option) ancestors_newer_than ::
  "'id branches \<Rightarrow> 'id branch option \<Rightarrow> slot \<Rightarrow> 'id branch list option" where
  "ancestors_newer_than br current oldest_slot =
     (case current of
        None \<Rightarrow> Some []
      | Some b \<Rightarrow>
          if b_slot b \<le> oldest_slot then Some []
          else do { rest \<leftarrow> ancestors_newer_than br (parent br b) oldest_slot; Some (b # rest) })"

subsection \<open>Well-formed trees\<close>

definition in_tree :: "'id branches \<Rightarrow> 'id branch \<Rightarrow> bool" where
  "in_tree br b \<longleftrightarrow> br_branches br (b_id b) = Some b"

text \<open>
  The LIB is the oldest block of the tree: its parent is itself (genesis) or outside.  Every other
  block has its parent in the tree, one shorter and not newer.
\<close>

definition tree_ok :: "'id branches \<Rightarrow> bool" where
  "tree_ok br \<longleftrightarrow>
     finite (dom (br_branches br)) \<and> br_lib br \<in> dom (br_branches br) \<and>
     (\<forall>i b. br_branches br i = Some b \<longrightarrow> b_id b = i) \<and>
     (\<forall>i b. br_branches br i = Some b \<longrightarrow> i \<noteq> br_lib br \<longrightarrow>
        (\<exists>p. br_branches br (b_parent b) = Some p \<and> b_length b = Suc (b_length p) \<and> b_slot p \<le> b_slot b)) \<and>
     (\<forall>b. br_branches br (br_lib br) = Some b \<longrightarrow> b_parent b = br_lib br \<or> b_parent b \<notin> dom (br_branches br))"

definition lib_block :: "'id branches \<Rightarrow> 'id branch" where
  "lib_block br = the (br_branches br (br_lib br))"

text \<open>\<open>ancestor br a b\<close>: walking back from \<open>b\<close> reaches \<open>a\<close>; a block is its own ancestor.\<close>

inductive ancestor :: "'id branches \<Rightarrow> 'id branch \<Rightarrow> 'id branch \<Rightarrow> bool" for br where
  ancestor_refl: "ancestor br b b"
| ancestor_step: "parent br b = Some p \<Longrightarrow> ancestor br a p \<Longrightarrow> ancestor br a b"

definition is_lca :: "'id branches \<Rightarrow> 'id branch \<Rightarrow> 'id branch \<Rightarrow> 'id branch \<Rightarrow> bool" where
  "is_lca br b1 b2 c \<longleftrightarrow>
     ancestor br c b1 \<and> ancestor br c b2 \<and> (\<forall>d. ancestor br d b1 \<longrightarrow> ancestor br d b2 \<longrightarrow> ancestor br d c)"

text \<open>The tips are the blocks of the tree that no other block names as its parent.\<close>

definition tips_ok :: "'id branches \<Rightarrow> bool" where
  "tips_ok br \<longleftrightarrow>
     br_tips br = {i \<in> dom (br_branches br). \<forall>c b. br_branches br c = Some b \<longrightarrow> b_parent b = i \<longrightarrow> c = i}"

text \<open>
  A new block has an identifier that is not in use: block identifiers are hashes that include the
  parent's identifier, and the service refuses a block it has already applied.
\<close>

definition fresh_block :: "'id branches \<Rightarrow> 'id \<Rightarrow> bool" where
  "fresh_block br i \<longleftrightarrow> i \<notin> dom (br_branches br) \<and> i \<noteq> b_parent (lib_block br)"

named_theorems tree_facts \<open>facts about well-formed trees used by every walk\<close>

inductive_cases ancestorE: "ancestor br a b"

lemma tree_okI:
  assumes "finite (dom (br_branches br))" "br_branches br (br_lib br) = Some l"
    "\<And>i b. br_branches br i = Some b \<Longrightarrow> b_id b = i"
    "\<And>i b. br_branches br i = Some b \<Longrightarrow> i \<noteq> br_lib br \<Longrightarrow>
       \<exists>p. br_branches br (b_parent b) = Some p \<and> b_length b = Suc (b_length p) \<and> b_slot p \<le> b_slot b"
    "b_parent l = br_lib br \<or> br_branches br (b_parent l) = None"
  shows "tree_ok br"
  unfolding tree_ok_def using assms by (intro conjI allI impI) auto

lemma in_tree_lookup: "tree_ok br \<Longrightarrow> br_branches br i = Some b \<Longrightarrow> in_tree br b \<and> b_id b = i"
  by (auto simp: tree_ok_def in_tree_def)

lemma in_tree_lib [tree_facts]: "tree_ok br \<Longrightarrow> in_tree br (lib_block br)"
  and b_id_lib [simp]: "tree_ok br \<Longrightarrow> b_id (lib_block br) = br_lib br"
  by (auto simp: tree_ok_def in_tree_def lib_block_def)

lemma in_tree_id_eq: "in_tree br a \<Longrightarrow> in_tree br b \<Longrightarrow> b_id a = b_id b \<Longrightarrow> a = b"
  by (simp add: in_tree_def)

lemma in_tree_lib_iff: "tree_ok br \<Longrightarrow> in_tree br b \<Longrightarrow> b_id b = br_lib br \<longleftrightarrow> b = lib_block br"
  using in_tree_id_eq in_tree_lib b_id_lib by metis

lemma parent_in_tree [tree_facts]: "tree_ok br \<Longrightarrow> parent br b = Some p \<Longrightarrow> in_tree br p"
  by (auto simp: parent_def in_tree_lookup split: if_splits)

lemma parent_id: "tree_ok br \<Longrightarrow> parent br b = Some p \<Longrightarrow> b_id p = b_parent b"
  by (auto simp: parent_def in_tree_lookup split: if_splits)

lemma parent_not_self: "parent br b = Some p \<Longrightarrow> b_parent b \<noteq> b_id b"
  by (auto simp: parent_def)

lemma parent_lib [simp]: "tree_ok br \<Longrightarrow> parent br (lib_block br) = None"
  by (auto simp: parent_def tree_ok_def lib_block_def)

lemma parent_Some_iff_not_lib:
  assumes "tree_ok br" "in_tree br b"
  shows "parent br b = None \<longleftrightarrow> b = lib_block br"
proof
  assume none: "parent br b = None"
  show "b = lib_block br"
  proof (rule ccontr)
    assume "b \<noteq> lib_block br"
    then have "b_id b \<noteq> br_lib br" using in_tree_lib_iff assms by blast
    then obtain p where "br_branches br (b_parent b) = Some p" "b_length b = Suc (b_length p)"
      using assms unfolding tree_ok_def in_tree_def by blast
    then show False using none assms(2) by (auto simp: parent_def in_tree_def split: if_splits)
  qed
qed (use assms in simp)

lemma parent_length:
  assumes "tree_ok br" "in_tree br b" "parent br b = Some p"
  shows "b_length b = Suc (b_length p)" "b_slot p \<le> b_slot b"
proof -
  have "b_id b \<noteq> br_lib br" using assms in_tree_lib_iff parent_lib by fastforce
  then obtain q where "br_branches br (b_parent b) = Some q" "b_length b = Suc (b_length q)" "b_slot q \<le> b_slot b"
    using assms unfolding tree_ok_def in_tree_def by blast
  with assms(3) show "b_length b = Suc (b_length p)" "b_slot p \<le> b_slot b"
    by (auto simp: parent_def split: if_splits)
qed

text \<open>Induction along the parents of a block of the tree.\<close>

lemma tree_induct [consumes 2, case_names lib step]:
  assumes "tree_ok br" "in_tree br b"
    and lib: "P (lib_block br)"
    and step: "\<And>b p. in_tree br b \<Longrightarrow> parent br b = Some p \<Longrightarrow> in_tree br p \<Longrightarrow> P p \<Longrightarrow> P b"
  shows "P b"
  using assms(2)
proof (induction "b_length b" arbitrary: b rule: less_induct)
  case less
  show ?case
  proof (cases "parent br b")
    case None
    then show ?thesis using parent_Some_iff_not_lib assms(1) less.prems lib by metis
  next
    case (Some p)
    have "in_tree br p" by (rule parent_in_tree [OF assms(1) Some])
    moreover have "b_length p < b_length b" using parent_length [OF assms(1) less.prems Some] by simp
    ultimately show ?thesis using step [OF less.prems Some] less.hyps by blast
  qed
qed

subsection \<open>Ancestors\<close>

lemma ancestor_in_tree [tree_facts]: "ancestor br a b \<Longrightarrow> tree_ok br \<Longrightarrow> in_tree br b \<Longrightarrow> in_tree br a"
  by (induction rule: ancestor.induct) (auto intro: parent_in_tree)

lemma ancestor_trans: "ancestor br b c \<Longrightarrow> ancestor br a b \<Longrightarrow> ancestor br a c"
  by (induction rule: ancestor.induct) (auto intro: ancestor.intros)

lemma lib_ancestor [tree_facts]: "tree_ok br \<Longrightarrow> in_tree br b \<Longrightarrow> ancestor br (lib_block br) b"
  by (induction rule: tree_induct) (auto intro: ancestor.intros)

lemma ancestor_length_slot:
  "ancestor br a b \<Longrightarrow> tree_ok br \<Longrightarrow> in_tree br b \<Longrightarrow>
   (a = b \<or> b_length a < b_length b) \<and> b_slot a \<le> b_slot b"
proof (induction rule: ancestor.induct)
  case (ancestor_step b p a)
  then show ?case
    using parent_length [OF ancestor_step(4,5,1)] parent_in_tree [OF ancestor_step(4,1)] by fastforce
qed simp

lemma ancestor_length: "ancestor br a b \<Longrightarrow> tree_ok br \<Longrightarrow> in_tree br b \<Longrightarrow> b_length a \<le> b_length b"
  using ancestor_length_slot by fastforce

lemma ancestor_same_length:
  "ancestor br a b \<Longrightarrow> tree_ok br \<Longrightarrow> in_tree br b \<Longrightarrow> b_length b \<le> b_length a \<Longrightarrow> a = b"
  using ancestor_length_slot by fastforce

lemma ancestor_parent:
  "ancestor br a b \<Longrightarrow> a \<noteq> b \<Longrightarrow> \<exists>p. parent br b = Some p \<and> ancestor br a p"
  by (erule ancestorE) auto

lemma ancestors_linear:
  assumes "ancestor br a c" "ancestor br b c" "tree_ok br" "in_tree br c" "b_length a \<le> b_length b"
  shows "ancestor br a b"
  using assms
proof (induction rule: ancestor.induct)
  case (ancestor_refl c)
  then show ?case using ancestor_same_length ancestor.ancestor_refl by metis
next
  case (ancestor_step c p a)
  show ?case
  proof (cases "b = c")
    case True
    then show ?thesis using ancestor_step by (auto intro: ancestor.intros)
  next
    case False
    then have "ancestor br b p" using ancestor_parent [OF ancestor_step(4)] ancestor_step(1) by auto
    then show ?thesis using ancestor_step parent_in_tree by blast
  qed
qed

lemma ancestor_antisym:
  "ancestor br a b \<Longrightarrow> ancestor br b a \<Longrightarrow> tree_ok br \<Longrightarrow> in_tree br b \<Longrightarrow> a = b"
  using ancestor_length ancestor_same_length ancestor_in_tree by metis

lemma ancestor_of_length:
  assumes "tree_ok br" "in_tree br b" "b_length (lib_block br) \<le> n" "n \<le> b_length b"
  obtains a where "ancestor br a b" "b_length a = n"
proof -
  have "\<exists>a. ancestor br a b \<and> b_length a = n"
    using assms
  proof (induction rule: tree_induct)
    case (step b p)
    show ?case
    proof (cases "n = b_length b")
      case False
      then have "n \<le> b_length p" using step(6) parent_length [OF assms(1) step(1,2)] by simp
      then show ?thesis using step ancestor_step by metis
    qed (use ancestor_refl in blast)
  qed (use ancestor_refl in force)
  then show thesis using that by blast
qed

subsection \<open>Walks\<close>

lemma lower_to_returns:
  assumes "tree_ok br" "in_tree br b" "b_length (lib_block br) \<le> n"
  shows "\<exists>a. lower_to br b n = Some (Some a) \<and> ancestor br a b \<and> b_length a = min n (b_length b)"
  using assms(1,2)
proof (induction rule: tree_induct)
  case lib
  then show ?case using assms(3) ancestor_refl by (fastforce simp: lower_to.simps)
next
  case (step b p)
  show ?case
  proof (cases "b_length b > n")
    case True
    then have "min n (b_length p) = min n (b_length b)"
      using parent_length [OF assms(1) step(1,2)] by simp
    then show ?thesis
      using True step lower_to.simps [of br b n] ancestor_step [OF step(2)] by auto
  next
    case False
    then show ?thesis using ancestor_refl by (auto simp: lower_to.simps [of br b n])
  qed
qed

lemma is_lca_refl: "is_lca br b b b"
  by (simp add: is_lca_def ancestor_refl)

lemma is_lca_sym: "is_lca br b1 b2 c \<Longrightarrow> is_lca br b2 b1 c"
  by (auto simp: is_lca_def)

text \<open>Replacing a branch by an ancestor that is not shorter than the other branch keeps the lowest common ancestor.\<close>

lemma is_lca_lower:
  assumes "tree_ok br" "in_tree br b1" "in_tree br b2" "ancestor br a b1"
    "b_length b2 \<le> b_length a" "is_lca br a b2 c"
  shows "is_lca br b1 b2 c"
proof -
  have "ancestor br d a" if "ancestor br d b1" "ancestor br d b2" for d
    using ancestors_linear [OF that(1) assms(4,1,2)] ancestor_length [OF that(2) assms(1,3)] assms(5) by linarith
  then show ?thesis using assms(4,6) ancestor_trans unfolding is_lca_def by blast
qed

lemma is_lca_parents:
  assumes "tree_ok br" "in_tree br b1" "in_tree br b2" "b1 \<noteq> b2" "b_length b1 = b_length b2"
    "parent br b1 = Some p1" "parent br b2 = Some p2" "is_lca br p1 p2 c"
  shows "is_lca br b1 b2 c"
proof -
  have "ancestor br d p1 \<and> ancestor br d p2" if d: "ancestor br d b1" "ancestor br d b2" for d
  proof -
    have "d \<noteq> b1" "d \<noteq> b2"
      using ancestor_same_length [OF _ assms(1)] d assms(2-5) by (metis le_refl)+
    then show ?thesis using ancestor_parent d assms(6,7) by fastforce
  qed
  then show ?thesis using assms(6-8) ancestor_step unfolding is_lca_def by metis
qed

lemma walk_to_common_returns:
  assumes "tree_ok br" "in_tree br b1" "in_tree br b2" "b_length b1 = b_length b2"
  shows "\<exists>c. walk_to_common br b1 b2 = Some (Some c) \<and> is_lca br b1 b2 c"
  using assms
proof (induction arbitrary: b2 rule: tree_induct)
  case lib
  then have "b2 = lib_block br"
    using ancestor_same_length [OF lib_ancestor [OF assms(1)] assms(1)] by fastforce
  then show ?case using is_lca_refl by (auto simp: walk_to_common.simps)
next
  case (step b1 p1)
  show ?case
  proof (cases "b1 = b2")
    case True
    then show ?thesis using is_lca_refl by (auto simp: walk_to_common.simps)
  next
    case False
    then have ids: "b_id b1 \<noteq> b_id b2" using in_tree_id_eq step by blast
    have "b2 \<noteq> lib_block br"
      using step(6) parent_length [OF assms(1) step(1,2)] ancestor_length [OF lib_ancestor [OF assms(1) step(3)] assms(1) step(3)]
      by auto
    then obtain p2 where p2: "parent br b2 = Some p2"
      using parent_Some_iff_not_lib [OF assms(1) step(5)] by auto
    have "in_tree br p2" "b_length p1 = b_length p2"
      using parent_in_tree [OF assms(1) p2] parent_length [OF assms(1) step(1,2)]
        parent_length [OF assms(1) step(5) p2] step(6) by auto
    then obtain c where "walk_to_common br p1 p2 = Some (Some c)" "is_lca br p1 p2 c"
      using step.IH by blast
    then show ?thesis
      using is_lca_parents [OF assms(1) step(1,5) False step(6) step(2) p2] ids step(2) p2
      by (simp add: walk_to_common.simps [of br b1 b2])
  qed
qed

lemma lib_length_le: "tree_ok br \<Longrightarrow> in_tree br b \<Longrightarrow> b_length (lib_block br) \<le> b_length b"
  using lib_ancestor ancestor_length by blast

lemma lca_returns:
  assumes "tree_ok br" "in_tree br b1" "in_tree br b2"
  shows "\<exists>c. lca br b1 b2 = Some (Some c) \<and> is_lca br b1 b2 c"
proof -
  note le = lib_length_le [OF assms(1)]
  obtain a1 where a1: "lower_to br b1 (b_length b2) = Some (Some a1)" "ancestor br a1 b1"
    "b_length a1 = min (b_length b2) (b_length b1)"
    using lower_to_returns [OF assms(1,2) le [OF assms(3)]] by blast
  have t1: "in_tree br a1" using ancestor_in_tree [OF a1(2) assms(1,2)] .
  obtain a2 where a2: "lower_to br b2 (b_length a1) = Some (Some a2)" "ancestor br a2 b2"
    "b_length a2 = min (b_length a1) (b_length b2)"
    using lower_to_returns [OF assms(1,3) le [OF t1]] by blast
  have t2: "in_tree br a2" using ancestor_in_tree [OF a2(2) assms(1,3)] .
  have "b_length a1 = b_length a2" using a1(3) a2(3) by simp
  then obtain c where c: "walk_to_common br a1 a2 = Some (Some c)" "is_lca br a1 a2 c"
    using walk_to_common_returns [OF assms(1) t1 t2] by blast
  have "is_lca br a1 b2 c"
    using is_lca_lower [OF assms(1) assms(3) t1 a2(2) _ is_lca_sym [OF c(2)]] a1(3) a2(3) is_lca_sym by force
  moreover have "is_lca br b1 b2 c"
  proof (cases "b_length b2 \<le> b_length b1")
    case True
    then show ?thesis using is_lca_lower [OF assms a1(2) _ calculation] a1(3) by simp
  next
    case False
    then have "a1 = b1" using ancestor_same_length [OF a1(2) assms(1,2)] a1(3) by simp
    then show ?thesis using calculation by simp
  qed
  ultimately show ?thesis using a1(1) a2(1) c(1) by (simp add: lca_def)
qed

lemma walk_back_before_returns:
  assumes "tree_ok br" "in_tree br b"
  shows "\<exists>c. walk_back_before br b sl = Some c \<and> ancestor br c b \<and> (b_slot c \<le> sl \<or> c = lib_block br) \<and>
    (\<forall>d. ancestor br d b \<longrightarrow> ancestor br c d \<longrightarrow> d \<noteq> c \<longrightarrow> sl < b_slot d)"
  using assms
proof (induction rule: tree_induct)
  case lib
  show ?case
    using assms(1) ancestor_refl ancestor_antisym [OF _ _ assms(1) in_tree_lib [OF assms(1)]]
    by (auto simp: walk_back_before.simps [of br "lib_block br"])
next
  case (step b p)
  show ?case
  proof (cases "sl < b_slot b")
    case True
    obtain c where c: "walk_back_before br p sl = Some c" "ancestor br c p" "b_slot c \<le> sl \<or> c = lib_block br"
      "\<And>d. ancestor br d p \<Longrightarrow> ancestor br c d \<Longrightarrow> d \<noteq> c \<Longrightarrow> sl < b_slot d"
      using step.IH by blast
    have "sl < b_slot d" if "ancestor br d b" "ancestor br c d" "d \<noteq> c" for d
      using that True c(4) ancestor_parent [OF that(1)] step(2) by fastforce
    then show ?thesis
      using True c step(2) ancestor_step [OF step(2)] by (simp add: walk_back_before.simps [of br b])
  next
    case False
    then show ?thesis
      using ancestor_refl ancestor_antisym [OF _ _ assms(1) step(1)]
      by (fastforce simp: walk_back_before.simps [of br b])
  qed
qed

lemma tip_to_lib_blocks_returns:
  assumes "tree_ok br" "in_tree br b"
  shows "\<exists>xs. tip_to_lib_blocks br b = Some (b # xs) \<and> set (b # xs) = {a. ancestor br a b}"
  using assms
proof (induction rule: tree_induct)
  case lib
  then show ?case
    using assms(1) ancestor_refl ancestor_parent [of br _ "lib_block br"]
    by (auto simp: tip_to_lib_blocks.simps [of br "lib_block br"])
next
  case (step b p)
  then obtain xs where "tip_to_lib_blocks br p = Some (p # xs)" "set (p # xs) = {a. ancestor br a p}"
    by blast
  moreover have "{a. ancestor br a b} = insert b {a. ancestor br a p}"
    using step(2) ancestor_parent ancestor.intros by fastforce
  moreover have "b_id b \<noteq> br_lib br"
    using in_tree_lib_iff [OF assms(1) step(1)] step(2) assms(1) by auto
  ultimately show ?case using step(2) by (simp add: tip_to_lib_blocks.simps [of br b])
qed

lemma tip_to_lib_blocks_set:
  assumes "tree_ok br" "in_tree br b" "tip_to_lib_blocks br b = Some xs"
  shows "set xs = {a. ancestor br a b}"
proof -
  obtain ys where "tip_to_lib_blocks br b = Some (b # ys)" "set (b # ys) = {a. ancestor br a b}"
    using tip_to_lib_blocks_returns [OF assms(1,2)] by blast
  with assms(3) show ?thesis by simp
qed

text \<open>
  Walking back from \<open>b\<close> to an ancestor \<open>a\<close> gives the blocks of the chain of \<open>b\<close> above \<open>a\<close>, and what is
  left of the chain is the chain of \<open>a\<close>.
\<close>

lemma walk_back_to_block_splits:
  assumes "tree_ok br" "in_tree br b" "ancestor br a b"
  shows "\<exists>ys zs. walk_back_to_block br (Some b) (b_id a) = Some (map b_id ys) \<and>
    tip_to_lib_blocks br a = Some zs \<and> tip_to_lib_blocks br b = Some (ys @ zs) \<and>
    set ys = {x. ancestor br x b \<and> \<not> ancestor br x a}"
  using assms
proof (induction rule: tree_induct)
  case lib
  then have a: "a = lib_block br" using ancestor_parent [OF lib(1)] assms(1) by fastforce
  obtain zs where "tip_to_lib_blocks br a = Some zs"
    using tip_to_lib_blocks_returns [OF assms(1) in_tree_lib [OF assms(1)]] a by blast
  then show ?case using a by (auto simp: walk_back_to_block.simps)
next
  case (step b p)
  have ta: "in_tree br a" using ancestor_in_tree [OF step(5) assms(1) step(1)] .
  show ?case
  proof (cases "a = b")
    case True
    obtain zs where "tip_to_lib_blocks br a = Some zs"
      using tip_to_lib_blocks_returns [OF assms(1) ta] by blast
    then show ?thesis using True by (auto simp: walk_back_to_block.simps)
  next
    case False
    then have ap: "ancestor br a p" using ancestor_parent [OF step(5)] step(2) by auto
    then obtain ys zs where IH: "walk_back_to_block br (Some p) (b_id a) = Some (map b_id ys)"
      "tip_to_lib_blocks br a = Some zs" "tip_to_lib_blocks br p = Some (ys @ zs)"
      "set ys = {x. ancestor br x p \<and> \<not> ancestor br x a}"
      using step.IH by blast
    have "\<not> ancestor br b a"
      using ancestor_antisym [OF _ step(5) assms(1) ta] False by blast
    then have "set (b # ys) = {x. ancestor br x b \<and> \<not> ancestor br x a}"
      using IH(4) ancestor_parent [of br _ b] step(2) ancestor.intros by fastforce
    moreover have "walk_back_to_block br (Some b) (b_id a) = Some (map b_id (b # ys))"
      using IH(1) step(2) in_tree_id_eq [OF step(1) ta] False
      by (auto simp: walk_back_to_block.simps [of br "Some b"])
    moreover have "tip_to_lib_blocks br b = Some ((b # ys) @ zs)"
      using IH(3) step(2) in_tree_lib_iff [OF assms(1) step(1)] assms(1)
      by (auto simp: tip_to_lib_blocks.simps [of br b])
    ultimately show ?thesis using IH(2) by blast
  qed
qed

subsection \<open>Tips\<close>

lemma parent_of_child:
  assumes "tree_ok br" "in_tree br c" "b_parent c \<noteq> b_id c" "in_tree br b" "b_parent c = b_id b"
  shows "parent br c = Some b"
  using assms by (simp add: parent_def in_tree_def)

lemma tip_above:
  assumes "tree_ok br" "tips_ok br" "in_tree br x"
  obtains t where "in_tree br t" "b_id t \<in> br_tips br" "ancestor br x t"
proof -
  let ?D = "{t. in_tree br t \<and> ancestor br x t}"
  have "?D \<subseteq> ran (br_branches br)" by (auto simp: in_tree_def ran_def)
  then have fin: "finite ?D" using assms(1) finite_ran finite_subset unfolding tree_ok_def by blast
  have "x \<in> ?D" using assms(3) ancestor_refl by blast
  then have "Max (b_length ` ?D) \<in> b_length ` ?D" by (intro Max_in) (use fin in auto)
  then obtain t where t: "t \<in> ?D" and m: "b_length t = Max (b_length ` ?D)" by auto
  have max: "b_length u \<le> b_length t" if "u \<in> ?D" for u
    unfolding m using fin that by (intro Max_ge) auto
  have "c = b_id t" if c: "br_branches br c = Some b" "b_parent b = b_id t" for c b
  proof (rule ccontr)
    assume "c \<noteq> b_id t"
    have b: "in_tree br b" "b_id b = c" using in_tree_lookup [OF assms(1) c(1)] by auto
    then have p: "parent br b = Some t"
      using parent_of_child [OF assms(1) b(1)] t c(2) \<open>c \<noteq> b_id t\<close> by simp
    then have "b \<in> ?D" using b t ancestor_step by blast
    then show False using max parent_length(1) [OF assms(1) b(1) p] by fastforce
  qed
  then have "b_id t \<in> br_tips br"
    using assms(2) t unfolding tips_ok_def in_tree_def by blast
  then show thesis using that t by blast
qed

lemma tip_no_descendant:
  assumes "tree_ok br" "tips_ok br" "in_tree br t" "b_id t \<in> br_tips br" "in_tree br b" "ancestor br t b"
  shows "b = t"
  using assms(5,6)
proof (induction "b_length b" arbitrary: b rule: less_induct)
  case less
  show ?case
  proof (rule ccontr)
    assume "b \<noteq> t"
    then obtain p where p: "parent br b = Some p" "ancestor br t p"
      using ancestor_parent [OF less.prems(2)] by blast
    then have "p = t"
      using less.hyps parent_length [OF assms(1) less.prems(1)] parent_in_tree [OF assms(1)] by simp
    then have "b_parent b = b_id t" "b_parent b \<noteq> b_id b"
      using parent_id [OF assms(1) p(1)] parent_not_self [OF p(1)] by simp_all
    moreover have "\<forall>c b. br_branches br c = Some b \<longrightarrow> b_parent b = b_id t \<longrightarrow> c = b_id t"
      using assms(2,4) unfolding tips_ok_def by blast
    ultimately show False using less.prems(1) unfolding in_tree_def by metis
  qed
qed

subsection \<open>Growing and cutting the tree\<close>

lemma ancestor_cong:
  assumes "\<And>b. in_tree br b \<Longrightarrow> parent br' b = parent br b" "tree_ok br" "in_tree br b"
  shows "ancestor br' a b \<longleftrightarrow> ancestor br a b"
proof
  assume "ancestor br' a b"
  then show "ancestor br a b" using assms(3)
  proof (induction rule: ancestor.induct)
    case (ancestor_step b p a)
    then show ?case using assms(1,2) parent_in_tree by (metis ancestor.ancestor_step)
  qed (rule ancestor.ancestor_refl)
next
  assume "ancestor br a b"
  then show "ancestor br' a b" using assms(3)
  proof (induction rule: ancestor.induct)
    case (ancestor_step b p a)
    then show ?case using assms(1,2) parent_in_tree by (metis ancestor.ancestor_step)
  qed (rule ancestor.ancestor_refl)
qed

lemma apply_header_cases:
  assumes "apply_header br i p sl us = Some (Inr br')"
  obtains pb where "br_branches br p = Some pb" "b_slot pb \<le> sl" "b_length pb + 1 < 2 ^ 64"
    "br' = br\<lparr>br_tips := insert i (br_tips br - {p}),
       br_branches := (br_branches br)(i \<mapsto> \<lparr>b_id = i, b_parent = p, b_slot = sl,
         b_length = Suc (b_length pb), b_uncle_slots = us\<rparr>)\<rparr>"
  using assms by (auto simp: apply_header_def bind_Some_iff checked_add_def split: option.splits if_splits)


lemma apply_header_new:
  assumes "tree_ok br" "fresh_block br i" "apply_header br i p sl us = Some (Inr br')"
  obtains pb new where "in_tree br pb" "b_id pb = p" "in_tree br' new" "b_id new = i" "parent br' new = Some pb"
    "b_length new = Suc (b_length pb)" "b_slot new = sl" "b_slot pb \<le> sl" "b_length new < 2 ^ 64"
    "br_branches br' = (br_branches br)(i \<mapsto> new)"
    "br_tips br' = insert i (br_tips br - {p})" "br_lib br' = br_lib br"
proof (rule apply_header_cases [OF assms(3)])
  fix pb assume pb: "br_branches br p = Some pb" "b_slot pb \<le> sl" "b_length pb + 1 < 2 ^ 64"
    and br': "br' = br\<lparr>br_tips := insert i (br_tips br - {p}),
       br_branches := (br_branches br)(i \<mapsto> \<lparr>b_id = i, b_parent = p, b_slot = sl,
         b_length = Suc (b_length pb), b_uncle_slots = us\<rparr>)\<rparr>"
  have "i \<noteq> p" using assms(2) pb(1) by (auto simp: fresh_block_def)
  then show thesis
    using that [of pb "\<lparr>b_id = i, b_parent = p, b_slot = sl, b_length = Suc (b_length pb), b_uncle_slots = us\<rparr>"]
      in_tree_lookup [OF assms(1) pb(1)] pb br'
    by (simp add: in_tree_def parent_def)
qed

lemma fresh_parent:
  assumes "tree_ok br" "fresh_block br i" "in_tree br b"
  shows "b_parent b \<noteq> i"
proof (cases "b = lib_block br")
  case False
  then obtain q where "parent br b = Some q" using parent_Some_iff_not_lib [OF assms(1,3)] by auto
  then have "br_branches br (b_parent b) = Some q" by (auto simp: parent_def split: if_splits)
  then show ?thesis using assms(2) by (auto simp: fresh_block_def)
qed (use assms(2) in \<open>auto simp: fresh_block_def\<close>)

lemma apply_header_tree:
  assumes "tree_ok br" "fresh_block br i" "apply_header br i p sl us = Some (Inr br')"
  shows "tree_ok br'" "\<And>b. in_tree br b \<Longrightarrow> in_tree br' b"
    "\<And>b. in_tree br b \<Longrightarrow> parent br' b = parent br b" "lib_block br' = lib_block br"
proof -
  obtain pb new where h: "in_tree br pb" "b_id pb = p" "in_tree br' new" "b_id new = i"
    "parent br' new = Some pb" "b_length new = Suc (b_length pb)" "b_slot new = sl" "b_slot pb \<le> sl"
    "br_branches br' = (br_branches br)(i \<mapsto> new)" "br_lib br' = br_lib br"
    by (rule apply_header_new [OF assms])
  have old: "b_id b \<noteq> i" if "in_tree br b" for b
    using that assms(2) by (auto simp: in_tree_def fresh_block_def)
  show t: "in_tree br' b" if "in_tree br b" for b using that old [OF that] h(9) by (simp add: in_tree_def)
  show q: "parent br' b = parent br b" if "in_tree br b" for b
    using fresh_parent [OF assms(1,2) that] h(9) by (simp add: parent_def)
  have li: "br_lib br \<noteq> i" using old [OF in_tree_lib [OF assms(1)]] assms(1) by simp
  then show l: "lib_block br' = lib_block br" using h(9,10) by (simp add: lib_block_def)
  have "\<exists>q. br_branches br' (b_parent b) = Some q \<and> b_length b = Suc (b_length q) \<and> b_slot q \<le> b_slot b"
    if b: "br_branches br' j = Some b" "j \<noteq> br_lib br'" for j b
  proof (cases "j = i")
    case True
    then have "b = new" using b(1) h(9) by simp
    then show ?thesis using h by (auto simp: parent_def split: if_splits)
  next
    case False
    then have bj: "br_branches br j = Some b" using b(1) h(9) by simp
    then have "b_parent b \<noteq> i" using fresh_parent [OF assms(1,2)] in_tree_lookup [OF assms(1)] by blast
    then show ?thesis using bj b(2) assms(1) h(9,10) unfolding tree_ok_def by simp
  qed
  moreover have "b_parent (lib_block br) = br_lib br \<or> b_parent (lib_block br) \<notin> dom (br_branches br')"
    using assms(1,2) h(9) unfolding tree_ok_def fresh_block_def lib_block_def by auto
  moreover have "br_branches br' (br_lib br') = Some (lib_block br)"
    using t [OF in_tree_lib [OF assms(1)]] assms(1) h(10) by (simp add: in_tree_def)
  moreover have "finite (dom (br_branches br'))" "\<forall>j b. br_branches br' j = Some b \<longrightarrow> b_id b = j"
    using assms(1) h(4,9) by (auto simp: tree_ok_def)
  ultimately show "tree_ok br'" unfolding tree_ok_def using h(10) by auto
qed

lemma apply_header_tips:
  assumes "tree_ok br" "tips_ok br" "fresh_block br i" "apply_header br i p sl us = Some (Inr br')"
  shows "tips_ok br'"
proof -
  obtain pb new where h: "in_tree br pb" "b_id pb = p" "b_id new = i" "parent br' new = Some pb"
    "br_branches br' = (br_branches br)(i \<mapsto> new)" "br_tips br' = insert i (br_tips br - {p})"
    by (rule apply_header_new [OF assms(1,3,4)])
  have np: "b_parent new = p" "p \<noteq> i"
    using parent_id [OF apply_header_tree(1) [OF assms(1,3,4)] h(4)] parent_not_self [OF h(4)] h(2,3) by auto
  have fp: "b_parent b \<noteq> i" if "br_branches br c = Some b" for b c
    using fresh_parent [OF assms(1,3)] in_tree_lookup [OF assms(1) that] by blast
  have fi: "i \<notin> dom (br_branches br)" using assms(3) by (simp add: fresh_block_def)
  have "x \<in> br_tips br' \<longleftrightarrow> x \<in> dom (br_branches br') \<and>
      (\<forall>c b. br_branches br' c = Some b \<longrightarrow> b_parent b = x \<longrightarrow> c = x)" for x
  proof (cases "x = i")
    case True
    then show ?thesis using h(5,6) fp np by auto
  next
    case False
    then show ?thesis using h(5,6) fi np assms(2) unfolding tips_ok_def by auto
  qed
  then show ?thesis unfolding tips_ok_def by blast
qed

end
