(* ===== verification/ChainEngine.thy ===== *)
theory ChainEngine
  imports BlockTree
begin

text \<open>
  The consensus engine \<^verbatim>\<open>Cryptarchia\<close> of \<^verbatim>\<open>consensus/cryptarchia-engine/src/lib.rs\<close>: the fork choice rules,
  the reception of a block, the move of the latest immutable block (LIB) and the pruning it triggers.
\<close>

datatype engine_state = Bootstrapping | Online

record 'id cryptarchia =
  cr_local_chain :: "'id branch"
  cr_branches :: "'id branches"
  cr_era_schedule :: "config era_schedule"
  cr_state :: engine_state

record 'id pruned_blocks =
  pb_stale_blocks :: "'id set"
  pb_immutable_blocks :: "(slot \<times> 'id) list"

record 'id receive_block_outcome =
  ro_pruned_blocks :: "'id pruned_blocks"
  ro_reorged_blocks :: "'id list"
  ro_newly_canonical_blocks :: "'id list"

record 'id fork_divergence_info =
  fd_tip :: "'id branch"
  fd_lca :: "'id branch"

subsection \<open>Fork choice\<close>

definition bg_step ::
  "'id branches \<Rightarrow> (slot \<Rightarrow> (nat \<times> nat) option) \<Rightarrow> 'id branch \<Rightarrow> 'id branch \<Rightarrow> 'id branch option" where
  "bg_step br params_at cmax chain =
     do { found \<leftarrow> lca br cmax chain;
          lowest_common_ancestor \<leftarrow> found;
          (k, sg) \<leftarrow> params_at (b_slot lowest_common_ancestor);
          let m = wrapping_sub 64 (b_length cmax) (b_length lowest_common_ancestor);
          if m \<le> k then Some (if b_length cmax < b_length chain then chain else cmax)
          else do { let density_slot = wrapping_add 64 (b_slot lowest_common_ancestor) sg;
                    cmax_density \<leftarrow> walk_back_before br cmax density_slot;
                    candidate_density \<leftarrow> walk_back_before br chain density_slot;
                    Some (if b_length cmax_density < b_length candidate_density then chain else cmax) } }"

definition maxvalid_bg ::
  "('id set \<Rightarrow> 'id list) \<Rightarrow> 'id branch \<Rightarrow> 'id branches \<Rightarrow> (slot \<Rightarrow> (nat \<times> nat) option)
     \<Rightarrow> 'id branch option" where
  "maxvalid_bg iter_tips local_chain br params_at =
     do { forks \<leftarrow> tip_branches iter_tips br; fold_run (bg_step br params_at) local_chain forks }"

definition mc_step ::
  "'id branches \<Rightarrow> (slot \<Rightarrow> nat option) \<Rightarrow> 'id branch \<Rightarrow> 'id branch \<Rightarrow> 'id branch option" where
  "mc_step br security_param_at_slot cmax chain =
     do { found \<leftarrow> lca br cmax chain;
          lowest_common_ancestor \<leftarrow> found;
          k \<leftarrow> security_param_at_slot (b_slot lowest_common_ancestor);
          let m = wrapping_sub 64 (b_length cmax) (b_length lowest_common_ancestor);
          Some (if m \<le> k \<and> b_length cmax < b_length chain then chain else cmax) }"

definition maxvalid_mc ::
  "('id set \<Rightarrow> 'id list) \<Rightarrow> 'id branch \<Rightarrow> 'id branches \<Rightarrow> (slot \<Rightarrow> nat option) \<Rightarrow> 'id branch option" where
  "maxvalid_mc iter_tips local_chain br security_param_at_slot =
     do { forks \<leftarrow> tip_branches iter_tips br; fold_run (mc_step br security_param_at_slot) local_chain forks }"

text \<open>The closures that look the parameters of a slot up in the era schedule.\<close>

definition config_at :: "config era_schedule \<Rightarrow> slot \<Rightarrow> config option" where
  "config_at es sl = map_option ev_parameters (at_slot es sl)"

definition k_at :: "config era_schedule \<Rightarrow> slot \<Rightarrow> nat option" where
  "k_at es sl = map_option security_param (config_at es sl)"

definition bg_params_at :: "config era_schedule \<Rightarrow> slot \<Rightarrow> (nat \<times> nat) option" where
  "bg_params_at es sl =
     do { c \<leftarrow> config_at es sl; sg \<leftarrow> s_gen c; Some (security_param c, sg) }"

definition fork_choice :: "('id set \<Rightarrow> 'id list) \<Rightarrow> 'id cryptarchia \<Rightarrow> 'id branch option" where
  "fork_choice iter_tips c =
     (case cr_state c of
        Bootstrapping \<Rightarrow>
          maxvalid_bg iter_tips (cr_local_chain c) (cr_branches c) (bg_params_at (cr_era_schedule c))
      | Online \<Rightarrow>
          maxvalid_mc iter_tips (cr_local_chain c) (cr_branches c) (k_at (cr_era_schedule c)))"

subsection \<open>The latest immutable block\<close>

fun find_within_k :: "config era_schedule \<Rightarrow> 'id branch \<Rightarrow> 'id branch list \<Rightarrow> 'id branch option" where
  "find_within_k es tip [] = None"
| "find_within_k es tip (block # blocks) =
     do { k \<leftarrow> k_at es (b_slot block);
          if b_length tip - b_length block \<le> k then Some block else find_within_k es tip blocks }"

definition state_lib :: "'id cryptarchia \<Rightarrow> 'id option" where
  "state_lib c =
     (case cr_state c of
        Bootstrapping \<Rightarrow> Some (br_lib (cr_branches c))
      | Online \<Rightarrow>
          do { blocks \<leftarrow> lib_to_tip_blocks (cr_branches c) (cr_local_chain c);
               block \<leftarrow> find_within_k (cr_era_schedule c) (cr_local_chain c) blocks;
               Some (b_id block) })"

definition lib_branch :: "'id cryptarchia \<Rightarrow> 'id branch option" where
  "lib_branch c = br_branches (cr_branches c) (br_lib (cr_branches c))"

definition lib_depth :: "'id cryptarchia \<Rightarrow> nat option" where
  "lib_depth c =
     do { l \<leftarrow> lib_branch c; checked_sub (b_length (cr_local_chain c)) (b_length l) }"

subsection \<open>Pruning\<close>

definition non_canonical_forks ::
  "('id set \<Rightarrow> 'id list) \<Rightarrow> 'id cryptarchia \<Rightarrow> 'id branch list option" where
  "non_canonical_forks iter_tips c =
     map_option (filter (\<lambda>fork_tip. b_id fork_tip \<noteq> b_id (cr_local_chain c)))
       (tip_branches iter_tips (cr_branches c))"

definition fork_divergence ::
  "'id cryptarchia \<Rightarrow> nat \<Rightarrow> 'id branch \<Rightarrow> 'id fork_divergence_info option option" where
  "fork_divergence c deepest_div_block fork =
     do { found \<leftarrow> lca (cr_branches c) (cr_local_chain c) fork;
          l \<leftarrow> found;
          Some (if b_length l < deepest_div_block then Some \<lparr>fd_tip = fork, fd_lca = l\<rparr> else None) }"

definition prunable_forks ::
  "('id set \<Rightarrow> 'id list) \<Rightarrow> 'id cryptarchia \<Rightarrow> nat \<Rightarrow> 'id fork_divergence_info list option" where
  "prunable_forks iter_tips c max_div_depth =
     (case checked_sub (b_length (cr_local_chain c)) max_div_depth of
        None \<Rightarrow> Some []
      | Some deepest_div_block \<Rightarrow>
          do { forks \<leftarrow> non_canonical_forks iter_tips c;
               infos \<leftarrow> those (map (fork_divergence c deepest_div_block) forks);
               Some (List.map_filter id infos) })"

partial_function (option) prune_walk ::
  "('id \<rightharpoonup> 'id branch) \<Rightarrow> 'id \<Rightarrow> 'id \<Rightarrow> (('id \<rightharpoonup> 'id branch) \<times> 'id list) option" where
  "prune_walk m current_tip lca_id =
     (if current_tip = lca_id then Some (m, [])
      else (case m current_tip of
              None \<Rightarrow> Some (m, [])
            | Some b \<Rightarrow> do { (m', removed_blocks) \<leftarrow> prune_walk (m(current_tip := None)) (b_parent b) lca_id;
                              Some (m', b_id b # removed_blocks) }))"

definition prune_fork ::
  "'id branches \<Rightarrow> 'id fork_divergence_info \<Rightarrow> ('id branches \<times> 'id list) option" where
  "prune_fork br info =
     do { (m, removed_blocks) \<leftarrow> prune_walk (br_branches br) (b_id (fd_tip info)) (b_id (fd_lca info));
          Some (br\<lparr>br_tips := br_tips br - {b_id (fd_tip info)}, br_branches := m\<rparr>, removed_blocks) }"

definition prune_stale_forks ::
  "('id set \<Rightarrow> 'id list) \<Rightarrow> 'id cryptarchia \<Rightarrow> nat \<Rightarrow> ('id cryptarchia \<times> 'id list) option" where
  "prune_stale_forks iter_tips c max_div_depth =
     do { forks \<leftarrow> prunable_forks iter_tips c max_div_depth;
          (br, removed) \<leftarrow>
            fold_run (\<lambda>(br, removed) info. do { (br', rs) \<leftarrow> prune_fork br info; Some (br', removed @ rs) })
              (cr_branches c, []) forks;
          Some (c\<lparr>cr_branches := br\<rparr>, removed) }"

partial_function (option) prune_immutable_walk ::
  "('id \<rightharpoonup> 'id branch) \<Rightarrow> 'id \<Rightarrow> (('id \<rightharpoonup> 'id branch) \<times> (slot \<times> 'id) list) option" where
  "prune_immutable_walk m block =
     (case m block of
        None \<Rightarrow> Some (m, [])
      | Some b \<Rightarrow> do { (m', rest) \<leftarrow> prune_immutable_walk (m(block := None)) (b_parent b);
                        Some (m', (b_slot b, b_id b) # rest) })"

definition prune_immutable_blocks ::
  "'id cryptarchia \<Rightarrow> ('id cryptarchia \<times> (slot \<times> 'id) list) option" where
  "prune_immutable_blocks c =
     do { l \<leftarrow> lib_branch c;
          (m, blocks) \<leftarrow> prune_immutable_walk (br_branches (cr_branches c)) (b_parent l);
          Some (c\<lparr>cr_branches := (cr_branches c)\<lparr>br_branches := m\<rparr>\<rparr>, blocks) }"

definition no_pruned_blocks :: "'id pruned_blocks" where
  "no_pruned_blocks = \<lparr>pb_stale_blocks = {}, pb_immutable_blocks = []\<rparr>"

definition update_lib ::
  "('id set \<Rightarrow> 'id list) \<Rightarrow> 'id cryptarchia \<Rightarrow> ('id cryptarchia \<times> 'id pruned_blocks) option" where
  "update_lib iter_tips c =
     do { new_lib \<leftarrow> state_lib c;
          if br_lib (cr_branches c) = new_lib then Some (c, no_pruned_blocks)
          else do { let c1 = c\<lparr>cr_branches := (cr_branches c)\<lparr>br_lib := new_lib\<rparr>\<rparr>;
                    depth \<leftarrow> lib_depth c1;
                    (c2, stale) \<leftarrow> prune_stale_forks iter_tips c1 depth;
                    (c3, immutable) \<leftarrow> prune_immutable_blocks c2;
                    Some (c3, \<lparr>pb_stale_blocks = set stale,
                               pb_immutable_blocks = fold (\<lambda>(sl, i). btree_insert sl i) immutable []\<rparr>) } }"

subsection \<open>Operations\<close>

definition from_lib ::
  "'id \<Rightarrow> 'id \<Rightarrow> config era_schedule \<Rightarrow> engine_state \<Rightarrow> slot \<Rightarrow> nat \<Rightarrow> slot list \<Rightarrow> 'id cryptarchia" where
  "from_lib i p es st sl len uncle_slots =
     \<lparr>cr_local_chain = \<lparr>b_id = i, b_parent = p, b_slot = sl, b_length = len, b_uncle_slots = uncle_slots\<rparr>,
      cr_branches = branches_from_lib i p sl len uncle_slots,
      cr_era_schedule = es, cr_state = st\<rparr>"

definition from_genesis :: "'id \<Rightarrow> config era_schedule \<Rightarrow> engine_state \<Rightarrow> 'id cryptarchia" where
  "from_genesis g es st = from_lib g g es st 0 0 []"

text \<open>The blocks that leave and join the local chain when its tip changes from \<open>old\<close> to \<open>new\<close>.\<close>

definition canonical_change ::
  "'id branches \<Rightarrow> 'id branch \<Rightarrow> 'id branch \<Rightarrow> ('id list \<times> 'id list) option" where
  "canonical_change br old new =
     (if b_id new = b_id old then Some ([], [])
      else do { found \<leftarrow> lca br old new;
                l \<leftarrow> found;
                reorged \<leftarrow> walk_back_to_block br (Some old) (b_id l);
                newly \<leftarrow> walk_back_to_block br (Some new) (b_id l);
                Some (reorged, rev newly) })"

definition receive_block_with_canonical_change ::
  "('id set \<Rightarrow> 'id list) \<Rightarrow> 'id cryptarchia \<Rightarrow> 'id \<Rightarrow> 'id \<Rightarrow> slot \<Rightarrow> slot list
     \<Rightarrow> ('id engine_error + 'id cryptarchia \<times> 'id receive_block_outcome) option" where
  "receive_block_with_canonical_change iter_tips c i p sl uncle_slots =
     do { applied \<leftarrow> apply_header (cr_branches c) i p sl uncle_slots;
          case applied of
            Inl e \<Rightarrow> Some (Inl e)
          | Inr br \<Rightarrow>
              do { let c1 = c\<lparr>cr_branches := br\<rparr>;
                   new_local_chain \<leftarrow> fork_choice iter_tips c1;
                   let c2 = c1\<lparr>cr_local_chain := new_local_chain\<rparr>;
                   (reorged, newly) \<leftarrow> canonical_change br (cr_local_chain c) new_local_chain;
                   (c3, pruned) \<leftarrow> update_lib iter_tips c2;
                   Some (Inr (c3, \<lparr>ro_pruned_blocks = pruned, ro_reorged_blocks = reorged,
                                   ro_newly_canonical_blocks = newly\<rparr>)) } }"

definition receive_block ::
  "('id set \<Rightarrow> 'id list) \<Rightarrow> 'id cryptarchia \<Rightarrow> 'id \<Rightarrow> 'id \<Rightarrow> slot \<Rightarrow> slot list
     \<Rightarrow> ('id engine_error + 'id cryptarchia \<times> 'id pruned_blocks \<times> 'id list) option" where
  "receive_block iter_tips c i p sl uncle_slots =
     map_option
       (map_sum id (\<lambda>(c', outcome). (c', ro_pruned_blocks outcome, ro_reorged_blocks outcome)))
       (receive_block_with_canonical_change iter_tips c i p sl uncle_slots)"

definition online ::
  "('id set \<Rightarrow> 'id list) \<Rightarrow> 'id cryptarchia \<Rightarrow> ('id cryptarchia \<times> 'id pruned_blocks) option" where
  "online iter_tips c = update_lib iter_tips (c\<lparr>cr_state := Online\<rparr>)"

subsection \<open>Pruned blocks\<close>

definition pruned_is_empty :: "'id pruned_blocks \<Rightarrow> bool" where
  "pruned_is_empty pb \<longleftrightarrow> pb_stale_blocks pb = {} \<and> pb_immutable_blocks pb = []"

definition pruned_len :: "'id pruned_blocks \<Rightarrow> nat" where
  "pruned_len pb = card (pb_stale_blocks pb) + length (pb_immutable_blocks pb)"

definition pruned_all :: "'id pruned_blocks \<Rightarrow> 'id set" where
  "pruned_all pb = pb_stale_blocks pb \<union> snd ` set (pb_immutable_blocks pb)"

definition pruned_extend :: "'id pruned_blocks \<Rightarrow> 'id pruned_blocks \<Rightarrow> 'id pruned_blocks" where
  "pruned_extend pb other =
     \<lparr>pb_stale_blocks = pb_stale_blocks pb \<union> pb_stale_blocks other,
      pb_immutable_blocks =
        fold (\<lambda>(sl, i). btree_insert sl i) (pb_immutable_blocks other) (pb_immutable_blocks pb)\<rparr>"

subsection \<open>Invariant\<close>

text \<open>Iterating a hash set visits every element exactly once.\<close>

definition iterates :: "('id set \<Rightarrow> 'id list) \<Rightarrow> bool" where
  "iterates iter_tips \<longleftrightarrow> (\<forall>S. finite S \<longrightarrow> set (iter_tips S) = S \<and> distinct (iter_tips S))"

definition eras_ok :: "config era_schedule \<Rightarrow> bool" where
  "eras_ok es \<longleftrightarrow>
     length (es_after_genesis es) < 2 ^ 16 \<and> se_first_slot (es_genesis es) = 0 \<and>
     list_all (\<lambda>v. 0 < genesis_density_window (ev_parameters v)) (eras es)"

definition engine_ok :: "'id cryptarchia \<Rightarrow> bool" where
  "engine_ok c \<longleftrightarrow>
     tree_ok (cr_branches c) \<and> tips_ok (cr_branches c) \<and>
     in_tree (cr_branches c) (cr_local_chain c) \<and> b_id (cr_local_chain c) \<in> br_tips (cr_branches c) \<and>
     eras_ok (cr_era_schedule c)"

lemma config_at_total:
  assumes "eras_ok es"
  obtains c where "config_at es sl = Some c" "0 < genesis_density_window c"
  using at_slot_total [of es sl] assms by (auto simp: eras_ok_def config_at_def list_all_iff)

lemma k_at_total: "eras_ok es \<Longrightarrow> k_at es sl \<noteq> None"
  by (rule config_at_total [of es sl]) (auto simp: k_at_def)

lemma bg_params_at_total: "eras_ok es \<Longrightarrow> bg_params_at es sl \<noteq> None"
  by (rule config_at_total [of es sl]) (auto simp: bg_params_at_def s_gen_def)

lemma finite_tips: "tree_ok br \<Longrightarrow> tips_ok br \<Longrightarrow> finite (br_tips br)"
  by (auto simp: tree_ok_def tips_ok_def)

lemma tip_branches_returns:
  assumes "tree_ok br" "tips_ok br" "iterates iter_tips"
  obtains ts where "tip_branches iter_tips br = Some ts" "set ts = {t. in_tree br t \<and> b_id t \<in> br_tips br}"
proof -
  have tips: "set (iter_tips (br_tips br)) = br_tips br"
    using assms finite_tips by (auto simp: iterates_def)
  have dom: "br_branches br i = Some (the (br_branches br i))" if "i \<in> set (iter_tips (br_tips br))" for i
    using that assms(2) tips unfolding tips_ok_def by force
  have "(\<lambda>i. the (br_branches br i)) ` br_tips br = {t. in_tree br t \<and> b_id t \<in> br_tips br}" (is "?f ` _ = ?T")
  proof
    show "?f ` br_tips br \<subseteq> ?T"
      using in_tree_lookup [OF assms(1) dom] tips by auto
    show "?T \<subseteq> ?f ` br_tips br"
    proof
      fix t assume "t \<in> ?T"
      then have "t = ?f (b_id t)" "b_id t \<in> br_tips br" by (simp_all add: in_tree_def)
      then show "t \<in> ?f ` br_tips br" by (rule image_eqI)
    qed
  qed
  then have "set (map ?f (iter_tips (br_tips br))) = ?T" by (simp add: tips)
  moreover have "those (map (br_branches br) (iter_tips (br_tips br))) = Some (map ?f (iter_tips (br_tips br)))"
    by (rule those_map_Some) (rule dom)
  ultimately show thesis using that by (simp add: tip_branches_def)
qed

subsection \<open>Fork choice rules\<close>

text \<open>
  Both rules compare the chain chosen so far with one fork at a time.  What the engine needs of such
  a rule: it returns one of the two chains, and prefers a chain that extends the other by one block.
\<close>

locale fork_rule =
  fixes rule_step :: "'p \<Rightarrow> 'id branches \<Rightarrow> 'id branch \<Rightarrow> 'id branch \<Rightarrow> 'id branch option"
    and params_ok :: "'p \<Rightarrow> bool"
  assumes picks: "params_ok ps \<Longrightarrow> tree_ok br \<Longrightarrow> in_tree br cmax \<Longrightarrow> in_tree br chain \<Longrightarrow>
      \<exists>r. rule_step ps br cmax chain = Some r \<and> (r = cmax \<or> r = chain)"
    and picks_child: "params_ok ps \<Longrightarrow> tree_ok br \<Longrightarrow> in_tree br cmax \<Longrightarrow> in_tree br chain \<Longrightarrow>
      parent br chain = Some cmax \<Longrightarrow> rule_step ps br cmax chain = Some chain"
begin

lemma chooses_tip:
  assumes "params_ok ps" "tree_ok br" "in_tree br cur" "\<forall>t \<in> set ts. in_tree br t"
  shows "\<exists>r. fold_run (rule_step ps br) cur ts = Some r \<and> r \<in> insert cur (set ts) \<and>
    ((\<exists>t \<in> set ts. parent br t = Some cur) \<longrightarrow> r \<in> set ts)"
proof (rule fold_run_invariant [where P = "\<lambda>ys r. r \<in> insert cur (set ys) \<and>
    ((\<exists>t \<in> set ys. parent br t = Some cur) \<longrightarrow> r \<in> set ys)"])
  fix ys x zs r
  assume ts: "ts = ys @ x # zs"
    and P: "r \<in> insert cur (set ys) \<and> ((\<exists>t \<in> set ys. parent br t = Some cur) \<longrightarrow> r \<in> set ys)"
  have r: "in_tree br r" "in_tree br x" using P ts assms(3,4) by auto
  obtain r' where r': "rule_step ps br r x = Some r'" "r' = r \<or> r' = x"
    using picks [OF assms(1,2) r] by blast
  moreover have "r' = x" if "parent br x = Some cur" "r = cur"
    using picks_child [OF assms(1,2) r] that r'(1) by simp
  ultimately show "\<exists>r'. rule_step ps br r x = Some r' \<and> r' \<in> insert cur (set (ys @ [x])) \<and>
      ((\<exists>t \<in> set (ys @ [x]). parent br t = Some cur) \<longrightarrow> r' \<in> set (ys @ [x]))"
    using P by auto
qed simp

end

lemma lca_of_child:
  assumes "tree_ok br" "in_tree br chain" "parent br chain = Some cmax"
  shows "lca br cmax chain = Some (Some cmax)"
proof -
  have "in_tree br cmax" using parent_in_tree [OF assms(1,3)] .
  then obtain c where c: "lca br cmax chain = Some (Some c)" "is_lca br cmax chain c"
    using lca_returns [OF assms(1) _ assms(2)] by blast
  have "ancestor br cmax cmax" "ancestor br cmax chain" using assms(3) ancestor.intros by blast+
  then have "ancestor br cmax c" "ancestor br c cmax" using c(2) unfolding is_lca_def by blast+
  then show ?thesis
    using c(1) ancestor_antisym [OF _ _ assms(1) parent_in_tree [OF assms(1,3)]] by blast
qed

interpretation mc_rule: fork_rule "\<lambda>ps br. mc_step br ps" "\<lambda>ps. \<forall>sl. ps sl \<noteq> None"
proof (unfold_locales, goal_cases)
  case (1 ps br cmax chain)
  obtain l where "lca br cmax chain = Some (Some l)" using lca_returns [OF 1(2-4)] by blast
  moreover obtain k where "ps (b_slot l) = Some k" using 1(1) by blast
  ultimately show ?case by (simp add: mc_step_def)
next
  case (2 ps br cmax chain)
  obtain k where "ps (b_slot cmax) = Some k" using 2(1) by blast
  then show ?case
    using lca_of_child [OF 2(2,4,5)] parent_length(1) [OF 2(2,4,5)] by (simp add: mc_step_def)
qed

interpretation bg_rule: fork_rule "\<lambda>ps br. bg_step br ps" "\<lambda>ps. \<forall>sl. ps sl \<noteq> None"
proof (unfold_locales, goal_cases)
  case (1 ps br cmax chain)
  obtain l where l: "lca br cmax chain = Some (Some l)" using lca_returns [OF 1(2-4)] by blast
  obtain k sg where k: "ps (b_slot l) = Some (k, sg)" using 1(1) by (metis option.exhaust surj_pair)
  obtain x y where "walk_back_before br cmax (wrapping_add 64 (b_slot l) sg) = Some x"
    "walk_back_before br chain (wrapping_add 64 (b_slot l) sg) = Some y"
    using walk_back_before_returns [OF 1(2)] 1(3,4) by metis
  then show ?case using l k by (simp add: bg_step_def Let_def)
next
  case (2 ps br cmax chain)
  obtain k sg where "ps (b_slot cmax) = Some (k, sg)" using 2(1) by (metis option.exhaust surj_pair)
  then show ?case
    using lca_of_child [OF 2(2,4,5)] parent_length(1) [OF 2(2,4,5)] by (simp add: bg_step_def)
qed

lemma fork_choice_tip:
  assumes "tree_ok (cr_branches c)" "tips_ok (cr_branches c)" "eras_ok (cr_era_schedule c)" "iterates iter_tips"
    "in_tree (cr_branches c) (cr_local_chain c)"
    "b_id (cr_local_chain c) \<in> br_tips (cr_branches c) \<or>
     (\<exists>h. in_tree (cr_branches c) h \<and> b_id h \<in> br_tips (cr_branches c) \<and>
          parent (cr_branches c) h = Some (cr_local_chain c))"
  shows "\<exists>r. fork_choice iter_tips c = Some r \<and> in_tree (cr_branches c) r \<and> b_id r \<in> br_tips (cr_branches c)"
proof -
  obtain ts where ts: "tip_branches iter_tips (cr_branches c) = Some ts"
    "set ts = {t. in_tree (cr_branches c) t \<and> b_id t \<in> br_tips (cr_branches c)}"
    by (rule tip_branches_returns [OF assms(1,2,4)])
  have tt: "\<forall>t \<in> set ts. in_tree (cr_branches c) t" using ts(2) by blast
  have "\<exists>r. fork_choice iter_tips c = Some r \<and> r \<in> insert (cr_local_chain c) (set ts) \<and>
    ((\<exists>t \<in> set ts. parent (cr_branches c) t = Some (cr_local_chain c)) \<longrightarrow> r \<in> set ts)"
  proof (cases "cr_state c")
    case Bootstrapping
    then show ?thesis
      using bg_rule.chooses_tip [OF _ assms(1,5) tt, of "bg_params_at (cr_era_schedule c)"] bg_params_at_total [OF assms(3)] ts(1)
      by (simp add: fork_choice_def maxvalid_bg_def)
  next
    case Online
    then show ?thesis
      using mc_rule.chooses_tip [OF _ assms(1,5) tt, of "k_at (cr_era_schedule c)"] k_at_total [OF assms(3)] ts(1)
      by (simp add: fork_choice_def maxvalid_mc_def)
  qed
  then show ?thesis using assms(5,6) ts(2) by blast
qed

lemma canonical_change_returns:
  assumes "tree_ok br" "in_tree br old" "in_tree br new"
  shows "\<exists>reorged newly common.
    canonical_change br old new = Some (map b_id reorged, map b_id (rev newly)) \<and>
    tip_to_lib_blocks br old = Some (reorged @ common) \<and> tip_to_lib_blocks br new = Some (newly @ common) \<and>
    set reorged \<inter> set newly = {}"
proof (cases "b_id new = b_id old")
  case True
  then have "new = old" using in_tree_id_eq assms(2,3) by blast
  then show ?thesis
    using tip_to_lib_blocks_returns [OF assms(1,2)] by (force simp: canonical_change_def)
next
  case False
  obtain l where l: "lca br old new = Some (Some l)" "is_lca br old new l"
    using lca_returns [OF assms] by blast
  obtain ys zs where ys: "walk_back_to_block br (Some old) (b_id l) = Some (map b_id ys)"
    "tip_to_lib_blocks br l = Some zs" "tip_to_lib_blocks br old = Some (ys @ zs)"
    "set ys = {x. ancestor br x old \<and> \<not> ancestor br x l}"
    using walk_back_to_block_splits [OF assms(1,2)] l(2) unfolding is_lca_def by blast
  obtain vs ws where vs: "walk_back_to_block br (Some new) (b_id l) = Some (map b_id vs)"
    "tip_to_lib_blocks br l = Some ws" "tip_to_lib_blocks br new = Some (vs @ ws)"
    "set vs = {x. ancestor br x new \<and> \<not> ancestor br x l}"
    using walk_back_to_block_splits [OF assms(1,3)] l(2) unfolding is_lca_def by blast
  have "set ys \<inter> set vs = {}" using ys(4) vs(4) l(2) unfolding is_lca_def by blast
  then show ?thesis
    using False l(1) ys(1-3) vs(1-3) by (auto simp: canonical_change_def rev_map)
qed

lemma find_within_k_returns:
  assumes "eras_ok es" "tip \<in> set blocks"
  shows "\<exists>before b after k. find_within_k es tip blocks = Some b \<and> blocks = before @ b # after \<and>
    k_at es (b_slot b) = Some k \<and> b_length tip - b_length b \<le> k \<and>
    (\<forall>d \<in> set before. \<exists>k. k_at es (b_slot d) = Some k \<and> k < b_length tip - b_length d)"
  using assms(2)
proof (induction blocks)
  case (Cons b blocks)
  obtain k where k: "k_at es (b_slot b) = Some k" using k_at_total [OF assms(1)] by blast
  show ?case
  proof (cases "b_length tip - b_length b \<le> k")
    case True
    then show ?thesis using k by (intro exI [of _ "[]"] exI [of _ b] exI [of _ blocks] exI [of _ k]) simp
  next
    case False
    then obtain before b' after k' where IH: "find_within_k es tip blocks = Some b'" "blocks = before @ b' # after"
        "k_at es (b_slot b') = Some k'" "b_length tip - b_length b' \<le> k'"
        "\<forall>d \<in> set before. \<exists>k. k_at es (b_slot d) = Some k \<and> k < b_length tip - b_length d"
      using Cons by auto
    then show ?thesis using k False
      by (intro exI [of _ "b # before"] exI [of _ b'] exI [of _ after] exI [of _ k']) simp
  qed
qed simp

lemma tip_to_lib_blocks_descend:
  assumes "tree_ok br" "in_tree br b" "tip_to_lib_blocks br b = Some xs"
  shows "sorted_wrt (>) (map b_length xs)"
  using assms
proof (induction arbitrary: xs rule: tree_induct)
  case lib
  then show ?case using assms(1) by (auto simp: tip_to_lib_blocks.simps [of br "lib_block br"])
next
  case (step b p)
  obtain ys where ys: "tip_to_lib_blocks br p = Some ys" "xs = b # ys"
    using step.prems step(2) in_tree_lib_iff [OF assms(1) step(1)] assms(1)
    by (auto simp: tip_to_lib_blocks.simps [of br b] bind_Some_iff split: if_splits)
  have "b_length y < b_length b" if "y \<in> set ys" for y
    using that tip_to_lib_blocks_set [OF assms(1) step(3) ys(1)] ancestor_length [OF _ assms(1) step(3), of y]
      parent_length(1) [OF assms(1) step(1,2)] by auto
  then show ?case using step.IH [OF ys(1)] ys(2) by simp
qed

lemma lib_to_tip_blocks_returns:
  assumes "tree_ok br" "in_tree br b"
  obtains bs where "lib_to_tip_blocks br b = Some bs" "set bs = {a. ancestor br a b}" "sorted_wrt (<) (map b_length bs)"
proof -
  obtain xs where xs: "tip_to_lib_blocks br b = Some xs" "set xs = {a. ancestor br a b}"
    using tip_to_lib_blocks_returns [OF assms] by blast
  then show thesis using that [of "rev xs"] tip_to_lib_blocks_descend [OF assms xs(1)]
    by (simp add: lib_to_tip_blocks_def rev_map [symmetric] sorted_wrt_rev)
qed

text \<open>The new LIB lies on the local chain, at or above the old one; online it is the
  deepest block within the \<open>k\<close> of its era.\<close>

lemma state_lib_returns:
  assumes "engine_ok c"
  shows "\<exists>l. state_lib c = Some (b_id l) \<and> in_tree (cr_branches c) l \<and>
    ancestor (cr_branches c) (lib_block (cr_branches c)) l \<and> ancestor (cr_branches c) l (cr_local_chain c) \<and>
    (cr_state c = Online \<longrightarrow>
      (\<exists>k. k_at (cr_era_schedule c) (b_slot l) = Some k \<and> b_length (cr_local_chain c) - b_length l \<le> k) \<and>
      (\<forall>d. ancestor (cr_branches c) d l \<and> d \<noteq> l \<longrightarrow>
        (\<exists>k. k_at (cr_era_schedule c) (b_slot d) = Some k \<and> k < b_length (cr_local_chain c) - b_length d)))"
proof -
  let ?br = "cr_branches c" and ?t = "cr_local_chain c"
  have ok: "tree_ok ?br" "in_tree ?br ?t" "eras_ok (cr_era_schedule c)"
    using assms by (auto simp: engine_ok_def)
  show ?thesis
  proof (cases "cr_state c")
    case Bootstrapping
    then show ?thesis
      using ok(1) in_tree_lib [OF ok(1)] lib_ancestor [OF ok(1,2)] ancestor_refl
      by (intro exI [of _ "lib_block ?br"]) (auto simp: state_lib_def)
  next
    case Online
    obtain bs where bs: "lib_to_tip_blocks ?br ?t = Some bs" "set bs = {a. ancestor ?br a ?t}" "sorted_wrt (<) (map b_length bs)"
      by (rule lib_to_tip_blocks_returns [OF ok(1,2)])
    then obtain before l after k where l: "find_within_k (cr_era_schedule c) ?t bs = Some l" "bs = before @ l # after"
      "k_at (cr_era_schedule c) (b_slot l) = Some k" "b_length ?t - b_length l \<le> k"
      "\<forall>d \<in> set before. \<exists>k. k_at (cr_era_schedule c) (b_slot d) = Some k \<and> k < b_length ?t - b_length d"
      using find_within_k_returns [OF ok(3), of ?t bs] ancestor_refl by blast
    have a: "ancestor ?br l ?t" using bs(2) l(2) by auto
    have t: "in_tree ?br l" using ancestor_in_tree [OF a ok(1,2)] .
    have "d \<in> set before" if "ancestor ?br d l" "d \<noteq> l" for d
    proof -
      have "d \<in> set bs" using ancestor_trans [OF a that(1)] bs(2) by simp
      moreover have "d \<notin> set after"
        using ancestor_length [OF that(1) ok(1) t] bs(3) l(2) by (auto simp: sorted_wrt_append)
      ultimately show ?thesis using l(2) that(2) by auto
    qed
    then show ?thesis
      using l a t Online bs(1) lib_ancestor [OF ok(1) t] by (intro exI [of _ l]) (auto simp: state_lib_def)
  qed
qed

end
