(* ===== verification/EnginePruning.thy ===== *)
theory EnginePruning
  imports ChainEngine
begin

text \<open>
  What \<^verbatim>\<open>update_lib\<close> prunes: after the LIB moves, exactly the blocks that do not descend from the new LIB
  are removed, split into the stale forks and the immutable ancestors of the LIB.
\<close>

lemma parent_lib_update [simp]: "parent (br\<lparr>br_lib := x\<rparr>) b = parent br b"
  by (simp add: parent_def)

lemma lower_to_lib_update: "lower_to br b n = Some r \<Longrightarrow> lower_to (br\<lparr>br_lib := x\<rparr>) b n = Some r"
  by (erule lower_to.raw_induct [where P = "\<lambda>br b n r. lower_to (br\<lparr>br_lib := x\<rparr>) b n = Some r", rotated])
    (subst lower_to.simps, auto split: if_splits option.splits)

lemma walk_to_common_lib_update:
  "walk_to_common br b1 b2 = Some r \<Longrightarrow> walk_to_common (br\<lparr>br_lib := x\<rparr>) b1 b2 = Some r"
  by (erule walk_to_common.raw_induct
      [where P = "\<lambda>br b1 b2 r. walk_to_common (br\<lparr>br_lib := x\<rparr>) b1 b2 = Some r", rotated])
    (subst walk_to_common.simps, auto split: if_splits option.splits)

lemma lca_lib_update:
  assumes "lca br b1 b2 = Some (Some c)"
  shows "lca (br\<lparr>br_lib := x\<rparr>) b1 b2 = Some (Some c)"
proof -
  obtain a1 a2 where "lower_to br b1 (b_length b2) = Some (Some a1)"
    "lower_to br b2 (b_length a1) = Some (Some a2)" "walk_to_common br a1 a2 = Some (Some c)"
    using assms by (auto simp: lca_def bind_Some_iff split: option.splits)
  then have "lower_to (br\<lparr>br_lib := x\<rparr>) b1 (b_length b2) = Some (Some a1)"
    "lower_to (br\<lparr>br_lib := x\<rparr>) b2 (b_length a1) = Some (Some a2)"
    "walk_to_common (br\<lparr>br_lib := x\<rparr>) a1 a2 = Some (Some c)"
    by (blast intro: lower_to_lib_update walk_to_common_lib_update)+
  then show ?thesis by (simp add: lca_def)
qed

text \<open>The blocks on the way from \<open>x\<close> down to its ancestor \<open>l\<close>, without \<open>l\<close>.\<close>

definition above :: "'id branches \<Rightarrow> 'id branch \<Rightarrow> 'id branch \<Rightarrow> 'id set" where
  "above br l x = b_id ` {y. ancestor br y x \<and> \<not> ancestor br y l}"

lemma above_self [simp]: "above br l l = {}"
  by (auto simp: above_def)

lemma above_step:
  assumes "tree_ok br" "in_tree br x" "ancestor br l x" "x \<noteq> l" "parent br x = Some p"
  shows "above br l x = insert (b_id x) (above br l p)"
proof -
  have "\<not> ancestor br x l"
    using ancestor_antisym [OF _ assms(3,1)] ancestor_in_tree [OF assms(3,1,2)] assms(4) by blast
  moreover have "ancestor br y x \<longleftrightarrow> y = x \<or> ancestor br y p" for y
    using ancestor_parent [of br y x] assms(5) ancestor.intros by fastforce
  ultimately have "{y. ancestor br y x \<and> \<not> ancestor br y l} = insert x {y. ancestor br y p \<and> \<not> ancestor br y l}"
    by auto
  then show ?thesis by (simp add: above_def)
qed

lemma restrict_map_insert: "(m |` (- R))(i := None) = m |` (- insert i R)"
  by (auto simp: restrict_map_def)

lemma prune_walk_returns:
  assumes "tree_ok br" "in_tree br x" "ancestor br l x"
    "\<And>y. ancestor br y x \<Longrightarrow> b_id y \<in> R \<Longrightarrow> above br l y \<subseteq> R"
  shows "\<exists>removed. prune_walk (br_branches br |` (- R)) (b_id x) (b_id l) =
      Some (br_branches br |` (- (R \<union> above br l x)), removed) \<and> set removed = above br l x - R"
  using assms(1,2,3,4)
proof (induction arbitrary: R rule: tree_induct)
  case lib
  then have "l = lib_block br" using ancestor_parent [of br l] assms(1) by fastforce
  then show ?case by (simp add: prune_walk.simps)
next
  case (step x p)
  show ?case
  proof (cases "x = l")
    case True
    then show ?thesis by (simp add: prune_walk.simps)
  next
    case False
    have tl: "in_tree br l" using ancestor_in_tree [OF step.prems(1) assms(1) step(1)] .
    have id: "b_id x \<noteq> b_id l" using in_tree_id_eq [OF step(1) tl] False by blast
    have lp: "ancestor br l p" using ancestor_parent [OF step.prems(1)] False step(2) by auto
    note ab = above_step [OF assms(1) step(1) step.prems(1) False step(2)]
    show ?thesis
    proof (cases "b_id x \<in> R")
      case True
      then have "above br l x \<subseteq> R" using step.prems(2) ancestor_refl by blast
      then have "R \<union> above br l x = R" "above br l x - R = {}" by auto
      then show ?thesis using True id by (simp add: prune_walk.simps [of _ "b_id x"])
    next
      case nr: False
      have "above br l y \<subseteq> insert (b_id x) R" if y: "ancestor br y p" "b_id y \<in> insert (b_id x) R" for y
      proof -
        have ty: "in_tree br y" using ancestor_in_tree [OF y(1) assms(1) step(3)] .
        have "b_length y < b_length x"
          using ancestor_length [OF y(1) assms(1) step(3)] parent_length(1) [OF assms(1) step(1,2)] by simp
        then have "b_id y \<in> R" using in_tree_id_eq [OF ty step(1)] y(2) by auto
        then show ?thesis using step.prems(2) ancestor_step [OF step(2) y(1)] by blast
      qed
      then obtain removed where IH:
        "prune_walk (br_branches br |` (- insert (b_id x) R)) (b_id p) (b_id l) =
           Some (br_branches br |` (- (insert (b_id x) R \<union> above br l p)), removed)"
        "set removed = above br l p - insert (b_id x) R"
        using step.IH [OF lp, of "insert (b_id x) R"] by auto
      have "(br_branches br |` (- R)) (b_id x) = Some x"
        using nr step(1) by (simp add: in_tree_def)
      then have "prune_walk (br_branches br |` (- R)) (b_id x) (b_id l) =
           Some (br_branches br |` (- (insert (b_id x) R \<union> above br l p)), b_id x # removed)"
        using IH(1) id parent_id [OF assms(1) step(2)]
        by (simp add: prune_walk.simps [of _ "b_id x"] restrict_map_insert del: fun_upd_None_restrict)
      moreover have "insert (b_id x) R \<union> above br l p = R \<union> above br l x" using ab by auto
      moreover have "set (b_id x # removed) = above br l x - R" using ab nr IH(2) by auto
      ultimately show ?thesis by metis
    qed
  qed
qed

subsection \<open>Stale forks\<close>

text \<open>
  The forks \<^verbatim>\<open>prunable_forks\<close> selects when the tree \<open>br\<close> is still rooted at the old LIB and \<open>x\<close> is the new
  one: every tip other than the local chain whose common ancestor with the local chain is shorter
  than the given bound.
\<close>

definition fork_info_ok :: "'id branches \<Rightarrow> 'id branch \<Rightarrow> nat \<Rightarrow> 'id fork_divergence_info \<Rightarrow> bool" where
  "fork_info_ok br loc d f \<longleftrightarrow>
     in_tree br (fd_tip f) \<and> b_id (fd_tip f) \<in> br_tips br \<and> fd_tip f \<noteq> loc \<and>
     is_lca br loc (fd_tip f) (fd_lca f) \<and> b_length (fd_lca f) < d"

lemma prunable_forks_returns:
  assumes "tree_ok br" "tips_ok br" "iterates iter_tips" "in_tree br loc"
    "cr_branches c = br\<lparr>br_lib := x\<rparr>" "cr_local_chain c = loc" "dep \<le> b_length loc"
  shows "\<exists>fs. prunable_forks iter_tips c dep = Some fs \<and>
    (\<forall>f \<in> set fs. fork_info_ok br loc (b_length loc - dep) f) \<and>
    (\<forall>t l. in_tree br t \<longrightarrow> b_id t \<in> br_tips br \<longrightarrow> t \<noteq> loc \<longrightarrow> is_lca br loc t l \<longrightarrow>
      b_length l < b_length loc - dep \<longrightarrow> (\<exists>f \<in> set fs. fd_tip f = t))"
proof -
  let ?d = "b_length loc - dep"
  obtain ts where ts: "tip_branches iter_tips br = Some ts"
    "set ts = {t. in_tree br t \<and> b_id t \<in> br_tips br}"
    by (rule tip_branches_returns [OF assms(1-3)])
  define forks where "forks = filter (\<lambda>t. b_id t \<noteq> b_id loc) ts"
  have forks: "t \<in> set forks \<longleftrightarrow> in_tree br t \<and> b_id t \<in> br_tips br \<and> t \<noteq> loc" for t
    using ts(2) assms(4) in_tree_id_eq [of br t loc] by (auto simp: forks_def)
  define cut where "cut t = the (the (lca br loc t))" for t
  have cut: "lca br loc t = Some (Some (cut t)) \<and> is_lca br loc t (cut t)" if "in_tree br t" for t
    using lca_returns [OF assms(1,4) that] by (auto simp: cut_def)
  define info where "info t = (if b_length (cut t) < ?d then Some \<lparr>fd_tip = t, fd_lca = cut t\<rparr> else None)" for t
  have "fork_divergence c ?d t = Some (info t)" if "t \<in> set forks" for t
    using lca_lib_update [of br loc t "cut t" x] cut that forks assms(5,6)
    by (simp add: fork_divergence_def info_def)
  then have "those (map (fork_divergence c ?d) forks) = Some (map info forks)"
    by (rule those_map_Some)
  moreover have "non_canonical_forks iter_tips c = Some forks"
    using ts(1) assms(5,6) by (simp add: non_canonical_forks_def tip_branches_def forks_def)
  ultimately have "prunable_forks iter_tips c dep = Some (List.map_filter id (map info forks))"
    using assms(6,7) by (simp add: prunable_forks_def checked_sub_def)
  moreover have "fork_info_ok br loc ?d f" if "f \<in> set (List.map_filter id (map info forks))" for f
    using that forks cut by (auto simp: map_filter_def info_def fork_info_ok_def split: if_splits)
  moreover have "\<exists>f \<in> set (List.map_filter id (map info forks)). fd_tip f = t"
    if t: "in_tree br t" "b_id t \<in> br_tips br" "t \<noteq> loc" "is_lca br loc t l" "b_length l < ?d" for t l
  proof -
    have "ancestor br (cut t) l" using cut [OF t(1)] t(4) unfolding is_lca_def by blast
    then have "b_length (cut t) \<le> b_length l"
      using ancestor_length [OF _ assms(1)] ancestor_in_tree [OF _ assms(1) t(1)] t(4) unfolding is_lca_def by blast
    then have "info t = Some \<lparr>fd_tip = t, fd_lca = cut t\<rparr>" using t(5) by (simp add: info_def)
    moreover have "t \<in> set forks" using forks t by blast
    ultimately show ?thesis by (force simp: map_filter_def)
  qed
  ultimately show ?thesis by blast
qed

text \<open>The blocks off the local chain below the given forks.\<close>

definition off_chain :: "'id branches \<Rightarrow> 'id branch \<Rightarrow> 'id fork_divergence_info list \<Rightarrow> 'id set" where
  "off_chain br loc fs = b_id ` {y. \<not> ancestor br y loc \<and> (\<exists>f \<in> set fs. ancestor br y (fd_tip f))}"

lemma above_lca:
  assumes "is_lca br loc t l"
  shows "above br l t = b_id ` {y. \<not> ancestor br y loc \<and> ancestor br y t}"
proof -
  have "ancestor br y t \<and> \<not> ancestor br y l \<longleftrightarrow> \<not> ancestor br y loc \<and> ancestor br y t" for y
    using assms ancestor_trans unfolding is_lca_def by metis
  then show ?thesis by (simp add: above_def)
qed

lemma off_chain_snoc:
  "is_lca br loc (fd_tip f) (fd_lca f) \<Longrightarrow>
   off_chain br loc (fs @ [f]) = off_chain br loc fs \<union> above br (fd_lca f) (fd_tip f)"
  by (auto simp: off_chain_def above_lca)

lemma above_off_chain:
  assumes "tree_ok br" "\<forall>f \<in> set fs. in_tree br (fd_tip f)" "is_lca br loc t l" "in_tree br t"
    "ancestor br y t" "b_id y \<in> off_chain br loc fs"
  shows "above br l y \<subseteq> off_chain br loc fs"
proof -
  obtain z f where z: "b_id z = b_id y" "\<not> ancestor br z loc" "f \<in> set fs" "ancestor br z (fd_tip f)"
    using assms(6) by (auto simp: off_chain_def)
  have "in_tree br z" "in_tree br y"
    using ancestor_in_tree [OF z(4) assms(1)] ancestor_in_tree [OF assms(5,1,4)] assms(2) z(3) by blast+
  then have "z = y" using in_tree_id_eq z(1) by blast
  then have "\<not> ancestor br u loc \<and> ancestor br u (fd_tip f)" if "ancestor br u y" "\<not> ancestor br u l" for u
    using that z assms(3,5) ancestor_trans unfolding is_lca_def by metis
  then show ?thesis using z(3) unfolding above_def off_chain_def by blast
qed

lemma prune_forks_returns:
  assumes "tree_ok br" "\<forall>f \<in> set fs. fork_info_ok br loc d f"
  shows "\<exists>r. fold_run (\<lambda>(b, removed) info. do { (b', rs) \<leftarrow> prune_fork b info; Some (b', removed @ rs) })
      (br\<lparr>br_lib := x\<rparr>, []) fs = Some r \<and>
    fst r = \<lparr>br_branches = br_branches br |` (- off_chain br loc fs),
             br_tips = br_tips br - (b_id \<circ> fd_tip) ` set fs, br_lib = x\<rparr> \<and>
    set (snd r) = off_chain br loc fs"
proof (rule fold_run_invariant [where P = "\<lambda>ys r.
    fst r = \<lparr>br_branches = br_branches br |` (- off_chain br loc ys),
             br_tips = br_tips br - (b_id \<circ> fd_tip) ` set ys, br_lib = x\<rparr> \<and>
    set (snd r) = off_chain br loc ys"])
  show "fst (br\<lparr>br_lib := x\<rparr>, [] :: 'a list) = \<lparr>br_branches = br_branches br |` (- off_chain br loc []),
      br_tips = br_tips br - (b_id \<circ> fd_tip) ` set [], br_lib = x\<rparr> \<and>
      set (snd (br\<lparr>br_lib := x\<rparr>, [] :: 'a list)) = off_chain br loc []"
    by (simp add: off_chain_def restrict_map_def)
next
  fix ys f zs r
  assume fs: "fs = ys @ f # zs"
    and r: "fst r = \<lparr>br_branches = br_branches br |` (- off_chain br loc ys),
             br_tips = br_tips br - (b_id \<circ> fd_tip) ` set ys, br_lib = x\<rparr> \<and>
          set (snd r) = off_chain br loc ys"
  let ?t = "fd_tip f" and ?l = "fd_lca f"
  have f: "in_tree br ?t" "is_lca br loc ?t ?l" and tys: "\<forall>g \<in> set ys. in_tree br (fd_tip g)"
    using assms(2) fs by (auto simp: fork_info_ok_def)
  have "ancestor br ?l ?t" using f(2) by (simp add: is_lca_def)
  from prune_walk_returns [OF assms(1) f(1) this above_off_chain [OF assms(1) tys f(2,1)]]
  obtain removed where "prune_walk (br_branches br |` (- off_chain br loc ys)) (b_id ?t) (b_id ?l) =
      Some (br_branches br |` (- off_chain br loc (ys @ [f])), removed)"
    "set removed = above br ?l ?t - off_chain br loc ys"
    unfolding off_chain_snoc [of br loc f ys, OF f(2)] by blast
  then show "\<exists>r'. (\<lambda>(b, removed) info. do { (b', rs) \<leftarrow> prune_fork b info; Some (b', removed @ rs) }) r f = Some r' \<and>
      fst r' = \<lparr>br_branches = br_branches br |` (- off_chain br loc (ys @ [f])),
             br_tips = br_tips br - (b_id \<circ> fd_tip) ` set (ys @ [f]), br_lib = x\<rparr> \<and>
      set (snd r') = off_chain br loc (ys @ [f])"
    using r by (cases r) (auto simp: prune_fork_def off_chain_snoc [of br loc f ys, OF f(2)])
qed

subsection \<open>Immutable blocks\<close>

lemma prune_immutable_walk_returns:
  assumes "tree_ok br" "in_tree br a" "R \<inter> b_id ` {y. ancestor br y a} = {}"
  shows "\<exists>ys. prune_immutable_walk (br_branches br |` (- R)) (b_id a) =
      Some (br_branches br |` (- (R \<union> b_id ` {y. ancestor br y a})), map (\<lambda>y. (b_slot y, b_id y)) ys) \<and>
    tip_to_lib_blocks br a = Some ys"
  using assms
proof (induction arbitrary: R rule: tree_induct)
  case lib
  let ?l = "lib_block br"
  have anc: "{y. ancestor br y ?l} = {?l}"
    using ancestor_parent [of br _ ?l] ancestor_refl assms(1) by fastforce
  have l: "br_branches br (br_lib br) = Some ?l" using in_tree_lib [OF assms(1)] assms(1) by (simp add: in_tree_def)
  then have "b_parent ?l = br_lib br \<or> br_branches br (b_parent ?l) = None"
    using assms(1) unfolding tree_ok_def by blast
  then have "(br_branches br |` (- insert (br_lib br) R)) (b_parent ?l) = None"
    by (auto simp: restrict_map_def)
  then have "prune_immutable_walk (br_branches br |` (- insert (br_lib br) R)) (b_parent ?l) =
      Some (br_branches br |` (- insert (br_lib br) R), [])"
    by (simp add: prune_immutable_walk.simps)
  moreover have "(br_branches br |` (- R)) (br_lib br) = Some ?l" using lib l assms(1) anc by simp
  ultimately have "prune_immutable_walk (br_branches br |` (- R)) (b_id ?l) =
      Some (br_branches br |` (- insert (br_lib br) R), [(b_slot ?l, b_id ?l)])"
    using assms(1)
    by (simp add: prune_immutable_walk.simps [of _ "br_lib br"] restrict_map_insert del: fun_upd_None_restrict)
  then show ?case using assms(1) anc by (simp add: tip_to_lib_blocks.simps [of br ?l])
next
  case (step a p)
  have anc: "{y. ancestor br y a} = insert a {y. ancestor br y p}"
    using ancestor_parent [of br _ a] step(2) ancestor.intros by fastforce
  have "b_id a \<notin> b_id ` {y. ancestor br y p}"
  proof
    assume "b_id a \<in> b_id ` {y. ancestor br y p}"
    then obtain y where y: "ancestor br y p" "b_id a = b_id y" by blast
    then have "y = a" using in_tree_id_eq ancestor_in_tree [OF y(1) assms(1) step(3)] step(1) by metis
    then show False
      using ancestor_length [OF y(1) assms(1) step(3)] parent_length(1) [OF assms(1) step(1,2)] by simp
  qed
  then obtain ys where ys: "prune_immutable_walk (br_branches br |` (- insert (b_id a) R)) (b_id p) =
      Some (br_branches br |` (- (insert (b_id a) R \<union> b_id ` {y. ancestor br y p})), map (\<lambda>y. (b_slot y, b_id y)) ys)"
    "tip_to_lib_blocks br p = Some ys"
    using step.IH [of "insert (b_id a) R"] step.prems anc by auto
  have "(br_branches br |` (- R)) (b_id a) = Some a"
    using step(1) step.prems anc by (simp add: in_tree_def)
  then have w: "prune_immutable_walk (br_branches br |` (- R)) (b_id a) =
      Some (br_branches br |` (- (insert (b_id a) R \<union> b_id ` {y. ancestor br y p})),
            map (\<lambda>y. (b_slot y, b_id y)) (a # ys))"
    using ys(1) parent_id [OF assms(1) step(2)]
    by (simp add: prune_immutable_walk.simps [of _ "b_id a"] restrict_map_insert del: fun_upd_None_restrict)
  moreover have "tip_to_lib_blocks br a = Some (a # ys)"
    using ys(2) step(2) in_tree_lib_iff [OF assms(1) step(1)] assms(1)
    by (auto simp: tip_to_lib_blocks.simps [of br a])
  moreover have e: "insert (b_id a) R \<union> b_id ` {y. ancestor br y p} = R \<union> b_id ` {y. ancestor br y a}"
    using anc by auto
  ultimately show ?case using w [unfolded e] by blast
qed

subsection \<open>The tree above the new LIB\<close>

definition descendants :: "'id branches \<Rightarrow> 'id branch \<Rightarrow> 'id set" where
  "descendants br l = b_id ` {y. in_tree br y \<and> ancestor br l y}"

definition cut_at :: "'id branches \<Rightarrow> 'id branch \<Rightarrow> 'id branches" where
  "cut_at br l = \<lparr>br_branches = br_branches br |` descendants br l,
                  br_tips = br_tips br \<inter> descendants br l, br_lib = b_id l\<rparr>"

definition stale_ids :: "'id branches \<Rightarrow> 'id branch \<Rightarrow> 'id branch \<Rightarrow> 'id set" where
  "stale_ids br loc l = b_id ` {y. in_tree br y \<and> \<not> ancestor br y loc \<and> \<not> ancestor br l y}"

lemma id_image_iff: "in_tree br y \<Longrightarrow> b_id y \<in> b_id ` {z. in_tree br z \<and> P z} \<longleftrightarrow> P y"
  using in_tree_id_eq by fast

lemma descendants_iff: "in_tree br y \<Longrightarrow> b_id y \<in> descendants br l \<longleftrightarrow> ancestor br l y"
  unfolding descendants_def by (rule id_image_iff)

lemma lookup_cut_at:
  assumes "tree_ok br"
  shows "br_branches (cut_at br l) i = Some b \<longleftrightarrow> br_branches br i = Some b \<and> ancestor br l b"
  using in_tree_lookup [OF assms, of i b] descendants_iff [of br b l]
  by (auto simp: cut_at_def restrict_map_def descendants_def in_tree_def)

lemma in_tree_cut_at: "tree_ok br \<Longrightarrow> in_tree (cut_at br l) b \<longleftrightarrow> in_tree br b \<and> ancestor br l b"
  by (simp add: in_tree_def lookup_cut_at)

lemma parent_cut_at:
  assumes "tree_ok br" "in_tree br b" "ancestor br l b" "b \<noteq> l"
  shows "parent (cut_at br l) b = parent br b"
proof -
  obtain p where p: "parent br b = Some p" "ancestor br l p" using ancestor_parent assms(3,4) by metis
  then have "br_branches br (b_parent b) = Some p" "b_parent b \<noteq> b_id b"
    by (auto simp: parent_def split: if_splits)
  then show ?thesis using p lookup_cut_at [OF assms(1), of l "b_parent b" p] by (simp add: parent_def)
qed

lemma cut_at_tree:
  assumes "tree_ok br" "in_tree br l"
  shows "tree_ok (cut_at br l)" "lib_block (cut_at br l) = l"
proof -
  note lk = lookup_cut_at [OF assms(1)]
  have l: "br_branches (cut_at br l) (b_id l) = Some l"
    using assms(2) ancestor_refl lk by (auto simp: in_tree_def)
  then show "lib_block (cut_at br l) = l" by (simp add: lib_block_def cut_at_def)
  have fin: "finite (dom (br_branches (cut_at br l)))"
    using assms(1) by (simp add: tree_ok_def cut_at_def)
  have lib: "br_lib (cut_at br l) = b_id l" by (simp add: cut_at_def)
  have ids: "b_id b = i" if "br_branches (cut_at br l) i = Some b" for i b
    using that lk in_tree_lookup [OF assms(1)] by blast
  have par: "\<exists>p. br_branches (cut_at br l) (b_parent b) = Some p \<and> b_length b = Suc (b_length p) \<and> b_slot p \<le> b_slot b"
    if b: "br_branches (cut_at br l) i = Some b" "i \<noteq> b_id l" for i b
  proof -
    have tb: "in_tree br b" "b_id b = i" "ancestor br l b" "b \<noteq> l"
      using b lk in_tree_lookup [OF assms(1)] by auto
    then obtain p where p: "parent br b = Some p" "ancestor br l p" using ancestor_parent by metis
    then have "br_branches br (b_parent b) = Some p" by (auto simp: parent_def split: if_splits)
    then show ?thesis using lk p(2) parent_length [OF assms(1) tb(1) p(1)] by auto
  qed
  have root: "b_parent l = b_id l \<or> br_branches (cut_at br l) (b_parent l) = None"
  proof (rule ccontr)
    assume "\<not> ?thesis"
    then obtain q where q: "br_branches br (b_parent l) = Some q" "ancestor br l q" "b_parent l \<noteq> b_id l"
      using lk by (auto simp: option.discI)
    then have "parent br l = Some q" by (simp add: parent_def)
    then show False
      using parent_length(1) [OF assms] parent_in_tree [OF assms(1)] ancestor_length [OF q(2) assms(1)] by fastforce
  qed
  show "tree_ok (cut_at br l)"
    by (rule tree_okI [of "cut_at br l" l, unfolded lib])
      (fact fin, fact l, erule ids, erule (1) par, fact root)
qed

lemma cut_at_ancestor:
  assumes "tree_ok br" "in_tree br l" "in_tree br b" "ancestor br l b"
  shows "ancestor (cut_at br l) a b \<longleftrightarrow> ancestor br a b \<and> ancestor br l a"
  using assms(1,3,4)
proof (induction rule: tree_induct)
  case lib
  then have l: "l = lib_block br" using ancestor_parent [OF lib(1)] assms(1) by fastforce
  have "x = lib_block br" if "ancestor (cut_at br l) x (lib_block br)" for x
    using ancestor_parent [OF that] parent_lib [OF cut_at_tree(1) [OF assms(1,2)]] cut_at_tree(2) [OF assms(1,2)] l by auto
  moreover have "x = lib_block br" if "ancestor br x (lib_block br)" for x
    using ancestor_parent [OF that] assms(1) by auto
  ultimately show ?case using ancestor_refl l by metis
next
  case (step b p)
  show ?case
  proof (cases "b = l")
    case True
    have "parent (cut_at br l) l = None"
      using parent_lib [OF cut_at_tree(1) [OF assms(1,2)]] cut_at_tree(2) [OF assms(1,2)] by simp
    then have "ancestor (cut_at br l) a l \<longleftrightarrow> a = l" using ancestor_parent ancestor_refl by fastforce
    then show ?thesis using True ancestor_antisym [OF _ _ assms(1,2)] ancestor_refl by metis
  next
    case False
    then have lp: "ancestor br l p" using ancestor_parent [OF step(5)] step(2) by auto
    have pc: "parent (cut_at br l) b = Some p" using parent_cut_at [OF assms(1) step(1,5) False] step(2) by simp
    have "ancestor (cut_at br l) a b \<longleftrightarrow> a = b \<or> ancestor (cut_at br l) a p"
      using ancestor_parent pc ancestor.intros by fastforce
    moreover have "ancestor br a b \<longleftrightarrow> a = b \<or> ancestor br a p"
      using ancestor_parent step(2) ancestor.intros by fastforce
    ultimately show ?thesis using step.IH [OF lp] step(5) by blast
  qed
qed

lemma cut_at_tips:
  assumes "tree_ok br" "tips_ok br" "in_tree br l"
  shows "tips_ok (cut_at br l)"
proof -
  note lk = lookup_cut_at [OF assms(1)]
  have "i \<in> br_tips (cut_at br l) \<longleftrightarrow> i \<in> dom (br_branches (cut_at br l)) \<and>
      (\<forall>c b. br_branches (cut_at br l) c = Some b \<longrightarrow> b_parent b = i \<longrightarrow> c = i)" for i
  proof (cases "i \<in> descendants br l")
    case False
    then have "i \<notin> br_tips (cut_at br l)" "i \<notin> dom (br_branches (cut_at br l))"
      by (simp_all add: cut_at_def)
    then show ?thesis by blast
  next
    case True
    then obtain y where y: "in_tree br y" "b_id y = i" "ancestor br l y" by (auto simp: descendants_def)
    have "ancestor br l b" if b: "br_branches br c = Some b" "b_parent b = i" "c \<noteq> i" for c b
    proof -
      have "parent br b = Some y"
        using parent_of_child [OF assms(1) _ _ y(1)] in_tree_lookup [OF assms(1) b(1)] b y(2) by simp
      then show ?thesis using y(3) ancestor_step by blast
    qed
    then have "(\<forall>c b. br_branches (cut_at br l) c = Some b \<longrightarrow> b_parent b = i \<longrightarrow> c = i) \<longleftrightarrow>
        (\<forall>c b. br_branches br c = Some b \<longrightarrow> b_parent b = i \<longrightarrow> c = i)"
      using lk by blast
    moreover have "i \<in> br_tips (cut_at br l) \<longleftrightarrow> i \<in> br_tips br" using True by (simp add: cut_at_def)
    moreover have "i \<in> dom (br_branches (cut_at br l))" "i \<in> dom (br_branches br)"
      using True y by (auto simp: cut_at_def in_tree_def)
    ultimately show ?thesis using assms(2) unfolding tips_ok_def by blast
  qed
  then show ?thesis unfolding tips_ok_def by blast
qed

text \<open>Forks that leave the local chain below \<open>l\<close> are exactly those that do not descend from \<open>l\<close>.\<close>

lemma lca_below_iff:
  assumes "tree_ok br" "in_tree br loc" "in_tree br t" "ancestor br l loc" "is_lca br loc t c"
  shows "b_length c < b_length l \<longleftrightarrow> \<not> ancestor br l t"
proof
  have c: "ancestor br c loc" "ancestor br c t" and tc: "in_tree br c"
    using assms(5) ancestor_in_tree [OF _ assms(1,2)] by (auto simp: is_lca_def)
  show "\<not> ancestor br l t" if "b_length c < b_length l"
    using that assms(4,5) ancestor_length [of br l c, OF _ assms(1) tc] unfolding is_lca_def by fastforce
  show "b_length c < b_length l" if "\<not> ancestor br l t"
  proof (rule ccontr)
    assume "\<not> ?thesis"
    then have "ancestor br l c" using ancestors_linear [OF assms(4) c(1) assms(1,2)] by simp
    then show False using that c(2) ancestor_trans by blast
  qed
qed

lemma off_chain_stale:
  assumes "tree_ok br" "tips_ok br" "in_tree br loc" "ancestor br l loc"
    "\<forall>f \<in> set fs. fork_info_ok br loc (b_length l) f"
    "\<And>t c. in_tree br t \<Longrightarrow> b_id t \<in> br_tips br \<Longrightarrow> t \<noteq> loc \<Longrightarrow> is_lca br loc t c \<Longrightarrow>
       b_length c < b_length l \<Longrightarrow> \<exists>f \<in> set fs. fd_tip f = t"
  shows "off_chain br loc fs = stale_ids br loc l"
    "br_tips br - (b_id \<circ> fd_tip) ` set fs = br_tips br \<inter> descendants br l"
proof -
  have info: "in_tree br (fd_tip f)" "\<not> ancestor br l (fd_tip f)" if "f \<in> set fs" for f
    using that assms(5) lca_below_iff [OF assms(1,3) _ assms(4)] by (auto simp: fork_info_ok_def)
  have pruned: "\<exists>f \<in> set fs. fd_tip f = t" if t: "in_tree br t" "b_id t \<in> br_tips br" "\<not> ancestor br l t" for t
  proof -
    obtain c where "is_lca br loc t c" using lca_returns [OF assms(1,3) t(1)] by blast
    moreover have "t \<noteq> loc" using t(3) assms(4) by blast
    ultimately show ?thesis using assms(6) t lca_below_iff [OF assms(1,3) t(1) assms(4)] by blast
  qed
  have "(\<not> ancestor br y loc \<and> (\<exists>f \<in> set fs. ancestor br y (fd_tip f))) \<longleftrightarrow>
      (in_tree br y \<and> \<not> ancestor br y loc \<and> \<not> ancestor br l y)" (is "?L \<longleftrightarrow> ?R") for y
  proof
    assume ?L
    then show ?R using info ancestor_in_tree [OF _ assms(1)] ancestor_trans by metis
  next
    assume R: ?R
    then obtain t where t: "in_tree br t" "b_id t \<in> br_tips br" "ancestor br y t"
      using tip_above [OF assms(1,2)] by blast
    have "\<not> ancestor br l t"
    proof
      assume "ancestor br l t"
      then have "ancestor br l y \<or> ancestor br y l"
        using ancestors_linear [OF _ t(3) assms(1) t(1), of l] ancestors_linear [OF t(3) _ assms(1) t(1), of l]
        by linarith
      then show False using R assms(4) ancestor_trans by blast
    qed
    then show ?L using pruned [OF t(1,2)] R t(3) by blast
  qed
  then show "off_chain br loc fs = stale_ids br loc l" by (simp add: off_chain_def stale_ids_def)
  have "i \<in> (b_id \<circ> fd_tip) ` set fs \<longleftrightarrow> i \<notin> descendants br l" if i: "i \<in> br_tips br" for i
  proof -
    obtain t where t: "in_tree br t" "b_id t = i"
      using i assms(2) in_tree_lookup [OF assms(1)] unfolding tips_ok_def by blast
    have "i \<in> (b_id \<circ> fd_tip) ` set fs \<longleftrightarrow> (\<exists>f \<in> set fs. fd_tip f = t)"
      using info(1) in_tree_id_eq [OF _ t(1)] t(2) by force
    also have "\<dots> \<longleftrightarrow> \<not> ancestor br l t" using info(2) pruned t i by blast
    finally show ?thesis using descendants_iff [OF t(1), of l] unfolding t(2) by simp
  qed
  then show "br_tips br - (b_id \<circ> fd_tip) ` set fs = br_tips br \<inter> descendants br l" by blast
qed

subsection \<open>Moving the LIB\<close>

lemma whole_tree_above_lib:
  assumes "tree_ok br" "tips_ok br"
  shows "cut_at br (lib_block br) = br"
proof -
  have d: "descendants br (lib_block br) = dom (br_branches br)"
  proof
    show "descendants br (lib_block br) \<subseteq> dom (br_branches br)"
      by (auto simp: descendants_def in_tree_def)
    show "dom (br_branches br) \<subseteq> descendants br (lib_block br)"
      using in_tree_lookup [OF assms(1)] lib_ancestor [OF assms(1)] by (fastforce simp: descendants_def)
  qed
  have "br_branches br |` dom (br_branches br) = br_branches br" by (auto simp: restrict_map_def domIff)
  moreover have "br_tips br \<inter> dom (br_branches br) = br_tips br" using assms(2) by (auto simp: tips_ok_def)
  ultimately show ?thesis using assms(1) by (simp add: cut_at_def d)
qed

lemma stale_ids_lib: "tree_ok br \<Longrightarrow> stale_ids br loc (lib_block br) = {}"
  using lib_ancestor by (auto simp: stale_ids_def)

lemma ancestor_id_image:
  assumes "tree_ok br" "in_tree br p" "in_tree br b"
  shows "b_id b \<in> b_id ` {y. ancestor br y p} \<longleftrightarrow> ancestor br b p"
proof
  assume "b_id b \<in> b_id ` {y. ancestor br y p}"
  then obtain y where y: "ancestor br y p" "b_id b = b_id y" by auto
  then have "b = y" using in_tree_id_eq [OF assms(3)] ancestor_in_tree [OF y(1) assms(1,2)] by metis
  with y(1) show "ancestor br b p" by simp
qed simp

lemma remaining_above_lib:
  assumes "tree_ok br" "in_tree br loc" "ancestor br l loc" "parent br l = Some p"
  shows "br_branches br |` (- (stale_ids br loc l \<union> b_id ` {y. ancestor br y p})) = br_branches br |` descendants br l"
proof (rule ext)
  fix i
  have tl: "in_tree br l" using ancestor_in_tree [OF assms(3,1,2)] .
  have tp: "in_tree br p" using parent_in_tree [OF assms(1,4)] .
  show "(br_branches br |` (- (stale_ids br loc l \<union> b_id ` {y. ancestor br y p}))) i =
      (br_branches br |` descendants br l) i"
  proof (cases "br_branches br i")
    case (Some b)
    then have b: "in_tree br b" "b_id b = i" using in_tree_lookup [OF assms(1)] by auto
    have anc: "i \<in> b_id ` {y. ancestor br y p} \<longleftrightarrow> ancestor br b p"
      unfolding b(2) [symmetric] by (rule ancestor_id_image [OF assms(1) tp b(1)])
    have st: "i \<in> stale_ids br loc l \<longleftrightarrow> \<not> ancestor br b loc \<and> \<not> ancestor br l b"
      unfolding b(2) [symmetric] stale_ids_def by (rule id_image_iff [OF b(1)])
    have de: "i \<in> descendants br l \<longleftrightarrow> ancestor br l b"
      unfolding b(2) [symmetric] by (rule descendants_iff [OF b(1)])
    have "ancestor br l b" if "ancestor br b loc" "\<not> ancestor br b p"
    proof (rule ccontr)
      assume n: "\<not> ancestor br l b"
      then have "b_length b < b_length l" using ancestors_linear [OF assms(3) that(1) assms(1,2)] by force
      then have "ancestor br b l" using ancestors_linear [OF that(1) assms(3,1,2)] by simp
      then show False using that(2) n ancestor_parent [of br b l] assms(4) ancestor_refl by auto
    qed
    moreover have "\<not> ancestor br b p" if "ancestor br l b"
      using ancestor_length [OF _ assms(1) tp] ancestor_length [OF that assms(1) b(1)]
        parent_length(1) [OF assms(1) tl assms(4)] by fastforce
    ultimately show ?thesis using anc st de by (auto simp: restrict_map_def)
  qed (simp add: restrict_map_def)
qed

lemma prune_stale_forks_returns:
  assumes "engine_ok c" "iterates iter_tips" "ancestor (cr_branches c) l (cr_local_chain c)"
    "c1 = c\<lparr>cr_branches := (cr_branches c)\<lparr>br_lib := b_id l\<rparr>\<rparr>"
  shows "\<exists>stale. prune_stale_forks iter_tips c1 (b_length (cr_local_chain c) - b_length l) =
      Some (c\<lparr>cr_branches :=
        \<lparr>br_branches = br_branches (cr_branches c) |` (- stale_ids (cr_branches c) (cr_local_chain c) l),
         br_tips = br_tips (cr_branches c) \<inter> descendants (cr_branches c) l, br_lib = b_id l\<rparr>\<rparr>, stale) \<and>
    set stale = stale_ids (cr_branches c) (cr_local_chain c) l"
proof -
  let ?br = "cr_branches c" and ?loc = "cr_local_chain c"
  let ?dep = "b_length ?loc - b_length l"
  have ok: "tree_ok ?br" "tips_ok ?br" "in_tree ?br ?loc" using assms(1) by (auto simp: engine_ok_def)
  have d: "b_length ?loc - ?dep = b_length l" using ancestor_length [OF assms(3) ok(1,3)] by simp
  have c1: "cr_branches c1 = ?br\<lparr>br_lib := b_id l\<rparr>" "cr_local_chain c1 = ?loc" using assms(4) by simp_all
  obtain fs where fs: "prunable_forks iter_tips c1 ?dep = Some fs"
    "\<forall>f \<in> set fs. fork_info_ok ?br ?loc (b_length l) f"
    "\<And>t x. in_tree ?br t \<Longrightarrow> b_id t \<in> br_tips ?br \<Longrightarrow> t \<noteq> ?loc \<Longrightarrow> is_lca ?br ?loc t x \<Longrightarrow>
       b_length x < b_length l \<Longrightarrow> \<exists>f \<in> set fs. fd_tip f = t"
    using prunable_forks_returns [OF ok(1,2) assms(2) ok(3) c1, of ?dep] unfolding d by auto
  obtain r where r: "fold_run (\<lambda>(b, removed) info. do { (b', rs) \<leftarrow> prune_fork b info; Some (b', removed @ rs) })
      (?br\<lparr>br_lib := b_id l\<rparr>, []) fs = Some r"
    "fst r = \<lparr>br_branches = br_branches ?br |` (- off_chain ?br ?loc fs),
             br_tips = br_tips ?br - (b_id \<circ> fd_tip) ` set fs, br_lib = b_id l\<rparr>"
    "set (snd r) = off_chain ?br ?loc fs"
    using prune_forks_returns [OF ok(1) fs(2)] by blast
  note stale = off_chain_stale [OF ok assms(3) fs(2,3)]
  show ?thesis
    using fs(1) r stale assms(4) by (cases r) (simp add: prune_stale_forks_def)
qed

lemma prune_immutable_blocks_returns:
  assumes "engine_ok c" "ancestor (cr_branches c) l (cr_local_chain c)" "parent (cr_branches c) l = Some p"
  shows "\<exists>ys. prune_immutable_blocks (c\<lparr>cr_branches :=
        \<lparr>br_branches = br_branches (cr_branches c) |` (- stale_ids (cr_branches c) (cr_local_chain c) l),
         br_tips = br_tips (cr_branches c) \<inter> descendants (cr_branches c) l, br_lib = b_id l\<rparr>\<rparr>) =
      Some (c\<lparr>cr_branches := cut_at (cr_branches c) l\<rparr>, map (\<lambda>y. (b_slot y, b_id y)) ys) \<and>
    tip_to_lib_blocks (cr_branches c) l = Some (l # ys)"
proof -
  let ?br = "cr_branches c" and ?loc = "cr_local_chain c"
  let ?R = "stale_ids ?br ?loc l"
  have ok: "tree_ok ?br" "in_tree ?br ?loc" using assms(1) by (auto simp: engine_ok_def)
  have tl: "in_tree ?br l" using ancestor_in_tree [OF assms(2) ok] .
  have tp: "in_tree ?br p" using parent_in_tree [OF ok(1) assms(3)] .
  have anc: "ancestor ?br y ?loc" if "ancestor ?br y l" for y using that assms(2) ancestor_trans by blast
  have out: "b_id y \<notin> ?R" if "ancestor ?br y l" for y
    unfolding stale_ids_def id_image_iff [OF ancestor_in_tree [OF that ok(1) tl]] using anc [OF that] by blast
  then have "?R \<inter> b_id ` {y. ancestor ?br y p} = {}" using ancestor_step [OF assms(3)] by blast
  then obtain ys where ys: "prune_immutable_walk (br_branches ?br |` (- ?R)) (b_id p) =
      Some (br_branches ?br |` descendants ?br l, map (\<lambda>y. (b_slot y, b_id y)) ys)"
    "tip_to_lib_blocks ?br p = Some ys"
    using prune_immutable_walk_returns [OF ok(1) tp, of ?R] unfolding remaining_above_lib [OF ok assms(2,3)]
    by blast
  have "(br_branches ?br |` (- ?R)) (b_id l) = Some l"
    using out [OF ancestor_refl] tl by (simp add: in_tree_def)
  then have "prune_immutable_blocks (c\<lparr>cr_branches := \<lparr>br_branches = br_branches ?br |` (- ?R),
         br_tips = br_tips ?br \<inter> descendants ?br l, br_lib = b_id l\<rparr>\<rparr>) =
      Some (c\<lparr>cr_branches := cut_at ?br l\<rparr>, map (\<lambda>y. (b_slot y, b_id y)) ys)"
    using ys(1) parent_id [OF ok(1) assms(3)]
    by (simp add: prune_immutable_blocks_def lib_branch_def cut_at_def)
  moreover have "tip_to_lib_blocks ?br l = Some (l # ys)"
    using ys(2) assms(3) in_tree_lib_iff [OF ok(1) tl] ok(1) by (auto simp: tip_to_lib_blocks.simps [of ?br l])
  ultimately show ?thesis by blast
qed

lemma update_lib_returns:
  assumes "engine_ok c" "iterates iter_tips"
  shows "\<exists>l ys. state_lib c = Some (b_id l) \<and> in_tree (cr_branches c) l \<and>
    ancestor (cr_branches c) l (cr_local_chain c) \<and> tip_to_lib_blocks (cr_branches c) l = Some (l # ys) \<and>
    update_lib iter_tips c = Some (c\<lparr>cr_branches := cut_at (cr_branches c) l\<rparr>,
      \<lparr>pb_stale_blocks = stale_ids (cr_branches c) (cr_local_chain c) l,
       pb_immutable_blocks = fold (\<lambda>(sl, i). btree_insert sl i) (map (\<lambda>y. (b_slot y, b_id y)) ys) []\<rparr>) \<and>
    (cr_state c = Online \<longrightarrow>
      (\<exists>k. k_at (cr_era_schedule c) (b_slot l) = Some k \<and> b_length (cr_local_chain c) - b_length l \<le> k) \<and>
      (\<forall>d. ancestor (cr_branches c) d l \<and> d \<noteq> l \<longrightarrow>
        (\<exists>k. k_at (cr_era_schedule c) (b_slot d) = Some k \<and> k < b_length (cr_local_chain c) - b_length d)))"
proof -
  let ?br = "cr_branches c" and ?loc = "cr_local_chain c"
  have ok: "tree_ok ?br" "tips_ok ?br" "in_tree ?br ?loc" using assms(1) by (auto simp: engine_ok_def)
  obtain l where l: "state_lib c = Some (b_id l)" "in_tree ?br l" "ancestor ?br l ?loc"
    "cr_state c = Online \<longrightarrow>
      (\<exists>k. k_at (cr_era_schedule c) (b_slot l) = Some k \<and> b_length ?loc - b_length l \<le> k) \<and>
      (\<forall>d. ancestor ?br d l \<and> d \<noteq> l \<longrightarrow> (\<exists>k. k_at (cr_era_schedule c) (b_slot d) = Some k \<and> k < b_length ?loc - b_length d))"
    using state_lib_returns [OF assms(1)] by blast
  show ?thesis
  proof (cases "l = lib_block ?br")
    case True
    then have "update_lib iter_tips c = Some (c, no_pruned_blocks)"
      using l(1) ok(1) by (simp add: update_lib_def)
    moreover have "tip_to_lib_blocks ?br l = Some [l]"
      using True ok(1) by (simp add: tip_to_lib_blocks.simps [of ?br "lib_block ?br"])
    ultimately show ?thesis
      using True l whole_tree_above_lib [OF ok(1,2)] stale_ids_lib [OF ok(1)]
      by (intro exI [of _ l] exI [of _ "[]"]) (simp add: no_pruned_blocks_def)
  next
    case False
    then obtain p where p: "parent ?br l = Some p" using parent_Some_iff_not_lib [OF ok(1) l(2)] by auto
    have ne: "br_lib ?br \<noteq> b_id l" using False in_tree_lib_iff [OF ok(1) l(2)] by auto
    let ?c1 = "c\<lparr>cr_branches := ?br\<lparr>br_lib := b_id l\<rparr>\<rparr>"
    have dep: "lib_depth ?c1 = Some (b_length ?loc - b_length l)"
      using l(2) ancestor_length [OF l(3) ok(1,3)]
      by (simp add: lib_depth_def lib_branch_def in_tree_def checked_sub_def)
    obtain stale where stale: "prune_stale_forks iter_tips ?c1 (b_length ?loc - b_length l) =
        Some (c\<lparr>cr_branches := \<lparr>br_branches = br_branches ?br |` (- stale_ids ?br ?loc l),
           br_tips = br_tips ?br \<inter> descendants ?br l, br_lib = b_id l\<rparr>\<rparr>, stale)"
      "set stale = stale_ids ?br ?loc l"
      using prune_stale_forks_returns [OF assms l(3) refl] by blast
    obtain ys where ys: "prune_immutable_blocks (c\<lparr>cr_branches :=
          \<lparr>br_branches = br_branches ?br |` (- stale_ids ?br ?loc l),
           br_tips = br_tips ?br \<inter> descendants ?br l, br_lib = b_id l\<rparr>\<rparr>) =
        Some (c\<lparr>cr_branches := cut_at ?br l\<rparr>, map (\<lambda>y. (b_slot y, b_id y)) ys)"
      "tip_to_lib_blocks ?br l = Some (l # ys)"
      using prune_immutable_blocks_returns [OF assms(1) l(3) p] by blast
    have "update_lib iter_tips c = Some (c\<lparr>cr_branches := cut_at ?br l\<rparr>,
      \<lparr>pb_stale_blocks = stale_ids ?br ?loc l,
       pb_immutable_blocks = fold (\<lambda>(sl, i). btree_insert sl i) (map (\<lambda>y. (b_slot y, b_id y)) ys) []\<rparr>)"
      unfolding update_lib_def using l(1) ne dep stale ys(1) by simp
    then show ?thesis using l ys(2) by blast
  qed
qed

lemma update_lib_engine_ok:
  assumes "engine_ok c" "in_tree (cr_branches c) l" "ancestor (cr_branches c) l (cr_local_chain c)"
  shows "engine_ok (c\<lparr>cr_branches := cut_at (cr_branches c) l\<rparr>)"
proof -
  have ok: "tree_ok (cr_branches c)" "tips_ok (cr_branches c)" "in_tree (cr_branches c) (cr_local_chain c)"
    "b_id (cr_local_chain c) \<in> br_tips (cr_branches c)" "eras_ok (cr_era_schedule c)"
    using assms(1) by (auto simp: engine_ok_def)
  then show ?thesis
    using cut_at_tree(1) [OF ok(1) assms(2)] cut_at_tips [OF ok(1,2) assms(2)] in_tree_cut_at [OF ok(1)]
      descendants_iff [OF ok(3)] assms(3)
    by (simp add: engine_ok_def) (simp add: cut_at_def)
qed

end
