(* ===== verification/EngineSafety.thy ===== *)
theory EngineSafety
  imports EnginePruning
begin

text \<open>
  The properties of the consensus engine: every reachable engine is well formed, receiving a block
  returns (an error or a new engine), the LIB only advances, the reported canonical change and the
  pruned blocks are exact, and online the engine follows the longest chain within \<open>k\<close>.
\<close>

subsection \<open>Receiving a block\<close>

definition height_fits :: "'id branches \<Rightarrow> 'id \<Rightarrow> bool" where
  "height_fits br p \<longleftrightarrow> (\<forall>pb. br_branches br p = Some pb \<longrightarrow> b_length pb + 1 < 2 ^ 64)"

lemma apply_header_returns:
  assumes "height_fits br p"
  shows "\<exists>r. apply_header br i p sl us = Some r \<and>
    (\<forall>e. r = Inl e \<longleftrightarrow> (e = ParentMissing p \<and> br_branches br p = None) \<or>
       (e = InvalidSlot p \<and> (\<exists>pb. br_branches br p = Some pb \<and> sl < b_slot pb)))"
  using assms
  by (auto simp: apply_header_def height_fits_def checked_add_def split: option.splits)

lemma local_chain_after_header:
  assumes "engine_ok c" "fresh_block (cr_branches c) i" "apply_header (cr_branches c) i p sl us = Some (Inr br)"
  shows "in_tree br (cr_local_chain c)"
    "b_id (cr_local_chain c) \<in> br_tips br \<or>
     (\<exists>h. in_tree br h \<and> b_id h \<in> br_tips br \<and> parent br h = Some (cr_local_chain c))"
proof -
  have ok: "tree_ok (cr_branches c)" "in_tree (cr_branches c) (cr_local_chain c)"
    "b_id (cr_local_chain c) \<in> br_tips (cr_branches c)"
    using assms(1) by (auto simp: engine_ok_def)
  show "in_tree br (cr_local_chain c)" using apply_header_tree(2) [OF ok(1) assms(2,3) ok(2)] .
  obtain pb new where h: "in_tree (cr_branches c) pb" "b_id pb = p" "in_tree br new" "b_id new = i"
    "parent br new = Some pb" "br_tips br = insert i (br_tips (cr_branches c) - {p})"
    by (rule apply_header_new [OF ok(1) assms(2,3)])
  show "b_id (cr_local_chain c) \<in> br_tips br \<or>
     (\<exists>h. in_tree br h \<and> b_id h \<in> br_tips br \<and> parent br h = Some (cr_local_chain c))"
  proof (cases "b_id (cr_local_chain c) = p")
    case True
    then have "pb = cr_local_chain c" using in_tree_id_eq [OF h(1) ok(2)] h(2) by simp
    then show ?thesis using h by blast
  next
    case False
    then show ?thesis using h(6) ok(3) by simp
  qed
qed

lemma receive_block_step:
  assumes "engine_ok c" "iterates iter_tips" "fresh_block (cr_branches c) i"
    "apply_header (cr_branches c) i p sl us = Some (Inr br)"
  obtains new l ys reorged newly common where
    "fork_choice iter_tips (c\<lparr>cr_branches := br\<rparr>) = Some new"
    "engine_ok (c\<lparr>cr_branches := br, cr_local_chain := new\<rparr>)"
    "tip_to_lib_blocks br (cr_local_chain c) = Some (reorged @ common)"
    "tip_to_lib_blocks br new = Some (newly @ common)" "set reorged \<inter> set newly = {}"
    "in_tree br l" "ancestor br l new" "tip_to_lib_blocks br l = Some (l # ys)"
    "cr_state c = Online \<longrightarrow>
      (\<exists>k. k_at (cr_era_schedule c) (b_slot l) = Some k \<and> b_length new - b_length l \<le> k)"
    "cr_state c = Bootstrapping \<longrightarrow> l = lib_block br"
    "receive_block_with_canonical_change iter_tips c i p sl us = Some (Inr
       (c\<lparr>cr_local_chain := new, cr_branches := cut_at br l\<rparr>,
        \<lparr>ro_pruned_blocks = \<lparr>pb_stale_blocks = stale_ids br new l,
           pb_immutable_blocks = fold (\<lambda>(sl, i). btree_insert sl i) (map (\<lambda>y. (b_slot y, b_id y)) ys) []\<rparr>,
         ro_reorged_blocks = map b_id reorged, ro_newly_canonical_blocks = map b_id (rev newly)\<rparr>))"
proof -
  have ok: "tree_ok (cr_branches c)" "tips_ok (cr_branches c)" "eras_ok (cr_era_schedule c)"
    using assms(1) by (auto simp: engine_ok_def)
  have br: "tree_ok br" "tips_ok br"
    using apply_header_tree(1) [OF ok(1) assms(3,4)] apply_header_tips [OF ok(1,2) assms(3,4)] by auto
  note loc = local_chain_after_header [OF assms(1,3,4)]
  let ?c1 = "c\<lparr>cr_branches := br\<rparr>"
  obtain new where new: "fork_choice iter_tips ?c1 = Some new" "in_tree br new" "b_id new \<in> br_tips br"
    using fork_choice_tip [of ?c1 iter_tips] br ok(3) assms(2) loc by auto
  let ?c2 = "c\<lparr>cr_branches := br, cr_local_chain := new\<rparr>"
  have ok2: "engine_ok ?c2" using br new ok(3) by (simp add: engine_ok_def)
  obtain reorged newly common where cc:
    "canonical_change br (cr_local_chain c) new = Some (map b_id reorged, map b_id (rev newly))"
    "tip_to_lib_blocks br (cr_local_chain c) = Some (reorged @ common)"
    "tip_to_lib_blocks br new = Some (newly @ common)" "set reorged \<inter> set newly = {}"
    using canonical_change_returns [OF br(1) loc(1) new(2)] by blast
  obtain l ys where l: "state_lib ?c2 = Some (b_id l)" "in_tree br l" "ancestor br l new"
    "tip_to_lib_blocks br l = Some (l # ys)"
    "update_lib iter_tips ?c2 = Some (?c2\<lparr>cr_branches := cut_at br l\<rparr>,
      \<lparr>pb_stale_blocks = stale_ids br new l,
       pb_immutable_blocks = fold (\<lambda>(sl, i). btree_insert sl i) (map (\<lambda>y. (b_slot y, b_id y)) ys) []\<rparr>)"
    "cr_state c = Online \<longrightarrow>
      (\<exists>k. k_at (cr_era_schedule c) (b_slot l) = Some k \<and> b_length new - b_length l \<le> k)"
    using update_lib_returns [OF ok2 assms(2)] by fastforce
  have "cr_state c = Bootstrapping \<longrightarrow> l = lib_block br"
    using l(1) in_tree_lib_iff [OF br(1) l(2)] by (auto simp: state_lib_def)
  moreover have "receive_block_with_canonical_change iter_tips c i p sl us = Some (Inr
       (c\<lparr>cr_local_chain := new, cr_branches := cut_at br l\<rparr>,
        \<lparr>ro_pruned_blocks = \<lparr>pb_stale_blocks = stale_ids br new l,
           pb_immutable_blocks = fold (\<lambda>(sl, i). btree_insert sl i) (map (\<lambda>y. (b_slot y, b_id y)) ys) []\<rparr>,
         ro_reorged_blocks = map b_id reorged, ro_newly_canonical_blocks = map b_id (rev newly)\<rparr>))"
    unfolding receive_block_with_canonical_change_def
    using assms(4) new(1) cc(1) l(5) by simp
  ultimately show thesis using that new(1) ok2 cc(2-4) l(2-4,6) by blast
qed

subsection \<open>Reachable engines\<close>

text \<open>
  The engine starts at a genesis block, or at the LIB a previous run stored, and receives blocks or goes online.  The iteration order of the
  tips may differ from step to step; received blocks have unused identifiers.
\<close>

inductive reachable :: "'id cryptarchia \<Rightarrow> bool" where
  reach_start: "eras_ok es \<Longrightarrow> reachable (from_lib g p es st sl len us)"
| reach_block: "reachable c \<Longrightarrow> iterates iter_tips \<Longrightarrow> fresh_block (cr_branches c) i \<Longrightarrow>
    receive_block_with_canonical_change iter_tips c i p sl us = Some (Inr (c', outcome)) \<Longrightarrow> reachable c'"
| reach_online: "reachable c \<Longrightarrow> iterates iter_tips \<Longrightarrow> online iter_tips c = Some (c', pruned) \<Longrightarrow> reachable c'"

lemma from_lib_ok:
  assumes "eras_ok es"
  shows "engine_ok (from_lib g p es st sl len us)"
  using assms
  by (auto simp: engine_ok_def from_lib_def branches_from_lib_def in_tree_def tips_ok_def intro!: tree_okI split: if_splits)

lemma receive_block_header:
  assumes "receive_block_with_canonical_change iter_tips c i p sl us = Some (Inr r)"
  obtains br where "apply_header (cr_branches c) i p sl us = Some (Inr br)"
proof (cases "apply_header (cr_branches c) i p sl us")
  case None
  then show thesis using assms by (simp add: receive_block_with_canonical_change_def)
next
  case (Some a)
  then show thesis using assms that by (cases a) (simp_all add: receive_block_with_canonical_change_def)
qed

lemma receive_block_ok:
  assumes "engine_ok c" "iterates iter_tips" "fresh_block (cr_branches c) i"
    "receive_block_with_canonical_change iter_tips c i p sl us = Some (Inr (c', outcome))"
  shows "engine_ok c'"
proof (rule receive_block_header [OF assms(4)])
  fix br assume br: "apply_header (cr_branches c) i p sl us = Some (Inr br)"
  show ?thesis
  proof (rule receive_block_step [OF assms(1-3) br])
    fix new l ys reorged newly
    assume h: "engine_ok (c\<lparr>cr_branches := br, cr_local_chain := new\<rparr>)" "in_tree br l" "ancestor br l new"
      "receive_block_with_canonical_change iter_tips c i p sl us = Some (Inr
       (c\<lparr>cr_local_chain := new, cr_branches := cut_at br l\<rparr>,
        \<lparr>ro_pruned_blocks = \<lparr>pb_stale_blocks = stale_ids br new l,
           pb_immutable_blocks = fold (\<lambda>(sl, i). btree_insert sl i) (map (\<lambda>y. (b_slot y, b_id y)) ys) []\<rparr>,
         ro_reorged_blocks = map b_id reorged, ro_newly_canonical_blocks = map b_id (rev newly)\<rparr>))"
    then show ?thesis using update_lib_engine_ok [OF h(1), of l] assms(4) by simp
  qed
qed

lemma engine_ok_state [simp]: "engine_ok (c\<lparr>cr_state := st\<rparr>) = engine_ok c"
  by (simp add: engine_ok_def)

lemma online_step:
  assumes "engine_ok c" "iterates iter_tips"
  obtains l pb where "online iter_tips c = Some (c\<lparr>cr_state := Online, cr_branches := cut_at (cr_branches c) l\<rparr>, pb)"
    "in_tree (cr_branches c) l" "ancestor (cr_branches c) l (cr_local_chain c)"
    "\<exists>k. k_at (cr_era_schedule c) (b_slot l) = Some k \<and> b_length (cr_local_chain c) - b_length l \<le> k"
    "\<forall>d. ancestor (cr_branches c) d l \<and> d \<noteq> l \<longrightarrow>
      (\<exists>k. k_at (cr_era_schedule c) (b_slot d) = Some k \<and> k < b_length (cr_local_chain c) - b_length d)"
  using update_lib_returns [of "c\<lparr>cr_state := Online\<rparr>" iter_tips] assms
  by (auto simp: online_def)

lemma online_ok:
  assumes "engine_ok c" "iterates iter_tips" "online iter_tips c = Some (c', pb)"
  shows "engine_ok c'"
proof (rule online_step [OF assms(1,2)])
  fix l pb'
  assume "online iter_tips c = Some (c\<lparr>cr_state := Online, cr_branches := cut_at (cr_branches c) l\<rparr>, pb')"
    "in_tree (cr_branches c) l" "ancestor (cr_branches c) l (cr_local_chain c)"
  then show ?thesis using update_lib_engine_ok [of "c\<lparr>cr_state := Online\<rparr>" l] assms(1,3) by simp
qed

lemma reachable_ok: "reachable c \<Longrightarrow> engine_ok c"
proof (induction rule: reachable.induct)
  case (reach_start es g p st sl len us)
  then show ?case by (rule from_lib_ok)
qed (auto intro: receive_block_ok online_ok)

subsection \<open>The longest chain\<close>

definition k_mono :: "config era_schedule \<Rightarrow> bool" where
  "k_mono es \<longleftrightarrow> (\<forall>s s' k k'. s \<le> s' \<longrightarrow> k_at es s = Some k \<longrightarrow> k_at es s' = Some k' \<longrightarrow> k \<le> k')"

text \<open>No tip is longer than the local chain, and the LIB is within the \<open>k\<close> of its era.\<close>

definition on_longest_chain :: "'id cryptarchia \<Rightarrow> bool" where
  "on_longest_chain c \<longleftrightarrow>
     (\<forall>b. in_tree (cr_branches c) b \<longrightarrow> b_length b \<le> b_length (cr_local_chain c)) \<and>
     (\<exists>k. k_at (cr_era_schedule c) (b_slot (lib_block (cr_branches c))) = Some k \<and>
          b_length (cr_local_chain c) - b_length (lib_block (cr_branches c)) \<le> k)"

lemma is_lca_unique:
  assumes "tree_ok br" "in_tree br b1" "is_lca br b1 b2 l" "is_lca br b1 b2 l'"
  shows "l = l'"
proof -
  have "in_tree br l'" using assms(4) ancestor_in_tree [OF _ assms(1,2)] by (simp add: is_lca_def)
  moreover have "ancestor br l l'" "ancestor br l' l" using assms(3,4) by (auto simp: is_lca_def)
  ultimately show ?thesis using ancestor_antisym assms(1) by blast
qed

lemma mc_step_compare:
  assumes "tree_ok br" "in_tree br cmax" "in_tree br chain" "is_lca br cmax chain l" "k_at es (b_slot l) = Some k"
  shows "mc_step br (k_at es) cmax chain =
    Some (if b_length cmax < b_length chain \<and> b_length cmax - b_length l \<le> k then chain else cmax)"
proof -
  have l: "lca br cmax chain = Some (Some l)"
    using lca_returns [OF assms(1-3)] is_lca_unique [OF assms(1,2,4)] by blast
  have "ancestor br l cmax" using assms(4) by (simp add: is_lca_def)
  then have "b_length l \<le> b_length cmax" using ancestor_length assms(1,2) by blast
  then show ?thesis using l assms(5) by (simp add: mc_step_def conj_commute)
qed

lemma mc_step_stays:
  assumes "tree_ok br" "in_tree br cmax" "in_tree br chain" "eras_ok es" "b_length chain \<le> b_length cmax"
  shows "mc_step br (k_at es) cmax chain = Some cmax"
proof -
  obtain l where l: "is_lca br cmax chain l" using lca_returns [OF assms(1-3)] by blast
  obtain k where "k_at es (b_slot l) = Some k" using k_at_total [OF assms(4)] by blast
  from mc_step_compare [OF assms(1-3) l this] show ?thesis using assms(5) by simp
qed

text \<open>The tips are compared one by one; if only one of them can be longer than the local chain, their order does not matter.\<close>

lemma maxvalid_mc_one:
  assumes "tree_ok br" "tips_ok br" "iterates iter_tips" "in_tree br loc" "eras_ok es"
    and "in_tree br b" "b_id b \<in> br_tips br" "is_lca br loc b l" "k_at es (b_slot l) = Some k"
    and others: "\<And>x. in_tree br x \<Longrightarrow> x \<noteq> b \<Longrightarrow> b_length x \<le> b_length loc"
  shows "maxvalid_mc iter_tips loc br (k_at es) = Some (if b_length loc < b_length b \<and> b_length loc - b_length l \<le> k then b else loc)"
    (is "_ = Some ?best")
proof -
  obtain ts where ts: "tip_branches iter_tips br = Some ts" "set ts = {t. in_tree br t \<and> b_id t \<in> br_tips br}"
    by (rule tip_branches_returns [OF assms(1-3)])
  have "\<exists>r. fold_run (mc_step br (k_at es)) loc ts = Some r \<and> r = (if b \<in> set ts then ?best else loc)"
  proof (rule fold_run_invariant [where P = "\<lambda>ys r. r = (if b \<in> set ys then ?best else loc)"])
    fix ys x zs r
    assume x: "ts = ys @ x # zs" and r: "r = (if b \<in> set ys then ?best else loc)"
    have tx: "in_tree br x" and tr: "in_tree br r" using x ts(2) r assms(4,6) by auto
    consider "r = loc" "x = b" | "b_length x \<le> b_length r" "x \<noteq> b \<or> r = b"
      using others [OF tx] r by (cases "x = b"; cases "r = loc") (auto split: if_splits)
    then have "mc_step br (k_at es) r x = Some (if b \<in> set (ys @ [x]) then ?best else loc)"
    proof cases
      case 1
      then show ?thesis using mc_step_compare [OF assms(1,4,6,8,9)] by simp
    next
      case 2
      then show ?thesis using mc_step_stays [OF assms(1) tr tx assms(5)] r by (auto split: if_splits)
    qed
    then show "\<exists>r'. mc_step br (k_at es) r x = Some r' \<and> r' = (if b \<in> set (ys @ [x]) then ?best else loc)" by blast
  qed simp
  moreover have "b \<in> set ts" using ts(2) assms(6,7) by simp
  ultimately show ?thesis using ts(1) by (simp add: maxvalid_mc_def)
qed

lemma tip_to_lib_blocks_length:
  assumes "tree_ok br" "in_tree br b" "tip_to_lib_blocks br b = Some xs"
  shows "length xs + b_length (lib_block br) = Suc (b_length b)"
  using assms
proof (induction arbitrary: xs rule: tree_induct)
  case lib
  then show ?case using assms(1) by (auto simp: tip_to_lib_blocks.simps [of br "lib_block br"])
next
  case (step b p)
  then show ?case
    using parent_length(1) [OF assms(1) step(1,2)] in_tree_lib_iff [OF assms(1) step(1)] assms(1)
    by (auto simp: tip_to_lib_blocks.simps [of br b] bind_Some_iff split: if_splits)
qed

subsection \<open>Accepted blocks\<close>

lemma receive_block_accepted:
  assumes "engine_ok c" "iterates iter_tips" "fresh_block (cr_branches c) i"
    "receive_block_with_canonical_change iter_tips c i p sl us = Some (Inr (c', outcome))"
  obtains br new l ys reorged newly common where
    "apply_header (cr_branches c) i p sl us = Some (Inr br)" "tree_ok br" "tips_ok br"
    "in_tree br (cr_local_chain c)" "lib_block br = lib_block (cr_branches c)"
    "fork_choice iter_tips (c\<lparr>cr_branches := br\<rparr>) = Some new" "in_tree br new"
    "tip_to_lib_blocks br (cr_local_chain c) = Some (reorged @ common)"
    "tip_to_lib_blocks br new = Some (newly @ common)" "set reorged \<inter> set newly = {}"
    "in_tree br l" "ancestor br l new" "tip_to_lib_blocks br l = Some (l # ys)"
    "cr_state c = Online \<longrightarrow>
      (\<exists>k. k_at (cr_era_schedule c) (b_slot l) = Some k \<and> b_length new - b_length l \<le> k)"
    "cr_state c = Bootstrapping \<longrightarrow> l = lib_block br"
    "c' = c\<lparr>cr_local_chain := new, cr_branches := cut_at br l\<rparr>"
    "outcome = \<lparr>ro_pruned_blocks = \<lparr>pb_stale_blocks = stale_ids br new l,
           pb_immutable_blocks = fold (\<lambda>(sl, i). btree_insert sl i) (map (\<lambda>y. (b_slot y, b_id y)) ys) []\<rparr>,
         ro_reorged_blocks = map b_id reorged, ro_newly_canonical_blocks = map b_id (rev newly)\<rparr>"
proof (rule receive_block_header [OF assms(4)])
  fix br assume br: "apply_header (cr_branches c) i p sl us = Some (Inr br)"
  have ok: "tree_ok (cr_branches c)" "tips_ok (cr_branches c)" using assms(1) by (auto simp: engine_ok_def)
  note t = apply_header_tree [OF ok(1) assms(3) br]
  note tips = apply_header_tips [OF ok assms(3) br]
  note loc = local_chain_after_header(1) [OF assms(1,3) br]
  show thesis
    by (rule receive_block_step [OF assms(1-3) br])
      (rule that [OF br t(1) tips loc t(4)]; (assumption | use assms(4) in \<open>simp add: engine_ok_def\<close>))
qed

text \<open>Slots strictly increase along the chain, which the ledger demands of every block it accepts.\<close>

definition slots_increase :: "'id branches \<Rightarrow> bool" where
  "slots_increase br \<longleftrightarrow> (\<forall>b p. in_tree br b \<longrightarrow> parent br b = Some p \<longrightarrow> b_slot p < b_slot b)"

lemma chain_slots_decrease:
  assumes "tree_ok br" "slots_increase br" "in_tree br b" "tip_to_lib_blocks br b = Some xs"
  shows "sorted_wrt (>) (map b_slot xs)"
  using assms(1,3,4)
proof (induction arbitrary: xs rule: tree_induct)
  case lib
  then show ?case using assms(1) by (auto simp: tip_to_lib_blocks.simps [of br "lib_block br"])
next
  case (step b p)
  obtain ys where ys: "tip_to_lib_blocks br p = Some ys" "xs = b # ys"
    using step.prems step(2) in_tree_lib_iff [OF assms(1) step(1)] assms(1)
    by (auto simp: tip_to_lib_blocks.simps [of br b] bind_Some_iff split: if_splits)
  have "b_slot y < b_slot b" if "y \<in> set ys" for y
  proof -
    have "ancestor br y p" using that tip_to_lib_blocks_set [OF assms(1) step(3) ys(1)] by simp
    then have "b_slot y \<le> b_slot p" using ancestor_length_slot [OF _ assms(1) step(3)] by blast
    moreover have "b_slot p < b_slot b" using assms(2) step(1,2) by (auto simp: slots_increase_def)
    ultimately show ?thesis by simp
  qed
  then show ?case using step.IH [OF ys(1)] ys(2) by simp
qed

lemma strict_ancestors:
  assumes "tree_ok br" "in_tree br l" "tip_to_lib_blocks br l = Some (l # ys)"
  shows "set ys = {y. ancestor br y l \<and> y \<noteq> l}"
proof (cases "parent br l")
  case None
  then have "ys = []" using assms(3) by (auto simp: tip_to_lib_blocks.simps [of br l] split: if_splits)
  moreover have "y = l" if "ancestor br y l" for y using ancestor_parent [OF that] None by auto
  ultimately show ?thesis by auto
next
  case (Some p)
  then have "l \<noteq> lib_block br" using assms(1) by auto
  then have "b_id l \<noteq> br_lib br" using in_tree_lib_iff [OF assms(1,2)] by blast
  then have "tip_to_lib_blocks br p = Some ys"
    using assms(3) Some by (auto simp: tip_to_lib_blocks.simps [of br l] bind_Some_iff)
  then have "set ys = {y. ancestor br y p}"
    using tip_to_lib_blocks_set [OF assms(1) parent_in_tree [OF assms(1) Some]] by simp
  moreover have "ancestor br y p \<longleftrightarrow> ancestor br y l \<and> y \<noteq> l" for y
    using ancestor_parent [of br y l] Some ancestor_step [OF Some]
      ancestor_length [of br y p, OF _ assms(1) parent_in_tree [OF assms(1) Some]] parent_length(1) [OF assms(1,2) Some]
    by fastforce
  ultimately show ?thesis by blast
qed

lemma immutable_report:
  assumes "tree_ok br" "in_tree br l" "tip_to_lib_blocks br l = Some (l # ys)" "slots_increase br"
  shows "set (fold (\<lambda>(sl, i). btree_insert sl i) (map (\<lambda>y. (b_slot y, b_id y)) ys) []) =
    (\<lambda>y. (b_slot y, b_id y)) ` {y. ancestor br y l \<and> y \<noteq> l}"
proof -
  have s: "sorted_wrt (>) (map b_slot ys)"
    using chain_slots_decrease [OF assms(1,4,2,3)] by simp
  have "distinct (map b_slot ys)" using s by (induction ys) auto
  then have "distinct (map fst (map (\<lambda>y. (b_slot y, b_id y)) ys))" by (simp add: comp_def)
  from set_fold_btree_insert [OF this, of "[]"] show ?thesis
    using strict_ancestors [OF assms(1-3)] by simp
qed

lemma receive_block_total:
  assumes "engine_ok c" "iterates iter_tips" "fresh_block (cr_branches c) i"
    "apply_header (cr_branches c) i p sl us = Some (Inr br)"
  obtains c' outcome where
    "receive_block_with_canonical_change iter_tips c i p sl us = Some (Inr (c', outcome))" "engine_ok c'"
  by (rule receive_block_step [OF assms]) (rule that, assumption, rule receive_block_ok [OF assms(1-3)], assumption)

subsection \<open>Chain density\<close>

definition blocks_up_to :: "'id branches \<Rightarrow> 'id branch \<Rightarrow> slot \<Rightarrow> nat" where
  "blocks_up_to br b sl = card {a. ancestor br a b \<and> b_slot a \<le> sl}"

lemma card_ancestors:
  assumes "tree_ok br" "in_tree br b"
  shows "card {a. ancestor br a b} + b_length (lib_block br) = Suc (b_length b)"
proof -
  have inj: "inj_on b_length {a. ancestor br a b}"
  proof (rule inj_onI)
    fix x y assume "x \<in> {a. ancestor br a b}" "y \<in> {a. ancestor br a b}" "b_length x = b_length y"
    then show "x = y"
      using ancestors_linear [of br x b y] ancestor_same_length [of br x y] ancestor_in_tree [of br y b] assms by simp
  qed
  have "b_length ` {a. ancestor br a b} = {b_length (lib_block br)..b_length b}" (is "?L = ?R")
  proof
    show "?L \<subseteq> ?R" using ancestor_length [OF _ assms] lib_length_le [OF assms(1)] ancestor_in_tree [OF _ assms] by auto
    show "?R \<subseteq> ?L"
    proof
      fix n assume n: "n \<in> ?R"
      obtain a where "ancestor br a b" "b_length a = n" using ancestor_of_length [OF assms, of n] n by auto
      then show "n \<in> ?L" by blast
    qed
  qed
  then have "card {a. ancestor br a b} = card {b_length (lib_block br)..b_length b}"
    using card_image [OF inj] by simp
  then show ?thesis using lib_length_le [OF assms] by simp
qed

lemma walk_back_before_density:
  assumes "tree_ok br" "in_tree br b" "b_slot (lib_block br) \<le> sl"
  obtains a where "walk_back_before br b sl = Some a"
    "blocks_up_to br b sl + b_length (lib_block br) = Suc (b_length a)"
proof -
  obtain a where a: "walk_back_before br b sl = Some a" "ancestor br a b" "b_slot a \<le> sl \<or> a = lib_block br"
    "\<forall>d. ancestor br d b \<longrightarrow> ancestor br a d \<longrightarrow> d \<noteq> a \<longrightarrow> sl < b_slot d"
    using walk_back_before_returns [OF assms(1,2)] by blast
  have ta: "in_tree br a" using ancestor_in_tree [OF a(2) assms(1,2)] .
  have sa: "b_slot a \<le> sl" using a(3) assms(3) by auto
  have "ancestor br d b \<and> b_slot d \<le> sl \<longleftrightarrow> ancestor br d a" for d
  proof
    assume d: "ancestor br d b \<and> b_slot d \<le> sl"
    show "ancestor br d a"
    proof (rule ccontr)
      assume n: "\<not> ancestor br d a"
      then have "ancestor br a d"
        using ancestors_linear [of br a b d] ancestors_linear [of br d b a] a(2) d assms(1,2) by force
      then show False using a(4) d n ancestor_refl by force
    qed
  next
    assume "ancestor br d a"
    then show "ancestor br d b \<and> b_slot d \<le> sl"
      using ancestor_trans [OF a(2)] ancestor_length_slot [of br d a] assms(1) ta sa by fastforce
  qed
  then show thesis using that a(1) card_ancestors [OF assms(1) ta] by (simp add: blocks_up_to_def)
qed

lemma in_tree_after_header:
  assumes "tree_ok br" "fresh_block br i" "apply_header br i p sl us = Some (Inr br')" "br_branches br' i = Some b"
  shows "in_tree br' b" "b_id b \<in> br_tips br'" "in_tree br' x \<Longrightarrow> x \<noteq> b \<Longrightarrow> in_tree br x"
proof -
  obtain pb new where "in_tree br' new" "b_id new = i" "br_branches br' = (br_branches br)(i \<mapsto> new)"
      "br_tips br' = insert i (br_tips br - {p})"
    by (rule apply_header_new [OF assms(1-3)])
  then show "in_tree br' b" "b_id b \<in> br_tips br'" "in_tree br' x \<Longrightarrow> x \<noteq> b \<Longrightarrow> in_tree br x"
    using assms(4) by (auto simp: in_tree_def split: if_splits)
qed

lemma reorg_depth:
  assumes "tree_ok br" "in_tree br old" "in_tree br new" "is_lca br old new l"
    and "tip_to_lib_blocks br old = Some (reorged @ common)" "tip_to_lib_blocks br new = Some (newly @ common)" "set reorged \<inter> set newly = {}"
  shows "length reorged = b_length old - b_length l"
proof -
  have s: "set reorged \<union> set common = {a. ancestor br a old}" "set newly \<union> set common = {a. ancestor br a new}"
    using tip_to_lib_blocks_set [OF assms(1,2,5)] tip_to_lib_blocks_set [OF assms(1,3,6)] by auto
  have l: "ancestor br l old" "ancestor br l new" "\<forall>d. ancestor br d old \<longrightarrow> ancestor br d new \<longrightarrow> ancestor br d l"
    using assms(4) by (auto simp: is_lca_def)
  have tl: "in_tree br l" using ancestor_in_tree [OF l(1) assms(1,2)] .
  have "set common = {a. ancestor br a l}"
    using s l assms(7) ancestor_trans [OF l(1)] ancestor_trans [OF l(2)] by blast
  moreover have "sorted_wrt (>) (map b_length common)"
    using tip_to_lib_blocks_descend [OF assms(1,2,5)] by (simp add: sorted_wrt_append)
  then have "distinct common" by (induction common) auto
  ultimately have "length common + b_length (lib_block br) = Suc (b_length l)"
    using card_ancestors [OF assms(1) tl] distinct_card [of common] by simp
  then show ?thesis using tip_to_lib_blocks_length [OF assms(1,2,5)] by simp
qed

subsection \<open>Properties\<close>

text \<open>C4: Receiving a block never panics and never loops.  A reachable engine that receives a block with an
  unused identifier (and whose height fits 64 bits) returns \<^verbatim>\<open>ParentMissing\<close> exactly when the parent is
  unknown, \<^verbatim>\<open>InvalidSlot\<close> exactly when the parent is newer, and otherwise an engine that is again well formed:
  its blocks form a tree rooted at the LIB with consistent heights and slots, its tips are the leaves and
  its local chain ends in a tip.\<close>

theorem receive_block_returns:
  assumes "reachable c" "iterates iter_tips" "fresh_block (cr_branches c) i" "height_fits (cr_branches c) p"
  shows "\<exists>r. receive_block_with_canonical_change iter_tips c i p sl us = Some r \<and>
    (\<forall>e. r = Inl e \<longleftrightarrow> (e = ParentMissing p \<and> br_branches (cr_branches c) p = None) \<or>
       (e = InvalidSlot p \<and> (\<exists>pb. br_branches (cr_branches c) p = Some pb \<and> sl < b_slot pb))) \<and>
    (\<forall>c' outcome. r = Inr (c', outcome) \<longrightarrow> engine_ok c')"
proof -
  note ok = reachable_ok [OF assms(1)]
  obtain a where a: "apply_header (cr_branches c) i p sl us = Some a"
    "\<forall>e. a = Inl e \<longleftrightarrow> (e = ParentMissing p \<and> br_branches (cr_branches c) p = None) \<or>
       (e = InvalidSlot p \<and> (\<exists>pb. br_branches (cr_branches c) p = Some pb \<and> sl < b_slot pb))"
    using apply_header_returns [OF assms(4)] by blast
  show ?thesis
  proof (cases a)
    case (Inl e)
    then have "receive_block_with_canonical_change iter_tips c i p sl us = Some (Inl e)"
      using a(1) by (simp add: receive_block_with_canonical_change_def)
    then show ?thesis using a(2) Inl by auto
  next
    case (Inr br)
    then obtain c' outcome where
      "receive_block_with_canonical_change iter_tips c i p sl us = Some (Inr (c', outcome))" "engine_ok c'"
      using receive_block_total [OF ok assms(2,3)] a(1) by blast
    then show ?thesis using a(2) Inr by simp
  qed
qed

text \<open>C2: No reorganisation past the LIB: in the tree that contains the received block, the new LIB is
  the old LIB or a descendant of it, and an ancestor of the new tip.  While bootstrapping the LIB does not
  move; online it ends within the \<open>k\<close> of its era from the tip.\<close>

theorem lib_only_advances:
  assumes "reachable c" "iterates iter_tips" "fresh_block (cr_branches c) i"
    "receive_block_with_canonical_change iter_tips c i p sl us = Some (Inr (c', outcome))"
  shows "\<exists>br. apply_header (cr_branches c) i p sl us = Some (Inr br) \<and>
    ancestor br (lib_block (cr_branches c)) (lib_block (cr_branches c')) \<and>
    ancestor br (lib_block (cr_branches c')) (cr_local_chain c') \<and>
    (cr_state c = Bootstrapping \<longrightarrow> lib_block (cr_branches c') = lib_block (cr_branches c)) \<and>
    (cr_state c = Online \<longrightarrow> (\<exists>k. k_at (cr_era_schedule c') (b_slot (lib_block (cr_branches c'))) = Some k \<and>
       b_length (cr_local_chain c') - b_length (lib_block (cr_branches c')) \<le> k))"
  using reachable_ok [OF assms(1)] assms(2-4)
proof (rule receive_block_accepted)
  fix br new l
  assume h: "apply_header (cr_branches c) i p sl us = Some (Inr br)" "tree_ok br"
    "lib_block br = lib_block (cr_branches c)" "in_tree br l" "ancestor br l new"
    "cr_state c = Online \<longrightarrow>
      (\<exists>k. k_at (cr_era_schedule c) (b_slot l) = Some k \<and> b_length new - b_length l \<le> k)"
    "cr_state c = Bootstrapping \<longrightarrow> l = lib_block br"
    "c' = c\<lparr>cr_local_chain := new, cr_branches := cut_at br l\<rparr>"
  then show ?thesis using cut_at_tree(2) [OF h(2,4)] lib_ancestor [OF h(2,4)] by auto
qed

text \<open>C16: Pruning is exact.  After a block is accepted the tree holds precisely the blocks that descend from
  the LIB; the stale blocks reported are precisely the removed blocks off the local chain, and, when slots
  increase along every chain, the immutable blocks reported are precisely the strict ancestors of the LIB,
  each under its slot.\<close>

theorem pruning_exact:
  assumes "reachable c" "iterates iter_tips" "fresh_block (cr_branches c) i"
    "receive_block_with_canonical_change iter_tips c i p sl us = Some (Inr (c', outcome))"
  shows "\<exists>br. apply_header (cr_branches c) i p sl us = Some (Inr br) \<and>
    (\<forall>b. in_tree (cr_branches c') b \<longleftrightarrow> in_tree br b \<and> ancestor br (lib_block (cr_branches c')) b) \<and>
    pb_stale_blocks (ro_pruned_blocks outcome) =
      b_id ` {b. in_tree br b \<and> \<not> ancestor br b (cr_local_chain c') \<and> \<not> ancestor br (lib_block (cr_branches c')) b} \<and>
    (slots_increase br \<longrightarrow> set (pb_immutable_blocks (ro_pruned_blocks outcome)) =
      (\<lambda>b. (b_slot b, b_id b)) ` {b. ancestor br b (lib_block (cr_branches c')) \<and> b \<noteq> lib_block (cr_branches c')})"
  using reachable_ok [OF assms(1)] assms(2-4)
proof (rule receive_block_accepted)
  fix br new l ys reorged newly
  assume h: "apply_header (cr_branches c) i p sl us = Some (Inr br)" "tree_ok br" "in_tree br l"
    "tip_to_lib_blocks br l = Some (l # ys)"
    "c' = c\<lparr>cr_local_chain := new, cr_branches := cut_at br l\<rparr>"
    "outcome = \<lparr>ro_pruned_blocks = \<lparr>pb_stale_blocks = stale_ids br new l,
           pb_immutable_blocks = fold (\<lambda>(sl, i). btree_insert sl i) (map (\<lambda>y. (b_slot y, b_id y)) ys) []\<rparr>,
         ro_reorged_blocks = map b_id reorged, ro_newly_canonical_blocks = map b_id (rev newly)\<rparr>"
  then show ?thesis
    using cut_at_tree(2) [OF h(2,3)] in_tree_cut_at [OF h(2)] immutable_report [OF h(2-4)]
    by (simp add: stale_ids_def)
qed

text \<open>C17: The canonical change reported for a block is exact: the new local chain is the old one with the
  reorged blocks taken off its end and the newly canonical blocks put on, and the two share no block.\<close>

theorem canonical_change_exact:
  assumes "reachable c" "iterates iter_tips" "fresh_block (cr_branches c) i"
    "receive_block_with_canonical_change iter_tips c i p sl us = Some (Inr (c', outcome))"
  shows "\<exists>br common removed added. apply_header (cr_branches c) i p sl us = Some (Inr br) \<and>
    lib_to_tip_blocks br (cr_local_chain c) = Some (common @ removed) \<and>
    lib_to_tip_blocks br (cr_local_chain c') = Some (common @ added) \<and>
    ro_reorged_blocks outcome = rev (map b_id removed) \<and> ro_newly_canonical_blocks outcome = map b_id added \<and>
    set removed \<inter> set added = {}"
  using reachable_ok [OF assms(1)] assms(2-4)
proof (rule receive_block_accepted)
  fix br new l ys reorged newly common
  assume h: "apply_header (cr_branches c) i p sl us = Some (Inr br)"
    "tip_to_lib_blocks br (cr_local_chain c) = Some (reorged @ common)"
    "tip_to_lib_blocks br new = Some (newly @ common)" "set reorged \<inter> set newly = {}"
    "c' = c\<lparr>cr_local_chain := new, cr_branches := cut_at br l\<rparr>"
    "outcome = \<lparr>ro_pruned_blocks = \<lparr>pb_stale_blocks = stale_ids br new l,
           pb_immutable_blocks = fold (\<lambda>(sl, i). btree_insert sl i) (map (\<lambda>y. (b_slot y, b_id y)) ys) []\<rparr>,
         ro_reorged_blocks = map b_id reorged, ro_newly_canonical_blocks = map b_id (rev newly)\<rparr>"
  then show ?thesis
    by (intro exI [of _ br] exI [of _ "rev common"] exI [of _ "rev reorged"] exI [of _ "rev newly"])
      (simp add: lib_to_tip_blocks_def rev_map)
qed

text \<open>C3: Online the engine follows the longest chain, up to \<open>k\<close>.  Let no block of an online engine's tree be longer than its local chain and
  its LIB be within \<open>k\<close>.  When it accepts a block \<open>b\<close>, it moves to \<open>b\<close> exactly if \<open>b\<close> is longer than the local chain and the
  local chain is at most \<open>k\<close> blocks long above their common ancestor, for the \<open>k\<close> of that ancestor's era, whatever the order in which the tips are compared;
  it then reports exactly these blocks as removed, never more than the \<open>k\<close> at the LIB, and otherwise none.
  If \<open>k\<close> never decreases over the eras, the local chain stays a longest one and the LIB within \<open>k\<close>.\<close>

theorem online_longest_chain:
  assumes "reachable c" "iterates iter_tips" "fresh_block (cr_branches c) i" "cr_state c = Online" "on_longest_chain c"
    "receive_block_with_canonical_change iter_tips c i p sl us = Some (Inr (c', outcome))"
    "apply_header (cr_branches c) i p sl us = Some (Inr br)" "br_branches br i = Some b"
    "is_lca br (cr_local_chain c) b l" "k_at (cr_era_schedule c) (b_slot l) = Some k"
    "switch \<longleftrightarrow> b_length (cr_local_chain c) < b_length b \<and> b_length (cr_local_chain c) - b_length l \<le> k"
  shows "cr_state c' = Online \<and> cr_local_chain c' = (if switch then b else cr_local_chain c) \<and>
    length (ro_reorged_blocks outcome) = (if switch then b_length (cr_local_chain c) - b_length l else 0) \<and>
    (\<exists>m. k_at (cr_era_schedule c) (b_slot (lib_block (cr_branches c))) = Some m \<and> length (ro_reorged_blocks outcome) \<le> m) \<and>
    (k_mono (cr_era_schedule c) \<longrightarrow> on_longest_chain c')"
  using reachable_ok [OF assms(1)] assms(2,3,6)
proof (rule receive_block_accepted)
  fix br' new lib ys reorged newly common
  assume h: "apply_header (cr_branches c) i p sl us = Some (Inr br')" "tree_ok br'" "tips_ok br'"
    "in_tree br' (cr_local_chain c)" "lib_block br' = lib_block (cr_branches c)"
    "fork_choice iter_tips (c\<lparr>cr_branches := br'\<rparr>) = Some new" "in_tree br' new"
    "tip_to_lib_blocks br' (cr_local_chain c) = Some (reorged @ common)"
    "tip_to_lib_blocks br' new = Some (newly @ common)" and disj: "set reorged \<inter> set newly = {}"
    and h': "in_tree br' lib" "cr_state c = Online \<longrightarrow>
      (\<exists>k. k_at (cr_era_schedule c) (b_slot lib) = Some k \<and> b_length new - b_length lib \<le> k)"
    "c' = c\<lparr>cr_local_chain := new, cr_branches := cut_at br' lib\<rparr>"
    "outcome = \<lparr>ro_pruned_blocks = \<lparr>pb_stale_blocks = stale_ids br' new lib,
           pb_immutable_blocks = fold (\<lambda>(sl, i). btree_insert sl i) (map (\<lambda>y. (b_slot y, b_id y)) ys) []\<rparr>,
         ro_reorged_blocks = map b_id reorged, ro_newly_canonical_blocks = map b_id (rev newly)\<rparr>"
  let ?es = "cr_era_schedule c" and ?loc = "cr_local_chain c"
  have br: "br' = br" using h(1) assms(7) by simp
  note h = h [unfolded br] and h' = h' [unfolded br]
  have ok: "tree_ok (cr_branches c)" "eras_ok ?es" using reachable_ok [OF assms(1)] by (auto simp: engine_ok_def)
  note b = in_tree_after_header [OF ok(1) assms(3,7,8)]
  have others: "b_length x \<le> b_length ?loc" if "in_tree br x" "x \<noteq> b" for x
    using b(3) [OF that] assms(5) by (simp add: on_longest_chain_def)
  have new: "new = (if switch then b else ?loc)"
    using maxvalid_mc_one [OF h(2,3) assms(2) h(4) ok(2) b(1,2) assms(9,10) others] h(6) assms(4,11) by (simp add: fork_choice_def)
  have depth: "length reorged = (if switch then b_length ?loc - b_length l else 0)"
    using reorg_depth [OF h(2,4,7) _ h(8,9) disj, of l] reorg_depth [OF h(2,4,7) _ h(8,9) disj, of ?loc] assms(9) is_lca_refl [of br ?loc] new
    by (cases switch) auto
  obtain m where m: "k_at ?es (b_slot (lib_block br)) = Some m" "b_length ?loc - b_length (lib_block br) \<le> m"
    using assms(5) h(5) by (auto simp: on_longest_chain_def)
  have tl: "ancestor br l ?loc" "in_tree br l" using assms(9) ancestor_in_tree [OF _ h(2,4)] by (auto simp: is_lca_def)
  have lib: "b_slot (lib_block br) \<le> b_slot l" "b_length (lib_block br) \<le> b_length l"
    using ancestor_length_slot [OF lib_ancestor [OF h(2) tl(2)] h(2) tl(2)] lib_length_le [OF h(2) tl(2)] by auto
  have "on_longest_chain c'" if "k_mono ?es"
  proof -
    have "m \<le> k" using that m(1) assms(10) lib(1) unfolding k_mono_def by blast
    then have "switch \<longleftrightarrow> b_length ?loc < b_length b" using m(2) lib(2) assms(11) by auto
    then have "b_length x \<le> b_length new" if "in_tree br x" for x using others [OF that] new by (cases "x = b") auto
    then show ?thesis
      using h'(2,3) assms(4) cut_at_tree(2) [OF h(2) h'(1)] in_tree_cut_at [OF h(2)] by (auto simp: on_longest_chain_def)
  qed
  then show ?thesis using h'(3,4) assms(4) new depth m lib(2) h(5) by auto
qed

text \<open>C34: Going online always returns; it keeps the local chain, moves the LIB up the local chain to the deepest block that is
  within the \<open>k\<close> of its era (every block below it on the chain is more than the \<open>k\<close> of its own era away from the tip), and
  leaves a well-formed engine.\<close>

theorem online_returns:
  assumes "reachable c" "iterates iter_tips"
  shows "\<exists>c' pruned. online iter_tips c = Some (c', pruned) \<and> engine_ok c' \<and> cr_state c' = Online \<and>
    cr_local_chain c' = cr_local_chain c \<and>
    ancestor (cr_branches c) (lib_block (cr_branches c)) (lib_block (cr_branches c')) \<and>
    ancestor (cr_branches c) (lib_block (cr_branches c')) (cr_local_chain c) \<and>
    (\<exists>k. k_at (cr_era_schedule c) (b_slot (lib_block (cr_branches c'))) = Some k \<and>
         b_length (cr_local_chain c) - b_length (lib_block (cr_branches c')) \<le> k) \<and>
    (\<forall>d. ancestor (cr_branches c) d (lib_block (cr_branches c')) \<and> d \<noteq> lib_block (cr_branches c') \<longrightarrow>
       (\<exists>k. k_at (cr_era_schedule c) (b_slot d) = Some k \<and> k < b_length (cr_local_chain c) - b_length d))"
proof (rule online_step [OF reachable_ok [OF assms(1)] assms(2)])
  fix l pb
  assume h: "online iter_tips c = Some (c\<lparr>cr_state := Online, cr_branches := cut_at (cr_branches c) l\<rparr>, pb)"
    "in_tree (cr_branches c) l" "ancestor (cr_branches c) l (cr_local_chain c)"
    "\<exists>k. k_at (cr_era_schedule c) (b_slot l) = Some k \<and> b_length (cr_local_chain c) - b_length l \<le> k"
    "\<forall>d. ancestor (cr_branches c) d l \<and> d \<noteq> l \<longrightarrow>
      (\<exists>k. k_at (cr_era_schedule c) (b_slot d) = Some k \<and> k < b_length (cr_local_chain c) - b_length d)"
  have ok: "tree_ok (cr_branches c)" using reachable_ok [OF assms(1)] by (simp add: engine_ok_def)
  show ?thesis
    using h online_ok [OF reachable_ok [OF assms(1)] assms(2) h(1)] cut_at_tree(2) [OF ok h(2)] lib_ancestor [OF ok h(2)]
    by simp
qed

text \<open>C36: \<^verbatim>\<open>lca\<close> returns the lowest common ancestor of any two blocks of a well-formed tree: a common ancestor that
  every common ancestor is an ancestor of.\<close>

theorem lca_lowest_common_ancestor:
  assumes "tree_ok br" "in_tree br b1" "in_tree br b2"
  shows "\<exists>l. lca br b1 b2 = Some (Some l) \<and> ancestor br l b1 \<and> ancestor br l b2 \<and>
    (\<forall>d. ancestor br d b1 \<longrightarrow> ancestor br d b2 \<longrightarrow> ancestor br d l)"
  using lca_returns [OF assms] unfolding is_lca_def .

text \<open>C35: \<^verbatim>\<open>maxvalid_bg\<close> compares two chains by the Ouroboros Genesis rule: a fork at most \<open>k\<close> deep is decided by
  length, a deeper one by the number of blocks up to \<open>s_gen\<close> slots after the fork.\<close>

theorem bg_step_genesis_rule:
  assumes "tree_ok br" "in_tree br cmax" "in_tree br chain" "is_lca br cmax chain l"
    "params_at (b_slot l) = Some (k, s)" "b_slot l + s < 2 ^ 64"
  shows "bg_step br params_at cmax chain = Some
    (if b_length cmax - b_length l \<le> k
     then (if b_length cmax < b_length chain then chain else cmax)
     else (if blocks_up_to br cmax (b_slot l + s) < blocks_up_to br chain (b_slot l + s) then chain else cmax))"
proof -
  have l: "lca br cmax chain = Some (Some l)"
    using lca_returns [OF assms(1-3)] is_lca_unique [OF assms(1,2,4)] by blast
  have tl: "ancestor br l cmax" "in_tree br l"
    using assms(4) ancestor_in_tree [OF _ assms(1,2)] by (auto simp: is_lca_def)
  have le: "b_length l \<le> b_length cmax" using ancestor_length [OF tl(1) assms(1,2)] .
  have slot: "b_slot (lib_block br) \<le> b_slot l + s"
    using ancestor_length_slot [OF lib_ancestor [OF assms(1) tl(2)] assms(1) tl(2)] by simp
  obtain x where x: "walk_back_before br cmax (b_slot l + s) = Some x"
    "blocks_up_to br cmax (b_slot l + s) + b_length (lib_block br) = Suc (b_length x)"
    by (rule walk_back_before_density [OF assms(1,2) slot])
  obtain y where y: "walk_back_before br chain (b_slot l + s) = Some y"
    "blocks_up_to br chain (b_slot l + s) + b_length (lib_block br) = Suc (b_length y)"
    by (rule walk_back_before_density [OF assms(1,3) slot])
  have "b_length x < b_length y \<longleftrightarrow> blocks_up_to br cmax (b_slot l + s) < blocks_up_to br chain (b_slot l + s)"
    using x(2) y(2) by linarith
  then show ?thesis
    using l assms(5) x(1) y(1) le wrapping_add_exact [OF assms(6)] by (simp add: bg_step_def)
qed


subsection \<open>An engine with a fork\<close>

text \<open>Block 0 is genesis, blocks 1 and 2 extend it; \<open>k\<close> is 1.  Block 3 on top of block 2 then reorganises the chain.\<close>

definition one_era :: "config era_schedule" where
  "one_era = \<lparr>es_genesis = \<lparr>se_first_slot = 0, se_start_time = 0,
     se_parameters = \<lparr>security_param = 1, genesis_density_window = 4, average_slots_for_blocks = (\<lambda>n. 4 * n),
       uncle_reference_window_in_block = 1, max_uncles = 2\<rparr>\<rparr>, es_after_genesis = []\<rparr>"

definition block :: "nat \<Rightarrow> nat \<Rightarrow> slot \<Rightarrow> nat \<Rightarrow> nat branch" where
  "block i p sl len = \<lparr>b_id = i, b_parent = p, b_slot = sl, b_length = len, b_uncle_slots = []\<rparr>"

definition engine1 :: "nat cryptarchia" where
  "engine1 = \<lparr>cr_local_chain = block 1 0 1 1,
     cr_branches = \<lparr>br_branches = [0 \<mapsto> block 0 0 0 0, 1 \<mapsto> block 1 0 1 1], br_tips = {1}, br_lib = 0\<rparr>,
     cr_era_schedule = one_era, cr_state = Online\<rparr>"

definition forked :: "nat branches" where
  "forked = \<lparr>br_branches = [0 \<mapsto> block 0 0 0 0, 1 \<mapsto> block 1 0 1 1, 2 \<mapsto> block 2 0 2 1],
     br_tips = {1, 2}, br_lib = 0\<rparr>"

definition engine2 :: "nat cryptarchia" where
  "engine2 = \<lparr>cr_local_chain = block 1 0 1 1, cr_branches = forked, cr_era_schedule = one_era, cr_state = Online\<rparr>"

definition engine3 :: "nat cryptarchia" where
  "engine3 = \<lparr>cr_local_chain = block 3 2 3 (Suc 1),
     cr_branches = \<lparr>br_branches = [2 \<mapsto> block 2 0 2 1, 3 \<mapsto> block 3 2 3 (Suc 1)], br_tips = {3}, br_lib = 2\<rparr>,
     cr_era_schedule = one_era, cr_state = Online\<rparr>"

definition outcome3 :: "nat receive_block_outcome" where
  "outcome3 = \<lparr>ro_pruned_blocks = \<lparr>pb_stale_blocks = {1}, pb_immutable_blocks = [(0, 0)]\<rparr>,
     ro_reorged_blocks = [1], ro_newly_canonical_blocks = [2, 3]\<rparr>"

lemmas engine_eval = forked_def block_def one_era_def from_lib_def branches_from_lib_def
  receive_block_with_canonical_change_def apply_header_def checked_add_def fork_choice_def maxvalid_mc_def
  mc_step_def tip_branches_def lca_def lower_to.simps walk_to_common.simps parent_def k_at_def config_at_def
  at_slot_def last_started_def iter_def genesis_def eras_after_genesis_def view_def canonical_change_def
  walk_back_to_block.simps update_lib_def state_lib_def lib_to_tip_blocks_def tip_to_lib_blocks.simps
  no_pruned_blocks_def lib_depth_def lib_branch_def checked_sub_def prune_stale_forks_def prunable_forks_def
  non_canonical_forks_def fork_divergence_def prune_immutable_blocks_def prune_immutable_walk.simps
  prune_fork_def prune_walk.simps map_filter_def insert_Diff_if

lemma sorted_iterates: "iterates (sorted_list_of_set :: nat set \<Rightarrow> nat list)"
  by (simp add: iterates_def)

lemma one_era_ok: "eras_ok one_era"
  by (simp add: eras_ok_def one_era_def eras_def genesis_def view_def)

lemma receive_block_1:
  "receive_block_with_canonical_change sorted_list_of_set (from_lib 0 0 one_era Online 0 0 []) 1 0 1 [] =
   Some (Inr (engine1, \<lparr>ro_pruned_blocks = no_pruned_blocks, ro_reorged_blocks = [], ro_newly_canonical_blocks = [1]\<rparr>))"
  by (simp add: engine_eval engine1_def)

lemma receive_block_2:
  "receive_block_with_canonical_change sorted_list_of_set engine1 2 0 2 [] =
   Some (Inr (engine2, \<lparr>ro_pruned_blocks = no_pruned_blocks, ro_reorged_blocks = [], ro_newly_canonical_blocks = []\<rparr>))"
  by (simp add: engine_eval engine1_def engine2_def insert_commute)

lemma receive_block_3:
  "receive_block_with_canonical_change sorted_list_of_set engine2 3 2 3 [] = Some (Inr (engine3, outcome3))"
  by (simp add: engine_eval engine2_def engine3_def outcome3_def)

lemma engine2_reachable: "reachable engine2"
proof -
  have "fresh_block (cr_branches (from_lib (0::nat) 0 one_era Online 0 0 [])) 1"
    by (simp add: fresh_block_def lib_block_def from_lib_def branches_from_lib_def)
  then have "reachable engine1"
    using reach_block [OF reach_start [OF one_era_ok] sorted_iterates _ receive_block_1] by blast
  moreover have "fresh_block (cr_branches engine1) 2"
    by (simp add: fresh_block_def lib_block_def engine1_def block_def)
  ultimately show ?thesis
    using reach_block [OF _ sorted_iterates _ receive_block_2] by blast
qed

lemma fresh_3: "fresh_block (cr_branches engine2) 3"
  by (simp add: fresh_block_def lib_block_def engine2_def forked_def block_def)

lemma height_fits_2: "height_fits (cr_branches engine2) 2"
  by (simp add: height_fits_def engine2_def forked_def block_def)

lemma engine2_longest: "on_longest_chain engine2" "k_mono (cr_era_schedule engine2)" "cr_state engine2 = Online"
proof -
  have "b_length b \<le> 1" if "in_tree forked b" for b
    using that by (auto simp: in_tree_def forked_def block_def split: if_splits)
  then show "on_longest_chain engine2"
    by (simp add: on_longest_chain_def engine2_def engine_eval lib_block_def)
qed (simp_all add: k_mono_def engine2_def k_at_def config_at_def at_slot_def last_started_def iter_def
    eras_after_genesis_def one_era_def genesis_def view_def)

theorem receive_block_returns_witness:
  "receive_block_with_canonical_change sorted_list_of_set engine2 3 2 3 [] = Some (Inr (engine3, outcome3)) \<and>
   engine_ok engine3"
  using receive_block_returns [OF engine2_reachable sorted_iterates fresh_3 height_fits_2, of 3 "[]"] receive_block_3
  by auto

theorem lib_only_advances_witness:
  "\<exists>br. apply_header (cr_branches engine2) 3 2 3 [] = Some (Inr br) \<and>
     ancestor br (lib_block (cr_branches engine2)) (lib_block (cr_branches engine3)) \<and>
     ancestor br (lib_block (cr_branches engine3)) (cr_local_chain engine3)"
  using lib_only_advances [OF engine2_reachable sorted_iterates fresh_3 receive_block_3] by blast

theorem pruning_exact_witness:
  "\<exists>br. apply_header (cr_branches engine2) 3 2 3 [] = Some (Inr br) \<and>
     {1} = b_id ` {b. in_tree br b \<and> \<not> ancestor br b (block 3 2 3 (Suc 1)) \<and> \<not> ancestor br (lib_block (cr_branches engine3)) b}"
  using pruning_exact [OF engine2_reachable sorted_iterates fresh_3 receive_block_3]
  by (auto simp: outcome3_def engine3_def)

theorem canonical_change_exact_witness:
  "(\<exists>br common removed added. apply_header (cr_branches engine2) 3 2 3 [] = Some (Inr br) \<and>
     lib_to_tip_blocks br (cr_local_chain engine2) = Some (common @ removed) \<and>
     lib_to_tip_blocks br (cr_local_chain engine3) = Some (common @ added) \<and>
     ro_reorged_blocks outcome3 = rev (map b_id removed) \<and> ro_newly_canonical_blocks outcome3 = map b_id added \<and>
     set removed \<inter> set added = {}) \<and>
   ro_reorged_blocks outcome3 = [1] \<and> ro_newly_canonical_blocks outcome3 = [2, 3]"
proof
  show "ro_reorged_blocks outcome3 = [1] \<and> ro_newly_canonical_blocks outcome3 = [2, 3]"
    by (simp add: outcome3_def)
qed (rule canonical_change_exact [OF engine2_reachable sorted_iterates fresh_3 receive_block_3])

text \<open>Block 3 is longer than block 1, which is one block above their common ancestor, the genesis block.\<close>

definition forked3 :: "nat branches" where
  "forked3 = \<lparr>br_branches = [0 \<mapsto> block 0 0 0 0, 1 \<mapsto> block 1 0 1 1, 2 \<mapsto> block 2 0 2 1, 3 \<mapsto> block 3 2 3 (Suc 1)],
     br_tips = {1, 3}, br_lib = 0\<rparr>"

lemma apply_header_3: "apply_header (cr_branches engine2) 3 2 3 [] = Some (Inr forked3)"
  by (simp add: engine_eval engine2_def forked3_def insert_commute)

lemma forked3_lca: "is_lca forked3 (block 1 0 1 1) (block 3 2 3 (Suc 1)) (block 0 0 0 0)"
proof -
  have ok: "tree_ok forked3"
    using apply_header_tree(1) [OF _ fresh_3 apply_header_3] reachable_ok [OF engine2_reachable] by (simp add: engine_ok_def)
  have "lca forked3 (block 1 0 1 1) (block 3 2 3 (Suc 1)) = Some (Some (block 0 0 0 0))"
    by (simp add: engine_eval forked3_def)
  then show ?thesis using lca_returns [OF ok, of "block 1 0 1 1" "block 3 2 3 (Suc 1)"] by (simp add: in_tree_def forked3_def block_def)
qed

theorem online_longest_chain_witness:
  "cr_local_chain engine3 = block 3 2 3 (Suc 1) \<and> length (ro_reorged_blocks outcome3) = 1 \<and> on_longest_chain engine3"
proof -
  have l: "is_lca forked3 (cr_local_chain engine2) (block 3 2 3 (Suc 1)) (block 0 0 0 0)" using forked3_lca by (simp add: engine2_def)
  have k: "k_at (cr_era_schedule engine2) (b_slot (block 0 0 0 0)) = Some 1" by (simp add: engine2_def engine_eval)
  have b: "br_branches forked3 3 = Some (block 3 2 3 (Suc 1))" by (simp add: forked3_def)
  from online_longest_chain [OF engine2_reachable sorted_iterates fresh_3 engine2_longest(3,1) receive_block_3 apply_header_3 b l k refl]
  show ?thesis using engine2_longest(2) by (simp add: engine2_def block_def)
qed

text \<open>A bootstrapping engine with the chain of the blocks 0, 1 and 2; going online moves its LIB to block 1.\<close>

definition boot1 :: "nat cryptarchia" where
  "boot1 = engine1\<lparr>cr_state := Bootstrapping\<rparr>"

definition boot2 :: "nat cryptarchia" where
  "boot2 = \<lparr>cr_local_chain = block 2 1 2 (Suc 1),
     cr_branches = \<lparr>br_branches = [0 \<mapsto> block 0 0 0 0, 1 \<mapsto> block 1 0 1 1, 2 \<mapsto> block 2 1 2 (Suc 1)], br_tips = {2}, br_lib = 0\<rparr>,
     cr_era_schedule = one_era, cr_state = Bootstrapping\<rparr>"

lemmas boot_eval = engine_eval maxvalid_bg_def bg_step_def bg_params_at_def s_gen_def engine1_def boot1_def boot2_def

lemma boot_blocks:
  "receive_block_with_canonical_change sorted_list_of_set (from_lib 0 0 one_era Bootstrapping 0 0 []) 1 0 1 [] =
   Some (Inr (boot1, \<lparr>ro_pruned_blocks = no_pruned_blocks, ro_reorged_blocks = [], ro_newly_canonical_blocks = [1]\<rparr>))"
  "receive_block_with_canonical_change sorted_list_of_set boot1 2 1 2 [] =
   Some (Inr (boot2, \<lparr>ro_pruned_blocks = no_pruned_blocks, ro_reorged_blocks = [], ro_newly_canonical_blocks = [2]\<rparr>))"
  by (simp_all add: boot_eval)

lemma boot_reachable: "reachable boot2"
proof -
  have "fresh_block (cr_branches (from_lib (0::nat) 0 one_era Bootstrapping 0 0 [])) 1" "fresh_block (cr_branches boot1) 2"
    by (simp_all add: fresh_block_def lib_block_def from_lib_def branches_from_lib_def boot1_def boot2_def engine1_def block_def)
  then show ?thesis
    using reach_block [OF reach_block [OF reach_start [OF one_era_ok] sorted_iterates _ boot_blocks(1)] sorted_iterates _ boot_blocks(2)] by blast
qed

theorem online_returns_witness:
  "\<exists>c' pruned. online sorted_list_of_set boot2 = Some (c', pruned) \<and> cr_state boot2 = Bootstrapping \<and> cr_state c' = Online \<and>
     br_lib (cr_branches boot2) = 0 \<and> lib_block (cr_branches c') = block 1 0 1 1"
proof -
  have "br_lib (cr_branches boot2) = 0" "cr_state boot2 = Bootstrapping" by (simp_all add: boot2_def)
  obtain c' pruned where c': "online sorted_list_of_set boot2 = Some (c', pruned)" "cr_state c' = Online"
    using online_returns [OF boot_reachable sorted_iterates] by blast
  moreover have "lib_block (cr_branches c') = block 1 0 1 1"
    using c'(1) by (auto simp: boot_eval online_def lib_block_def)
  ultimately show ?thesis by (simp add: boot2_def)
qed

lemma forked_ok: "tree_ok forked" "in_tree forked (block 1 0 1 1)" "in_tree forked (block 2 0 2 1)"
  using reachable_ok [OF engine2_reachable]
  by (simp_all add: engine_ok_def engine2_def in_tree_def forked_def block_def)

lemma forked_lca: "is_lca forked (block 1 0 1 1) (block 2 0 2 1) (block 0 0 0 0)"
proof -
  have "lca forked (block 1 0 1 1) (block 2 0 2 1) = Some (Some (block 0 0 0 0))"
    by (simp add: engine_eval)
  then show ?thesis using lca_returns [OF forked_ok] by simp
qed

theorem bg_step_genesis_rule_witness:
  "bg_step forked (\<lambda>_. Some (0, 1)) (block 1 0 1 1) (block 2 0 2 1) = Some
     (if blocks_up_to forked (block 1 0 1 1) 1 < blocks_up_to forked (block 2 0 2 1) 1
      then block 2 0 2 1 else block 1 0 1 1)"
  using bg_step_genesis_rule [OF forked_ok forked_lca, of "\<lambda>_. Some (0, 1)" 0 1] by (simp add: block_def)


theorem lca_lowest_common_ancestor_witness:
  "\<exists>l. lca forked (block 1 0 1 1) (block 2 0 2 1) = Some (Some l) \<and> ancestor forked l (block 1 0 1 1)"
  using lca_lowest_common_ancestor [OF forked_ok] by blast

end
