(* ===== verification/UncleSelection.thy ===== *)
theory UncleSelection
  imports EngineSafety "HOL-Library.Product_Lexorder"
begin

text \<open>
  The selection of uncles for a new block: \<^verbatim>\<open>select_uncles\<close>, \<^verbatim>\<open>collect_chain_within_window\<close> and
  \<^verbatim>\<open>uncle_candidates\<close> of \<^verbatim>\<open>consensus/cryptarchia-engine/src/lib.rs\<close>.  The lemmas show that the selected blocks
  are exactly the oldest admissible first blocks of forks, one per slot.
\<close>

partial_function (option) collect_chain ::
  "'id branches \<Rightarrow> 'id branch option \<Rightarrow> nat \<Rightarrow> ('id \<rightharpoonup> slot) \<Rightarrow> slot set
     \<Rightarrow> (('id \<rightharpoonup> slot) \<times> slot set) option" where
  "collect_chain br current window_start ancestors occupied_slots =
     (case current of
        None \<Rightarrow> Some (ancestors, occupied_slots)
      | Some b \<Rightarrow>
          if b_slot b < window_start then Some (ancestors, occupied_slots)
          else collect_chain br (parent br b) window_start
                 (ancestors(b_id b \<mapsto> b_slot b))
                 (insert (b_slot b) occupied_slots
                    \<union> set (filter (\<lambda>uncle_slot. window_start \<le> uncle_slot) (b_uncle_slots b))))"

definition collect_chain_within_window ::
  "'id cryptarchia \<Rightarrow> 'id branch \<Rightarrow> nat \<Rightarrow> (('id \<rightharpoonup> slot) \<times> slot set) option" where
  "collect_chain_within_window c p window_start =
     collect_chain (cr_branches c) (Some p) window_start Map.empty {}"

partial_function (option) fork_candidates ::
  "'id branches \<Rightarrow> slot \<Rightarrow> nat \<Rightarrow> ('id \<rightharpoonup> slot) \<Rightarrow> slot set \<Rightarrow> 'id branch option
     \<Rightarrow> (slot \<times> 'id branch) list option" where
  "fork_candidates br sl window_start ancestors occupied_slots current =
     (case current of
        None \<Rightarrow> Some []
      | Some b \<Rightarrow>
          if b_slot b < window_start \<or> b_id b \<in> dom ancestors then Some []
          else do { rest \<leftarrow> fork_candidates br sl window_start ancestors occupied_slots (parent br b);
                    Some ((if b_slot b < sl
                           then (case ancestors (b_parent b) of
                                   None \<Rightarrow> []
                                 | Some parent_slot \<Rightarrow>
                                     if b_slot b \<notin> occupied_slots then [(parent_slot, b)] else [])
                           else []) @ rest) })"

definition uncle_candidates ::
  "('id set \<Rightarrow> 'id list) \<Rightarrow> 'id cryptarchia \<Rightarrow> slot \<Rightarrow> nat \<Rightarrow> ('id \<rightharpoonup> slot) \<Rightarrow> slot set
     \<Rightarrow> (slot \<times> 'id branch) list option" where
  "uncle_candidates iter_tips c sl window_start ancestors occupied_slots =
     do { tips \<leftarrow> tip_branches iter_tips (cr_branches c);
          found \<leftarrow> those (map (\<lambda>t. fork_candidates (cr_branches c) sl window_start ancestors occupied_slots (Some t)) tips);
          Some (concat found) }"

text \<open>The filter that lets the first candidate of every slot pass.\<close>

fun first_per_slot :: "slot set \<Rightarrow> (slot \<times> 'id branch) list \<Rightarrow> (slot \<times> 'id branch) list" where
  "first_per_slot selected_slots [] = []"
| "first_per_slot selected_slots ((parent_slot, uncle) # rest) =
     (if b_slot uncle \<in> selected_slots then first_per_slot selected_slots rest
      else (parent_slot, uncle) # first_per_slot (insert (b_slot uncle) selected_slots) rest)"

definition uncle_key :: "slot \<times> 'id branch \<Rightarrow> slot \<times> slot \<times> 'id" where
  "uncle_key x = (fst x, b_slot (snd x), b_id (snd x))"

definition select_uncles ::
  "('id::linorder set \<Rightarrow> 'id list) \<Rightarrow> 'id cryptarchia \<Rightarrow> 'id branch \<Rightarrow> slot \<Rightarrow> 'id branch list option" where
  "select_uncles iter_tips c p sl =
     do { era \<leftarrow> at_slot (cr_era_schedule c) sl;
          window \<leftarrow> uncle_reference_window_in_slot (ev_parameters era);
          let window_start = sl - window;
          (ancestors, occupied_slots) \<leftarrow> collect_chain_within_window c p window_start;
          candidates \<leftarrow> uncle_candidates iter_tips c sl window_start ancestors occupied_slots;
          let candidates = filter (\<lambda>(_, uncle). ev_first_slot era \<le> b_slot uncle) candidates;
          let candidates = sort_key uncle_key candidates;
          Some (map snd (take (max_uncles (ev_parameters era)) (first_per_slot {} candidates))) }"

subsection \<open>Chain and candidates\<close>

text \<open>The slots of the ancestors of \<open>p\<close> from \<open>ws\<close> on, and of the uncles they reference.\<close>

definition occupied :: "'id branches \<Rightarrow> 'id branch \<Rightarrow> nat \<Rightarrow> slot set" where
  "occupied br p ws = {s. ws \<le> s \<and> (\<exists>a. ancestor br a p \<and> ws \<le> b_slot a \<and> (s = b_slot a \<or> s \<in> set (b_uncle_slots a)))}"

definition window_ancestors :: "'id branches \<Rightarrow> 'id branch \<Rightarrow> nat \<Rightarrow> 'id \<rightharpoonup> slot" where
  "window_ancestors br p ws i =
     (case br_branches br i of
        None \<Rightarrow> None
      | Some a \<Rightarrow> if ancestor br a p \<and> ws \<le> b_slot a then Some (b_slot a) else None)"

lemma ancestor_iff_parent:
  "parent br b = Some p \<Longrightarrow> ancestor br a b \<longleftrightarrow> a = b \<or> ancestor br a p"
  using ancestor_parent [of br a b] ancestor.intros by fastforce

lemma window_ancestors_iff:
  assumes "tree_ok br" "in_tree br a"
  shows "window_ancestors br p ws (b_id a) = (if ancestor br a p \<and> ws \<le> b_slot a then Some (b_slot a) else None)"
  using assms(2) by (simp add: window_ancestors_def in_tree_def)

lemma window_ancestors_step:
  assumes "tree_ok br" "in_tree br b" "\<And>a. ancestor br a b \<longleftrightarrow> a = b \<or> P a" "ws \<le> b_slot b"
  shows "window_ancestors br b ws =
    (\<lambda>i. case br_branches br i of None \<Rightarrow> None
       | Some a \<Rightarrow> if P a \<and> ws \<le> b_slot a then Some (b_slot a) else None)(b_id b \<mapsto> b_slot b)"
proof
  fix i
  show "window_ancestors br b ws i = ((\<lambda>i. case br_branches br i of None \<Rightarrow> None
       | Some a \<Rightarrow> if P a \<and> ws \<le> b_slot a then Some (b_slot a) else None)(b_id b \<mapsto> b_slot b)) i"
  proof (cases "i = b_id b")
    case True
    then show ?thesis using assms(2-4) by (simp add: window_ancestors_def in_tree_def)
  next
    case False
    have "a \<noteq> b" if "br_branches br i = Some a" for a using in_tree_lookup [OF assms(1) that] False by auto
    then show ?thesis using False assms(3) by (auto simp: window_ancestors_def split: option.splits)
  qed
qed

lemma occupied_step:
  assumes "\<And>a. ancestor br a b \<longleftrightarrow> a = b \<or> P a" "ws \<le> b_slot b"
  shows "occupied br b ws = insert (b_slot b) (set (filter (\<lambda>s. ws \<le> s) (b_uncle_slots b))) \<union>
    {s. ws \<le> s \<and> (\<exists>a. P a \<and> ws \<le> b_slot a \<and> (s = b_slot a \<or> s \<in> set (b_uncle_slots a)))}"
  using assms by (auto simp: occupied_def)

lemma before_window:
  assumes "tree_ok br" "in_tree br b" "b_slot b < ws"
  shows "window_ancestors br b ws = Map.empty" "occupied br b ws = {}"
proof -
  have "b_slot a < ws" if "ancestor br a b" for a
    using ancestor_length_slot [OF that assms(1,2)] assms(3) by linarith
  then show "window_ancestors br b ws = Map.empty" "occupied br b ws = {}"
    by (force simp: window_ancestors_def occupied_def split: option.splits)+
qed

lemma collect_chain_None: "collect_chain br None ws anc occ = Some (anc, occ)"
  by (simp add: collect_chain.simps)

lemma collect_chain_Some:
  "collect_chain br (Some b) ws anc occ =
     (if b_slot b < ws then Some (anc, occ)
      else collect_chain br (parent br b) ws (anc(b_id b \<mapsto> b_slot b))
             (insert (b_slot b) occ \<union> set (filter (\<lambda>s. ws \<le> s) (b_uncle_slots b))))"
  by (subst collect_chain.simps) (simp add: fun_upd_def)

lemma collect_chain_returns:
  assumes "tree_ok br" "in_tree br b"
  shows "collect_chain br (Some b) ws anc occ = Some (anc ++ window_ancestors br b ws, occ \<union> occupied br b ws)"
  using assms
proof (induction arbitrary: anc occ rule: tree_induct)
  case lib
  let ?l = "lib_block br"
  show ?case
  proof (cases "b_slot ?l < ws")
    case True
    then show ?thesis
      using before_window [OF assms(1) in_tree_lib [OF assms(1)]] by (simp add: collect_chain_Some)
  next
    case False
    have anc: "ancestor br a ?l \<longleftrightarrow> a = ?l \<or> False" for a
      using ancestor_parent [of br a ?l] ancestor_refl assms(1) by auto
    have w: "window_ancestors br ?l ws = [b_id ?l \<mapsto> b_slot ?l]"
      using window_ancestors_step [OF assms(1) in_tree_lib [OF assms(1)] anc, of ws] False
      by (auto simp: fun_eq_iff split: option.splits)
    have "anc ++ window_ancestors br ?l ws = anc(b_id ?l \<mapsto> b_slot ?l)" for anc
      unfolding w by (simp add: map_add_def fun_eq_iff)
    moreover have "occupied br ?l ws = insert (b_slot ?l) (set (filter (\<lambda>s. ws \<le> s) (b_uncle_slots ?l)))"
      using occupied_step [OF anc, of ws] False by simp
    ultimately show ?thesis using False assms(1)
      by (simp add: collect_chain_Some collect_chain_None insert_commute Un_ac) (simp add: fun_eq_iff)
  qed
next
  case (step b p)
  show ?case
  proof (cases "b_slot b < ws")
    case True
    then show ?thesis using before_window [OF assms(1) step(1)] by (simp add: collect_chain_Some)
  next
    case False
    note anc = ancestor_iff_parent [OF step(2)]
    have w: "window_ancestors br b ws = (window_ancestors br p ws)(b_id b \<mapsto> b_slot b)"
      using window_ancestors_step [OF assms(1) step(1) anc, of ws] False
      by (simp add: fun_eq_iff window_ancestors_def)
    have o: "occupied br b ws = insert (b_slot b) (set (filter (\<lambda>s. ws \<le> s) (b_uncle_slots b))) \<union> occupied br p ws"
      using occupied_step [OF anc, of ws] False by (simp add: occupied_def)
    have "b_id b \<notin> dom (window_ancestors br p ws)"
    proof -
      have "\<not> ancestor br b p"
        using ancestor_length [OF _ assms(1) step(3)] parent_length(1) [OF assms(1) step(1,2)] by fastforce
      then show ?thesis using window_ancestors_iff [OF assms(1) step(1)] by (simp add: domIff)
    qed
    then have m: "anc(b_id b \<mapsto> b_slot b) ++ window_ancestors br p ws = anc ++ window_ancestors br b ws"
      unfolding w by (auto simp: map_add_def fun_eq_iff split: option.splits)
    have "collect_chain br (Some b) ws anc occ = collect_chain br (Some p) ws (anc(b_id b \<mapsto> b_slot b))
        (insert (b_slot b) occ \<union> set (filter (\<lambda>s. ws \<le> s) (b_uncle_slots b)))"
      using False step(2) collect_chain_Some [of br b ws anc occ] by simp
    also have "\<dots> = Some (anc ++ window_ancestors br b ws, occ \<union> occupied br b ws)"
      unfolding step.IH m o by (simp add: Un_ac)
    finally show ?thesis .
  qed
qed

text \<open>The candidates below a block: first blocks of forks off the chain of \<open>p\<close>.\<close>

definition admissible :: "'id branches \<Rightarrow> 'id branch \<Rightarrow> slot \<Rightarrow> nat \<Rightarrow> slot \<times> 'id branch \<Rightarrow> bool" where
  "admissible br p sl ws x \<longleftrightarrow>
     (\<exists>q. parent br (snd x) = Some q \<and> ancestor br q p \<and> ws \<le> b_slot q \<and> fst x = b_slot q) \<and>
     in_tree br (snd x) \<and> \<not> ancestor br (snd x) p \<and> b_slot (snd x) < sl \<and> b_slot (snd x) \<notin> occupied br p ws"

lemma in_dom_window_ancestors:
  assumes "tree_ok br" "in_tree br b" "\<not> b_slot b < ws"
  shows "b_id b \<in> dom (window_ancestors br p ws) \<longleftrightarrow> ancestor br b p"
  using window_ancestors_iff [OF assms(1,2)] assms(3) by (simp add: domIff)

text \<open>What the loop body pushes for a block that is neither before the window nor on the chain of \<open>p\<close>.\<close>

lemma pushed_admissible:
  assumes "tree_ok br" "in_tree br b" "\<not> ancestor br b p" "in_tree br p"
  shows "x \<in> set (if b_slot b < sl
          then (case window_ancestors br p ws (b_parent b) of None \<Rightarrow> []
                | Some ps \<Rightarrow> if b_slot b \<notin> occupied br p ws then [(ps, b)] else [])
          else []) \<longleftrightarrow> snd x = b \<and> admissible br p sl ws x"
proof -
  have "b \<noteq> lib_block br" using assms(3) lib_ancestor [OF assms(1,4)] by blast
  then obtain q where q: "parent br b = Some q" using parent_Some_iff_not_lib [OF assms(1,2)] by auto
  have "window_ancestors br p ws (b_parent b) = (if ancestor br q p \<and> ws \<le> b_slot q then Some (b_slot q) else None)"
    using window_ancestors_iff [OF assms(1) parent_in_tree [OF assms(1) q]] parent_id [OF assms(1) q] by simp
  then show ?thesis
    using q assms(2,3)
    by (cases "b_slot b < sl"; cases "ancestor br q p \<and> ws \<le> b_slot q"; cases "b_slot b \<in> occupied br p ws")
      (auto simp: admissible_def prod_eq_iff)
qed

lemma fork_candidates_returns:
  assumes "tree_ok br" "in_tree br b" "in_tree br p"
  shows "\<exists>cs. fork_candidates br sl ws (window_ancestors br p ws) (occupied br p ws) (Some b) = Some cs \<and>
    set cs = {x. ancestor br (snd x) b \<and> admissible br p sl ws x}"
  using assms(1,2)
proof (induction rule: tree_induct)
  case lib
  let ?l = "lib_block br"
  have "b_slot ?l < ws \<or> b_id ?l \<in> dom (window_ancestors br p ws)"
    using in_dom_window_ancestors [OF assms(1) in_tree_lib [OF assms(1)]] lib_ancestor [OF assms(1,3)] by blast
  moreover have "\<not> (ancestor br (snd x) ?l \<and> admissible br p sl ws x)" for x
  proof
    assume x: "ancestor br (snd x) ?l \<and> admissible br p sl ws x"
    then have "snd x = ?l" using ancestor_parent [of br "snd x" ?l] assms(1) by auto
    then show False using x lib_ancestor [OF assms(1,3)] unfolding admissible_def by metis
  qed
  ultimately show ?case by (simp add: fork_candidates.simps)
next
  case (step b q)
  let ?A = "window_ancestors br p ws"
  show ?case
  proof (cases "b_slot b < ws \<or> b_id b \<in> dom ?A")
    case True
    have "\<not> (ancestor br (snd x) b \<and> admissible br p sl ws x)" for x
    proof
      assume x: "ancestor br (snd x) b \<and> admissible br p sl ws x"
      then obtain r where r: "parent br (snd x) = Some r" "ws \<le> b_slot r" "\<not> ancestor br (snd x) p" "in_tree br (snd x)"
        by (auto simp: admissible_def)
      have "b_slot r \<le> b_slot b"
        using parent_length(2) [OF assms(1) r(4,1)] ancestor_length_slot [of br "snd x" b] x assms(1) step(1) by force
      then have nw: "\<not> b_slot b < ws" using r(2) by linarith
      then have "ancestor br b p" using True in_dom_window_ancestors [OF assms(1) step(1) nw] by blast
      then show False using r(3) x ancestor_trans by blast
    qed
    then show ?thesis using True by (simp add: fork_candidates.simps)
  next
    case False
    have nb: "\<not> ancestor br b p" using False in_dom_window_ancestors [OF assms(1) step(1)] by blast
    obtain cs where cs: "fork_candidates br sl ws ?A (occupied br p ws) (Some q) = Some cs"
      "set cs = {x. ancestor br (snd x) q \<and> admissible br p sl ws x}"
      using step.IH by blast
    define here where "here = (if b_slot b < sl then (case ?A (b_parent b) of None \<Rightarrow> []
        | Some ps \<Rightarrow> if b_slot b \<notin> occupied br p ws then [(ps, b)] else []) else [])"
    have "x \<in> set (here @ cs) \<longleftrightarrow> ancestor br (snd x) b \<and> admissible br p sl ws x" for x
      using pushed_admissible [OF assms(1) step(1) nb assms(3), of x sl ws, folded here_def]
        ancestor_iff_parent [OF step(2), of "snd x"] cs(2) by auto
    then have "set (here @ cs) = {x. ancestor br (snd x) b \<and> admissible br p sl ws x}" by blast
    moreover have "fork_candidates br sl ws ?A (occupied br p ws) (Some b) = Some (here @ cs)"
      unfolding here_def using False cs(1) step(2) by (subst fork_candidates.simps) simp
    ultimately show ?thesis by blast
  qed
qed

lemma uncle_candidates_returns:
  assumes "tree_ok (cr_branches c)" "tips_ok (cr_branches c)" "iterates iter_tips" "in_tree (cr_branches c) p"
  obtains cs where "uncle_candidates iter_tips c sl ws (window_ancestors (cr_branches c) p ws)
      (occupied (cr_branches c) p ws) = Some cs" "set cs = {x. admissible (cr_branches c) p sl ws x}"
proof -
  let ?br = "cr_branches c"
  obtain ts where ts: "tip_branches iter_tips ?br = Some ts" "set ts = {t. in_tree ?br t \<and> b_id t \<in> br_tips ?br}"
    by (rule tip_branches_returns [OF assms(1-3)])
  define f where "f = (\<lambda>t. fork_candidates ?br sl ws (window_ancestors ?br p ws) (occupied ?br p ws) (Some t))"
  have f: "f t = Some (the (f t)) \<and> set (the (f t)) = {x. ancestor ?br (snd x) t \<and> admissible ?br p sl ws x}"
    if "t \<in> set ts" for t
    using fork_candidates_returns [OF assms(1) _ assms(4), of t sl ws] that ts(2) by (auto simp: f_def)
  have "those (map f ts) = Some (map (the \<circ> f) ts)"
    using those_map_Some [of ts f "the \<circ> f"] f by simp
  then have "uncle_candidates iter_tips c sl ws (window_ancestors ?br p ws) (occupied ?br p ws) =
      Some (concat (map (the \<circ> f) ts))"
    using ts(1) unfolding uncle_candidates_def f_def [symmetric] by simp
  moreover have "set (concat (map (the \<circ> f) ts)) = {x. admissible ?br p sl ws x}"
  proof -
    have "\<exists>t \<in> set ts. ancestor ?br (snd x) t" if "admissible ?br p sl ws x" for x
      using that tip_above [OF assms(1,2), of "snd x"] ts(2) by (fastforce simp: admissible_def)
    then show ?thesis using f by fastforce
  qed
  ultimately show thesis using that by blast
qed

subsection \<open>Selection\<close>

lemma set_first_per_slot:
  "set (first_per_slot seen xs) \<subseteq> {x \<in> set xs. b_slot (snd x) \<notin> seen}"
  by (induction seen xs rule: first_per_slot.induct) auto

lemma distinct_first_per_slot: "distinct (map (b_slot \<circ> snd) (first_per_slot seen xs))"
proof (induction seen xs rule: first_per_slot.induct)
  case (2 seen ps u rest)
  then show ?case using set_first_per_slot [of "insert (b_slot u) seen" rest] by auto
qed simp

lemma slots_first_per_slot:
  "(b_slot \<circ> snd) ` set (first_per_slot seen xs) = (b_slot \<circ> snd) ` set xs - seen"
  by (induction seen xs rule: first_per_slot.induct) auto

lemma sorted_first_per_slot:
  "sorted (map uncle_key xs) \<Longrightarrow> sorted (map uncle_key (first_per_slot seen xs))"
proof (induction seen xs rule: first_per_slot.induct)
  case (2 seen ps u rest)
  then show ?case using set_first_per_slot [of "insert (b_slot u) seen" rest] by auto
qed simp

text \<open>In a list that is ordered by the key, exactly the candidates with the least key of their slot pass.\<close>

lemma first_per_slot_least:
  assumes "sorted (map uncle_key xs)" "inj_on uncle_key (set xs)"
  shows "x \<in> set (first_per_slot seen xs) \<longleftrightarrow> x \<in> set xs \<and> b_slot (snd x) \<notin> seen \<and>
    (\<forall>y \<in> set xs. b_slot (snd y) = b_slot (snd x) \<longrightarrow> uncle_key x \<le> uncle_key y)"
  using assms
proof (induction seen xs rule: first_per_slot.induct)
  case (2 seen ps u rest)
  have s: "sorted (map uncle_key rest)" "inj_on uncle_key (set rest)" "\<forall>y \<in> set rest. uncle_key (ps, u) \<le> uncle_key y"
    using 2(3,4) by (auto simp: inj_on_def)
  show ?case
  proof (cases "b_slot u \<in> seen \<or> x = (ps, u)")
    case True
    then show ?thesis using 2(1) [OF _ s(1,2)] s(3) by (cases "b_slot u \<in> seen") auto
  next
    case False
    have "uncle_key x \<noteq> uncle_key (ps, u)" if "x \<in> set rest" using 2(4) False that by (simp add: inj_on_def) blast
    then have "\<not> uncle_key x \<le> uncle_key (ps, u)" if "x \<in> set rest" using s(3) that by (meson antisym)
    then show ?thesis using 2(2) [OF _ s(1,2)] False by auto
  qed
qed simp

lemma strictly_sorted:
  "sorted (map f xs) \<Longrightarrow> distinct (map f xs) \<Longrightarrow> sorted_wrt (<) (map f xs)"
  by (simp add: strict_sorted_iff)

lemma admissible_key_inj: "inj_on uncle_key {x. admissible br p sl ws x}"
  by (rule inj_onI) (auto simp: uncle_key_def admissible_def prod_eq_iff intro: in_tree_id_eq)

text \<open>The parameters the selection reads at a slot: the uncle window, the first slot of the era and the bound.\<close>

definition uncle_params :: "config era_schedule \<Rightarrow> slot \<Rightarrow> nat \<Rightarrow> slot \<Rightarrow> nat \<Rightarrow> bool" where
  "uncle_params es sl window first bound \<longleftrightarrow>
     (\<exists>era. at_slot es sl = Some era \<and> uncle_reference_window_in_slot (ev_parameters era) = Some window \<and>
            first = ev_first_slot era \<and> bound = max_uncles (ev_parameters era))"

text \<open>The uncles that may be selected, and among them the first of their slot.\<close>

definition eligible :: "'id branches \<Rightarrow> 'id branch \<Rightarrow> slot \<Rightarrow> nat \<Rightarrow> slot \<Rightarrow> (slot \<times> 'id branch) set" where
  "eligible br p sl ws first = {x. admissible br p sl ws x \<and> first \<le> b_slot (snd x)}"

definition slot_firsts :: "(slot \<times> 'id::linorder branch) set \<Rightarrow> (slot \<times> 'id branch) set" where
  "slot_firsts A = {x \<in> A. \<forall>y \<in> A. b_slot (snd y) = b_slot (snd x) \<longrightarrow> uncle_key x \<le> uncle_key y}"

text \<open>C18: \<^verbatim>\<open>select_uncles\<close> returns, and selects exactly what its documentation promises.  A block is eligible if it is the
  first block of a fork off the chain of the parent block: it is not on that chain but its parent is, with
  a slot at most the window before the new block; its own slot is before the new block's, not before
  the era's first slot, and not occupied by that chain or its uncles.  Of the eligible blocks of a slot, the one with the least
  parent slot, slot and identifier counts.  The selected uncles are the first of these in this order, in this order, as many as the era allows: a block that
  counts is left out only if the bound is reached and all selected uncles come before it.  When the bound is not reached, every slot of
  an eligible block is the slot of a selected uncle.\<close>

theorem select_uncles_correct:
  assumes "reachable c" "iterates iter_tips" "in_tree (cr_branches c) p"
    "uncle_params (cr_era_schedule c) sl window first bound"
    "A = eligible (cr_branches c) p sl (sl - window) first"
  shows "\<exists>us. select_uncles iter_tips c p sl = Some (map snd us) \<and> length us \<le> bound \<and>
    set us \<subseteq> slot_firsts A \<and> sorted_wrt (<) (map uncle_key us) \<and> distinct (map (b_slot \<circ> snd) us) \<and>
    (\<forall>x \<in> slot_firsts A - set us. length us = bound \<and> (\<forall>u \<in> set us. uncle_key u < uncle_key x)) \<and>
    (length us < bound \<longrightarrow> (\<forall>x \<in> A. b_slot (snd x) \<in> (b_slot \<circ> snd) ` set us))"
proof -
  let ?br = "cr_branches c" and ?ws = "sl - window"
  have ok: "tree_ok ?br" "tips_ok ?br" using reachable_ok [OF assms(1)] by (auto simp: engine_ok_def)
  obtain era where era: "at_slot (cr_era_schedule c) sl = Some era"
    "uncle_reference_window_in_slot (ev_parameters era) = Some window"
    "first = ev_first_slot era" "bound = max_uncles (ev_parameters era)"
    using assms(4) by (auto simp: uncle_params_def)
  obtain cs where cs: "uncle_candidates iter_tips c sl ?ws (window_ancestors ?br p ?ws) (occupied ?br p ?ws) = Some cs"
    "set cs = {x. admissible ?br p sl ?ws x}"
    by (rule uncle_candidates_returns [OF ok assms(2,3)])
  have chain: "collect_chain_within_window c p ?ws = Some (window_ancestors ?br p ?ws, occupied ?br p ?ws)"
    using collect_chain_returns [OF ok(1) assms(3)] by (simp add: collect_chain_within_window_def)
  define fs where "fs = sort_key uncle_key (filter (\<lambda>(_, u). first \<le> b_slot u) cs)"
  define os where "os = first_per_slot {} fs"
  define us where "us = take bound os"
  have sel: "select_uncles iter_tips c p sl = Some (map snd us)"
    using era(1,2) chain cs(1) by (simp add: select_uncles_def era(3,4) us_def os_def fs_def)
  have fs: "set fs = A" "sorted (map uncle_key fs)" "inj_on uncle_key (set fs)"
    using cs(2) admissible_key_inj [of ?br p sl ?ws] by (auto simp: fs_def assms(5) eligible_def intro: inj_on_subset)
  have os: "set os = slot_firsts A" "(b_slot \<circ> snd) ` set os = (b_slot \<circ> snd) ` A"
    using first_per_slot_least [OF fs(2,3), of _ "{}"] slots_first_per_slot [of "{}" fs] fs(1) by (auto simp: os_def slot_firsts_def)
  have distinct: "distinct (map (b_slot \<circ> snd) os)" by (simp add: os_def distinct_first_per_slot)
  then have "inj_on uncle_key (set os)" "distinct os" by (auto simp: distinct_map uncle_key_def inj_on_def)
  then have "sorted_wrt (<) (map uncle_key os)"
    using sorted_first_per_slot [OF fs(2), of "{}"] by (intro strictly_sorted) (simp_all add: os_def distinct_map)
  then have split: "sorted_wrt (<) (map uncle_key us @ map uncle_key (drop bound os))"
    by (simp add: us_def map_append [symmetric] del: map_append)
  have left: "length us = bound \<and> (\<forall>u \<in> set us. uncle_key u < uncle_key x)" if "x \<in> slot_firsts A - set us" for x
  proof -
    have "x \<in> set (drop bound os)" using that os(1) append_take_drop_id [of bound os] by (metis DiffD1 DiffD2 Un_iff set_append us_def)
    moreover from this have "drop bound os \<noteq> []" by auto
    then have "bound < length os" by simp
    ultimately show ?thesis using split by (auto simp: sorted_wrt_append us_def)
  qed
  have "set us \<subseteq> slot_firsts A" "sorted_wrt (<) (map uncle_key us)" "distinct (map (b_slot \<circ> snd) us)" "length us \<le> bound"
    using os(1) set_take_subset [of bound os] split distinct by (auto simp: us_def sorted_wrt_append take_map [symmetric])
  moreover have "length us < bound \<longrightarrow> (\<forall>x \<in> A. b_slot (snd x) \<in> (b_slot \<circ> snd) ` set us)"
    using os(2) by (auto simp: us_def)
  ultimately show ?thesis using sel left by blast
qed

text \<open>In the forked engine, the block 2 is the uncle of a block on top of block 1.\<close>

lemma engine2_eligible: "eligible (cr_branches engine2) (block 1 0 1 1) 3 0 0 = {(0, block 2 0 2 1)}"
proof -
  define b0 b1 b2 where b: "b0 = block 0 0 0 0" "b1 = block 1 0 1 1" "b2 = block 2 0 2 1"
  have slots: "b_slot b0 = 0" "b_slot b1 = 1" "b_slot b2 = 2" "b_uncle_slots b0 = []" "b_uncle_slots b1 = []" by (simp_all add: b block_def)
  have tree: "in_tree forked x \<longleftrightarrow> x = b0 \<or> x = b1 \<or> x = b2" for x
    by (auto simp: in_tree_def forked_def b block_def split: if_splits)
  have parent: "parent forked b0 = None" "parent forked b1 = Some b0" "parent forked b2 = Some b0"
    by (simp_all add: parent_def forked_def b block_def)
  have "ancestor forked a b0 \<longleftrightarrow> a = b0" for a using ancestor_parent [of forked a b0] ancestor_refl parent(1) by auto
  then have anc: "ancestor forked a b1 \<longleftrightarrow> a = b1 \<or> a = b0" for a using ancestor_iff_parent [OF parent(2)] by simp
  have occ: "occupied forked b1 0 = {0, 1}" unfolding occupied_def anc using slots by auto
  have "admissible forked b1 3 0 x \<longleftrightarrow> x = (0, b2)" for x
  proof
    assume x: "admissible forked b1 3 0 x"
    then have "snd x = b2" unfolding admissible_def anc tree by blast
    moreover from this have "fst x = 0" using x slots(1) by (simp add: admissible_def parent(3))
    ultimately show "x = (0, b2)" by (simp add: prod_eq_iff)
  next
    assume "x = (0, b2)"
    moreover have "b2 \<noteq> b0" "b2 \<noteq> b1" using slots by auto
    ultimately show "admissible forked b1 3 0 x" by (simp add: admissible_def anc tree occ slots parent(3))
  qed
  then show ?thesis by (auto simp: eligible_def engine2_def b)
qed

theorem select_uncles_correct_witness:
  "select_uncles sorted_list_of_set engine2 (block 1 0 1 1) 3 = Some [block 2 0 2 1]"
proof -
  let ?x = "(0, block 2 0 2 1)"
  have params: "uncle_params (cr_era_schedule engine2) 3 4 0 2"
    by (simp add: uncle_params_def engine2_def engine_eval uncle_reference_window_in_slot_def nonzero_slots_for_blocks_def)
  have p: "in_tree (cr_branches engine2) (block 1 0 1 1)" using forked_ok(2) by (simp add: engine2_def)
  have A: "{?x} = eligible (cr_branches engine2) (block 1 0 1 1) 3 (3 - 4) 0" using engine2_eligible by simp
  have firsts: "slot_firsts {?x} = {?x}" by (auto simp: slot_firsts_def)
  obtain us where us: "select_uncles sorted_list_of_set engine2 (block 1 0 1 1) 3 = Some (map snd us)"
      "set us \<subseteq> {?x}" "distinct (map (b_slot \<circ> snd) us)" "\<forall>x \<in> {?x} - set us. length us = 2 \<and> (\<forall>u \<in> set us. uncle_key u < uncle_key x)"
    using select_uncles_correct [OF engine2_reachable sorted_iterates p params A] unfolding firsts by (elim exE conjE) (rule that)
  have "distinct us" using us(3) by (simp add: distinct_map)
  moreover have "us \<noteq> []" using us(4) by auto
  then have "set us = {?x}" using us(2) subset_singletonD by fastforce
  ultimately have "us = [?x]" using distinct_card [of us] by (cases us; cases "tl us") auto
  then show ?thesis using us(1) by simp
qed

end
