(* ===== verification/MerkleRef.thy ===== *)
theory MerkleRef
  imports Prelude
begin

text \<open>
  The reference Merkle tree that the accumulators of the node are compared with.

  The two-to-one hash \<^verbatim>\<open>Digest::compress\<close> is the argument \<open>compress\<close>.  \<open>merkle compress f d j\<close> is the root of the
  complete binary tree of depth \<open>d\<close> over the leaves \<open>f (j * 2 ^ d), \<dots>, f ((j + 1) * 2 ^ d - 1)\<close>.  The sibling
  of the node \<open>j\<close> of a level is \<open>sibling j\<close>, and \<open>fold_path\<close> recomputes the root from a leaf and the
  siblings on its way up.
\<close>

primrec merkle :: "('h \<Rightarrow> 'h \<Rightarrow> 'h) \<Rightarrow> (nat \<Rightarrow> 'h) \<Rightarrow> nat \<Rightarrow> nat \<Rightarrow> 'h" where
  "merkle compress f 0 j = f j"
| "merkle compress f (Suc d) j = compress (merkle compress f d (2 * j)) (merkle compress f d (2 * j + 1))"

definition sibling :: "nat \<Rightarrow> nat" where
  "sibling j = (if even j then j + 1 else j - 1)"

definition sibling_hash :: "('h \<Rightarrow> 'h \<Rightarrow> 'h) \<Rightarrow> (nat \<Rightarrow> 'h) \<Rightarrow> nat \<Rightarrow> nat \<Rightarrow> 'h" where
  "sibling_hash compress f i d = merkle compress f d (sibling (i div 2 ^ d))"

fun fold_path :: "('h \<Rightarrow> 'h \<Rightarrow> 'h) \<Rightarrow> nat \<Rightarrow> 'h \<Rightarrow> 'h list \<Rightarrow> 'h" where
  "fold_path compress j x [] = x"
| "fold_path compress j x (s # ss) =
     fold_path compress (j div 2) (if even j then compress x s else compress s x) ss"

primrec empty_roots :: "('h \<Rightarrow> 'h \<Rightarrow> 'h) \<Rightarrow> 'h \<Rightarrow> nat \<Rightarrow> 'h" where
  "empty_roots compress zero 0 = zero"
| "empty_roots compress zero (Suc i) =
     compress (empty_roots compress zero i) (empty_roots compress zero i)"

text \<open>The two arguments of the hash at the parent of node \<open>j\<close>, and the collision on two ways up from node \<open>j\<close> to the same root.\<close>

definition hash_input :: "nat \<Rightarrow> 'h \<Rightarrow> 'h \<Rightarrow> 'h \<times> 'h" where
  "hash_input j x s = (if even j then (x, s) else (s, x))"

fun path_collision :: "('h \<Rightarrow> 'h \<Rightarrow> 'h) \<Rightarrow> nat \<Rightarrow> 'h \<Rightarrow> 'h list \<Rightarrow> 'h \<Rightarrow> 'h list \<Rightarrow> (('h \<times> 'h) \<times> 'h \<times> 'h) option" where
  "path_collision compress j x (s # ss) y (t # ts) =
     (let a = hash_input j x s; b = hash_input j y t
      in if a \<noteq> b \<and> case_prod compress a = case_prod compress b then Some (a, b)
         else path_collision compress (j div 2) (case_prod compress a) ss (case_prod compress b) ts)"
| "path_collision compress j x _ y _ = None"

text \<open>A hash without collisions for the examples: the free algebra of pairs over atoms.\<close>

datatype symbolic = Atom nat | Node symbolic symbolic

subsection \<open>Congruence and siblings\<close>

lemma merkle_cong:
  "(\<And>i. j * 2 ^ d \<le> i \<Longrightarrow> i < (j + 1) * 2 ^ d \<Longrightarrow> f i = g i) \<Longrightarrow> merkle c f d j = merkle c g d j"
proof (induction d arbitrary: j)
  case (Suc d)
  have "merkle c f d (2 * j) = merkle c g d (2 * j)"
    by (rule Suc.IH) (rule Suc.prems, auto simp: algebra_simps)
  moreover have "merkle c f d (2 * j + 1) = merkle c g d (2 * j + 1)"
    by (rule Suc.IH) (rule Suc.prems, auto simp: algebra_simps)
  ultimately show ?case by simp
qed simp

lemma in_subtree_iff: "j * 2 ^ d \<le> i \<and> i < (j + 1) * 2 ^ d \<longleftrightarrow> i div 2 ^ d = (j::nat)"
proof
  assume "j * 2 ^ d \<le> i \<and> i < (j + 1) * 2 ^ d"
  then show "i div 2 ^ d = j" by (intro div_nat_eqI) (auto simp: mult.commute)
next
  assume "i div 2 ^ d = j"
  then show "j * 2 ^ d \<le> i \<and> i < (j + 1) * 2 ^ d"
    using dividend_less_div_times [of "2 ^ d" i] div_times_less_eq_dividend [of i "2 ^ d"] by auto
qed

lemma merkle_outside: "i div 2 ^ d \<noteq> j \<Longrightarrow> merkle c (f(i := x)) d j = merkle c f d j"
  by (rule merkle_cong) (auto simp flip: in_subtree_iff)

lemma merkle_empty:
  "(\<And>i. j * 2 ^ d \<le> i \<Longrightarrow> f i = z) \<Longrightarrow> merkle c f d j = empty_roots c z d"
proof (induction d arbitrary: j)
  case (Suc d)
  have "merkle c f d (2 * j) = empty_roots c z d" "merkle c f d (2 * j + 1) = empty_roots c z d"
    by (rule Suc.IH, rule Suc.prems, simp)+
  then show ?case by simp
qed simp

lemma merkle_shift: "merkle c f d (j + k) = merkle c (\<lambda>i. f (i + k * 2 ^ d)) d j"
proof (induction d arbitrary: j k)
  case (Suc d)
  have "merkle c f d (2 * j + 2 * k) = merkle c (\<lambda>i. f (i + 2 * k * 2 ^ d)) d (2 * j)"
    "merkle c f d (2 * j + 1 + 2 * k) = merkle c (\<lambda>i. f (i + 2 * k * 2 ^ d)) d (2 * j + 1)"
    by (rule Suc)+
  then show ?case by (simp add: algebra_simps)
qed simp

lemma sibling_sibling [simp]: "sibling (sibling j) = j"
  by (auto simp: sibling_def)

lemma sibling_div2 [simp]: "sibling j div 2 = j div 2"
  by (auto simp: sibling_def elim: oddE)

lemma sibling_neq [simp]: "sibling j \<noteq> j"
  by (auto simp: sibling_def elim: oddE)

lemma eq_sibling_iff: "a = sibling b \<longleftrightarrow> a \<noteq> b \<and> a div 2 = b div 2"
proof
  assume "a \<noteq> b \<and> a div 2 = b div 2"
  then show "a = sibling b"
    by (cases "even a"; cases "even b") (auto simp: sibling_def elim!: evenE oddE)
qed simp

lemma merkle_Suc_of_child:
  "merkle c f (Suc d) (j div 2) =
     (if even j then c (merkle c f d j) (merkle c f d (sibling j))
      else c (merkle c f d (sibling j)) (merkle c f d j))"
  by (auto simp: sibling_def elim!: evenE oddE)

text \<open>A path that holds the sibling of every level leads to the root.\<close>

lemma fold_path_merkle:
  "(\<And>d. d < length ss \<Longrightarrow> ss ! d = merkle c f (e + d) (sibling (j div 2 ^ d))) \<Longrightarrow>
   fold_path c j (merkle c f e j) ss = merkle c f (e + length ss) (j div 2 ^ length ss)"
proof (induction ss arbitrary: j e)
  case (Cons s ss)
  have "s = merkle c f e (sibling j)" using Cons.prems [of 0] by simp
  then have "(if even j then c (merkle c f e j) s else c s (merkle c f e j)) = merkle c f (Suc e) (j div 2)"
    by (simp only: merkle_Suc_of_child)
  moreover have "ss ! d = merkle c f (Suc e + d) (sibling (j div 2 div 2 ^ d))" if "d < length ss" for d
    using Cons.prems [of "Suc d"] that by (simp add: div_mult2_eq)
  ultimately show ?case using Cons.IH [of "Suc e" "j div 2"] by (simp add: div_mult2_eq)
qed simp

text \<open>Two ways up from different leaves to the same root contain a collision of the hash.\<close>

lemma path_collision_sound:
  "path_collision c j x ss y ts = Some (a, b) \<Longrightarrow> a \<noteq> b \<and> case_prod c a = case_prod c b"
  by (induction c j x ss y ts rule: path_collision.induct) (auto simp: Let_def split: if_splits)

lemma path_collision_exists:
  assumes "length ss = length ts" "x \<noteq> y" "fold_path c j x ss = fold_path c j y ts"
  shows "\<exists>a b. path_collision c j x ss y ts = Some (a, b)"
  using assms
proof (induction ss ts arbitrary: j x y rule: list_induct2)
  case (Cons s ss t ts)
  let ?a = "hash_input j x s" and ?b = "hash_input j y t"
  have up: "fold_path c (j div 2) (case_prod c ?a) ss = fold_path c (j div 2) (case_prod c ?b) ts"
    using Cons.prems(2) by (simp add: hash_input_def split: if_splits)
  have "?a \<noteq> ?b" using Cons.prems(1) by (auto simp: hash_input_def)
  then show ?case using Cons.IH [OF _ up] by (simp add: Let_def)
qed simp

subsection \<open>Accumulators\<close>

text \<open>
  What a client of an authenticated container relies on: the root is the reference root of the
  leaves, and the path of a position holds the sibling hashes.  Then a path verifies its leaf, and
  a path that verifies another value there contains a collision of the hash with the true path.
\<close>

locale merkle_container =
  fixes compress :: "'h \<Rightarrow> 'h \<Rightarrow> 'h" and depth :: nat
    and valid :: "'s \<Rightarrow> bool" and leaf :: "'s \<Rightarrow> nat \<Rightarrow> 'h" and root :: "'s \<Rightarrow> 'h"
    and path :: "'s \<Rightarrow> nat \<Rightarrow> 'h list \<Rightarrow> bool"
  assumes root_merkle: "valid s \<Longrightarrow> root s = merkle compress (leaf s) depth 0"
    and path_siblings: "valid s \<Longrightarrow> path s i ss \<Longrightarrow> i < 2 ^ depth \<Longrightarrow>
      length ss = depth \<and> (\<forall>d < depth. ss ! d = sibling_hash compress (leaf s) i d)"
begin

lemma siblings_verify:
  assumes "valid s" "i < 2 ^ depth" "length ss = depth" "\<forall>d < depth. ss ! d = sibling_hash compress (leaf s) i d"
  shows "fold_path compress i (leaf s i) ss = root s"
proof -
  have "fold_path compress i (merkle compress (leaf s) 0 i) ss
      = merkle compress (leaf s) (0 + length ss) (i div 2 ^ length ss)"
    using assms(3,4) by (intro fold_path_merkle) (auto simp: sibling_hash_def)
  then show ?thesis using assms(2,3) root_merkle [OF assms(1)] by simp
qed

lemma path_verifies:
  assumes "valid s" "path s i ss" "i < 2 ^ depth"
  shows "fold_path compress i (leaf s i) ss = root s"
  using siblings_verify [OF assms(1,3)] path_siblings [OF assms] by blast

lemma path_binding:
  assumes "valid s" "i < 2 ^ depth" "length ts = depth" "fold_path compress i x ts = root s" "x \<noteq> leaf s i"
  shows "\<exists>a b. path_collision compress i x ts (leaf s i) (map (sibling_hash compress (leaf s) i) [0..<depth]) = Some (a, b) \<and>
    a \<noteq> b \<and> case_prod compress a = case_prod compress b"
proof -
  let ?ss = "map (sibling_hash compress (leaf s) i) [0..<depth]"
  have "fold_path compress i (leaf s i) ?ss = root s"
    by (rule siblings_verify [OF assms(1,2)]) simp_all
  then have "\<exists>a b. path_collision compress i x ts (leaf s i) ?ss = Some (a, b)"
    using path_collision_exists [of ts ?ss x "leaf s i" compress i] assms(3-5) by simp
  then show ?thesis using path_collision_sound by metis
qed

lemma same_leaves_same_root:
  assumes "valid s" "valid t" "\<And>i. i < 2 ^ depth \<Longrightarrow> leaf s i = leaf t i"
  shows "root s = root t"
  using assms merkle_cong [of 0 depth "leaf s" "leaf t" compress] root_merkle by simp

end

end
