(* ===== verification/MMR.thy ===== *)
theory MMR
  imports MerkleRef
begin

text \<open>
  The append-only Merkle Mountain Range of \<^verbatim>\<open>mmr/src/lib.rs\<close> and its inclusion paths of \<^verbatim>\<open>mmr/src/path.rs\<close>.

  An MMR is its stack of peaks, the top first.  \<open>mh\<close> is the constant \<^verbatim>\<open>MAX_HEIGHT\<close>, \<open>compress\<close> the hash and \<open>zero\<close>
  the value of an empty leaf.  The lemmas show that the stack is determined by the leaves pushed so
  far (\<open>peaks\<close>), that \<^verbatim>\<open>push\<close> refines appending a leaf, that \<^verbatim>\<open>frontier_root\<close> is the reference root of the
  leaves padded with empty ones, and that \<^verbatim>\<open>push_with_paths\<close> keeps every tracked path valid.
\<close>

unbundle bit_operations_syntax

record 'h mmr_root =
  rt_root :: 'h
  rt_height :: nat

type_synonym 'h mmr = "'h mmr_root list"

record 'h merkle_path =
  mp_leaf_index :: nat
  mp_siblings :: "'h list"

datatype mmr_full = MmrFull

datatype merkle_path_error =
    SiblingCountOutOfBounds
  | InvalidSiblingCount nat nat
  | LeafIndexOutOfRange nat nat

datatype push_with_paths_error = PushMmrFull mmr_full | InvalidTrackedPath merkle_path_error

definition ACCEPTABLE_MAX_HEIGHT :: nat where
  "ACCEPTABLE_MAX_HEIGHT = 33"

definition MAX_MERKLE_PATH_SIBLINGS :: nat where
  "MAX_MERKLE_PATH_SIBLINGS = ACCEPTABLE_MAX_HEIGHT - 1"

datatype unsupported_mmr_height = UnsupportedMmrHeight nat nat

definition validate_supported_max_height :: "nat \<Rightarrow> unsupported_mmr_height + unit" where
  "validate_supported_max_height max_height =
     (if \<not> (1 \<le> max_height \<and> max_height \<le> ACCEPTABLE_MAX_HEIGHT)
      then Inl (UnsupportedMmrHeight max_height ACCEPTABLE_MAX_HEIGHT) else Inr ())"

definition assert_acceptable_height :: "nat \<Rightarrow> unit option" where
  "assert_acceptable_height max_height =
     (case validate_supported_max_height max_height of Inl _ \<Rightarrow> None | Inr u \<Rightarrow> Some u)"

definition new_mmr :: "nat \<Rightarrow> 'h mmr option" where
  "new_mmr mh = do { _ \<leftarrow> assert_acceptable_height mh; Some [] }"

definition empty_subtree_root :: "('h \<Rightarrow> 'h \<Rightarrow> 'h) \<Rightarrow> 'h \<Rightarrow> nat \<Rightarrow> 'h option" where
  "empty_subtree_root compress zero height =
     do { _ \<leftarrow> assert_acceptable_height height; Some (empty_roots compress zero (height - 1)) }"

definition num_leaves :: "nat \<Rightarrow> nat" where
  "num_leaves height = 2 ^ (wrapping_sub 8 height 1 mod 64)"

definition mmr_capacity :: "nat \<Rightarrow> nat" where
  "mmr_capacity mh = num_leaves mh"

definition mmr_len :: "'h mmr \<Rightarrow> nat" where
  "mmr_len roots = sum_list (map (\<lambda>r. num_leaves (rt_height r)) roots) mod 2 ^ 64"

definition mmr_is_empty :: "'h mmr \<Rightarrow> bool" where
  "mmr_is_empty roots \<longleftrightarrow> roots = []"

definition mmr_is_full :: "nat \<Rightarrow> 'h mmr \<Rightarrow> bool" where
  "mmr_is_full mh roots \<longleftrightarrow> (case roots of [] \<Rightarrow> False | r # _ \<Rightarrow> rt_height r = mh)"

text \<open>The parent of the peak \<open>root\<close> and the subtree \<open>last_root\<close> to its right.\<close>

definition merged :: "('h \<Rightarrow> 'h \<Rightarrow> 'h) \<Rightarrow> 'h mmr_root \<Rightarrow> 'h mmr_root \<Rightarrow> 'h mmr_root" where
  "merged compress root last_root =
     \<lparr>rt_root = compress (rt_root root) (rt_root last_root), rt_height = wrapping_add 8 (rt_height last_root) 1\<rparr>"

fun merge_peaks ::
  "('h \<Rightarrow> 'h \<Rightarrow> 'h) \<Rightarrow> nat \<Rightarrow> 'h mmr_root \<Rightarrow> 'h mmr \<Rightarrow> ('h mmr_root \<times> 'h mmr) option" where
  "merge_peaks compress mh last_root [] = Some (last_root, [])"
| "merge_peaks compress mh last_root (root # roots) =
     (if rt_height last_root = rt_height root
      then (let last_root = merged compress root last_root
            in if rt_height last_root \<le> mh then merge_peaks compress mh last_root roots else None)
      else Some (last_root, root # roots))"

definition push :: "('h \<Rightarrow> 'h \<Rightarrow> 'h) \<Rightarrow> nat \<Rightarrow> 'h mmr \<Rightarrow> 'h \<Rightarrow> (mmr_full + 'h mmr) option" where
  "push compress mh roots elem =
     (if mmr_is_full mh roots then Some (Inl MmrFull)
      else do { (last_root, roots) \<leftarrow> merge_peaks compress mh \<lparr>rt_root = elem, rt_height = 1\<rparr> roots;
                Some (Inr (last_root # roots)) })"

text \<open>The loops of \<^verbatim>\<open>frontier_root\<close> that raise a root with empty right siblings.\<close>

function raise_to ::
  "('h \<Rightarrow> 'h \<Rightarrow> 'h) \<Rightarrow> 'h \<Rightarrow> 'h \<Rightarrow> nat \<Rightarrow> nat \<Rightarrow> ('h \<times> nat) option" where
  "raise_to compress zero root height target =
     (if height < target
      then do { e \<leftarrow> empty_subtree_root compress zero height;
                raise_to compress zero (compress root e) (height + 1) target }
      else Some (root, height))"
  by auto
termination
  by (relation "measure (\<lambda>(_, _, _, height, target). target - height)") auto

declare raise_to.simps [simp del]

fun frontier_loop ::
  "('h \<Rightarrow> 'h \<Rightarrow> 'h) \<Rightarrow> 'h \<Rightarrow> 'h \<Rightarrow> nat \<Rightarrow> 'h mmr \<Rightarrow> ('h \<times> nat) option" where
  "frontier_loop compress zero root height [] = Some (root, height)"
| "frontier_loop compress zero root height (last_root # rest) =
     do { (root, height) \<leftarrow> raise_to compress zero root height (rt_height last_root);
          frontier_loop compress zero (compress (rt_root last_root) root) (wrapping_add 8 height 1) rest }"

definition frontier_root :: "('h \<Rightarrow> 'h \<Rightarrow> 'h) \<Rightarrow> 'h \<Rightarrow> nat \<Rightarrow> 'h mmr \<Rightarrow> 'h option" where
  "frontier_root compress zero mh roots =
     (case roots of
        [] \<Rightarrow> empty_subtree_root compress zero mh
      | last_root # rest \<Rightarrow>
          do { (root, height) \<leftarrow> frontier_loop compress zero (rt_root last_root) (rt_height last_root) rest;
               if height \<le> mh
               then do { (root, height) \<leftarrow> raise_to compress zero root height mh;
                         if height = mh then Some root else None }
               else None })"

subsection \<open>Paths\<close>

definition path_try_new :: "nat \<Rightarrow> 'h list \<Rightarrow> merkle_path_error + 'h merkle_path" where
  "path_try_new leaf_index siblings =
     (if length siblings \<le> MAX_MERKLE_PATH_SIBLINGS
      then Inr \<lparr>mp_leaf_index = leaf_index, mp_siblings = siblings\<rparr> else Inl SiblingCountOutOfBounds)"

definition validate_for_height :: "'h merkle_path \<Rightarrow> nat \<Rightarrow> (merkle_path_error + unit) option" where
  "validate_for_height p max_height =
     do { _ \<leftarrow> assert_acceptable_height max_height;
          Some (if length (mp_siblings p) \<noteq> max_height - 1
                then Inl (InvalidSiblingCount (max_height - 1) (length (mp_siblings p))) else Inr ()) }"

definition validate_leaf_index :: "'h merkle_path \<Rightarrow> nat \<Rightarrow> merkle_path_error + unit" where
  "validate_leaf_index p leaf_count =
     (if leaf_count \<le> mp_leaf_index p then Inl (LeafIndexOutOfRange (mp_leaf_index p) leaf_count) else Inr ())"

definition is_left_child :: "nat \<Rightarrow> nat \<Rightarrow> bool" where
  "is_left_child leaf height \<longleftrightarrow> drop_bit (height - 1) leaf AND 1 = 0"

definition are_siblings_at :: "nat \<Rightarrow> nat \<Rightarrow> nat \<Rightarrow> bool" where
  "are_siblings_at a b height \<longleftrightarrow> drop_bit (height - 1) a = drop_bit (height - 1) b XOR 1"

fun bit_width :: "nat \<Rightarrow> nat" where
  "bit_width n = (if n = 0 then 0 else Suc (bit_width (n div 2)))"

declare bit_width.simps [simp del]

definition sibling_height :: "nat \<Rightarrow> nat \<Rightarrow> nat" where
  "sibling_height a b = bit_width (a XOR b)"

fun path_root_from :: "('h \<Rightarrow> 'h \<Rightarrow> 'h) \<Rightarrow> nat \<Rightarrow> nat \<Rightarrow> 'h \<Rightarrow> 'h list \<Rightarrow> 'h" where
  "path_root_from compress leaf_index h current [] = current"
| "path_root_from compress leaf_index h current (s # siblings) =
     path_root_from compress leaf_index (h + 1)
       (if is_left_child leaf_index (h + 1) then compress current s else compress s current) siblings"

definition path_root :: "('h \<Rightarrow> 'h \<Rightarrow> 'h) \<Rightarrow> 'h merkle_path \<Rightarrow> 'h \<Rightarrow> 'h" where
  "path_root compress p leaf = path_root_from compress (mp_leaf_index p) 0 leaf (mp_siblings p)"

definition path_verify :: "('h \<Rightarrow> 'h \<Rightarrow> 'h) \<Rightarrow> 'h merkle_path \<Rightarrow> 'h \<Rightarrow> 'h \<Rightarrow> bool" where
  "path_verify compress p leaf expected_root \<longleftrightarrow> path_root compress p leaf = expected_root"

definition set_sibling :: "'h merkle_path \<Rightarrow> nat \<Rightarrow> 'h \<Rightarrow> 'h merkle_path option" where
  "set_sibling p i x =
     (if i < length (mp_siblings p) then Some (p\<lparr>mp_siblings := (mp_siblings p)[i := x]\<rparr>) else None)"

definition update_paths_at_merge ::
  "'h mmr_root \<Rightarrow> 'h mmr_root \<Rightarrow> 'h merkle_path list \<Rightarrow> 'h merkle_path
     \<Rightarrow> ('h merkle_path list \<times> 'h merkle_path) option" where
  "update_paths_at_merge right left paths new_path =
     (if rt_height left \<noteq> rt_height right then None
      else do { paths \<leftarrow> those (map (\<lambda>p. if are_siblings_at (mp_leaf_index new_path) (mp_leaf_index p) (rt_height right)
                                          then set_sibling p (rt_height right - 1) (rt_root right) else Some p) paths);
                new_path \<leftarrow> set_sibling new_path (rt_height right - 1) (rt_root left);
                Some (paths, new_path) })"

text \<open>The first loop of \<^verbatim>\<open>update_paths_above_merge\<close>, over the heights from \<open>height\<close> on.\<close>

fun hashes_above ::
  "('h \<Rightarrow> 'h \<Rightarrow> 'h) \<Rightarrow> 'h \<Rightarrow> nat list \<Rightarrow> 'h \<Rightarrow> 'h mmr \<Rightarrow> 'h merkle_path \<Rightarrow> ('h list \<times> 'h merkle_path) option" where
  "hashes_above compress zero [] subtree_hash peaks new_path = Some ([], new_path)"
| "hashes_above compress zero (height # heights) subtree_hash peaks new_path =
     (if is_left_child (mp_leaf_index new_path) height
      then do { e \<leftarrow> empty_subtree_root compress zero height;
                new_path \<leftarrow> set_sibling new_path (height - 1) e;
                (hashes, new_path) \<leftarrow> hashes_above compress zero heights (compress subtree_hash e) peaks new_path;
                Some (subtree_hash # hashes, new_path) }
      else (case peaks of
              [] \<Rightarrow> None
            | left # peaks \<Rightarrow>
                do { new_path \<leftarrow> set_sibling new_path (height - 1) (rt_root left);
                     (hashes, new_path) \<leftarrow>
                       hashes_above compress zero heights (compress (rt_root left) subtree_hash) peaks new_path;
                     Some (subtree_hash # hashes, new_path) }))"

definition update_path_above ::
  "nat \<Rightarrow> nat \<Rightarrow> nat \<Rightarrow> 'h list \<Rightarrow> 'h merkle_path \<Rightarrow> 'h merkle_path option" where
  "update_path_above mh merged_height leaf_index hashes p =
     (let h = sibling_height leaf_index (mp_leaf_index p)
      in if merged_height \<le> h \<and> h < mh
         then (if h - merged_height < length hashes then set_sibling p (h - 1) (hashes ! (h - merged_height)) else None)
         else Some p)"

definition update_paths_above_merge ::
  "('h \<Rightarrow> 'h \<Rightarrow> 'h) \<Rightarrow> 'h \<Rightarrow> nat \<Rightarrow> 'h mmr_root \<Rightarrow> 'h mmr \<Rightarrow> 'h merkle_path list \<Rightarrow> 'h merkle_path
     \<Rightarrow> ('h merkle_path list \<times> 'h merkle_path) option" where
  "update_paths_above_merge compress zero mh merged_root remaining_peaks paths new_path =
     do { (hashes, new_path) \<leftarrow>
            hashes_above compress zero [rt_height merged_root..<mh] (rt_root merged_root) remaining_peaks new_path;
          paths \<leftarrow> those (map (update_path_above mh (rt_height merged_root) (mp_leaf_index new_path) hashes) paths);
          Some (paths, new_path) }"

fun merge_peaks_with_paths ::
  "('h \<Rightarrow> 'h \<Rightarrow> 'h) \<Rightarrow> nat \<Rightarrow> 'h mmr_root \<Rightarrow> 'h mmr \<Rightarrow> 'h merkle_path list \<Rightarrow> 'h merkle_path
     \<Rightarrow> ('h mmr_root \<times> 'h mmr \<times> 'h merkle_path list \<times> 'h merkle_path) option" where
  "merge_peaks_with_paths compress mh last_root [] paths new_path = Some (last_root, [], paths, new_path)"
| "merge_peaks_with_paths compress mh last_root (root # roots) paths new_path =
     (if rt_height last_root = rt_height root
      then do { (paths, new_path) \<leftarrow> update_paths_at_merge last_root root paths new_path;
                let last_root = merged compress root last_root;
                if rt_height last_root \<le> mh
                then merge_peaks_with_paths compress mh last_root roots paths new_path else None }
      else Some (last_root, root # roots, paths, new_path))"

fun validate_paths :: "nat \<Rightarrow> nat \<Rightarrow> 'h merkle_path list \<Rightarrow> (merkle_path_error + unit) option" where
  "validate_paths mh leaf_count [] = Some (Inr ())"
| "validate_paths mh leaf_count (p # paths) =
     do { v \<leftarrow> validate_for_height p mh;
          case v of
            Inl e \<Rightarrow> Some (Inl e)
          | Inr _ \<Rightarrow> (case validate_leaf_index p leaf_count of
                       Inl e \<Rightarrow> Some (Inl e)
                     | Inr _ \<Rightarrow> validate_paths mh leaf_count paths) }"

definition push_with_paths ::
  "('h \<Rightarrow> 'h \<Rightarrow> 'h) \<Rightarrow> 'h \<Rightarrow> nat \<Rightarrow> 'h mmr \<Rightarrow> 'h \<Rightarrow> 'h merkle_path list
     \<Rightarrow> (push_with_paths_error + 'h mmr \<times> 'h merkle_path \<times> 'h merkle_path list) option" where
  "push_with_paths compress zero mh roots elem paths =
     (if mmr_is_full mh roots then Some (Inl (PushMmrFull MmrFull))
      else do { v \<leftarrow> validate_paths mh (mmr_len roots) paths;
                case v of
                  Inl e \<Rightarrow> Some (Inl (InvalidTrackedPath e))
                | Inr _ \<Rightarrow>
                    do { empties \<leftarrow> those (map (empty_subtree_root compress zero) [1..<mh]);
                         new_path \<leftarrow> (case path_try_new (mmr_len roots) empties of Inl _ \<Rightarrow> None | Inr p \<Rightarrow> Some p);
                         (last_root, roots, paths, new_path) \<leftarrow>
                           merge_peaks_with_paths compress mh \<lparr>rt_root = elem, rt_height = 1\<rparr> roots paths new_path;
                         (paths, new_path) \<leftarrow>
                           update_paths_above_merge compress zero mh last_root roots paths new_path;
                         Some (Inr (last_root # roots, new_path, paths)) } })"

subsection \<open>The peaks of a list of leaves\<close>

text \<open>
  The peaks over the first \<open>n\<close> leaves \<open>f\<close> at the depths \<open>d, \<dots>, d + k - 1\<close>: one for each set bit of \<open>n\<close>.
\<close>

primrec peaks_from :: "('h \<Rightarrow> 'h \<Rightarrow> 'h) \<Rightarrow> (nat \<Rightarrow> 'h) \<Rightarrow> nat \<Rightarrow> nat \<Rightarrow> nat \<Rightarrow> 'h mmr" where
  "peaks_from compress f n d 0 = []"
| "peaks_from compress f n d (Suc k) =
     (if odd (n div 2 ^ d)
      then [\<lparr>rt_root = merkle compress f d (n div 2 ^ d - 1), rt_height = d + 1\<rparr>] else [])
     @ peaks_from compress f n (Suc d) k"

definition peaks :: "('h \<Rightarrow> 'h \<Rightarrow> 'h) \<Rightarrow> nat \<Rightarrow> 'h list \<Rightarrow> 'h mmr" where
  "peaks compress mh xs = peaks_from compress (nth xs) (length xs) 0 mh"

definition padded :: "'h \<Rightarrow> 'h list \<Rightarrow> nat \<Rightarrow> 'h" where
  "padded zero xs i = (if i < length xs then xs ! i else zero)"

lemma num_leaves_pow: "d < 64 \<Longrightarrow> num_leaves (d + 1) = 2 ^ d"
  by (simp add: num_leaves_def wrapping_sub_def)

lemma mmr_capacity_pow: "1 \<le> mh \<Longrightarrow> mh \<le> 33 \<Longrightarrow> mmr_capacity mh = 2 ^ (mh - 1)"
  using num_leaves_pow [of "mh - 1"] by (simp add: mmr_capacity_def)

lemma acceptable_iff: "assert_acceptable_height h = Some u \<longleftrightarrow> 1 \<le> h \<and> h \<le> 33"
  by (simp add: assert_acceptable_height_def validate_supported_max_height_def ACCEPTABLE_MAX_HEIGHT_def)

lemma empty_subtree_root_Some:
  "d < 33 \<Longrightarrow> empty_subtree_root c z (Suc d) = Some (empty_roots c z d)"
  by (simp add: empty_subtree_root_def assert_acceptable_height_def validate_supported_max_height_def
      ACCEPTABLE_MAX_HEIGHT_def)

lemma peaks_from_height: "r \<in> set (peaks_from c f n d k) \<Longrightarrow> d < rt_height r \<and> rt_height r \<le> d + k"
  by (induction k arbitrary: d) (auto split: if_splits, fastforce+)

lemma peaks_from_cong:
  "(\<And>i. i < n \<Longrightarrow> f i = g i) \<Longrightarrow> peaks_from c f n d k = peaks_from c g n d k"
proof (induction k arbitrary: d)
  case (Suc k)
  have "merkle c f d (n div 2 ^ d - 1) = merkle c g d (n div 2 ^ d - 1)" if o: "odd (n div 2 ^ d)"
  proof (rule merkle_cong, rule Suc.prems)
    fix i assume "i < (n div 2 ^ d - 1 + 1) * 2 ^ d"
    moreover have "n div 2 ^ d - 1 + 1 = n div 2 ^ d" using o by (cases "n div 2 ^ d") auto
    ultimately have "i < n div 2 ^ d * 2 ^ d" by simp
    also have "\<dots> \<le> n" by (rule div_times_less_eq_dividend)
    finally show "i < n" .
  qed
  then show ?case using Suc.IH [of "Suc d"] Suc.prems by simp
qed simp

lemma peaks_from_append:
  "n \<le> length xs \<Longrightarrow> peaks_from c (nth (xs @ ys)) n d k = peaks_from c (nth xs) n d k"
  by (rule peaks_from_cong) (simp add: nth_append)

lemma peaks_from_zero [simp]: "peaks_from c f 0 d k = []"
  by (induction k arbitrary: d) auto

text \<open>Adding one leaf flips the trailing ones of the count.\<close>

lemma Suc_div_pow:
  assumes "Suc n mod 2 ^ d = 0"
  shows "Suc n div 2 ^ d = Suc (n div 2 ^ d)"
  using assms by (simp add: div_Suc)

lemma Suc_div_pow_above:
  assumes "Suc n mod 2 ^ d = 0" "even (n div 2 ^ d)"
  shows "d < e \<Longrightarrow> Suc n div 2 ^ e = n div 2 ^ e"
proof -
  assume "d < e"
  then obtain k where e: "e = d + Suc k" using less_iff_Suc_add by auto
  have "Suc n div 2 ^ d div 2 ^ Suc k = n div 2 ^ d div 2 ^ Suc k"
    using assms by (simp add: Suc_div_pow div_mult2_eq)
  then have "Suc n div (2 ^ d * 2 ^ Suc k) = n div (2 ^ d * 2 ^ Suc k)" by (simp only: div_mult2_eq)
  then show ?thesis by (simp only: e power_add)
qed

lemma Suc_mod_pow_Suc:
  assumes "Suc n mod 2 ^ d = 0" "odd (n div 2 ^ d)"
  shows "Suc n mod 2 ^ Suc d = 0"
proof -
  have "even (Suc n div 2 ^ d)" using assms by (simp add: Suc_div_pow)
  then have "2 ^ d * 2 dvd 2 ^ d * (Suc n div 2 ^ d)" by (intro mult_dvd_mono) auto
  then show ?thesis using assms(1) by (simp add: mult.commute mod_0_imp_dvd)
qed

lemma peaks_from_Suc_above:
  assumes "Suc n mod 2 ^ d = 0" "even (n div 2 ^ d)" "d < e"
  shows "peaks_from c f (Suc n) e k = peaks_from c f n e k"
  using assms(3) by (induction k arbitrary: e) (simp_all add: Suc_div_pow_above [OF assms(1,2)])

lemma peaks_from_Suc:
  assumes "Suc n mod 2 ^ d = 0" "even (n div 2 ^ d)"
  shows "peaks_from c f (Suc n) d (Suc k) =
    \<lparr>rt_root = merkle c f d (n div 2 ^ d), rt_height = d + 1\<rparr> # peaks_from c f n d (Suc k)"
  using assms by (simp add: peaks_from_Suc_above Suc_div_pow)

lemma merged_merkle:
  assumes "odd j" "d < 254"
  shows "merged c \<lparr>rt_root = merkle c f d (j - 1), rt_height = d + 1\<rparr> \<lparr>rt_root = merkle c f d j, rt_height = d + 1\<rparr>
    = \<lparr>rt_root = merkle c f (Suc d) (j div 2), rt_height = Suc d + 1\<rparr>"
  using assms by (auto simp: merged_def wrapping_add_def elim!: oddE)

lemma odd_depth_bound:
  assumes "odd ((n::nat) div 2 ^ d)" "n < 2 ^ m"
  shows "d < m"
proof (rule ccontr)
  assume "\<not> d < m"
  then have "(2::nat) ^ m \<le> 2 ^ d" by simp
  then have "n < 2 ^ d" using assms(2) by (rule less_le_trans [rotated])
  then show False using assms(1) by simp
qed

lemma merge_peaks_peaks:
  assumes "Suc n mod 2 ^ d = 0" "n < 2 ^ (mh - 1)" "mh = d + Suc k" "mh \<le> 33"
  shows "\<exists>last_root roots.
    merge_peaks c mh \<lparr>rt_root = merkle c f d (n div 2 ^ d), rt_height = d + 1\<rparr> (peaks_from c f n d (Suc k))
      = Some (last_root, roots) \<and> last_root # roots = peaks_from c f (Suc n) d (Suc k)"
  using assms
proof (induction k arbitrary: d)
  case 0
  then have "n div 2 ^ d = 0" by simp
  then show ?case using peaks_from_Suc [of n d c f 0] 0 by simp
next
  case (Suc k)
  show ?case
  proof (cases "even (n div 2 ^ d)")
    case True
    have "merge_peaks c mh r rs = Some (r, rs)" if "rt_height r = d + 1" "rs = peaks_from c f n (Suc d) (Suc k)" for r rs
    proof (cases rs)
      case (Cons a list)
      then have "a \<in> set (peaks_from c f n (Suc d) (Suc k))" unfolding that(2) [symmetric] by simp
      then have "rt_height a \<noteq> d + 1" using peaks_from_height by fastforce
      then show ?thesis using Cons that(1) by simp
    qed simp
    then show ?thesis using peaks_from_Suc [OF Suc.prems(1) True, of c f "Suc k"] True by simp
  next
    case False
    have "d < mh - 1" by (rule odd_depth_bound [OF False Suc.prems(2)])
    then have "Suc (Suc d) \<le> mh" by linarith
    then have "merge_peaks c mh \<lparr>rt_root = merkle c f d (n div 2 ^ d), rt_height = d + 1\<rparr> (peaks_from c f n d (Suc (Suc k)))
      = merge_peaks c mh \<lparr>rt_root = merkle c f (Suc d) (n div 2 ^ Suc d), rt_height = Suc d + 1\<rparr> (peaks_from c f n (Suc d) (Suc k))"
      using False merged_merkle [OF False, of d c f] Suc.prems(4)
      by (simp add: Let_def div_mult2_eq [symmetric] mult.commute del: merkle.simps peaks_from.simps(2)
          add: peaks_from.simps(2) [of c f n d "Suc k"])
    moreover have "peaks_from c f (Suc n) d (Suc (Suc k)) = peaks_from c f (Suc n) (Suc d) (Suc k)"
      using Suc_div_pow [OF Suc.prems(1)] False by simp
    ultimately show ?thesis
      using Suc.IH [of "Suc d"] Suc_mod_pow_Suc [OF Suc.prems(1) False] Suc.prems(2-4) by simp
  qed
qed

lemma peaks_from_drop_top:
  "n < 2 ^ (d + k) \<Longrightarrow> peaks_from c f n d (Suc k) = peaks_from c f n d k"
proof (induction k arbitrary: d)
  case (Suc k)
  then have "n < 2 ^ (Suc d + k)" by simp
  from Suc.IH [OF this] show ?case by (subst (1 2) peaks_from.simps(2)) (simp only:)
qed simp

lemma peaks_from_pow:
  "peaks_from c f (2 ^ (d + k)) d (Suc k) = [\<lparr>rt_root = merkle c f (d + k) 0, rt_height = d + k + 1\<rparr>]"
proof (induction k arbitrary: d)
  case (Suc k)
  have "(2::nat) ^ (d + Suc k) div 2 ^ d = 2 ^ Suc k" by (simp add: power_add)
  then show ?case using Suc [of "Suc d"] by simp
qed simp

lemma peaks_full:
  assumes "length xs \<le> 2 ^ (mh - 1)" "1 \<le> mh"
  shows "mmr_is_full mh (peaks c mh xs) \<longleftrightarrow> length xs = 2 ^ (mh - 1)"
proof -
  obtain k where mh: "mh = Suc k" using assms(2) by (cases mh) auto
  show ?thesis
  proof (cases "length xs = 2 ^ k")
    case True
    then show ?thesis
      using peaks_from_pow [of c "nth xs" 0 k] by (simp add: mmr_is_full_def peaks_def mh del: peaks_from.simps)
  next
    case False
    then have "peaks c mh xs = peaks_from c (nth xs) (length xs) 0 k"
      using assms(1) peaks_from_drop_top [of "length xs" 0 k] by (simp add: peaks_def mh del: peaks_from.simps)
    moreover have "\<forall>r \<in> set (peaks_from c (nth xs) (length xs) 0 k). rt_height r \<le> k"
      using peaks_from_height [of _ c "nth xs" "length xs" 0 k] by auto
    ultimately show ?thesis
      using False by (cases "peaks c mh xs") (auto simp: mmr_is_full_def mh)
  qed
qed

lemma peaks_from_len:
  "d + k \<le> 64 \<Longrightarrow> sum_list (map (\<lambda>r. num_leaves (rt_height r)) (peaks_from c f n d k)) = 2 ^ d * (n div 2 ^ d mod 2 ^ k)"
proof (induction k arbitrary: d)
  case (Suc k)
  let ?q = "n div 2 ^ d"
  have "sum_list (map (\<lambda>r. num_leaves (rt_height r)) (peaks_from c f n d (Suc k)))
      = 2 ^ d * (?q mod 2) + 2 ^ Suc d * (?q div 2 mod 2 ^ k)"
    using Suc num_leaves_pow [of d]
    by (simp add: div_mult2_eq [symmetric] mult.commute del: merkle.simps) (simp add: mod_2_eq_odd)
  moreover have "?q mod 2 ^ Suc k = ?q mod 2 + 2 * (?q div 2 mod 2 ^ k)"
    by (simp add: mod_mult2_eq)
  ultimately show ?case by (simp add: algebra_simps)
qed simp

lemma mmr_len_peaks:
  assumes "length xs \<le> 2 ^ (mh - 1)" "1 \<le> mh" "mh \<le> 33"
  shows "mmr_len (peaks c mh xs) = length xs"
proof -
  have "(2::nat) ^ (mh - 1) < 2 ^ mh" "(2::nat) ^ mh \<le> 2 ^ 64"
    using assms(2,3) by (intro power_strict_increasing power_increasing; simp)+
  then have "length xs < 2 ^ mh" "length xs < 2 ^ 64" using assms(1) by linarith+
  then show ?thesis using assms(3) by (simp add: mmr_len_def peaks_def peaks_from_len)
qed

lemma push_peaks:
  assumes "length xs < 2 ^ (mh - 1)" "1 \<le> mh" "mh \<le> 33"
  shows "push c mh (peaks c mh xs) x = Some (Inr (peaks c mh (xs @ [x])))"
proof -
  obtain k where mh: "mh = Suc k" using assms(2) by (cases mh) auto
  have p: "peaks_from c (nth (xs @ [x])) (length xs) 0 mh = peaks c mh xs"
    by (simp add: peaks_def peaks_from_append)
  show ?thesis
    using merge_peaks_peaks [of "length xs" 0 mh k c "nth (xs @ [x])"] assms peaks_full [of xs mh c] p
    by (auto simp: push_def peaks_def mh simp del: peaks_from.simps)
qed

subsection \<open>The frontier root\<close>

lemma frontier_loop_raise:
  assumes "height < target" "\<forall>r \<in> set roots. height < rt_height r" "height \<le> 33" "0 < height"
  shows "do { (r, h) \<leftarrow> frontier_loop c z root height roots; raise_to c z r h target }
    = do { (r, h) \<leftarrow> frontier_loop c z (c root (empty_roots c z (height - 1))) (height + 1) roots; raise_to c z r h target }"
proof -
  have "raise_to c z root height t = raise_to c z (c root (empty_roots c z (height - 1))) (height + 1) t" if "height < t" for t
    using that assms(3,4) empty_subtree_root_Some [of "height - 1" c z] by (subst raise_to.simps) simp
  then show ?thesis using assms(1,2) by (cases roots) auto
qed

lemma raise_to_height: "raise_to c z r h t = Some (r', h') \<Longrightarrow> h' = max h t"
proof (induction c z r h t rule: raise_to.induct)
  case (1 c z r h t)
  then show ?case by (subst (asm) (2) raise_to.simps) (auto simp: bind_Some_iff split: if_splits)
qed

lemma frontier_root_by_loop:
  assumes "do { (r, h) \<leftarrow> frontier_loop c z root height roots; raise_to c z r h mh } = Some (x, mh)"
  shows "frontier_root c z mh (\<lparr>rt_root = root, rt_height = height\<rparr> # roots) = Some x"
  using assms raise_to_height [of c z _ _ mh x mh]
  by (fastforce simp: frontier_root_def bind_Some_iff)

lemma pow_split: "(n::nat) div 2 ^ Suc d = n div 2 ^ d div 2"
  by (simp add: div_mult2_eq [symmetric] mult.commute)

lemma merkle_right_empty:
  assumes "\<And>i. n \<le> i \<Longrightarrow> g i = z" "n < (j + 1) * 2 ^ d"
  shows "merkle c g d (j + 1) = empty_roots c z d"
proof (rule merkle_empty, rule assms(1))
  fix i assume "(j + 1) * 2 ^ d \<le> i"
  then show "n \<le> i" using assms(2) by linarith
qed

lemma n_below_next: "(n::nat) < (n div 2 ^ d + 1) * 2 ^ d"
  using dividend_less_div_times [of "2 ^ d" n] by simp

text \<open>Above the lowest peak, the loop carries the root of the subtree that holds the leaf \<open>n\<close>.\<close>

lemma frontier_above:
  assumes "n < 2 ^ (d + k)" "d + k < 33" "\<And>i. n \<le> i \<Longrightarrow> g i = z"
  shows "do { (r, h) \<leftarrow> frontier_loop c z (merkle c g d (n div 2 ^ d)) (Suc d) (peaks_from c g n d (Suc k));
              raise_to c z r h (Suc (d + k)) } = Some (merkle c g (d + k) 0, Suc (d + k))"
  using assms(1,2)
proof (induction k arbitrary: d)
  case 0
  then show ?case by (simp add: raise_to.simps)
next
  case (Suc k)
  let ?j = "n div 2 ^ d" and ?ps = "peaks_from c g n (Suc d) (Suc k)"
  have IH: "do { (r, h) \<leftarrow> frontier_loop c z (merkle c g (Suc d) (?j div 2)) (Suc (Suc d)) ?ps;
              raise_to c z r h (Suc (d + Suc k)) } = Some (merkle c g (d + Suc k) 0, Suc (d + Suc k))"
    using Suc.IH [of "Suc d"] Suc.prems by (simp only: pow_split) (simp add: pow_split del: merkle.simps)
  show ?case
  proof (cases "even ?j")
    case True
    have h: "\<forall>r \<in> set ?ps. Suc d < rt_height r" using peaks_from_height by blast
    have "merkle c g d (?j + 1) = empty_roots c z d"
      by (rule merkle_right_empty [OF assms(3)]) (use n_below_next in auto)
    then have m: "merkle c g (Suc d) (?j div 2) = c (merkle c g d ?j) (empty_roots c z d)"
      using True by (simp only: merkle_Suc_of_child sibling_def if_True)
    have "peaks_from c g n d (Suc (Suc k)) = ?ps" using True by simp
    then show ?thesis
      using frontier_loop_raise [OF _ h, of "Suc (d + Suc k)" c z "merkle c g d ?j"] IH Suc.prems(2)
      by (simp only: m) simp
  next
    case False
    have m: "merkle c g (Suc d) (?j div 2) = c (merkle c g d (?j - 1)) (merkle c g d ?j)"
      using False by (simp only: merkle_Suc_of_child sibling_def if_False)
    have "peaks_from c g n d (Suc (Suc k)) = \<lparr>rt_root = merkle c g d (?j - 1), rt_height = d + 1\<rparr> # ?ps"
      using False by simp
    moreover have "wrapping_add 8 (Suc d) 1 = Suc (Suc d)" using Suc.prems(2) by (simp add: wrapping_add_def)
    ultimately show ?thesis using IH by (simp only: m frontier_loop.simps) (simp add: raise_to.simps)
  qed
qed

text \<open>The trailing zeros of the count are skipped; the lowest peak starts the loop.\<close>

lemma frontier_from:
  assumes "n \<le> 2 ^ (d + k)" "0 < n" "n mod 2 ^ d = 0" "d + k < 33" "\<And>i. n \<le> i \<Longrightarrow> g i = z"
  shows "frontier_root c z (Suc (d + k)) (peaks_from c g n d (Suc k)) = Some (merkle c g (d + k) 0)"
  using assms(1-4)
proof (induction k arbitrary: d)
  case 0
  have "2 ^ d dvd n" using 0 by (simp add: mod_0_imp_dvd)
  then have "n = 2 ^ d" using 0 dvd_imp_le [of "2 ^ d" n] by simp
  then show ?case by (simp add: frontier_root_def raise_to.simps)
next
  case (Suc k)
  let ?j = "n div 2 ^ d" and ?ps = "peaks_from c g n (Suc d) (Suc k)"
  have n: "n = ?j * 2 ^ d" using Suc.prems(3) by auto
  show ?case
  proof (cases "even ?j")
    case True
    then obtain i where "?j = 2 * i" by (rule evenE)
    then have "n = 2 ^ Suc d * i" using n by simp
    then have "n mod 2 ^ Suc d = 0" by simp
    moreover have "peaks_from c g n d (Suc (Suc k)) = ?ps" using True by simp
    ultimately show ?thesis using Suc.IH [of "Suc d"] Suc.prems by simp
  next
    case False
    have neq: "n \<noteq> 2 ^ (d + Suc k)"
    proof
      assume "n = 2 ^ (d + Suc k)"
      then have "?j = 2 ^ Suc k" by (simp add: power_add)
      then show False using False by simp
    qed
    then have n_less: "n < 2 ^ (Suc d + k)" using Suc.prems(1) by simp
    have h: "\<forall>r \<in> set ?ps. Suc d < rt_height r" using peaks_from_height by blast
    have j: "?j - 1 + 1 = ?j" using False by (cases ?j) auto
    have "merkle c g d (?j - 1 + 1) = empty_roots c z d"
      by (rule merkle_empty) (use assms(5) n j in auto)
    moreover have "?j div 2 = (?j - 1) div 2" "even (?j - 1)" using False by (auto elim: oddE)
    ultimately have m: "merkle c g (Suc d) (?j div 2) = c (merkle c g d (?j - 1)) (empty_roots c z d)"
      by (simp only: merkle_Suc_of_child sibling_def if_True)
    have p: "peaks_from c g n d (Suc (Suc k)) = \<lparr>rt_root = merkle c g d (?j - 1), rt_height = Suc d\<rparr> # ?ps"
      using False by simp
    have "do { (r, h) \<leftarrow> frontier_loop c z (merkle c g d (?j - 1)) (Suc d) ?ps; raise_to c z r h (Suc (d + Suc k)) }
      = Some (merkle c g (d + Suc k) 0, Suc (d + Suc k))"
    proof -
      have "do { (r, h) \<leftarrow> frontier_loop c z (merkle c g (Suc d) (n div 2 ^ Suc d)) (Suc (Suc d)) ?ps;
          raise_to c z r h (Suc (Suc d + k)) } = Some (merkle c g (Suc d + k) 0, Suc (Suc d + k))"
        by (rule frontier_above [OF n_less _ assms(5)]) (use Suc.prems(4) in simp_all)
      then show ?thesis
        using frontier_loop_raise [OF _ h, of "Suc (d + Suc k)" c z "merkle c g d (?j - 1)"] Suc.prems(4)
        unfolding pow_split m by simp
    qed
    then show ?thesis unfolding p by (rule frontier_root_by_loop)
  qed
qed

lemma frontier_root_peaks:
  assumes "length xs \<le> 2 ^ (mh - 1)" "1 \<le> mh" "mh \<le> 33"
  shows "frontier_root c z mh (peaks c mh xs) = Some (merkle c (padded z xs) (mh - 1) 0)"
proof -
  obtain k where mh: "mh = Suc k" using assms(2) by (cases mh) auto
  have p: "peaks c mh xs = peaks_from c (padded z xs) (length xs) 0 mh"
    unfolding peaks_def by (rule peaks_from_cong) (simp add: padded_def)
  show ?thesis
  proof (cases "xs = []")
    case True
    have "merkle c (padded z xs) k 0 = empty_roots c z k" by (rule merkle_empty) (simp add: padded_def True)
    then show ?thesis
      using assms(3) empty_subtree_root_Some [of k c z] by (simp add: peaks_def frontier_root_def mh True)
  next
    case False
    then show ?thesis
      unfolding p using frontier_from [of "length xs" 0 k "padded z xs" z c] assms
      by (simp add: mh padded_def del: peaks_from.simps)
  qed
qed

subsection \<open>Positions in the tree\<close>

lemma is_left_child_iff: "is_left_child n (Suc d) \<longleftrightarrow> even (n div 2 ^ d)"
  by (simp add: is_left_child_def drop_bit_eq_div and_one_eq even_iff_mod_2_eq_zero)

lemma xor_one_sibling: "(j::nat) XOR 1 = sibling j"
  unfolding xor_one_eq sibling_def by simp

lemma are_siblings_at_iff: "are_siblings_at a b (Suc d) \<longleftrightarrow> a div 2 ^ d = sibling (b div 2 ^ d)"
  by (simp add: are_siblings_at_def drop_bit_eq_div xor_one_sibling [simplified])

lemma bit_width_eq_Suc: "bit_width n = Suc d \<longleftrightarrow> n div 2 ^ d = 1"
proof (induction d arbitrary: n)
  case 0
  have "bit_width n = Suc 0 \<longleftrightarrow> n \<noteq> 0 \<and> n div 2 = 0"
    by (subst bit_width.simps) (auto simp: bit_width.simps [of "n div 2"])
  also have "\<dots> \<longleftrightarrow> n = 1" by auto
  finally show ?case by simp
next
  case (Suc d)
  have "bit_width n = Suc (Suc d) \<longleftrightarrow> n \<noteq> 0 \<and> n div 2 div 2 ^ d = 1"
    using Suc [of "n div 2"] by (subst bit_width.simps) auto
  then show ?case by (auto simp: div_mult2_eq)
qed

lemma sibling_height_iff: "sibling_height a b = Suc d \<longleftrightarrow> a div 2 ^ d = sibling (b div 2 ^ d)"
proof -
  have "(a XOR b) div 2 ^ d = (a div 2 ^ d) XOR (b div 2 ^ d)"
    by (simp only: drop_bit_eq_div [symmetric] drop_bit_xor)
  moreover have "x XOR y = 1 \<longleftrightarrow> x = sibling y" for x y :: nat
  proof
    assume e: "x XOR y = 1"
    have "x = (x XOR y) XOR y" by (simp only: xor.assoc xor_self_eq xor.right_neutral)
    also have "\<dots> = y XOR 1" by (simp only: e xor.commute)
    finally show "x = sibling y" by (simp only: xor_one_sibling)
  next
    assume "x = sibling y"
    then have "x XOR y = (y XOR 1) XOR y" by (simp only: xor_one_sibling)
    also have "\<dots> = (y XOR y) XOR 1" by (simp only: ac_simps)
    finally show "x XOR y = 1" by simp
  qed
  ultimately show ?thesis by (simp only: sibling_height_def bit_width_eq_Suc)
qed

lemma path_root_from_fold: "path_root_from c i h x ss = fold_path c (i div 2 ^ h) x ss"
  by (induction ss arbitrary: h x) (simp_all add: is_left_child_iff div_mult2_eq [symmetric] mult.commute)

lemma path_verify_fold:
  "path_verify c p x r \<longleftrightarrow> fold_path c (mp_leaf_index p) x (mp_siblings p) = r"
  by (simp add: path_verify_def path_root_def path_root_from_fold)

subsection \<open>Tracked paths\<close>

text \<open>
  A path holds the siblings of its leaf: below the depth \<open>d\<close> those of the tree over \<open>g'\<close>, from \<open>d\<close> on
  those of the tree over \<open>g\<close>.
\<close>

definition path_between ::
  "('h \<Rightarrow> 'h \<Rightarrow> 'h) \<Rightarrow> nat \<Rightarrow> (nat \<Rightarrow> 'h) \<Rightarrow> (nat \<Rightarrow> 'h) \<Rightarrow> nat \<Rightarrow> 'h merkle_path \<Rightarrow> bool" where
  "path_between compress len g' g d p \<longleftrightarrow> length (mp_siblings p) = len \<and>
     (\<forall>e < len. mp_siblings p ! e = sibling_hash compress (if e < d then g' else g) (mp_leaf_index p) e)"

definition path_below :: "('h \<Rightarrow> 'h \<Rightarrow> 'h) \<Rightarrow> nat \<Rightarrow> (nat \<Rightarrow> 'h) \<Rightarrow> nat \<Rightarrow> 'h merkle_path \<Rightarrow> bool" where
  "path_below compress len g d p \<longleftrightarrow> length (mp_siblings p) = len \<and>
     (\<forall>e < len. e < d \<longrightarrow> mp_siblings p ! e = sibling_hash compress g (mp_leaf_index p) e)"

lemma set_sibling_Some: "i < length (mp_siblings p) \<Longrightarrow> set_sibling p i x = Some (p\<lparr>mp_siblings := (mp_siblings p)[i := x]\<rparr>)"
  by (simp add: set_sibling_def)

lemma path_below_step:
  assumes "path_below c len g d p" "d < len" "x = sibling_hash c g (mp_leaf_index p) d"
  shows "\<exists>p'. set_sibling p d x = Some p' \<and> path_below c len g (Suc d) p' \<and> mp_leaf_index p' = mp_leaf_index p"
  using assms by (auto simp: path_below_def set_sibling_Some nth_list_update less_Suc_eq)

lemma sibling_hash_unchanged:
  assumes "n div 2 ^ d \<noteq> sibling (i div 2 ^ d)"
  shows "sibling_hash c (g(n := x)) i d = sibling_hash c g i d"
  using merkle_outside [OF assms] by (simp add: sibling_hash_def)

lemma path_between_step:
  assumes "path_between c len (g(n := x)) g d p" "d < len" "y = merkle c (g(n := x)) d (n div 2 ^ d)"
  shows "\<exists>p'. (if n div 2 ^ d = sibling (mp_leaf_index p div 2 ^ d) then set_sibling p d y else Some p) = Some p' \<and>
    path_between c len (g(n := x)) g (Suc d) p' \<and> mp_leaf_index p' = mp_leaf_index p"
proof (cases "n div 2 ^ d = sibling (mp_leaf_index p div 2 ^ d)")
  case True
  then show ?thesis
    using assms by (auto simp: path_between_def set_sibling_Some nth_list_update sibling_hash_def less_Suc_eq)
next
  case False
  then have "path_between c len (g(n := x)) g (Suc d) p"
    using assms(1) sibling_hash_unchanged [OF False, of c g x] by (auto simp: path_between_def less_Suc_eq)
  then show ?thesis using False by simp
qed

text \<open>The tracked paths as a list: every one keeps its leaf.\<close>

definition paths_between ::
  "('h \<Rightarrow> 'h \<Rightarrow> 'h) \<Rightarrow> nat \<Rightarrow> (nat \<Rightarrow> 'h) \<Rightarrow> (nat \<Rightarrow> 'h) \<Rightarrow> nat \<Rightarrow> nat list \<Rightarrow> 'h merkle_path list \<Rightarrow> bool" where
  "paths_between compress len g' g d is ps \<longleftrightarrow>
     map mp_leaf_index ps = is \<and> (\<forall>p \<in> set ps. path_between compress len g' g d p)"

lemma paths_between_map:
  assumes "paths_between c len g' g d is ps"
    and "\<And>p. p \<in> set ps \<Longrightarrow> path_between c len g' g d p \<Longrightarrow>
      \<exists>p'. F p = Some p' \<and> path_between c len g' g d' p' \<and> mp_leaf_index p' = mp_leaf_index p"
  shows "\<exists>ps'. those (map F ps) = Some ps' \<and> paths_between c len g' g d' is ps'"
  using assms
proof (induction ps arbitrary: "is")
  case (Cons p ps)
  obtain p' where p': "F p = Some p'" "path_between c len g' g d' p'" "mp_leaf_index p' = mp_leaf_index p"
    using Cons.prems(1) Cons.prems(2) [of p] by (auto simp: paths_between_def)
  have "paths_between c len g' g d (tl is) ps" using Cons.prems(1) by (auto simp: paths_between_def)
  then obtain ps' where "those (map F ps) = Some ps'" "paths_between c len g' g d' (tl is) ps'"
    using Cons.IH [of "tl is"] Cons.prems(2) by auto
  then show ?case using p' Cons.prems(1) by (auto simp: paths_between_def)
qed (simp add: paths_between_def)

lemma update_at_merge:
  assumes "paths_between c len (g(n := x)) g d is ps" "path_below c len (g(n := x)) d np" "mp_leaf_index np = n"
    "d < len" "odd (n div 2 ^ d)"
    "l = \<lparr>rt_root = merkle c (g(n := x)) d (n div 2 ^ d - 1), rt_height = Suc d\<rparr>"
    "r = \<lparr>rt_root = merkle c (g(n := x)) d (n div 2 ^ d), rt_height = Suc d\<rparr>"
  shows "\<exists>ps' np'. update_paths_at_merge r l ps np = Some (ps', np') \<and>
    paths_between c len (g(n := x)) g (Suc d) is ps' \<and> path_below c len (g(n := x)) (Suc d) np' \<and> mp_leaf_index np' = n"
proof -
  let ?F = "\<lambda>p. if n div 2 ^ d = sibling (mp_leaf_index p div 2 ^ d) then set_sibling p d (rt_root r) else Some p"
  obtain ps' where "those (map ?F ps) = Some ps'" "paths_between c len (g(n := x)) g (Suc d) is ps'"
  proof -
    have "\<exists>p'. ?F p = Some p' \<and> path_between c len (g(n := x)) g (Suc d) p' \<and> mp_leaf_index p' = mp_leaf_index p"
      if "path_between c len (g(n := x)) g d p" for p
      by (rule path_between_step [OF that assms(4)]) (simp add: assms(7))
    then show thesis using paths_between_map [OF assms(1), of ?F "Suc d"] that by blast
  qed
  moreover obtain np' where "set_sibling np d (rt_root l) = Some np'" "path_below c len (g(n := x)) (Suc d) np'"
      "mp_leaf_index np' = n"
    using path_below_step [OF assms(2,4), of "rt_root l"] assms(3,5,6) by (auto simp: sibling_hash_def sibling_def)
  moreover have h: "rt_height r = Suc d" "rt_height l = Suc d" "Suc d - 1 = d" using assms(6,7) by simp_all
  ultimately show ?thesis
    unfolding update_paths_at_merge_def h are_siblings_at_iff assms(3) by simp
qed

lemma merge_peaks_with_paths_peaks:
  assumes "Suc n mod 2 ^ d = 0" "n < 2 ^ (mh - 1)" "mh = d + Suc k" "mh \<le> 33"
    "paths_between c (mh - 1) (g(n := x)) g d is ps" "path_below c (mh - 1) (g(n := x)) d np" "mp_leaf_index np = n"
    "f = g(n := x)"
  shows "\<exists>D ps' np'. d \<le> D \<and> D < mh \<and> even (n div 2 ^ D) \<and> Suc n mod 2 ^ D = 0 \<and>
    merge_peaks_with_paths c mh \<lparr>rt_root = merkle c f d (n div 2 ^ d), rt_height = Suc d\<rparr>
        (peaks_from c f n d (Suc k)) ps np
      = Some (\<lparr>rt_root = merkle c f D (n div 2 ^ D), rt_height = Suc D\<rparr>, peaks_from c f n D (mh - D), ps', np') \<and>
    peaks_from c f (Suc n) d (Suc k)
      = \<lparr>rt_root = merkle c f D (n div 2 ^ D), rt_height = Suc D\<rparr> # peaks_from c f n D (mh - D) \<and>
    paths_between c (mh - 1) (g(n := x)) g D is ps' \<and> path_below c (mh - 1) (g(n := x)) D np' \<and> mp_leaf_index np' = n"
  using assms(1,3,5,6,7)
proof (induction k arbitrary: d ps np)
  case 0
  then have "n div 2 ^ d = 0" using assms(2) by simp
  then show ?case using peaks_from_Suc [of n d c f 0] 0 by (intro exI [of _ d]) simp
next
  case (Suc k)
  let ?r = "\<lparr>rt_root = merkle c f d (n div 2 ^ d), rt_height = Suc d\<rparr>"
  let ?l = "\<lparr>rt_root = merkle c f d (n div 2 ^ d - 1), rt_height = Suc d\<rparr>"
  show ?case
  proof (cases "even (n div 2 ^ d)")
    case True
    have e: "peaks_from c f n d (Suc (Suc k)) = peaks_from c f n (Suc d) (Suc k)" using True by simp
    have "merge_peaks_with_paths c mh ?r rs ps np = Some (?r, rs, ps, np)" if "rs = peaks_from c f n (Suc d) (Suc k)" for rs
    proof (cases rs)
      case (Cons a list)
      then have "a \<in> set (peaks_from c f n (Suc d) (Suc k))" unfolding that [symmetric] by simp
      then have "rt_height a \<noteq> Suc d" using peaks_from_height by fastforce
      then show ?thesis using Cons by simp
    qed simp
    then show ?thesis
      using peaks_from_Suc [OF Suc.prems(1) True, of c f "Suc k"] True Suc.prems
      by (intro exI [of _ d] exI [of _ ps] exI [of _ np]) (simp del: peaks_from.simps add: e)
  next
    case False
    have d: "d < mh - 1" by (rule odd_depth_bound [OF False assms(2)])
    obtain ps' np' where u: "update_paths_at_merge ?r ?l ps np = Some (ps', np')"
        "paths_between c (mh - 1) (g(n := x)) g (Suc d) is ps'"
        "path_below c (mh - 1) (g(n := x)) (Suc d) np'" "mp_leaf_index np' = n"
      using update_at_merge [OF Suc.prems(3-5) d False, of ?l ?r] assms(8) by auto
    have m: "merged c ?l ?r = \<lparr>rt_root = merkle c f (Suc d) (n div 2 ^ Suc d), rt_height = Suc (Suc d)\<rparr>"
      using merged_merkle [OF False, of d c f] d assms(4) by (simp only: pow_split) simp
    have p: "peaks_from c f n d (Suc (Suc k)) = ?l # peaks_from c f n (Suc d) (Suc k)" using False by simp
    have q: "peaks_from c f (Suc n) d (Suc (Suc k)) = peaks_from c f (Suc n) (Suc d) (Suc k)"
      using Suc_div_pow [OF Suc.prems(1)] False by simp
    have "merge_peaks_with_paths c mh ?r (peaks_from c f n d (Suc (Suc k))) ps np
      = merge_peaks_with_paths c mh (merged c ?l ?r) (peaks_from c f n (Suc d) (Suc k)) ps' np'"
    proof -
      have "Suc (Suc d) \<le> mh" using d by linarith
      then show ?thesis using u(1) m by (simp add: p del: peaks_from.simps merkle.simps)
    qed
    then show ?thesis
      using Suc.IH [OF Suc_mod_pow_Suc [OF Suc.prems(1) False] _ u(2-4)] Suc.prems(2)
      unfolding q m by (auto dest: Suc_leD)
  qed
qed

lemma merge_with_paths_start:
  assumes "n < 2 ^ (mh - 1)" "1 \<le> mh" "mh \<le> 33" "paths_between c (mh - 1) f g 0 is ps"
    "length (mp_siblings np) = mh - 1" "mp_leaf_index np = n" "f = g(n := x)"
  shows "\<exists>D ps' np'. D < mh \<and>
    merge_peaks_with_paths c mh \<lparr>rt_root = x, rt_height = 1\<rparr> (peaks_from c f n 0 mh) ps np
      = Some (\<lparr>rt_root = merkle c f D (n div 2 ^ D), rt_height = Suc D\<rparr>, peaks_from c f n D (mh - D), ps', np') \<and>
    peaks_from c f (Suc n) 0 mh
      = \<lparr>rt_root = merkle c f D (n div 2 ^ D), rt_height = Suc D\<rparr> # peaks_from c f n D (mh - D) \<and>
    paths_between c (mh - 1) f g D is ps' \<and> path_below c (mh - 1) f D np' \<and> mp_leaf_index np' = n"
proof -
  obtain k where k: "mh = 0 + Suc k" using assms(2) by (cases mh) auto
  have x: "merkle c f 0 (n div 2 ^ 0) = x" "Suc k = mh" "Suc 0 = 1" "Suc n mod 2 ^ 0 = 0" using assms(7) k by simp_all
  have b: "path_below c (mh - 1) (g(n := x)) 0 np" using assms(5) by (simp add: path_below_def)
  from merge_peaks_with_paths_peaks [OF x(4) assms(1) k assms(3) assms(4) [unfolded assms(7)] b assms(6,7)]
  show ?thesis unfolding x assms(7) [symmetric] by blast
qed

lemma hashes_above_peaks:
  assumes "mh = Suc (d + k)" "mh \<le> 33" "path_below c (mh - 1) f d np" "mp_leaf_index np = n"
    "\<And>i. n < i \<Longrightarrow> f i = z"
  shows "\<exists>np'. hashes_above c z [Suc d..<mh] (merkle c f d (n div 2 ^ d)) (peaks_from c f n d (Suc k)) np
      = Some (map (\<lambda>e. merkle c f e (n div 2 ^ e)) [d..<d + k], np') \<and>
    path_below c (mh - 1) f (d + k) np' \<and> mp_leaf_index np' = n"
  using assms(1,3,4)
proof (induction k arbitrary: d np)
  case 0
  then show ?case by simp
next
  case (Suc k)
  let ?j = "n div 2 ^ d" and ?ps = "peaks_from c f n (Suc d) (Suc k)"
  have l: "[Suc d..<mh] = Suc d # [Suc (Suc d)..<mh]" "[d..<d + Suc k] = d # [Suc d..<Suc d + k]"
    using Suc.prems(1) by (simp_all add: upt_conv_Cons)
  have d: "d < mh - 1" "d < 33" "mh = Suc (Suc d + k)" using Suc.prems(1) assms(2) by simp_all
  show ?case
  proof (cases "even ?j")
    case True
    have "merkle c f d (?j + 1) = empty_roots c z d"
    proof (rule merkle_empty, rule assms(5))
      fix i assume "(?j + 1) * 2 ^ d \<le> i"
      then show "n < i" using n_below_next [of n d] by linarith
    qed
    then have s: "empty_roots c z d = sibling_hash c f n d"
      using True by (simp add: sibling_hash_def sibling_def)
    have m: "merkle c f (Suc d) (n div 2 ^ Suc d) = c (merkle c f d ?j) (sibling_hash c f n d)"
      using True by (simp only: pow_split merkle_Suc_of_child sibling_hash_def if_True)
    obtain np' where np': "set_sibling np d (sibling_hash c f n d) = Some np'" "path_below c (mh - 1) f (Suc d) np'"
        "mp_leaf_index np' = n"
      using path_below_step [OF Suc.prems(2) d(1)] Suc.prems(3) by blast
    have "peaks_from c f n d (Suc (Suc k)) = ?ps" using True by simp
    then show ?thesis
      using Suc.IH [OF d(3) np'(2,3)] True Suc.prems(3) np'(1) empty_subtree_root_Some [OF d(2), of c z]
      unfolding l m by (auto simp: is_left_child_iff s simp del: peaks_from.simps)
  next
    case False
    have s: "merkle c f d (?j - 1) = sibling_hash c f n d"
      using False by (simp add: sibling_hash_def sibling_def)
    have m: "merkle c f (Suc d) (n div 2 ^ Suc d) = c (sibling_hash c f n d) (merkle c f d ?j)"
      using False by (simp only: pow_split merkle_Suc_of_child sibling_hash_def if_False)
    obtain np' where np': "set_sibling np d (sibling_hash c f n d) = Some np'" "path_below c (mh - 1) f (Suc d) np'"
        "mp_leaf_index np' = n"
      using path_below_step [OF Suc.prems(2) d(1)] Suc.prems(3) by blast
    have "peaks_from c f n d (Suc (Suc k)) = \<lparr>rt_root = sibling_hash c f n d, rt_height = d + 1\<rparr> # ?ps"
      using False by (simp add: s [simplified])
    then show ?thesis
      using Suc.IH [OF d(3) np'(2,3)] False Suc.prems(3) np'(1)
      unfolding l m by (auto simp: is_left_child_iff simp del: peaks_from.simps)
  qed
qed

lemma update_path_above_ok:
  assumes "path_between c (mh - 1) (g(n := x)) g D p" "mh = Suc (D + k)"
    "hashes = map (\<lambda>e. merkle c (g(n := x)) e (n div 2 ^ e)) [D..<D + k]"
  shows "\<exists>p'. update_path_above mh (Suc D) n hashes p = Some p' \<and>
    path_between c (mh - 1) (g(n := x)) g (mh - 1) p' \<and> mp_leaf_index p' = mp_leaf_index p"
proof -
  let ?h = "sibling_height n (mp_leaf_index p)" and ?i = "mp_leaf_index p"
  have u: "sibling_hash c (g(n := x)) ?i e = sibling_hash c g ?i e" if "?h \<noteq> Suc e" for e
    using that sibling_hash_unchanged [of n e ?i c g x] by (simp add: sibling_height_iff)
  show ?thesis
  proof (cases "Suc D \<le> ?h \<and> ?h < mh")
    case True
    then obtain e where e: "?h = Suc e" "D \<le> e" "e < D + k" using assms(2) by (cases ?h) auto
    then have "hashes ! (e - D) = sibling_hash c (g(n := x)) ?i e"
      using sibling_height_iff [of n ?i e] nth_upt [of D "e - D" "D + k"] by (simp add: assms(3) sibling_hash_def)
    then show ?thesis
      using e assms True u by (auto simp: update_path_above_def set_sibling_Some path_between_def nth_list_update)
  next
    case False
    have "?h \<noteq> Suc e" if "D \<le> e" "e < mh - 1" for e using False that by auto
    then have "path_between c (mh - 1) (g(n := x)) g (mh - 1) p"
      using assms(1) u by (auto simp: path_between_def)
    then show ?thesis using False by (auto simp: update_path_above_def)
  qed
qed

lemma update_above_merge:
  assumes "mh = Suc (D + k)" "mh \<le> 33" "f = g(n := x)" "\<And>i. n \<le> i \<Longrightarrow> g i = z"
    "paths_between c (mh - 1) f g D is ps" "path_below c (mh - 1) f D np" "mp_leaf_index np = n"
  shows "\<exists>ps' np'. update_paths_above_merge c z mh \<lparr>rt_root = merkle c f D (n div 2 ^ D), rt_height = Suc D\<rparr>
      (peaks_from c f n D (Suc k)) ps np = Some (ps', np') \<and>
    paths_between c (mh - 1) f g (mh - 1) is ps' \<and> path_below c (mh - 1) f (mh - 1) np' \<and> mp_leaf_index np' = n"
proof -
  let ?hs = "map (\<lambda>e. merkle c f e (n div 2 ^ e)) [D..<D + k]"
  have "f i = z" if "n < i" for i using that assms(3,4) by simp
  then obtain np' where np': "hashes_above c z [Suc D..<mh] (merkle c f D (n div 2 ^ D)) (peaks_from c f n D (Suc k)) np
      = Some (?hs, np')" "path_below c (mh - 1) f (D + k) np'" "mp_leaf_index np' = n"
    using hashes_above_peaks [OF assms(1,2,6,7), of z] by blast
  have "\<exists>p'. update_path_above mh (Suc D) n ?hs p = Some p' \<and> path_between c (mh - 1) f g (mh - 1) p' \<and>
      mp_leaf_index p' = mp_leaf_index p" if "path_between c (mh - 1) f g D p" for p
    using update_path_above_ok [OF that [unfolded assms(3)] assms(1) refl] unfolding assms(3) .
  then obtain ps' where "those (map (update_path_above mh (Suc D) n ?hs) ps) = Some ps'"
      "paths_between c (mh - 1) f g (mh - 1) is ps'"
    using paths_between_map [OF assms(5), of "update_path_above mh (Suc D) n ?hs" "mh - 1"] by blast
  then show ?thesis using np' assms(1) by (simp add: update_paths_above_merge_def del: peaks_from.simps)
qed

definition path_of :: "('h \<Rightarrow> 'h \<Rightarrow> 'h) \<Rightarrow> 'h \<Rightarrow> nat \<Rightarrow> 'h list \<Rightarrow> 'h merkle_path \<Rightarrow> bool" where
  "path_of compress zero mh xs p \<longleftrightarrow> mp_leaf_index p < length xs \<and> length (mp_siblings p) = mh - 1 \<and>
     (\<forall>d < mh - 1. mp_siblings p ! d = sibling_hash compress (padded zero xs) (mp_leaf_index p) d)"

lemma path_of_between:
  "path_of c z mh xs p \<longleftrightarrow> mp_leaf_index p < length xs \<and> path_between c (mh - 1) (padded z xs) g (mh - 1) p"
  "path_of c z mh xs p \<longleftrightarrow> mp_leaf_index p < length xs \<and> path_between c (mh - 1) g (padded z xs) 0 p"
  "path_of c z mh xs p \<longleftrightarrow> mp_leaf_index p < length xs \<and> path_below c (mh - 1) (padded z xs) (mh - 1) p"
  by (auto simp: path_of_def path_between_def path_below_def)

lemma padded_snoc: "padded z (xs @ [x]) = (padded z xs)(length xs := x)"
  by (rule ext) (auto simp: padded_def nth_append)

lemma validate_paths_ok:
  assumes "1 \<le> mh" "mh \<le> 33" "\<forall>p \<in> set ps. length (mp_siblings p) = mh - 1 \<and> mp_leaf_index p < n"
  shows "validate_paths mh n ps = Some (Inr ())"
  using assms(3)
proof (induction ps)
  case (Cons p ps)
  then show ?case using assms(1,2)
    by (simp add: validate_for_height_def validate_leaf_index_def assert_acceptable_height_def
        validate_supported_max_height_def ACCEPTABLE_MAX_HEIGHT_def)
qed simp

lemma push_with_paths_peaks:
  assumes "length xs < 2 ^ (mh - 1)" "1 \<le> mh" "mh \<le> 33" "\<forall>p \<in> set ps. path_of c z mh xs p"
  shows "\<exists>np ps'. push_with_paths c z mh (peaks c mh xs) x ps = Some (Inr (peaks c mh (xs @ [x]), np, ps')) \<and>
    mp_leaf_index np = length xs \<and> map mp_leaf_index ps' = map mp_leaf_index ps \<and>
    path_of c z mh (xs @ [x]) np \<and> (\<forall>p \<in> set ps'. path_of c z mh (xs @ [x]) p)"
proof -
  let ?n = "length xs" and ?g = "padded z xs" and ?f = "padded z (xs @ [x])"
  let ?es = "map (empty_roots c z) [0..<mh - 1]"
  let ?np = "\<lparr>mp_leaf_index = ?n, mp_siblings = ?es\<rparr>"
  obtain k where mh: "mh = Suc k" using assms(2) by (cases mh) auto
  have f: "?f = ?g(?n := x)" by (rule padded_snoc)
  have old: "peaks c mh xs = peaks_from c ?f ?n 0 mh" and new: "peaks c mh (xs @ [x]) = peaks_from c ?f (Suc ?n) 0 mh"
    unfolding peaks_def by (auto intro!: peaks_from_cong simp: padded_def nth_append)
  have "those (map (empty_subtree_root c z) [1..<mh]) = Some ?es"
    using assms(3) by (auto simp: those_map_Some_iff mh empty_subtree_root_Some simp del: upt_Suc)
  then have es: "those (map (empty_subtree_root c z) [1..<mh]) = Some ?es" "path_try_new ?n ?es = Inr ?np"
    using assms(3) by (auto simp: path_try_new_def MAX_MERKLE_PATH_SIBLINGS_def ACCEPTABLE_MAX_HEIGHT_def)
  have v: "validate_paths mh ?n ps = Some (Inr ())"
    using assms(4) by (intro validate_paths_ok assms(2,3)) (auto simp: path_of_def)
  have "paths_between c (mh - 1) ?f ?g 0 (map mp_leaf_index ps) ps"
    using assms(4) by (auto simp: paths_between_def path_of_between(2) [of c z mh xs _ ?f])
  from merge_with_paths_start [OF assms(1-3) this _ _ f, of ?np]
  obtain D ps1 np1 where m: "D < mh"
      "merge_peaks_with_paths c mh \<lparr>rt_root = x, rt_height = 1\<rparr> (peaks_from c ?f ?n 0 mh) ps ?np
        = Some (\<lparr>rt_root = merkle c ?f D (?n div 2 ^ D), rt_height = Suc D\<rparr>, peaks_from c ?f ?n D (mh - D), ps1, np1)"
      "peaks_from c ?f (Suc ?n) 0 mh
        = \<lparr>rt_root = merkle c ?f D (?n div 2 ^ D), rt_height = Suc D\<rparr> # peaks_from c ?f ?n D (mh - D)"
      "paths_between c (mh - 1) ?f ?g D (map mp_leaf_index ps) ps1" "path_below c (mh - 1) ?f D np1" "mp_leaf_index np1 = ?n"
    by auto
  obtain j where j: "mh = Suc (D + j)" "mh - D = Suc j" using less_imp_Suc_add [OF m(1)] by auto
  obtain ps2 np2 where u: "update_paths_above_merge c z mh \<lparr>rt_root = merkle c ?f D (?n div 2 ^ D), rt_height = Suc D\<rparr>
      (peaks_from c ?f ?n D (mh - D)) ps1 np1 = Some (ps2, np2)"
      "paths_between c (mh - 1) ?f ?g (mh - 1) (map mp_leaf_index ps) ps2" "path_below c (mh - 1) ?f (mh - 1) np2"
      "mp_leaf_index np2 = ?n"
    using update_above_merge [OF j(1) assms(3) f _ m(4-6), of z] unfolding j(2) by (auto simp: padded_def)
  have "push_with_paths c z mh (peaks c mh xs) x ps = Some (Inr (peaks c mh (xs @ [x]), np2, ps2))"
    using es v u(1) m(2,3) peaks_full [of xs mh c] mmr_len_peaks [of xs mh c] assms(1-3)
    by (simp add: push_with_paths_def old [symmetric] new del: peaks_from.simps)
  moreover have "\<forall>p \<in> set ps2. mp_leaf_index p < length (xs @ [x])"
  proof
    fix p assume "p \<in> set ps2"
    then have "mp_leaf_index p \<in> set (map mp_leaf_index ps)"
      using u(2) unfolding paths_between_def by (metis image_eqI set_map)
    then show "mp_leaf_index p < length (xs @ [x])" using assms(4) by (auto simp: path_of_def)
  qed
  moreover have "path_of c z mh (xs @ [x]) np2"
    using u(3,4) by (simp add: path_of_between(3))
  ultimately show ?thesis
    using u(2,4) by (auto simp: paths_between_def path_of_between(1) [of c z mh "xs @ [x]" _ ?g])
qed

subsection \<open>Properties\<close>

text \<open>
  The ranges a client can reach, with the leaves it pushed and the paths it tracks: it starts empty,
  pushes with the tracked paths, keeps the new path or not, and may forget paths at any time.
\<close>

inductive tracked :: "('h \<Rightarrow> 'h \<Rightarrow> 'h) \<Rightarrow> 'h \<Rightarrow> nat \<Rightarrow> 'h list \<Rightarrow> 'h mmr \<Rightarrow> 'h merkle_path list \<Rightarrow> bool"
  for compress zero mh where
  tracked_new: "new_mmr mh = Some m \<Longrightarrow> tracked compress zero mh [] m []"
| tracked_push: "tracked compress zero mh xs m ps \<Longrightarrow>
    push_with_paths compress zero mh m x ps = Some (Inr (m', p, ps')) \<Longrightarrow> tracked compress zero mh (xs @ [x]) m' (p # ps')"
| tracked_push_only: "tracked compress zero mh xs m [] \<Longrightarrow>
    push compress mh m x = Some (Inr m') \<Longrightarrow> tracked compress zero mh (xs @ [x]) m' []"
| tracked_forget: "tracked compress zero mh xs m ps \<Longrightarrow> set ps' \<subseteq> set ps \<Longrightarrow> tracked compress zero mh xs m ps'"

lemma push_full:
  assumes "length xs = 2 ^ (mh - 1)" "1 \<le> mh"
  shows "push c mh (peaks c mh xs) x = Some (Inl MmrFull)"
    and "push_with_paths c z mh (peaks c mh xs) x ps = Some (Inl (PushMmrFull MmrFull))"
  using assms peaks_full [of xs mh c] by (simp_all add: push_def push_with_paths_def)

lemma tracked_peaks:
  assumes "tracked c z mh xs m ps"
  shows "1 \<le> mh \<and> mh \<le> 33 \<and> length xs \<le> 2 ^ (mh - 1) \<and> m = peaks c mh xs \<and> (\<forall>p \<in> set ps. path_of c z mh xs p)"
  using assms
proof induction
  case (tracked_new m)
  then show ?case by (auto simp: new_mmr_def acceptable_iff bind_Some_iff peaks_def)
next
  case (tracked_push xs m ps x m' p ps')
  then have "length xs \<noteq> 2 ^ (mh - 1)" using push_full(2) [of xs mh c z x ps] by auto
  then show ?case using tracked_push push_with_paths_peaks [of xs mh ps c z x] by auto
next
  case (tracked_push_only xs m x m')
  then have "length xs \<noteq> 2 ^ (mh - 1)" using push_full(1) [of xs mh c x] by auto
  then show ?case using tracked_push_only push_peaks [of xs mh c x] by auto
next
  case (tracked_forget xs m ps ps')
  then show ?case by blast
qed

interpretation tracked_mmr: merkle_container compress "mh - 1"
  "\<lambda>(xs, m, ps). tracked compress zero mh xs m ps" "\<lambda>(xs, m, ps). padded zero xs"
  "\<lambda>(xs, m, ps). the (frontier_root compress zero mh m)"
  "\<lambda>(xs, m, ps) i ss. \<exists>p \<in> set ps. mp_leaf_index p = i \<and> mp_siblings p = ss"
  for compress :: "'h \<Rightarrow> 'h \<Rightarrow> 'h" and mh zero
proof (unfold_locales, goal_cases)
  case (1 s)
  then show ?case using tracked_peaks frontier_root_peaks by (auto split: prod.splits) fastforce
next
  case (2 s i ss)
  then show ?case using tracked_peaks by (fastforce simp: path_of_def split: prod.splits)
qed

text \<open>
  C28: Pushing an element onto the range of the leaves \<open>xs\<close> gives the range of \<open>xs\<close> with the element
  appended, and fails with \<^verbatim>\<open>MmrFull\<close> exactly when the range holds \<^verbatim>\<open>capacity()\<close> leaves; the height
  assertion of the merge loop never fires.
\<close>

theorem push_appends_leaf:
  assumes "1 \<le> mh" "mh \<le> 33" "length xs \<le> mmr_capacity mh"
  shows "push compress mh (peaks compress mh xs) x =
    Some (if length xs = mmr_capacity mh then Inl MmrFull else Inr (peaks compress mh (xs @ [x])))"
proof (cases "length xs = mmr_capacity mh")
  case True
  then show ?thesis using push_full(1) [of xs mh compress x] mmr_capacity_pow [OF assms(1,2)] assms(1) by simp
next
  case False
  then show ?thesis using push_peaks [OF _ assms(1,2), of xs compress x] mmr_capacity_pow [OF assms(1,2)] assms(3) by simp
qed

theorem push_appends_leaf_witness:
  "push (+) 3 (peaks (+) 3 [5, 6, 7]) (8 :: nat) = Some (Inr (peaks (+) 3 [5, 6, 7, 8])) \<and>
   push (+) 3 (peaks (+) 3 [5, 6, 7, 8]) (9 :: nat) = Some (Inl MmrFull)"
proof -
  have "mmr_capacity 3 = 4" by (simp add: mmr_capacity_pow)
  then show ?thesis
    using push_appends_leaf [of 3 "[5, 6, 7 :: nat]" "(+)" 8] push_appends_leaf [of 3 "[5, 6, 7, 8 :: nat]" "(+)" 9] by simp
qed

text \<open>
  The frontier root of the range of the leaves \<open>xs\<close> is the root of the complete tree of height
  \<^verbatim>\<open>MAX_HEIGHT\<close> whose remaining leaves are empty, although the code only combines the peaks with
  precomputed empty roots; \<^verbatim>\<open>len()\<close> is the number of leaves.
\<close>

theorem frontier_root_reference:
  assumes "1 \<le> mh" "mh \<le> 33" "length xs \<le> 2 ^ (mh - 1)"
  shows "frontier_root compress zero mh (peaks compress mh xs) = Some (merkle compress (padded zero xs) (mh - 1) 0) \<and>
    mmr_len (peaks compress mh xs) = length xs"
  using frontier_root_peaks [OF assms(3,1,2)] mmr_len_peaks [OF assms(3,1,2)] by (rule conjI)

theorem frontier_root_reference_witness:
  "frontier_root Node (Atom 0) 3 (peaks Node 3 [Atom 1, Atom 2, Atom 3])
     = Some (Node (Node (Atom 1) (Atom 2)) (Node (Atom 3) (Atom 0)))"
  using frontier_root_reference [of 3 "[Atom 1, Atom 2, Atom 3]" Node "Atom 0"]
  by (simp add: eval_nat_numeral padded_def)

text \<open>
  C21: As long as a range has room, \<^verbatim>\<open>push_with_paths\<close> returns; and every path it handed out and kept
  up to date verifies its leaf against the current frontier root, whatever was pushed since.
\<close>

theorem tracked_paths_verify:
  assumes "tracked compress zero mh xs m ps"
  shows "(length xs < mmr_capacity mh \<longrightarrow> (\<exists>r. push_with_paths compress zero mh m x ps = Some (Inr r))) \<and>
    (\<exists>root. frontier_root compress zero mh m = Some root \<and>
       (\<forall>p \<in> set ps. mp_leaf_index p < length xs \<and> path_verify compress p (xs ! mp_leaf_index p) root))"
proof -
  note t = tracked_peaks [OF assms]
  have "mmr_capacity mh = 2 ^ (mh - 1)" using mmr_capacity_pow t by blast
  then have "length xs < mmr_capacity mh \<longrightarrow> (\<exists>r. push_with_paths compress zero mh m x ps = Some (Inr r))"
    using t push_with_paths_peaks [of xs mh ps compress zero x] by auto
  moreover obtain root where root: "frontier_root compress zero mh m = Some root"
    using t frontier_root_peaks [of xs mh compress zero] by simp
  moreover have "mp_leaf_index p < length xs \<and> path_verify compress p (xs ! mp_leaf_index p) root" if p: "p \<in> set ps" for p
  proof -
    have i: "mp_leaf_index p < length xs" using t p by (auto simp: path_of_def)
    then show ?thesis
      using tracked_mmr.path_verifies [where s = "(xs, m, ps)" and compress = compress and mh = mh and zero = zero
          and i = "mp_leaf_index p" and ss = "mp_siblings p"] assms p t root
      by (auto simp: path_verify_fold padded_def)
  qed
  ultimately show ?thesis by blast
qed

text \<open>
  C22: The frontier root binds the leaves: if a path of the validated length, for an index within the capacity, verifies at its position a
  value that is not the leaf there (the empty value past the end), then walking up this path and the true one
  side by side finds two different inputs that the hash compresses to the same value.
\<close>

theorem frontier_root_binding:
  assumes "tracked compress zero mh xs m ps" "frontier_root compress zero mh m = Some root"
    and "mp_leaf_index p < mmr_capacity mh" "validate_for_height p mh = Some (Inr ())" "path_verify compress p y root"
    and "leaf = (if mp_leaf_index p < length xs then xs ! mp_leaf_index p else zero)" "y \<noteq> leaf"
  shows "\<exists>a b a' b'. path_collision compress (mp_leaf_index p) y (mp_siblings p) leaf
      (map (sibling_hash compress (padded zero xs) (mp_leaf_index p)) [0..<mh - 1]) = Some ((a, b), a', b') \<and>
    (a, b) \<noteq> (a', b') \<and> compress a b = compress a' b'"
proof -
  note t = tracked_peaks [OF assms(1)]
  have "mmr_capacity mh = 2 ^ (mh - 1)" using mmr_capacity_pow t by blast
  moreover have "length (mp_siblings p) = mh - 1"
    using assms(4) by (auto simp: validate_for_height_def bind_Some_iff split: if_splits)
  moreover have "padded zero xs (mp_leaf_index p) = leaf" using assms(6) by (simp add: padded_def)
  ultimately show ?thesis
    using tracked_mmr.path_binding [where s = "(xs, m, ps)" and mh = mh and zero = zero and compress = compress
        and i = "mp_leaf_index p" and ts = "mp_siblings p" and x = y] assms
    by (simp add: path_verify_fold)
qed

text \<open>A range of height 3 with two leaves, built by two pushes.\<close>

lemmas mmr_eval = push_with_paths_def mmr_is_full_def validate_for_height_def validate_leaf_index_def
  empty_subtree_root_def assert_acceptable_height_def validate_supported_max_height_def ACCEPTABLE_MAX_HEIGHT_def
  path_try_new_def MAX_MERKLE_PATH_SIBLINGS_def mmr_len_def num_leaves_def update_paths_at_merge_def
  are_siblings_at_iff [of _ _ 0, simplified] merged_def wrapping_add_def wrapping_sub_def set_sibling_def
  update_paths_above_merge_def update_path_above_def is_left_child_iff [of _ 0, simplified]
  is_left_child_iff [of _ 1, unfolded Suc_1] sibling_height_def bit_width.simps sibling_def

definition mmr1 :: "symbolic mmr" where
  "mmr1 = [\<lparr>rt_root = Atom 1, rt_height = 1\<rparr>]"

definition mmr2 :: "symbolic mmr" where
  "mmr2 = [\<lparr>rt_root = Node (Atom 1) (Atom 2), rt_height = 2\<rparr>]"

definition mmr2_path0 :: "symbolic merkle_path" where
  "mmr2_path0 = \<lparr>mp_leaf_index = 0, mp_siblings = [Atom 2, Node (Atom 0) (Atom 0)]\<rparr>"

definition mmr2_path1 :: "symbolic merkle_path" where
  "mmr2_path1 = \<lparr>mp_leaf_index = 1, mp_siblings = [Atom 1, Node (Atom 0) (Atom 0)]\<rparr>"

lemma upt_1_3: "[Suc 0..<3] = [1, 2]" "[2..<3] = [2]" "[Suc (Suc 0)..<3] = [2]"
  by (simp_all add: upt_rec numeral_eq_Suc)

lemma mmr2_tracked: "tracked Node (Atom 0) 3 [Atom 1, Atom 2] mmr2 [mmr2_path1, mmr2_path0]"
proof -
  let ?p = "\<lparr>mp_leaf_index = 0, mp_siblings = [Atom 0, Node (Atom 0) (Atom 0)]\<rparr>"
  have "push_with_paths Node (Atom 0) 3 [] (Atom 1) [] = Some (Inr (mmr1, ?p, []))"
    by (simp add: mmr_eval upt_1_3 mmr1_def)
  moreover have "push_with_paths Node (Atom 0) 3 mmr1 (Atom 2) [?p] = Some (Inr (mmr2, mmr2_path1, [mmr2_path0]))"
    by (simp add: mmr_eval upt_1_3 mmr1_def mmr2_def mmr2_path0_def mmr2_path1_def)
  moreover have "tracked Node (Atom 0) 3 [] [] []" by (rule tracked_new) (simp add: new_mmr_def mmr_eval)
  ultimately show ?thesis using tracked_push tracked_push by fastforce
qed

theorem tracked_paths_verify_witness:
  "(\<exists>r. push_with_paths Node (Atom 0) 3 mmr2 (Atom 3) [mmr2_path1, mmr2_path0] = Some (Inr r)) \<and>
   (\<exists>root. frontier_root Node (Atom 0) 3 mmr2 = Some root \<and> path_verify Node mmr2_path0 (Atom 1) root)"
  using tracked_paths_verify [OF mmr2_tracked, of "Atom 3"] by (simp add: mmr_capacity_pow) (auto simp: mmr2_path0_def)

text \<open>A broken hash, which is constant: a path verifies 9 where the leaf is 1.\<close>

lemma broken_tracked: "tracked (\<lambda>_ _. 0) 0 3 [1 :: nat] [\<lparr>rt_root = 1, rt_height = 1\<rparr>] [\<lparr>mp_leaf_index = 0, mp_siblings = [0, 0]\<rparr>]"
proof -
  have "push_with_paths (\<lambda>_ _. 0) 0 3 [] (1 :: nat) [] = Some (Inr ([\<lparr>rt_root = 1, rt_height = 1\<rparr>], \<lparr>mp_leaf_index = 0, mp_siblings = [0, 0]\<rparr>, []))"
    by (simp add: mmr_eval upt_1_3)
  moreover have "tracked (\<lambda>_ _. 0) (0 :: nat) 3 [] [] []" by (rule tracked_new) (simp add: new_mmr_def mmr_eval)
  ultimately show ?thesis using tracked_push by fastforce
qed

theorem frontier_root_binding_witness:
  "path_verify (\<lambda>_ _. 0) \<lparr>mp_leaf_index = 0, mp_siblings = [5, 6]\<rparr> (9 :: nat) 0 \<and>
   (\<exists>a b a' b'. path_collision (\<lambda>_ _. 0) 0 (9 :: nat) [5, 6] 1 (map (sibling_hash (\<lambda>_ _. 0) (padded 0 [1]) 0) [0..<2]) = Some ((a, b), a', b') \<and>
      (a, b) \<noteq> (a', b'))"
proof -
  let ?p = "\<lparr>mp_leaf_index = 0, mp_siblings = [5, 6 :: nat]\<rparr>"
  have "frontier_root (\<lambda>_ _. 0) (0 :: nat) 3 [\<lparr>rt_root = 1, rt_height = 1\<rparr>] = Some 0"
    by (simp add: frontier_root_def raise_to.simps mmr_eval)
  moreover have "path_verify (\<lambda>_ _. 0) ?p 9 0" by (simp add: path_verify_fold)
  ultimately show ?thesis
    using frontier_root_binding [OF broken_tracked, of 0 ?p 9 1] by (auto simp: mmr_capacity_pow validate_for_height_def mmr_eval)
qed

end
