(* ===== verification/Codec.thy ===== *)
theory Codec
  imports Prelude "HOL-Library.Word"
begin

text \<open>
  The canonical binary codec: \<^verbatim>\<open>binary-codec/src/canonical/\<close> and the derive macros of
  \<^verbatim>\<open>binary-codec/macros/src/lib.rs\<close>.

  A byte is an \<^typ>\<open>8 word\<close>.  An encoder is a function to \<^typ>\<open>8 word list option\<close>, where \<^term>\<open>None\<close> is the panic of
  a length prefix that does not fit; a decoder returns the rest of its input and a value, or an error.  The
  type names inside the errors are diagnostics and left out.

  What a codec promises is the locale \<open>codec\<close>: every value of the type is encoded, decoding undoes encoding and leaves
  the bytes that follow, and whatever decodes is the encoding of the value it decodes to.  So an encoding is unique, no
  encoding is a prefix of another, and truncated input is rejected.  The loops of the collections share the
  locale \<open>item_codec\<close>, whose parameter is the condition an item must meet after the items before it.
\<close>

unbundle bit_operations_syntax

type_synonym byte = "8 word"

datatype decode_error =
    UnexpectedEnd nat
  | InputRemaining nat
  | InvalidValue
  | UnknownDiscriminant nat
  | LengthOutOfBounds nat nat nat
  | ZeroLengthElement nat nat
  | DuplicateItem nat
  | OutOfOrderItem nat
  | CustomError

type_synonym 'a encoder = "'a \<Rightarrow> byte list option"
type_synonym 'a decoder = "byte list \<Rightarrow> decode_error + (byte list \<times> 'a)"
type_synonym 'a sizer = "'a \<Rightarrow> nat option"

text \<open>The \<^verbatim>\<open>?\<close> operator on a call that cannot panic.\<close>

definition and_then :: "'e + 'a \<Rightarrow> ('a \<Rightarrow> 'e + 'b) \<Rightarrow> 'e + 'b" where
  "and_then r f = (case r of Inl e \<Rightarrow> Inl e | Inr a \<Rightarrow> f a)"

subsection \<open>Primitives\<close>

definition ZERO_LENGTH_ELEMENT_MAX :: nat where
  "ZERO_LENGTH_ELEMENT_MAX = 1024"

definition take_bytes :: "nat \<Rightarrow> byte list \<Rightarrow> decode_error + (byte list \<times> byte list)" where
  "take_bytes n input =
     (if n \<le> length input then Inr (take n input, drop n input) else Inl (UnexpectedEnd (n - length input)))"

definition decode_all :: "'a decoder \<Rightarrow> byte list \<Rightarrow> decode_error + 'a" where
  "decode_all decode input =
     and_then (decode input) (\<lambda>(rest, value). if rest \<noteq> [] then Inl (InputRemaining (length rest)) else Inr value)"

definition peek_decode :: "'a decoder \<Rightarrow> byte list \<Rightarrow> decode_error + 'a" where
  "peek_decode decode input = and_then (decode input) (\<lambda>(rest, value). Inr value)"

primrec to_le_bytes :: "nat \<Rightarrow> nat \<Rightarrow> byte list" where
  "to_le_bytes 0 v = []"
| "to_le_bytes (Suc w) v = word_of_nat v # to_le_bytes w (v div 256)"

primrec from_le_bytes :: "byte list \<Rightarrow> nat" where
  "from_le_bytes [] = 0"
| "from_le_bytes (b # bs) = unat b + 256 * from_le_bytes bs"

text \<open>An unsigned integer of \<open>w\<close> bytes.\<close>

definition uint_ok :: "nat \<Rightarrow> nat \<Rightarrow> bool" where
  "uint_ok w v \<longleftrightarrow> v < 256 ^ w"

definition uint_length :: "nat \<Rightarrow> nat sizer" where
  "uint_length w v = Some w"

definition uint_encode :: "nat \<Rightarrow> nat encoder" where
  "uint_encode w v = Some (to_le_bytes w v)"

definition uint_decode :: "nat \<Rightarrow> nat decoder" where
  "uint_decode w input = and_then (take_bytes w input) (\<lambda>(head, rest). Inr (rest, from_le_bytes head))"

definition nonzero_ok :: "nat \<Rightarrow> nat \<Rightarrow> bool" where
  "nonzero_ok w v \<longleftrightarrow> uint_ok w v \<and> v \<noteq> 0"

definition nonzero_decode :: "nat \<Rightarrow> nat decoder" where
  "nonzero_decode w input =
     and_then (uint_decode w input) (\<lambda>(rest, value). if value = 0 then Inl InvalidValue else Inr (rest, value))"

text \<open>A scalar of the field: its 32 bytes, which must be below the modulus.\<close>

definition fr_modulus :: nat where
  "fr_modulus = 21888242871839275222246405745257275088548364400416034343698204186575808495617"

definition fr_ok :: "nat \<Rightarrow> bool" where
  "fr_ok n \<longleftrightarrow> n < fr_modulus"

definition fr_from_bytes :: "byte list \<Rightarrow> unit + nat" where
  "fr_from_bytes fr = (let n = from_le_bytes fr in if fr_modulus \<le> n then Inl () else Inr n)"

definition fr_decode :: "nat decoder" where
  "fr_decode input =
     and_then (take_bytes 32 input)
       (\<lambda>(head, rest). case fr_from_bytes head of Inl _ \<Rightarrow> Inl InvalidValue | Inr value \<Rightarrow> Inr (rest, value))"

definition bool_length :: "bool sizer" where
  "bool_length b = Some 1"

definition bool_encode :: "bool encoder" where
  "bool_encode b = Some [if b then 1 else 0]"

definition bool_decode :: "bool decoder" where
  "bool_decode input =
     and_then (uint_decode 1 input)
       (\<lambda>(rest, byte). if byte = 0 then Inr (rest, False) else if byte = 1 then Inr (rest, True) else Inl InvalidValue)"

definition option_length :: "'a sizer \<Rightarrow> 'a option sizer" where
  "option_length L x =
     (case x of None \<Rightarrow> Some 1 | Some v \<Rightarrow> map_option (wrapping_add 64 1) (L v))"

definition option_encode :: "'a encoder \<Rightarrow> 'a option encoder" where
  "option_encode E x =
     (case x of None \<Rightarrow> uint_encode 1 0
      | Some v \<Rightarrow> do { tag \<leftarrow> uint_encode 1 1; bs \<leftarrow> E v; Some (tag @ bs) })"

subsection \<open>Derived structs\<close>

text \<open>Two fields in declaration order; more fields nest to the right.\<close>

definition pair_ok :: "('a \<Rightarrow> bool) \<Rightarrow> ('b \<Rightarrow> bool) \<Rightarrow> 'a \<times> 'b \<Rightarrow> bool" where
  "pair_ok V V' p \<longleftrightarrow> V (fst p) \<and> V' (snd p)"

definition pair_length :: "'a sizer \<Rightarrow> 'b sizer \<Rightarrow> ('a \<times> 'b) sizer" where
  "pair_length L L' p = do { a \<leftarrow> L (fst p); b \<leftarrow> L' (snd p); Some (wrapping_add 64 a b) }"

definition pair_encode :: "'a encoder \<Rightarrow> 'b encoder \<Rightarrow> ('a \<times> 'b) encoder" where
  "pair_encode E E' p = do { a \<leftarrow> E (fst p); b \<leftarrow> E' (snd p); Some (a @ b) }"

definition pair_decode :: "'a decoder \<Rightarrow> 'b decoder \<Rightarrow> ('a \<times> 'b) decoder" where
  "pair_decode D D' input =
     and_then (D input) (\<lambda>(input, field0). and_then (D' input) (\<lambda>(input, field1). Inr (input, (field0, field1))))"

text \<open>Decoding as another type, then converting: \<^verbatim>\<open>#[decode(try_from)]\<close>, and the constructor of a struct.\<close>

definition conv_decode :: "('r \<Rightarrow> 'a option) \<Rightarrow> 'r decoder \<Rightarrow> 'a decoder" where
  "conv_decode f D input =
     and_then (D input) (\<lambda>(input, raw). case f raw of None \<Rightarrow> Inl InvalidValue | Some v \<Rightarrow> Inr (input, v))"

subsection \<open>Length prefixes\<close>

definition MAX_ENCODABLE_LENGTH :: nat where
  "MAX_ENCODABLE_LENGTH = 2 ^ 32 - 1"

definition length_prefix_len :: "nat \<Rightarrow> nat" where
  "length_prefix_len max_n = (if max_n \<le> 2 ^ 8 - 1 then 1 else if max_n \<le> 2 ^ 16 - 1 then 2 else 4)"

definition encode_length_prefix :: "nat \<Rightarrow> nat \<Rightarrow> byte list option" where
  "encode_length_prefix max_n actual_length =
     do { n \<leftarrow> try_from (8 * length_prefix_len max_n) actual_length; uint_encode (length_prefix_len max_n) n }"

definition decode_length_prefix :: "nat \<Rightarrow> nat decoder" where
  "decode_length_prefix max_n input = uint_decode (length_prefix_len max_n) input"

definition decode_bounded_length :: "nat \<Rightarrow> nat \<Rightarrow> nat decoder" where
  "decode_bounded_length min_n max_n input =
     and_then (decode_length_prefix max_n input)
       (\<lambda>(rest, len). if len < min_n \<or> max_n < len then Inl (LengthOutOfBounds len min_n max_n) else Inr (rest, len))"

subsection \<open>Collections\<close>

text \<open>
  The items one after the other, and the loop that decodes a given number of them.  Its body sees the items decoded
  so far and the index.
\<close>

definition encode_items :: "'a encoder \<Rightarrow> 'a list encoder" where
  "encode_items E xs = map_option concat (those (map E xs))"

definition items_length :: "'a sizer \<Rightarrow> 'a list sizer" where
  "items_length L xs = map_option (\<lambda>ns. sum_list ns mod 2 ^ 64) (those (map L xs))"

fun decode_loop :: "('a list \<Rightarrow> nat \<Rightarrow> 'a decoder) \<Rightarrow> nat \<Rightarrow> 'a list \<Rightarrow> 'a list decoder" where
  "decode_loop step 0 items rest = Inr (rest, items)"
| "decode_loop step (Suc n) items rest =
     and_then (step items (length items) rest) (\<lambda>(next, x). decode_loop step n (items @ [x]) next)"

definition array_decode :: "nat \<Rightarrow> 'a decoder \<Rightarrow> 'a list decoder" where
  "array_decode N D input = decode_loop (\<lambda>_ _. D) N [] input"

text \<open>The encoder of every bounded collection, and its length.\<close>

definition bounded_length :: "nat \<Rightarrow> 'a sizer \<Rightarrow> 'a list sizer" where
  "bounded_length max_n L xs = do { n \<leftarrow> items_length L xs; checked_add 64 (length_prefix_len max_n) n }"

definition bounded_encode :: "nat \<Rightarrow> 'a encoder \<Rightarrow> 'a list encoder" where
  "bounded_encode max_n E xs = do { p \<leftarrow> encode_length_prefix max_n (length xs); bs \<leftarrow> encode_items E xs; Some (p @ bs) }"

definition bounded_decode :: "nat \<Rightarrow> nat \<Rightarrow> ('a list \<Rightarrow> nat \<Rightarrow> 'a decoder) \<Rightarrow> 'a list decoder" where
  "bounded_decode min_n max_n step input =
     and_then (decode_bounded_length min_n max_n input) (\<lambda>(rest, len). decode_loop step len [] rest)"

text \<open>\<^verbatim>\<open>BoundedVec\<close>: an item that consumes nothing is refused when the bound is large.\<close>

definition vec_step :: "nat \<Rightarrow> 'a decoder \<Rightarrow> 'a list \<Rightarrow> nat \<Rightarrow> 'a decoder" where
  "vec_step max_n D items index rest =
     and_then (D rest)
       (\<lambda>(next, x). if length next = length rest \<and> ZERO_LENGTH_ELEMENT_MAX < max_n
                     then Inl (ZeroLengthElement max_n ZERO_LENGTH_ELEMENT_MAX) else Inr (next, x))"

definition vec_decode :: "nat \<Rightarrow> nat \<Rightarrow> 'a decoder \<Rightarrow> 'a list decoder" where
  "vec_decode min_n max_n D = bounded_decode min_n max_n (vec_step max_n D)"

text \<open>\<^verbatim>\<open>BoundedOrderedSet\<close> and \<^verbatim>\<open>BoundedOrderedMap\<close>: insertion order, a repeated key is refused.\<close>

definition set_step :: "'a decoder \<Rightarrow> 'a list \<Rightarrow> nat \<Rightarrow> 'a decoder" where
  "set_step D items index rest =
     and_then (D rest) (\<lambda>(next, x). if x \<in> set items then Inl (DuplicateItem index) else Inr (next, x))"

definition ordered_set_decode :: "nat \<Rightarrow> nat \<Rightarrow> 'a decoder \<Rightarrow> 'a list decoder" where
  "ordered_set_decode min_n max_n D = bounded_decode min_n max_n (set_step D)"

definition map_step :: "'k decoder \<Rightarrow> 'v decoder \<Rightarrow> ('k \<times> 'v) list \<Rightarrow> nat \<Rightarrow> ('k \<times> 'v) decoder" where
  "map_step D D' items index rest =
     and_then (D rest)
       (\<lambda>(after_key, key).
          if key \<in> set (map fst items) then Inl (DuplicateItem index)
          else and_then (D' after_key) (\<lambda>(next, value). Inr (next, (key, value))))"

definition ordered_map_decode :: "nat \<Rightarrow> nat \<Rightarrow> 'k decoder \<Rightarrow> 'v decoder \<Rightarrow> ('k \<times> 'v) list decoder" where
  "ordered_map_decode min_n max_n D D' = bounded_decode min_n max_n (map_step D D')"

text \<open>\<^verbatim>\<open>BoundedBTreeSet\<close> and \<^verbatim>\<open>BoundedBTreeMap\<close>: increasing keys.\<close>

definition check_key_order :: "'k::linorder option \<Rightarrow> 'k \<Rightarrow> nat \<Rightarrow> decode_error + unit" where
  "check_key_order prev key index =
     (case prev of
        None \<Rightarrow> Inr ()
      | Some p \<Rightarrow> if key > p then Inr () else if key = p then Inl (DuplicateItem index) else Inl (OutOfOrderItem index))"

definition last_of :: "'a list \<Rightarrow> 'a option" where
  "last_of xs = (if xs = [] then None else Some (last xs))"

definition btree_set_step :: "'a::linorder decoder \<Rightarrow> 'a list \<Rightarrow> nat \<Rightarrow> 'a decoder" where
  "btree_set_step D items index rest =
     and_then (D rest) (\<lambda>(next, x). and_then (check_key_order (last_of items) x index) (\<lambda>_. Inr (next, x)))"

definition btree_set_decode :: "nat \<Rightarrow> nat \<Rightarrow> 'a::linorder decoder \<Rightarrow> 'a list decoder" where
  "btree_set_decode min_n max_n D = bounded_decode min_n max_n (btree_set_step D)"

definition btree_map_step :: "'k::linorder decoder \<Rightarrow> 'v decoder \<Rightarrow> ('k \<times> 'v) list \<Rightarrow> nat \<Rightarrow> ('k \<times> 'v) decoder" where
  "btree_map_step D D' items index rest =
     and_then (D rest)
       (\<lambda>(after_key, key). and_then (check_key_order (map_option fst (last_of items)) key index)
          (\<lambda>_. and_then (D' after_key) (\<lambda>(next, value). Inr (next, (key, value)))))"

definition btree_map_decode :: "nat \<Rightarrow> nat \<Rightarrow> 'k::linorder decoder \<Rightarrow> 'v decoder \<Rightarrow> ('k \<times> 'v) list decoder" where
  "btree_map_decode min_n max_n D D' = bounded_decode min_n max_n (btree_map_step D D')"

text \<open>\<^verbatim>\<open>RuntimeBoundedVec\<close>: the length has the width \<open>w\<close> of the maximum's type, the maximum comes with the context.\<close>

definition runtime_vec_length :: "nat \<Rightarrow> 'a sizer \<Rightarrow> 'a list sizer" where
  "runtime_vec_length w L xs =
     do { p \<leftarrow> try_from (8 * w) (length xs); n \<leftarrow> items_length L xs; checked_add 64 w n }"

definition runtime_vec_encode :: "nat \<Rightarrow> 'a encoder \<Rightarrow> 'a list encoder" where
  "runtime_vec_encode w E xs =
     do { n \<leftarrow> try_from (8 * w) (length xs); p \<leftarrow> uint_encode w n; bs \<leftarrow> encode_items E xs; Some (p @ bs) }"

definition runtime_vec_decode :: "nat \<Rightarrow> nat \<Rightarrow> nat \<Rightarrow> 'a decoder \<Rightarrow> 'a list decoder" where
  "runtime_vec_decode w min_n max_len D input =
     and_then (uint_decode w input)
       (\<lambda>(rest, len). if len < min_n \<or> max_len < len then Inl (LengthOutOfBounds len min_n max_len)
                       else decode_loop (vec_step max_len D) len [] rest)"

subsection \<open>The contract of a codec\<close>

locale codec =
  fixes valid :: "'a \<Rightarrow> bool" and len :: "'a sizer" and enc :: "'a encoder" and dec :: "'a decoder"
  assumes encodes: "valid x \<Longrightarrow> \<exists>bs. enc x = Some bs \<and> (length bs < 2 ^ 64 \<longrightarrow> len x = Some (length bs))"
    and decodes: "valid x \<Longrightarrow> enc x = Some bs \<Longrightarrow> dec (bs @ rest) = Inr (rest, x)"
    and canonical_input: "dec input = Inr (rest, x) \<Longrightarrow> valid x \<and> (\<exists>bs. enc x = Some bs \<and> input = bs @ rest)"
begin

lemma prefix_free:
  assumes "valid x" "valid y" "enc x = Some bs" "enc y = Some bs'" "bs @ r = bs' @ r'"
  shows "x = y \<and> r = r'"
  using decodes [OF assms(1,3), of r] decodes [OF assms(2,4), of r'] assms(5) by simp

lemma decode_all_iff: "decode_all dec input = Inr x \<longleftrightarrow> valid x \<and> enc x = Some input"
proof
  assume "decode_all dec input = Inr x"
  then have "dec input = Inr ([], x)" by (auto simp: decode_all_def and_then_def split: sum.splits if_splits)
  then show "valid x \<and> enc x = Some input" using canonical_input [of input "[]" x] by auto
next
  assume "valid x \<and> enc x = Some input"
  then have "dec input = Inr ([], x)" using decodes [of x input "[]"] by simp
  then show "decode_all dec input = Inr x" by (simp add: decode_all_def and_then_def)
qed

lemma truncated:
  assumes "valid x" "enc x = Some bs" "k < length bs"
  shows "\<exists>e. dec (take k bs) = Inl e"
proof (cases "dec (take k bs)")
  case (Inr p)
  obtain r y where p: "p = (r, y)" by (cases p)
  obtain bs' where y: "valid y" "enc y = Some bs'" "take k bs = bs' @ r" using canonical_input [of "take k bs" r y] Inr p by auto
  have "bs @ [] = bs' @ (r @ drop k bs)" using y(3) append_take_drop_id [of k bs] by (metis append_Nil2 append_assoc)
  then have "r @ drop k bs = []" using prefix_free [OF assms(1) y(1) assms(2) y(2)] by blast
  then show ?thesis using assms(3) by simp
qed blast

lemma valid_iff_encoding: "(\<exists>input rest. dec input = Inr (rest, x)) \<longleftrightarrow> valid x"
  using canonical_input encodes decodes by blast

end

text \<open>One step of a loop: an item \<open>x\<close> is admitted after \<open>acc\<close> when \<open>admit acc x\<close>.\<close>

fun admitted :: "('a list \<Rightarrow> 'a \<Rightarrow> bool) \<Rightarrow> 'a list \<Rightarrow> 'a list \<Rightarrow> bool" where
  "admitted P acc [] \<longleftrightarrow> True"
| "admitted P acc (x # xs) \<longleftrightarrow> P acc x \<and> admitted P (acc @ [x]) xs"

locale item_codec =
  fixes valid :: "'a \<Rightarrow> bool" and len :: "'a sizer" and enc :: "'a encoder" and admit :: "'a list \<Rightarrow> 'a \<Rightarrow> bool"
    and step :: "'a list \<Rightarrow> nat \<Rightarrow> 'a decoder"
  assumes item_encodes: "valid x \<Longrightarrow> \<exists>bs. enc x = Some bs \<and> (length bs < 2 ^ 64 \<longrightarrow> len x = Some (length bs))"
    and item_decodes: "valid x \<Longrightarrow> admit acc x \<Longrightarrow> enc x = Some bs \<Longrightarrow> step acc i (bs @ rest) = Inr (rest, x)"
    and item_canonical: "step acc i input = Inr (rest, x) \<Longrightarrow> valid x \<and> admit acc x \<and> (\<exists>bs. enc x = Some bs \<and> input = bs @ rest)"
begin

lemma items_encode:
  assumes "\<forall>x \<in> set xs. valid x"
  shows "\<exists>bs. encode_items enc xs = Some bs \<and> (length bs < 2 ^ 64 \<longrightarrow> items_length len xs = Some (length bs))"
  using assms
proof (induction xs)
  case (Cons x xs)
  obtain bs where bs: "encode_items enc xs = Some bs" "length bs < 2 ^ 64 \<longrightarrow> items_length len xs = Some (length bs)"
    using Cons by auto
  obtain b where b: "enc x = Some b" "length b < 2 ^ 64 \<longrightarrow> len x = Some (length b)" using item_encodes Cons.prems by fastforce
  have e: "encode_items enc (x # xs) = Some (b @ bs)" using b(1) bs(1) by (auto simp: encode_items_def)
  have "items_length len (x # xs) = Some (length (b @ bs))" if small: "length (b @ bs) < 2 ^ 64"
  proof -
    have "length b < 2 ^ 64" "length bs < 2 ^ 64" using small by simp_all
    then obtain ns where ns: "those (map len xs) = Some ns" "sum_list ns mod 2 ^ 64 = length bs" "len x = Some (length b)"
      using b(2) bs(2) by (auto simp: items_length_def)
    have "(length b + sum_list ns) mod 2 ^ 64 = (length b + sum_list ns mod 2 ^ 64) mod 2 ^ 64" by (simp only: mod_add_right_eq)
    then show ?thesis using ns small by (simp add: items_length_def)
  qed
  then show ?case using e by blast
qed (auto simp: encode_items_def items_length_def)

lemma loop_decodes:
  assumes "\<forall>x \<in> set xs. valid x" "admitted admit acc xs" "encode_items enc xs = Some bs"
  shows "decode_loop step (length xs) acc (bs @ rest) = Inr (rest, acc @ xs)"
  using assms
proof (induction xs arbitrary: acc bs)
  case (Cons x xs)
  obtain b bs' where e: "enc x = Some b" "encode_items enc xs = Some bs'" "bs = b @ bs'"
    using Cons.prems(3) by (auto simp: encode_items_def split: option.splits)
  have "step acc (length acc) (b @ bs' @ rest) = Inr (bs' @ rest, x)" using item_decodes Cons.prems e(1) by simp
  then show ?case using Cons.IH [of "acc @ [x]" bs'] Cons.prems e by (simp add: and_then_def)
qed (simp add: encode_items_def)

lemma loop_canonical:
  assumes "decode_loop step n acc input = Inr (rest, ys)"
  shows "\<exists>xs bs. ys = acc @ xs \<and> length xs = n \<and> (\<forall>x \<in> set xs. valid x) \<and> admitted admit acc xs \<and>
    encode_items enc xs = Some bs \<and> input = bs @ rest"
  using assms
proof (induction n arbitrary: acc input)
  case (Suc n)
  obtain r x where s: "step acc (length acc) input = Inr (r, x)" "decode_loop step n (acc @ [x]) r = Inr (rest, ys)"
    using Suc.prems by (auto simp: and_then_def split: sum.splits)
  obtain b where b: "valid x" "admit acc x" "enc x = Some b" "input = b @ r" using item_canonical [OF s(1)] by blast
  obtain xs bs where xs: "ys = (acc @ [x]) @ xs" "length xs = n" "\<forall>x \<in> set xs. valid x" "admitted admit (acc @ [x]) xs"
      "encode_items enc xs = Some bs" "r = bs @ rest"
    using Suc.IH [OF s(2)] by blast
  have "encode_items enc (x # xs) = Some (b @ bs)" using b(3) xs(5) by (auto simp: encode_items_def)
  then show ?case using b xs by (intro exI [of _ "x # xs"] exI [of _ "b @ bs"]) simp
qed (auto simp: encode_items_def)

end

subsection \<open>Primitives are codecs\<close>

lemma length_to_le_bytes [simp]: "length (to_le_bytes w v) = w"
  by (induction w arbitrary: v) simp_all

lemma from_to_le_bytes: "v < 256 ^ w \<Longrightarrow> from_le_bytes (to_le_bytes w v) = v"
proof (induction w arbitrary: v)
  case (Suc w)
  have "v div 256 < 256 ^ w" using Suc.prems by (simp add: div_less_iff_less_mult mult.commute)
  then show ?case using Suc.IH by (simp add: unat_of_nat)
qed simp

lemma from_le_bytes_less: "from_le_bytes bs < 256 ^ length bs"
proof (induction bs)
  case (Cons b bs)
  have "unat b < 256" using unsigned_less [of b, where ?'a = nat] by simp
  moreover have "Suc (from_le_bytes bs) * 256 \<le> 256 ^ length bs * 256" using Cons by (intro mult_le_mono1) simp
  ultimately show ?case by simp
qed simp

lemma to_from_le_bytes: "to_le_bytes (length bs) (from_le_bytes bs) = bs"
proof (induction bs)
  case (Cons b bs)
  have b: "unat b < 256" using unsigned_less [of b, where ?'a = nat] by simp
  have "of_nat (unat b + 256 * from_le_bytes bs) = (of_nat (unat b) :: byte) + of_nat 256 * of_nat (from_le_bytes bs)"
    by (simp only: of_nat_add of_nat_mult)
  also have "(of_nat 256 :: byte) = 0" by simp
  finally have "(of_nat (unat b + 256 * from_le_bytes bs) :: byte) = b" by simp
  then show ?case using Cons b by simp
qed simp

lemma take_bytes_append: "length a = n \<Longrightarrow> take_bytes n (a @ rest) = Inr (a, rest)"
  by (auto simp: take_bytes_def)

lemma take_bytes_Inr_iff: "take_bytes n input = Inr (a, rest) \<longleftrightarrow> input = a @ rest \<and> length a = n"
  by (auto simp: take_bytes_def split: if_splits)

lemma uint_codec: "codec (uint_ok w) (uint_length w) (uint_encode w) (uint_decode w)"
proof
  fix x bs rest assume "uint_ok w x" "uint_encode w x = Some bs"
  then show "uint_decode w (bs @ rest) = Inr (rest, x)"
    by (auto simp: uint_ok_def uint_encode_def uint_decode_def and_then_def take_bytes_append from_to_le_bytes)
next
  fix input rest x assume "uint_decode w input = Inr (rest, x)"
  then obtain h where "take_bytes w input = Inr (h, rest)" "x = from_le_bytes h"
    by (auto simp: uint_decode_def and_then_def split: sum.splits)
  then show "uint_ok w x \<and> (\<exists>bs. uint_encode w x = Some bs \<and> input = bs @ rest)"
    using from_le_bytes_less [of h] to_from_le_bytes [of h] by (auto simp: take_bytes_Inr_iff uint_ok_def uint_encode_def)
qed (simp add: uint_encode_def uint_length_def)

text \<open>Restricting a codec to the values a conversion accepts.\<close>

lemma conv_codec:
  assumes "codec V L E D"
    and "\<And>r y. V r \<Longrightarrow> f r = Some y \<Longrightarrow> W y \<and> g y = r"
    and "\<And>y. W y \<Longrightarrow> V (g y) \<and> f (g y) = Some y"
  shows "codec W (\<lambda>y. L (g y)) (\<lambda>y. E (g y)) (conv_decode f D)"
proof
  fix y assume "W y"
  then show "\<exists>bs. E (g y) = Some bs \<and> (length bs < 2 ^ 64 \<longrightarrow> L (g y) = Some (length bs))"
    using codec.encodes [OF assms(1)] assms(3) by blast
next
  fix y bs rest assume y: "W y" "E (g y) = Some bs"
  then have "D (bs @ rest) = Inr (rest, g y)" using codec.decodes [OF assms(1)] assms(3) by blast
  then show "conv_decode f D (bs @ rest) = Inr (rest, y)" using assms(3) [OF y(1)] by (simp add: conv_decode_def and_then_def)
next
  fix input rest y assume "conv_decode f D input = Inr (rest, y)"
  then obtain r where r: "D input = Inr (rest, r)" "f r = Some y"
    by (auto simp: conv_decode_def and_then_def split: sum.splits option.splits)
  obtain bs where "V r" "E r = Some bs" "input = bs @ rest" using codec.canonical_input [OF assms(1) r(1)] by blast
  then show "W y \<and> (\<exists>bs. E (g y) = Some bs \<and> input = bs @ rest)" using assms(2) [OF _ r(2)] by auto
qed

lemma restrict_codec:
  assumes "codec V L E D" "\<And>x. W x \<Longrightarrow> V x"
    and "\<And>input. D' input = and_then (D input) (\<lambda>(rest, x). if W x then Inr (rest, x) else Inl (err x))"
  shows "codec W L E D'"
proof
  fix x assume "W x"
  then show "\<exists>bs. E x = Some bs \<and> (length bs < 2 ^ 64 \<longrightarrow> L x = Some (length bs))"
    using codec.encodes [OF assms(1)] assms(2) by blast
next
  fix x bs rest assume x: "W x" "E x = Some bs"
  then have "D (bs @ rest) = Inr (rest, x)" using codec.decodes [OF assms(1)] assms(2) by blast
  then show "D' (bs @ rest) = Inr (rest, x)" using x(1) assms(3) [of "bs @ rest"] by (simp add: and_then_def)
next
  fix input rest x assume "D' input = Inr (rest, x)"
  then have "D input = Inr (rest, x)" "W x" using assms(3) [of input] by (auto simp: and_then_def split: sum.splits if_splits)
  then show "W x \<and> (\<exists>bs. E x = Some bs \<and> input = bs @ rest)" using codec.canonical_input [OF assms(1)] by blast
qed

lemma nonzero_codec: "codec (nonzero_ok w) (uint_length w) (uint_encode w) (nonzero_decode w)"
proof -
  have "codec (uint_ok w) (uint_length w) (uint_encode w) (uint_decode w)" by (rule uint_codec)
  then show ?thesis
  proof (rule restrict_codec)
    fix input
    show "nonzero_decode w input = and_then (uint_decode w input) (\<lambda>(rest, x). if nonzero_ok w x then Inr (rest, x) else Inl InvalidValue)"
      using codec.canonical_input [OF uint_codec, of w input]
      by (auto simp: nonzero_decode_def and_then_def nonzero_ok_def split: sum.splits)
  qed (simp add: nonzero_ok_def)
qed

lemma fr_codec: "codec fr_ok (uint_length 32) (uint_encode 32) fr_decode"
proof -
  have "codec (uint_ok 32) (uint_length 32) (uint_encode 32) (uint_decode 32)" by (rule uint_codec)
  then show ?thesis
  proof (rule restrict_codec)
    fix input
    show "fr_decode input = and_then (uint_decode 32 input) (\<lambda>(rest, x). if fr_ok x then Inr (rest, x) else Inl InvalidValue)"
      by (cases "take_bytes 32 input")
        (auto simp: fr_decode_def uint_decode_def and_then_def fr_from_bytes_def fr_ok_def Let_def split: sum.splits)
  qed (simp add: fr_ok_def fr_modulus_def uint_ok_def)
qed

lemma bool_codec: "codec (\<lambda>_. True) bool_length bool_encode bool_decode"
proof
  fix x bs rest assume "bool_encode x = Some bs"
  then show "bool_decode (bs @ rest) = Inr (rest, x)"
    by (cases x) (auto simp: bool_encode_def bool_decode_def uint_decode_def and_then_def take_bytes_def)
next
  fix input rest x assume "bool_decode input = Inr (rest, x)"
  then obtain v where v: "uint_decode 1 input = Inr (rest, v)" "v = (if x then 1 else 0)"
    by (auto simp: bool_decode_def and_then_def split: sum.splits if_splits)
  then show "True \<and> (\<exists>bs. bool_encode x = Some bs \<and> input = bs @ rest)"
    using codec.canonical_input [OF uint_codec v(1)] by (cases x) (auto simp: bool_encode_def uint_encode_def)
qed (simp add: bool_encode_def bool_length_def)

lemma pair_codec:
  assumes "codec V L E D" "codec V' L' E' D'"
  shows "codec (pair_ok V V') (pair_length L L') (pair_encode E E') (pair_decode D D')"
proof
  fix p assume "pair_ok V V' p"
  then obtain a b where ab: "E (fst p) = Some a" "length a < 2 ^ 64 \<longrightarrow> L (fst p) = Some (length a)"
      "E' (snd p) = Some b" "length b < 2 ^ 64 \<longrightarrow> L' (snd p) = Some (length b)"
    using codec.encodes [OF assms(1)] codec.encodes [OF assms(2)] unfolding pair_ok_def by metis
  moreover have "pair_length L L' p = Some (length (a @ b))" if "length (a @ b) < 2 ^ 64"
  proof -
    have "length a < 2 ^ 64" "length b < 2 ^ 64" using that by simp_all
    then show ?thesis using ab that by (simp add: pair_length_def wrapping_add_def)
  qed
  ultimately show "\<exists>bs. pair_encode E E' p = Some bs \<and> (length bs < 2 ^ 64 \<longrightarrow> pair_length L L' p = Some (length bs))"
    by (intro exI [of _ "a @ b"]) (simp add: pair_encode_def)
next
  fix p bs rest assume p: "pair_ok V V' p" "pair_encode E E' p = Some bs"
  then obtain a b where ab: "E (fst p) = Some a" "E' (snd p) = Some b" "bs = a @ b" by (auto simp: pair_encode_def bind_Some_iff)
  have "D (a @ b @ rest) = Inr (b @ rest, fst p)" "D' (b @ rest) = Inr (rest, snd p)"
    using codec.decodes [OF assms(1) _ ab(1)] codec.decodes [OF assms(2) _ ab(2)] p(1) by (simp_all add: pair_ok_def)
  then show "pair_decode D D' (bs @ rest) = Inr (rest, p)" using ab(3) by (simp add: pair_decode_def and_then_def)
next
  fix input rest p assume "pair_decode D D' input = Inr (rest, p)"
  then obtain r where r: "D input = Inr (r, fst p)" "D' r = Inr (rest, snd p)"
    by (auto simp: pair_decode_def and_then_def split: sum.splits)
  obtain a b where "V (fst p)" "E (fst p) = Some a" "input = a @ r" "V' (snd p)" "E' (snd p) = Some b" "r = b @ rest"
    using codec.canonical_input [OF assms(1) r(1)] codec.canonical_input [OF assms(2) r(2)] by blast
  then show "pair_ok V V' p \<and> (\<exists>bs. pair_encode E E' p = Some bs \<and> input = bs @ rest)"
    by (auto simp: pair_ok_def pair_encode_def)
qed

text \<open>An optional value is only encoded; the encoding is still unique.\<close>

lemma option_encode_unique:
  assumes "codec V L E D" "option_encode E x = Some bs" "option_encode E y = Some bs'"
    "\<forall>v. x = Some v \<longrightarrow> V v" "\<forall>v. y = Some v \<longrightarrow> V v" "bs @ r = bs' @ r'"
  shows "x = y \<and> r = r'"
proof (cases x)
  case None
  then show ?thesis using assms(2,3,6) by (cases y) (auto simp: option_encode_def uint_encode_def bind_Some_iff)
next
  case (Some v)
  then obtain b where b: "E v = Some b" "bs = 1 # b" using assms(2) by (auto simp: option_encode_def uint_encode_def bind_Some_iff)
  then obtain u b' where u: "y = Some u" "E u = Some b'" "bs' = 1 # b'"
    using assms(3,6) by (cases y) (auto simp: option_encode_def uint_encode_def bind_Some_iff)
  have "b @ r = b' @ r'" "V v" "V u" using assms(4,5,6) Some b(2) u(1,3) by simp_all
  then have "v = u \<and> r = r'" using codec.prefix_free [OF assms(1) _ _ b(1) u(2)] by blast
  then show ?thesis using Some u(1) by simp
qed

subsection \<open>Length prefixes\<close>

lemma length_prefix_codec:
  assumes "max_n \<le> MAX_ENCODABLE_LENGTH"
  shows "codec (\<lambda>n. min_n \<le> n \<and> n \<le> max_n) (\<lambda>n. Some (length_prefix_len max_n)) (encode_length_prefix max_n)
    (decode_bounded_length min_n max_n)"
proof -
  have w: "n < 256 ^ length_prefix_len max_n" if "n \<le> max_n" for n
    using that assms by (auto simp: length_prefix_len_def MAX_ENCODABLE_LENGTH_def split: if_splits)
  have p: "2 ^ (8 * length_prefix_len max_n) = (256 :: nat) ^ length_prefix_len max_n" by (simp add: power_mult)
  have e: "encode_length_prefix max_n n = uint_encode (length_prefix_len max_n) n" if "n \<le> max_n" for n
    using w [OF that] by (simp add: encode_length_prefix_def try_from_def p)
  let ?V = "\<lambda>n. min_n \<le> n \<and> n \<le> max_n"
  have c: "codec ?V (uint_length (length_prefix_len max_n)) (uint_encode (length_prefix_len max_n)) (decode_bounded_length min_n max_n)"
  proof (rule restrict_codec [OF uint_codec])
    fix input
    show "decode_bounded_length min_n max_n input = and_then (uint_decode (length_prefix_len max_n) input)
        (\<lambda>(rest, x). if ?V x then Inr (rest, x) else Inl (LengthOutOfBounds x min_n max_n))"
      by (auto simp: decode_bounded_length_def decode_length_prefix_def and_then_def split: sum.splits)
  qed (simp add: uint_ok_def w)
  show ?thesis
  proof
    fix x assume "?V x"
    then show "\<exists>bs. encode_length_prefix max_n x = Some bs \<and> (length bs < 2 ^ 64 \<longrightarrow> Some (length_prefix_len max_n) = Some (length bs))"
      using codec.encodes [OF c, of x] e by (simp add: uint_encode_def)
  next
    fix x bs rest assume "?V x" "encode_length_prefix max_n x = Some bs"
    then show "decode_bounded_length min_n max_n (bs @ rest) = Inr (rest, x)" using codec.decodes [OF c, of x] e by simp
  next
    fix input rest x assume "decode_bounded_length min_n max_n input = Inr (rest, x)"
    then show "?V x \<and> (\<exists>bs. encode_length_prefix max_n x = Some bs \<and> input = bs @ rest)"
      using codec.canonical_input [OF c] e by simp
  qed
qed

subsection \<open>Collections are codecs\<close>

sublocale codec \<subseteq> plain: item_codec valid len enc "\<lambda>_ _. True" "\<lambda>_ _. dec"
  by unfold_locales (use encodes decodes canonical_input in blast)+

sublocale codec \<subseteq> distinct_items: item_codec valid len enc "\<lambda>acc x. x \<notin> set acc" "set_step dec"
proof
  fix acc x i bs rest assume "valid x" "x \<notin> set acc" "enc x = Some bs"
  then show "set_step dec acc i (bs @ rest) = Inr (rest, x)" using decodes by (simp add: set_step_def and_then_def)
next
  fix acc i input rest x assume "set_step dec acc i input = Inr (rest, x)"
  then have "dec input = Inr (rest, x)" "x \<notin> set acc" by (auto simp: set_step_def and_then_def split: sum.splits if_splits)
  then show "valid x \<and> x \<notin> set acc \<and> (\<exists>bs. enc x = Some bs \<and> input = bs @ rest)" using canonical_input by blast
qed (use encodes in blast)

context codec
begin

lemma as_plain_items: "item_codec valid len enc (\<lambda>_ _. True) (\<lambda>_ _. dec)"
  by unfold_locales

lemma as_distinct_items: "item_codec valid len enc (\<lambda>acc x. x \<notin> set acc) (set_step dec)"
  by unfold_locales

end

lemma vec_items:
  assumes "codec V L E D" "max_n \<le> ZERO_LENGTH_ELEMENT_MAX \<or> (\<forall>x. V x \<longrightarrow> E x \<noteq> Some [])"
  shows "item_codec V L E (\<lambda>_ _. True) (vec_step max_n D)"
proof
  fix x assume "V x"
  then show "\<exists>bs. E x = Some bs \<and> (length bs < 2 ^ 64 \<longrightarrow> L x = Some (length bs))" using codec.encodes [OF assms(1)] by blast
next
  fix acc :: "'a list" and x i bs rest assume "V x" "E x = Some bs"
  moreover from this have "D (bs @ rest) = Inr (rest, x)" using codec.decodes [OF assms(1)] by blast
  ultimately show "vec_step max_n D acc i (bs @ rest) = Inr (rest, x)" using assms(2) by (auto simp: vec_step_def and_then_def)
next
  fix acc i input rest x assume "vec_step max_n D acc i input = Inr (rest, x)"
  then have "D input = Inr (rest, x)" by (auto simp: vec_step_def and_then_def split: sum.splits if_splits)
  then show "V x \<and> True \<and> (\<exists>bs. E x = Some bs \<and> input = bs @ rest)" using codec.canonical_input [OF assms(1)] by blast
qed

text \<open>A step that decodes an item and checks its key against the items before it, before anything after the key is read.\<close>

lemma keyed_items:
  assumes "codec V L E D" "codec V' L' E' D'"
    and "\<And>acc i input. step acc i input = and_then (D input) (\<lambda>(r, k). case err acc k i of Some e \<Rightarrow> Inl e
        | None \<Rightarrow> and_then (D' r) (\<lambda>(next, v). Inr (next, (k, v))))"
    and "\<And>acc k i. err acc k i = None \<longleftrightarrow> P acc k"
  shows "item_codec (pair_ok V V') (pair_length L L') (pair_encode E E') (\<lambda>acc p. P acc (fst p)) step"
proof
  fix x assume "pair_ok V V' x"
  then show "\<exists>bs. pair_encode E E' x = Some bs \<and> (length bs < 2 ^ 64 \<longrightarrow> pair_length L L' x = Some (length bs))"
    using codec.encodes [OF pair_codec [OF assms(1,2)]] by blast
next
  fix acc x i bs rest assume x: "pair_ok V V' x" "P acc (fst x)" "pair_encode E E' x = Some bs"
  then have "pair_decode D D' (bs @ rest) = Inr (rest, x)" using codec.decodes [OF pair_codec [OF assms(1,2)]] by blast
  moreover have "err acc (fst x) i = None" using x(2) assms(4) by blast
  ultimately show "step acc i (bs @ rest) = Inr (rest, x)"
    unfolding assms(3) by (auto simp: pair_decode_def and_then_def split: sum.splits)
next
  fix acc i input rest x assume s: "step acc i input = Inr (rest, x)"
  have "pair_decode D D' input = Inr (rest, x)" "err acc (fst x) i = None"
    using s unfolding assms(3) by (auto simp: pair_decode_def and_then_def split: sum.splits option.splits)
  then show "pair_ok V V' x \<and> P acc (fst x) \<and> (\<exists>bs. pair_encode E E' x = Some bs \<and> input = bs @ rest)"
    using codec.canonical_input [OF pair_codec [OF assms(1,2)]] assms(4) by blast
qed

lemma map_items:
  assumes "codec V L E D" "codec V' L' E' D'"
  shows "item_codec (pair_ok V V') (pair_length L L') (pair_encode E E') (\<lambda>acc p. fst p \<notin> set (map fst acc)) (map_step D D')"
proof (rule keyed_items [OF assms])
  fix acc i input
  show "map_step D D' acc i input = and_then (D input) (\<lambda>(r, k).
      case (if k \<in> set (map fst acc) then Some (DuplicateItem i) else None) of Some e \<Rightarrow> Inl e
      | None \<Rightarrow> and_then (D' r) (\<lambda>(next, v). Inr (next, (k, v))))"
    by (auto simp: map_step_def and_then_def split: sum.splits)
qed simp

lemma check_key_order_iff: "check_key_order prev k i = Inr u \<longleftrightarrow> (\<forall>p. prev = Some p \<longrightarrow> p < k)"
  by (auto simp: check_key_order_def split: option.splits)

lemma btree_map_items:
  fixes V :: "'k::linorder \<Rightarrow> bool"
  assumes "codec V L E D" "codec V' L' E' D'"
  shows "item_codec (pair_ok V V') (pair_length L L') (pair_encode E E')
    (\<lambda>acc p. \<forall>q. map_option fst (last_of acc) = Some q \<longrightarrow> q < fst p) (btree_map_step D D')"
proof (rule keyed_items [OF assms, where P = "\<lambda>acc k. \<forall>q. map_option fst (last_of acc) = Some q \<longrightarrow> q < k"])
  let ?err = "\<lambda>acc k i. case check_key_order (map_option fst (last_of acc)) k i of Inl e \<Rightarrow> Some e | Inr u \<Rightarrow> None"
  fix acc i input
  show "btree_map_step D D' acc i input = and_then (D input) (\<lambda>(r, k). case ?err acc k i of Some e \<Rightarrow> Inl e
      | None \<Rightarrow> and_then (D' r) (\<lambda>(next, v). Inr (next, (k, v))))"
    by (auto simp: btree_map_step_def and_then_def split: sum.splits)
  fix k
  show "?err acc k i = None \<longleftrightarrow> (\<forall>q. map_option fst (last_of acc) = Some q \<longrightarrow> q < k)"
    using check_key_order_iff [of "map_option fst (last_of acc)" k i] by (auto split: sum.splits)
qed

lemma btree_set_items:
  fixes V :: "'k::linorder \<Rightarrow> bool"
  assumes "codec V L E D"
  shows "item_codec V L E (\<lambda>acc x. \<forall>q. last_of acc = Some q \<longrightarrow> q < x) (btree_set_step D)"
proof
  fix x assume "V x"
  then show "\<exists>bs. E x = Some bs \<and> (length bs < 2 ^ 64 \<longrightarrow> L x = Some (length bs))" using codec.encodes [OF assms(1)] by blast
next
  fix acc x i bs rest assume x: "V x" "\<forall>q. last_of acc = Some q \<longrightarrow> q < x" "E x = Some bs"
  then have "D (bs @ rest) = Inr (rest, x)" "check_key_order (last_of acc) x i = Inr ()"
    using codec.decodes [OF assms(1)] by (auto simp: check_key_order_iff)
  then show "btree_set_step D acc i (bs @ rest) = Inr (rest, x)" by (simp add: btree_set_step_def and_then_def)
next
  fix acc i input rest x assume "btree_set_step D acc i input = Inr (rest, x)"
  then have "D input = Inr (rest, x)" "check_key_order (last_of acc) x i = Inr ()"
    by (auto simp: btree_set_step_def and_then_def split: sum.splits)
  then show "V x \<and> (\<forall>q. last_of acc = Some q \<longrightarrow> q < x) \<and> (\<exists>bs. E x = Some bs \<and> input = bs @ rest)"
    using codec.canonical_input [OF assms(1)] by (auto simp: check_key_order_iff)
qed

text \<open>What the conditions on items amount to for the whole collection.\<close>

lemma admitted_True [simp]: "admitted (\<lambda>_ _. True) acc xs"
  by (induction xs arbitrary: acc) auto

lemma admitted_distinct: "admitted (\<lambda>acc x. f x \<notin> set (map f acc)) acc xs \<and> distinct (map f acc) \<longleftrightarrow> distinct (map f (acc @ xs))"
proof (induction xs arbitrary: acc)
  case (Cons x xs)
  then show ?case using Cons.IH [of "acc @ [x]"] by auto
qed simp

lemma sorted_wrt_snoc:
  "sorted_wrt (<) (xs @ [x :: 'k::linorder]) \<longleftrightarrow> sorted_wrt (<) xs \<and> (\<forall>q. last_of xs = Some q \<longrightarrow> q < x)"
proof (cases xs rule: rev_cases)
  case (snoc ys y)
  then show ?thesis by (auto simp: sorted_wrt_append last_of_def)
qed (simp add: last_of_def)

lemma admitted_sorted:
  "admitted (\<lambda>acc x. \<forall>q. map_option f (last_of acc) = Some q \<longrightarrow> q < (f x :: 'k::linorder)) acc xs \<and> sorted_wrt (<) (map f acc) \<longleftrightarrow>
   sorted_wrt (<) (map f (acc @ xs))"
proof (induction xs arbitrary: acc)
  case (Cons x xs)
  have "map_option f (last_of acc) = last_of (map f acc)" by (simp add: last_of_def last_map)
  then show ?case using Cons.IH [of "acc @ [x]"] sorted_wrt_snoc [of "map f acc" "f x"] by auto
qed simp

definition bounded_ok :: "nat \<Rightarrow> nat \<Rightarrow> ('a \<Rightarrow> bool) \<Rightarrow> 'a list \<Rightarrow> bool" where
  "bounded_ok min_n max_n V xs \<longleftrightarrow> min_n \<le> length xs \<and> length xs \<le> max_n \<and> (\<forall>x \<in> set xs. V x)"

text \<open>A length in front of the items, whatever its codec.\<close>

lemma prefixed_codec:
  assumes "codec N (\<lambda>n. Some w) EN DN" "item_codec V L E P step"
  shows "codec (\<lambda>xs. N (length xs) \<and> (\<forall>x \<in> set xs. V x) \<and> admitted P [] xs)
    (\<lambda>xs. do { n \<leftarrow> items_length L xs; checked_add 64 w n })
    (\<lambda>xs. do { p \<leftarrow> EN (length xs); bs \<leftarrow> encode_items E xs; Some (p @ bs) })
    (\<lambda>input. and_then (DN input) (\<lambda>(rest, n). decode_loop step n [] rest))"
proof
  fix xs assume xs: "N (length xs) \<and> (\<forall>x \<in> set xs. V x) \<and> admitted P [] xs"
  obtain p where p: "EN (length xs) = Some p" "length p < 2 ^ 64 \<longrightarrow> w = length p" using codec.encodes [OF assms(1)] xs by fastforce
  obtain bs where bs: "encode_items E xs = Some bs" "length bs < 2 ^ 64 \<longrightarrow> items_length L xs = Some (length bs)"
    using item_codec.items_encode [OF assms(2)] xs by blast
  have "do { n \<leftarrow> items_length L xs; checked_add 64 w n } = Some (length (p @ bs))" if "length (p @ bs) < 2 ^ 64"
  proof -
    have "length p < 2 ^ 64" "length bs < 2 ^ 64" using that by simp_all
    then show ?thesis using p(2) bs(2) that by (simp add: checked_add_def)
  qed
  then show "\<exists>bs. do { p \<leftarrow> EN (length xs); bs \<leftarrow> encode_items E xs; Some (p @ bs) } = Some bs \<and>
      (length bs < 2 ^ 64 \<longrightarrow> do { n \<leftarrow> items_length L xs; checked_add 64 w n } = Some (length bs))"
    using p(1) bs(1) by (intro exI [of _ "p @ bs"]) simp
next
  fix xs bs rest
  assume xs: "N (length xs) \<and> (\<forall>x \<in> set xs. V x) \<and> admitted P [] xs"
    "do { p \<leftarrow> EN (length xs); bs \<leftarrow> encode_items E xs; Some (p @ bs) } = Some bs"
  then obtain p b where b: "EN (length xs) = Some p" "encode_items E xs = Some b" "bs = p @ b" by (auto simp: bind_Some_iff)
  have "DN (p @ b @ rest) = Inr (b @ rest, length xs)" using codec.decodes [OF assms(1) _ b(1)] xs(1) by blast
  moreover have "decode_loop step (length xs) [] (b @ rest) = Inr (rest, [] @ xs)"
    using item_codec.loop_decodes [OF assms(2) _ _ b(2)] xs(1) by blast
  ultimately show "and_then (DN (bs @ rest)) (\<lambda>(rest, n). decode_loop step n [] rest) = Inr (rest, xs)"
    using b(3) by (simp add: and_then_def)
next
  fix input rest xs assume "and_then (DN input) (\<lambda>(rest, n). decode_loop step n [] rest) = Inr (rest, xs)"
  then obtain r n where r: "DN input = Inr (r, n)" "decode_loop step n [] r = Inr (rest, xs)"
    by (auto simp: and_then_def split: sum.splits)
  obtain p where p: "N n" "EN n = Some p" "input = p @ r" using codec.canonical_input [OF assms(1) r(1)] by blast
  obtain bs where bs: "length xs = n" "\<forall>x \<in> set xs. V x" "admitted P [] xs" "encode_items E xs = Some bs" "r = bs @ rest"
    using item_codec.loop_canonical [OF assms(2) r(2)] by auto
  then show "(N (length xs) \<and> (\<forall>x \<in> set xs. V x) \<and> admitted P [] xs) \<and>
      (\<exists>bs. do { p \<leftarrow> EN (length xs); bs \<leftarrow> encode_items E xs; Some (p @ bs) } = Some bs \<and> input = bs @ rest)"
    using p by (intro conjI exI [of _ "p @ bs"]) auto
qed

lemma bounded_codec:
  assumes "item_codec V L E P step" "max_n \<le> MAX_ENCODABLE_LENGTH"
    and "\<And>xs. W xs \<longleftrightarrow> bounded_ok min_n max_n V xs \<and> admitted P [] xs"
  shows "codec W (bounded_length max_n L) (bounded_encode max_n E) (bounded_decode min_n max_n step)"
proof -
  have "W = (\<lambda>xs. (min_n \<le> length xs \<and> length xs \<le> max_n) \<and> (\<forall>x \<in> set xs. V x) \<and> admitted P [] xs)"
    using assms(3) by (auto simp: bounded_ok_def fun_eq_iff)
  then show ?thesis
    using prefixed_codec [OF length_prefix_codec [OF assms(2)] assms(1), of min_n]
    by (simp only: bounded_length_def [abs_def] bounded_encode_def [abs_def] bounded_decode_def [abs_def])
qed

lemma vec_codec:
  assumes "codec V L E D" "max_n \<le> ZERO_LENGTH_ELEMENT_MAX \<or> (\<forall>x. V x \<longrightarrow> E x \<noteq> Some [])" "max_n \<le> MAX_ENCODABLE_LENGTH"
  shows "codec (bounded_ok min_n max_n V) (bounded_length max_n L) (bounded_encode max_n E) (vec_decode min_n max_n D)"
  unfolding vec_decode_def by (rule bounded_codec [OF vec_items [OF assms(1,2)] assms(3)]) simp

lemma ordered_set_codec:
  assumes "codec V L E D" "max_n \<le> MAX_ENCODABLE_LENGTH"
  shows "codec (\<lambda>xs. bounded_ok min_n max_n V xs \<and> distinct xs) (bounded_length max_n L) (bounded_encode max_n E)
    (ordered_set_decode min_n max_n D)"
  unfolding ordered_set_decode_def
proof (rule bounded_codec [OF codec.as_distinct_items [OF assms(1)] assms(2)])
  fix xs :: "'a list"
  have "admitted (\<lambda>acc x. x \<notin> set acc) [] xs \<longleftrightarrow> distinct xs" using admitted_distinct [of "\<lambda>x. x" "[]" xs] by simp
  then show "bounded_ok min_n max_n V xs \<and> distinct xs \<longleftrightarrow> bounded_ok min_n max_n V xs \<and> admitted (\<lambda>acc x. x \<notin> set acc) [] xs" by blast
qed

lemma ordered_map_codec:
  assumes "codec V L E D" "codec V' L' E' D'" "max_n \<le> MAX_ENCODABLE_LENGTH"
  shows "codec (\<lambda>xs. bounded_ok min_n max_n (pair_ok V V') xs \<and> distinct (map fst xs)) (bounded_length max_n (pair_length L L'))
    (bounded_encode max_n (pair_encode E E')) (ordered_map_decode min_n max_n D D')"
  unfolding ordered_map_decode_def
proof (rule bounded_codec [OF map_items [OF assms(1,2)] assms(3)])
  fix xs :: "('a \<times> 'b) list"
  have "admitted (\<lambda>acc p. fst p \<notin> set (map fst acc)) [] xs \<longleftrightarrow> distinct (map fst xs)" using admitted_distinct [of fst "[]" xs] by simp
  then show "bounded_ok min_n max_n (pair_ok V V') xs \<and> distinct (map fst xs) \<longleftrightarrow>
      bounded_ok min_n max_n (pair_ok V V') xs \<and> admitted (\<lambda>acc p. fst p \<notin> set (map fst acc)) [] xs" by blast
qed

lemma btree_set_codec:
  fixes V :: "'k::linorder \<Rightarrow> bool"
  assumes "codec V L E D" "max_n \<le> MAX_ENCODABLE_LENGTH"
  shows "codec (\<lambda>xs. bounded_ok min_n max_n V xs \<and> sorted_wrt (<) xs) (bounded_length max_n L) (bounded_encode max_n E)
    (btree_set_decode min_n max_n D)"
  unfolding btree_set_decode_def
  using admitted_sorted [of "\<lambda>x. x :: 'k" "[]"]
  by (intro bounded_codec [OF btree_set_items [OF assms(1)] assms(2)]) (simp add: option.map_ident)

lemma btree_map_codec:
  fixes V :: "'k::linorder \<Rightarrow> bool"
  assumes "codec V L E D" "codec V' L' E' D'" "max_n \<le> MAX_ENCODABLE_LENGTH"
  shows "codec (\<lambda>xs. bounded_ok min_n max_n (pair_ok V V') xs \<and> sorted_keys xs) (bounded_length max_n (pair_length L L'))
    (bounded_encode max_n (pair_encode E E')) (btree_map_decode min_n max_n D D')"
  unfolding btree_map_decode_def
proof (rule bounded_codec [OF btree_map_items [OF assms(1,2)] assms(3)])
  fix xs :: "('k \<times> 'a) list"
  have "admitted (\<lambda>acc p. \<forall>q. map_option fst (last_of acc) = Some q \<longrightarrow> q < fst p) [] xs \<longleftrightarrow> sorted_keys xs"
    using admitted_sorted [of fst "[]" xs] unfolding list.map append_Nil by (simp only: sorted_wrt.simps(1) simp_thms)
  then show "bounded_ok min_n max_n (pair_ok V V') xs \<and> sorted_keys xs \<longleftrightarrow> bounded_ok min_n max_n (pair_ok V V') xs \<and>
      admitted (\<lambda>acc p. \<forall>q. map_option fst (last_of acc) = Some q \<longrightarrow> q < fst p) [] xs" by blast
qed

lemma array_codec:
  assumes "codec V L E D"
  shows "codec (\<lambda>xs. length xs = N \<and> (\<forall>x \<in> set xs. V x)) (items_length L) (encode_items E) (array_decode N D)"
proof
  note item = codec.as_plain_items [OF assms]
  fix xs assume xs: "length xs = N \<and> (\<forall>x \<in> set xs. V x)"
  then show "\<exists>bs. encode_items E xs = Some bs \<and> (length bs < 2 ^ 64 \<longrightarrow> items_length L xs = Some (length bs))"
    using item_codec.items_encode [OF item] by blast
  fix bs rest assume "encode_items E xs = Some bs"
  then show "array_decode N D (bs @ rest) = Inr (rest, xs)"
    using item_codec.loop_decodes [OF item _ admitted_True, of xs bs "[]" rest] xs by (simp add: array_decode_def)
next
  fix input rest xs assume "array_decode N D input = Inr (rest, xs)"
  then show "(length xs = N \<and> (\<forall>x \<in> set xs. V x)) \<and> (\<exists>bs. encode_items E xs = Some bs \<and> input = bs @ rest)"
    using item_codec.loop_canonical [OF codec.as_plain_items [OF assms], of N "[]" input rest xs]
    by (auto simp: array_decode_def)
qed

lemma runtime_vec_codec:
  assumes "codec V L E D" "max_len < 256 ^ w" "max_len \<le> ZERO_LENGTH_ELEMENT_MAX \<or> (\<forall>x. V x \<longrightarrow> E x \<noteq> Some [])"
  shows "codec (bounded_ok min_n max_len V) (runtime_vec_length w L) (runtime_vec_encode w E) (runtime_vec_decode w min_n max_len D)"
proof -
  let ?V = "\<lambda>n. min_n \<le> n \<and> n \<le> max_len"
  let ?D = "\<lambda>input. and_then (uint_decode w input)
      (\<lambda>(rest, x). if ?V x then Inr (rest, x) else Inl (LengthOutOfBounds x min_n max_len))"
  have "codec ?V (uint_length w) (uint_encode w) ?D"
    using assms(2) by (intro restrict_codec [OF uint_codec]) (auto simp: uint_ok_def)
  then have "codec ?V (\<lambda>n. Some w) (uint_encode w) ?D" by (simp only: uint_length_def [abs_def])
  note c = prefixed_codec [OF this vec_items [OF assms(1,3)]]
  have p: "2 ^ (8 * w) = (256 :: nat) ^ w" by (simp add: power_mult)
  have t: "try_from (8 * w) (length xs) = Some (length xs)" if "bounded_ok min_n max_len V xs" for xs
    using that assms(2) by (simp add: try_from_def p bounded_ok_def)
  have d: "runtime_vec_decode w min_n max_len D input = and_then (?D input) (\<lambda>(rest, n). decode_loop (vec_step max_len D) n [] rest)" for input
    by (auto simp: runtime_vec_decode_def and_then_def split: sum.splits)
  show ?thesis
  proof
    fix xs assume xs: "bounded_ok min_n max_len V xs"
    then show "\<exists>bs. runtime_vec_encode w E xs = Some bs \<and> (length bs < 2 ^ 64 \<longrightarrow> runtime_vec_length w L xs = Some (length bs))"
      using codec.encodes [OF c, of xs] t [OF xs] by (simp add: runtime_vec_encode_def runtime_vec_length_def bounded_ok_def)
    fix bs rest assume "runtime_vec_encode w E xs = Some bs"
    then show "runtime_vec_decode w min_n max_len D (bs @ rest) = Inr (rest, xs)"
      using codec.decodes [OF c, of xs bs rest] t [OF xs] xs unfolding d by (simp add: runtime_vec_encode_def bounded_ok_def)
  next
    fix input rest xs assume "runtime_vec_decode w min_n max_len D input = Inr (rest, xs)"
    then have r: "((min_n \<le> length xs \<and> length xs \<le> max_len) \<and> (\<forall>x \<in> set xs. V x) \<and> admitted (\<lambda>_ _. True) [] xs) \<and>
        (\<exists>bs. do { p \<leftarrow> uint_encode w (length xs); bs \<leftarrow> encode_items E xs; Some (p @ bs) } = Some bs \<and> input = bs @ rest)"
      unfolding d by (rule codec.canonical_input [OF c])
    then have "bounded_ok min_n max_len V xs" by (simp add: bounded_ok_def)
    then show "bounded_ok min_n max_len V xs \<and> (\<exists>bs. runtime_vec_encode w E xs = Some bs \<and> input = bs @ rest)"
      using r t by (simp add: runtime_vec_encode_def)
  qed
qed

subsection \<open>Codecs as values\<close>

text \<open>The functions of a codec together, so that the codec of a type is one definition.\<close>

record 'a codec_ops =
  c_ok :: "'a \<Rightarrow> bool"
  c_len :: "'a sizer"
  c_enc :: "'a encoder"
  c_dec :: "'a decoder"

definition lawful :: "'a codec_ops \<Rightarrow> bool" where
  "lawful C \<longleftrightarrow> codec (c_ok C) (c_len C) (c_enc C) (c_dec C)"

definition uint_c :: "nat \<Rightarrow> nat codec_ops" where
  "uint_c w = \<lparr>c_ok = uint_ok w, c_len = uint_length w, c_enc = uint_encode w, c_dec = uint_decode w\<rparr>"

definition nonzero_c :: "nat \<Rightarrow> nat codec_ops" where
  "nonzero_c w = \<lparr>c_ok = nonzero_ok w, c_len = uint_length w, c_enc = uint_encode w, c_dec = nonzero_decode w\<rparr>"

definition fr_c :: "nat codec_ops" where
  "fr_c = \<lparr>c_ok = fr_ok, c_len = uint_length 32, c_enc = uint_encode 32, c_dec = fr_decode\<rparr>"

definition pair_c :: "'a codec_ops \<Rightarrow> 'b codec_ops \<Rightarrow> ('a \<times> 'b) codec_ops" where
  "pair_c A B = \<lparr>c_ok = pair_ok (c_ok A) (c_ok B), c_len = pair_length (c_len A) (c_len B),
     c_enc = pair_encode (c_enc A) (c_enc B), c_dec = pair_decode (c_dec A) (c_dec B)\<rparr>"

text \<open>A type whose values are read through \<open>f\<close> from another type and written through \<open>g\<close>.\<close>

definition conv_c :: "('r \<Rightarrow> 'a option) \<Rightarrow> ('a \<Rightarrow> 'r) \<Rightarrow> 'r codec_ops \<Rightarrow> 'a codec_ops" where
  "conv_c f g C = \<lparr>c_ok = (\<lambda>y. c_ok C (g y) \<and> f (g y) = Some y), c_len = (\<lambda>y. c_len C (g y)),
     c_enc = (\<lambda>y. c_enc C (g y)), c_dec = conv_decode f (c_dec C)\<rparr>"

definition vec_c :: "nat \<Rightarrow> nat \<Rightarrow> 'a codec_ops \<Rightarrow> 'a list codec_ops" where
  "vec_c min_n max_n C = \<lparr>c_ok = bounded_ok min_n max_n (c_ok C), c_len = bounded_length max_n (c_len C),
     c_enc = bounded_encode max_n (c_enc C), c_dec = vec_decode min_n max_n (c_dec C)\<rparr>"

definition runtime_vec_c :: "nat \<Rightarrow> nat \<Rightarrow> nat \<Rightarrow> 'a codec_ops \<Rightarrow> 'a list codec_ops" where
  "runtime_vec_c w min_n max_len C = \<lparr>c_ok = bounded_ok min_n max_len (c_ok C), c_len = runtime_vec_length w (c_len C),
     c_enc = runtime_vec_encode w (c_enc C), c_dec = runtime_vec_decode w min_n max_len (c_dec C)\<rparr>"

definition ordered_set_c :: "nat \<Rightarrow> nat \<Rightarrow> 'a codec_ops \<Rightarrow> 'a list codec_ops" where
  "ordered_set_c min_n max_n C = \<lparr>c_ok = (\<lambda>xs. bounded_ok min_n max_n (c_ok C) xs \<and> distinct xs),
     c_len = bounded_length max_n (c_len C), c_enc = bounded_encode max_n (c_enc C),
     c_dec = ordered_set_decode min_n max_n (c_dec C)\<rparr>"

definition btree_map_c :: "nat \<Rightarrow> nat \<Rightarrow> 'k::linorder codec_ops \<Rightarrow> 'v codec_ops \<Rightarrow> ('k \<times> 'v) list codec_ops" where
  "btree_map_c min_n max_n K V = \<lparr>c_ok = (\<lambda>xs. bounded_ok min_n max_n (pair_ok (c_ok K) (c_ok V)) xs \<and> sorted_keys xs),
     c_len = bounded_length max_n (pair_length (c_len K) (c_len V)),
     c_enc = bounded_encode max_n (pair_encode (c_enc K) (c_enc V)),
     c_dec = btree_map_decode min_n max_n (c_dec K) (c_dec V)\<rparr>"

text \<open>
  An enum: a byte that tells the variant, then the payload of the variant.  A variant is a constructor \<open>f\<close> with its
  partial inverse \<open>g\<close>.
\<close>

definition variant_c :: "('p \<Rightarrow> 'a) \<Rightarrow> ('a \<Rightarrow> 'p option) \<Rightarrow> 'p codec_ops \<Rightarrow> 'a codec_ops" where
  "variant_c f g C = \<lparr>c_ok = (\<lambda>y. case g y of None \<Rightarrow> False | Some p \<Rightarrow> c_ok C p),
     c_len = (\<lambda>y. Option.bind (g y) (c_len C)), c_enc = (\<lambda>y. Option.bind (g y) (c_enc C)),
     c_dec = (\<lambda>input. and_then (c_dec C input) (\<lambda>(rest, p). Inr (rest, f p)))\<rparr>"

definition enum_c :: "('a \<Rightarrow> nat) \<Rightarrow> (nat \<rightharpoonup> 'a codec_ops) \<Rightarrow> 'a codec_ops" where
  "enum_c tag variants = \<lparr>c_ok = (\<lambda>y. case variants (tag y) of None \<Rightarrow> False | Some C \<Rightarrow> c_ok C y),
     c_len = (\<lambda>y. do { C \<leftarrow> variants (tag y); n \<leftarrow> c_len C y; checked_add 64 1 n }),
     c_enc = (\<lambda>y. do { C \<leftarrow> variants (tag y); t \<leftarrow> uint_encode 1 (tag y); p \<leftarrow> c_enc C y; Some (t @ p) }),
     c_dec = (\<lambda>input. and_then (uint_decode 1 input)
       (\<lambda>(rest, t). case variants t of None \<Rightarrow> Inl (UnknownDiscriminant t) | Some C \<Rightarrow> c_dec C rest))\<rparr>"

lemma lawful_uint: "lawful (uint_c w)"
  by (simp add: lawful_def uint_c_def uint_codec)

lemma lawful_nonzero: "lawful (nonzero_c w)"
  by (simp add: lawful_def nonzero_c_def nonzero_codec)

lemma lawful_fr: "lawful fr_c"
  by (simp add: lawful_def fr_c_def fr_codec)

lemma lawful_pair: "lawful A \<Longrightarrow> lawful B \<Longrightarrow> lawful (pair_c A B)"
  by (simp add: lawful_def pair_c_def pair_codec)

lemma lawful_conv: "lawful C \<Longrightarrow> (\<And>r y. c_ok C r \<Longrightarrow> f r = Some y \<Longrightarrow> g y = r) \<Longrightarrow> lawful (conv_c f g C)"
  unfolding lawful_def conv_c_def codec_ops.select_convs by (rule conv_codec [where V = "c_ok C"]) auto

lemma lawful_vec:
  "lawful C \<Longrightarrow> max_n \<le> MAX_ENCODABLE_LENGTH \<Longrightarrow> max_n \<le> ZERO_LENGTH_ELEMENT_MAX \<or> (\<forall>x. c_ok C x \<longrightarrow> c_enc C x \<noteq> Some []) \<Longrightarrow>
   lawful (vec_c min_n max_n C)"
  by (simp add: lawful_def vec_c_def vec_codec)

lemma lawful_runtime_vec:
  "lawful C \<Longrightarrow> max_len < 256 ^ w \<Longrightarrow> max_len \<le> ZERO_LENGTH_ELEMENT_MAX \<or> (\<forall>x. c_ok C x \<longrightarrow> c_enc C x \<noteq> Some []) \<Longrightarrow>
   lawful (runtime_vec_c w min_n max_len C)"
  by (simp add: lawful_def runtime_vec_c_def runtime_vec_codec)

lemma lawful_ordered_set: "lawful C \<Longrightarrow> max_n \<le> MAX_ENCODABLE_LENGTH \<Longrightarrow> lawful (ordered_set_c min_n max_n C)"
  by (simp add: lawful_def ordered_set_c_def ordered_set_codec)

lemma lawful_btree_map:
  fixes K :: "'k::linorder codec_ops"
  shows "lawful K \<Longrightarrow> lawful V \<Longrightarrow> max_n \<le> MAX_ENCODABLE_LENGTH \<Longrightarrow> lawful (btree_map_c min_n max_n K V)"
  by (simp add: lawful_def btree_map_c_def btree_map_codec)

lemma lawful_variant:
  assumes "lawful C" "\<And>p y. g y = Some p \<longleftrightarrow> y = f p"
  shows "lawful (variant_c f g C)"
  unfolding lawful_def variant_c_def codec_ops.select_convs
proof
  note c = assms(1) [unfolded lawful_def]
  fix y assume "case g y of None \<Rightarrow> False | Some p \<Rightarrow> c_ok C p"
  then obtain p where p: "g y = Some p" "c_ok C p" by (auto split: option.splits)
  then show "\<exists>bs. Option.bind (g y) (c_enc C) = Some bs \<and> (length bs < 2 ^ 64 \<longrightarrow> Option.bind (g y) (c_len C) = Some (length bs))"
    using codec.encodes [OF c] by simp
  fix bs rest assume "Option.bind (g y) (c_enc C) = Some bs"
  then show "and_then (c_dec C (bs @ rest)) (\<lambda>(rest, p). Inr (rest, f p)) = Inr (rest, y)"
    using codec.decodes [OF c p(2)] p(1) assms(2) by (simp add: and_then_def)
next
  fix input rest y assume "and_then (c_dec C input) (\<lambda>(rest, p). Inr (rest, f p)) = Inr (rest, y)"
  then obtain p where p: "c_dec C input = Inr (rest, p)" "y = f p" by (auto simp: and_then_def split: sum.splits)
  moreover have "g y = Some p" using p(2) assms(2) by simp
  ultimately show "(case g y of None \<Rightarrow> False | Some p \<Rightarrow> c_ok C p) \<and> (\<exists>bs. Option.bind (g y) (c_enc C) = Some bs \<and> input = bs @ rest)"
    using codec.canonical_input [OF assms(1) [unfolded lawful_def]] by simp
qed

lemma lawful_enum:
  assumes "\<And>t C. variants t = Some C \<Longrightarrow> lawful C \<and> t < 256 \<and> (\<forall>y. c_ok C y \<longrightarrow> tag y = t)"
  shows "lawful (enum_c tag variants)"
  unfolding lawful_def enum_c_def codec_ops.select_convs
proof
  fix y assume "case variants (tag y) of None \<Rightarrow> False | Some C \<Rightarrow> c_ok C y"
  then obtain C where C: "variants (tag y) = Some C" "c_ok C y" by (auto split: option.splits)
  have law: "codec (c_ok C) (c_len C) (c_enc C) (c_dec C)" and t: "tag y < 256" using assms C(1) by (auto simp: lawful_def)
  obtain p where p: "c_enc C y = Some p" "length p < 2 ^ 64 \<longrightarrow> c_len C y = Some (length p)" using codec.encodes [OF law C(2)] by blast
  show "\<exists>bs. do { C \<leftarrow> variants (tag y); t \<leftarrow> uint_encode 1 (tag y); p \<leftarrow> c_enc C y; Some (t @ p) } = Some bs \<and>
      (length bs < 2 ^ 64 \<longrightarrow> do { C \<leftarrow> variants (tag y); n \<leftarrow> c_len C y; checked_add 64 1 n } = Some (length bs))"
    using C(1) p by (auto simp: uint_encode_def checked_add_def)
  fix bs rest assume "do { C \<leftarrow> variants (tag y); t \<leftarrow> uint_encode 1 (tag y); p \<leftarrow> c_enc C y; Some (t @ p) } = Some bs"
  then obtain b where b: "uint_encode 1 (tag y) = Some b" "bs = b @ p" using C(1) p(1) by (auto simp: bind_Some_iff)
  have "uint_decode 1 (b @ p @ rest) = Inr (p @ rest, tag y)" using codec.decodes [OF uint_codec _ b(1)] t by (simp add: uint_ok_def)
  then show "and_then (uint_decode 1 (bs @ rest))
      (\<lambda>(rest, t). case variants t of None \<Rightarrow> Inl (UnknownDiscriminant t) | Some C \<Rightarrow> c_dec C rest) = Inr (rest, y)"
    using b(2) C(1) codec.decodes [OF law C(2) p(1)] by (simp add: and_then_def)
next
  fix input rest y
  assume "and_then (uint_decode 1 input)
      (\<lambda>(rest, t). case variants t of None \<Rightarrow> Inl (UnknownDiscriminant t) | Some C \<Rightarrow> c_dec C rest) = Inr (rest, y)"
  then obtain r t C where r: "uint_decode 1 input = Inr (r, t)" "variants t = Some C" "c_dec C r = Inr (rest, y)"
    by (auto simp: and_then_def split: sum.splits option.splits)
  have law: "codec (c_ok C) (c_len C) (c_enc C) (c_dec C)" and t: "\<forall>y. c_ok C y \<longrightarrow> tag y = t" using assms [OF r(2)] by (auto simp: lawful_def)
  obtain p where p: "c_ok C y" "c_enc C y = Some p" "r = p @ rest" using codec.canonical_input [OF law r(3)] by blast
  obtain b where b: "uint_encode 1 t = Some b" "input = b @ r" using codec.canonical_input [OF uint_codec r(1)] by blast
  have "tag y = t" using t p(1) by blast
  then show "(case variants (tag y) of None \<Rightarrow> False | Some C \<Rightarrow> c_ok C y) \<and>
      (\<exists>bs. do { C \<leftarrow> variants (tag y); t \<leftarrow> uint_encode 1 (tag y); p \<leftarrow> c_enc C y; Some (t @ p) } = Some bs \<and> input = bs @ rest)"
    using r(2) p b by simp
qed

text \<open>Encodings that are never empty, as \<^verbatim>\<open>BoundedVec\<close> asks of its items.\<close>

lemma uint_nonempty: "0 < w \<Longrightarrow> c_enc (uint_c w) x \<noteq> Some []"
  using length_to_le_bytes [of w x] by (auto simp: uint_c_def uint_encode_def simp del: length_to_le_bytes)

interpretation u8: codec "uint_ok 1" "uint_length 1" "uint_encode 1" "uint_decode 1"
  by (rule uint_codec)

interpretation u64: codec "uint_ok 8" "uint_length 8" "uint_encode 8" "uint_decode 8"
  by (rule uint_codec)

interpretation scalar: codec fr_ok "uint_length 32" "uint_encode 32" fr_decode
  by (rule fr_codec)

end
