(* ===== verification/Crypto.thy ===== *)
theory Crypto
  imports Codec
begin

text \<open>
  Hashing: the Poseidon2 sponge of \<^verbatim>\<open>zk/poseidon2/src/hasher.rs\<close>, the field conversions of \<^verbatim>\<open>zk/groth16/src/lib.rs\<close>
  and the public inputs of a ZK signature (\<^verbatim>\<open>kms/keys/src/keys/zk/\<close>).

  What other crates compute is a field of the record \<open>extern\<close>: the Poseidon2 permutation, Blake2b with a 32-byte
  digest, Ed25519 key checks and signature verification, the parsing of a multiaddress.  A 32-byte array
  is the number its bytes are in little-endian order.
\<close>

datatype protocol = Ip4 nat | Ip6 nat | Tcp nat | Udp nat | P2p | OtherProtocol

record extern =
  permute :: "nat \<times> nat \<times> nat \<Rightarrow> nat \<times> nat \<times> nat"
  blake2b :: "byte list \<Rightarrow> nat"
  is_point :: "nat \<Rightarrow> bool"
  is_weak :: "nat \<Rightarrow> bool"
  verify_strict :: "nat \<Rightarrow> byte list \<Rightarrow> nat \<Rightarrow> bool"
  multiaddr :: "byte list \<Rightarrow> protocol list option"

definition ascii :: "string \<Rightarrow> byte list" where
  "ascii s = map of_char s"

definition fr_from_mod_bytes :: "byte list \<Rightarrow> nat" where
  "fr_from_mod_bytes bytes = from_le_bytes bytes mod fr_modulus"

definition fr_from_biguint_saturating :: "nat \<Rightarrow> nat" where
  "fr_from_biguint_saturating value = min value (fr_modulus - 1)"

subsection \<open>The Poseidon2 hasher\<close>

type_synonym hasher = "nat \<times> nat \<times> nat"

definition hasher_new :: hasher where
  "hasher_new = (0, 0, 0)"

definition update_one :: "extern \<Rightarrow> nat \<Rightarrow> hasher \<Rightarrow> hasher" where
  "update_one X input st = permute X ((fst st + input) mod fr_modulus, snd st)"

definition hasher_update :: "extern \<Rightarrow> nat list \<Rightarrow> hasher \<Rightarrow> hasher" where
  "hasher_update X input st = update_one X 1 (fold (update_one X) input st)"

definition digest :: "extern \<Rightarrow> nat list \<Rightarrow> nat" where
  "digest X inputs = fst (hasher_update X inputs hasher_new)"

definition zk_compress :: "extern \<Rightarrow> nat \<Rightarrow> nat \<Rightarrow> nat" where
  "zk_compress X a b =
     (case hasher_new of (s0, s1, s2) \<Rightarrow> fst (permute X ((s0 + a) mod fr_modulus, (s1 + b) mod fr_modulus, s2)))"

definition hasher_finalize :: "extern \<Rightarrow> hasher \<Rightarrow> nat" where
  "hasher_finalize X st = fst (update_one X 1 st)"

lemma streaming_digest: "hasher_finalize X (fold (update_one X) inputs hasher_new) = digest X inputs"
  by (simp add: hasher_finalize_def digest_def hasher_update_def)

subsection \<open>ZK signatures\<close>

definition MAX_ZK_SIGNING_KEYS :: nat where
  "MAX_ZK_SIGNING_KEYS = 32"

record zksign_inputs =
  public_keys :: "nat list"
  zk_msg :: nat

text \<open>The keys are padded with the key of the zero secret.\<close>

definition to_public_key :: "extern \<Rightarrow> nat \<Rightarrow> nat" where
  "to_public_key X sk = zk_compress X (from_le_bytes (ascii ''KDF'')) sk"

definition inputs_from_pks :: "extern \<Rightarrow> nat \<Rightarrow> nat list \<Rightarrow> nat + zksign_inputs" where
  "inputs_from_pks X msg pks =
     (if MAX_ZK_SIGNING_KEYS < length pks then Inl (length pks)
      else Inr \<lparr>public_keys = pks @ replicate (MAX_ZK_SIGNING_KEYS - length pks) (to_public_key X 0), zk_msg = msg\<rparr>)"

lemma inputs_from_pks_length: "inputs_from_pks X msg pks = Inr i \<Longrightarrow> length (public_keys i) = MAX_ZK_SIGNING_KEYS"
  by (auto simp: inputs_from_pks_def split: if_splits)

end
