(* ===== verification/Channels.thy ===== *)
theory Channels
  imports EraTime
begin

text \<open>
  The channels of the ledger: \<^verbatim>\<open>core/src/mantle/channel.rs\<close> and \<^verbatim>\<open>core/src/mantle/channel_notes.rs\<close>.

  Identifiers (channels, messages, notes, keys) are numbers.  A channel's sequencer is chosen by
  \<^verbatim>\<open>round_robin\<close>; the lemmas show that it returns on every well-formed channel (\<open>channel_ok\<close>), that the
  sequencer stays within the accredited keys, and that \<^verbatim>\<open>next_round_robin_boundary\<close> bounds the slots during which
  the turn does not change.  The notes of the channels form a map from notes to their channel.
\<close>

type_synonym channel_id = nat
type_synonym msg_id = nat
type_synonym note_id = nat
type_synonym ed_key = nat
type_synonym ed_sig = nat

subsection \<open>Notes owned by channels\<close>

datatype channel_notes_error =
    NotInChannel note_id
  | NotAChannelNoteOf note_id channel_id
  | AlreadyAChannelNote note_id channel_id

type_synonym channel_notes = "note_id \<rightharpoonup> channel_id"

definition cn_new :: channel_notes where
  "cn_new = Map.empty"

definition cn_contains :: "channel_notes \<Rightarrow> note_id \<Rightarrow> bool" where
  "cn_contains ns note_id \<longleftrightarrow> ns note_id \<noteq> None"

definition into_channel :: "note_id \<Rightarrow> channel_id \<Rightarrow> channel_notes \<Rightarrow> channel_notes_error + channel_notes" where
  "into_channel note_id channel_id ns =
     (case ns note_id of
        Some channel \<Rightarrow> Inl (AlreadyAChannelNote note_id channel)
      | None \<Rightarrow> Inr (ns(note_id \<mapsto> channel_id)))"

definition is_a_channel :: "channel_notes \<Rightarrow> note_id \<Rightarrow> channel_id \<Rightarrow> bool" where
  "is_a_channel ns note_id channel_id \<longleftrightarrow> ns note_id = Some channel_id"

definition into_bedrock :: "note_id \<Rightarrow> channel_id \<Rightarrow> channel_notes \<Rightarrow> channel_notes_error + channel_notes" where
  "into_bedrock note_id channel_id ns =
     (case ns note_id of
        Some channel \<Rightarrow> if channel = channel_id then Inr (ns(note_id := None)) else Inl (NotAChannelNoteOf note_id channel_id)
      | None \<Rightarrow> Inl (NotInChannel note_id))"

subsection \<open>Channels\<close>

record channel_state =
  accredited_keys :: "ed_key list"
  configuration_threshold :: nat
  tip_message :: msg_id
  config_tip_hash :: msg_id
  tip_slot :: nat
  tip_sequencer :: nat
  tip_sequencer_starting_slot :: nat
  posting_timeframe :: nat
  posting_timeout :: nat
  transfer_threshold :: nat

record channels =
  ch_channels :: "channel_id \<rightharpoonup> channel_state"
  ch_notes :: channel_notes

definition DEFAULT_TRANSFER_THRESHOLD :: nat where
  "DEFAULT_TRANSFER_THRESHOLD = 1"

definition root_msg :: msg_id where
  "root_msg = 0"

definition channels_new :: channels where
  "channels_new = \<lparr>ch_channels = Map.empty, ch_notes = cn_new\<rparr>"

definition channel_configuration_threshold :: "channels \<Rightarrow> channel_id \<Rightarrow> nat" where
  "channel_configuration_threshold cs channel =
     (case ch_channels cs channel of None \<Rightarrow> 0 | Some c \<Rightarrow> configuration_threshold c)"

definition channel_transfer_threshold :: "channels \<Rightarrow> channel_id \<Rightarrow> nat" where
  "channel_transfer_threshold cs channel =
     (case ch_channels cs channel of None \<Rightarrow> 0 | Some c \<Rightarrow> transfer_threshold c)"

definition is_channel_note :: "channels \<Rightarrow> note_id \<Rightarrow> bool" where
  "is_channel_note cs note_id \<longleftrightarrow> cn_contains (ch_notes cs) note_id"

definition is_channel_note_of :: "channels \<Rightarrow> note_id \<Rightarrow> channel_id \<Rightarrow> bool" where
  "is_channel_note_of cs note_id channel_id \<longleftrightarrow> is_a_channel (ch_notes cs) note_id channel_id"

definition register_channel_note :: "note_id \<Rightarrow> channel_id \<Rightarrow> channels \<Rightarrow> channel_notes_error + channels" where
  "register_channel_note note_id channel_id cs =
     map_sum id (\<lambda>ns. cs\<lparr>ch_notes := ns\<rparr>) (into_channel note_id channel_id (ch_notes cs))"

definition unregister_channel_note :: "note_id \<Rightarrow> channel_id \<Rightarrow> channels \<Rightarrow> channel_notes_error + channels" where
  "unregister_channel_note note_id channel_id cs =
     map_sum id (\<lambda>ns. cs\<lparr>ch_notes := ns\<rparr>) (into_bedrock note_id channel_id (ch_notes cs))"

subsection \<open>Sequencers\<close>

definition is_timed_out :: "channel_state \<Rightarrow> nat \<Rightarrow> bool" where
  "is_timed_out c block_slot \<longleftrightarrow> posting_timeout c \<le> block_slot - tip_slot c \<and> posting_timeout c \<noteq> 0"

text \<open>\<^verbatim>\<open>sequencers_timed_out.filter(|_| is_timed_out)\<close> and \<^verbatim>\<open>timeframe_elapsed\<close>.\<close>

definition timed_out_turns :: "channel_state \<Rightarrow> nat \<Rightarrow> nat option" where
  "timed_out_turns c block_slot =
     (if is_timed_out c block_slot then checked_div (block_slot - tip_slot c) (posting_timeout c) else None)"

definition timeframe_turns :: "channel_state \<Rightarrow> nat \<Rightarrow> nat option" where
  "timeframe_turns c block_slot =
     checked_div (block_slot - tip_sequencer_starting_slot c) (posting_timeframe c)"

definition round_robin :: "channel_state \<Rightarrow> nat \<Rightarrow> (nat \<times> nat) option" where
  "round_robin c block_slot =
     do { index \<leftarrow>
            (case (case timed_out_turns c block_slot of Some n \<Rightarrow> Some n | None \<Rightarrow> timeframe_turns c block_slot) of
               None \<Rightarrow> Some (tip_sequencer c)
             | Some slot \<Rightarrow>
                 if accredited_keys c = [] then None
                 else Some (wrapping_add 64 (tip_sequencer c) slot mod length (accredited_keys c) mod 2 ^ 16));
          starting_slot \<leftarrow>
            (case timed_out_turns c block_slot of
               Some n \<Rightarrow> slot_strict_add (tip_slot c) (n * posting_timeout c mod 2 ^ 64)
             | None \<Rightarrow>
                 (case timeframe_turns c block_slot of
                    Some n \<Rightarrow> slot_strict_add (tip_sequencer_starting_slot c) (n * posting_timeframe c mod 2 ^ 64)
                  | None \<Rightarrow> Some (tip_sequencer_starting_slot c)));
          Some (index, starting_slot) }"

definition next_on_grid :: "nat \<Rightarrow> nat \<Rightarrow> nat \<Rightarrow> nat option" where
  "next_on_grid current anchor period =
     (if period = 0 then None
      else do { n \<leftarrow> checked_add 64 ((current - anchor) div period) 1;
                d \<leftarrow> checked_mul 64 n period;
                checked_add 64 anchor d })"

definition next_round_robin_boundary :: "channel_state \<Rightarrow> nat \<Rightarrow> nat option" where
  "next_round_robin_boundary c slot =
     (let by_timeout = next_on_grid slot (tip_slot c) (posting_timeout c);
          timed_out = posting_timeout c \<noteq> 0 \<and> posting_timeout c \<le> slot - tip_slot c
      in if timed_out then by_timeout
         else (let by_timeframe = next_on_grid slot (tip_sequencer_starting_slot c) (posting_timeframe c)
               in case (by_timeframe, by_timeout) of
                    (Some a, Some b) \<Rightarrow> Some (min a b)
                  | (Some a, None) \<Rightarrow> Some a
                  | (None, b) \<Rightarrow> b))"

subsection \<open>Well-formed channels\<close>

definition channel_ok :: "channel_state \<Rightarrow> bool" where
  "channel_ok c \<longleftrightarrow>
     accredited_keys c \<noteq> [] \<and> length (accredited_keys c) < 2 ^ 16 \<and> tip_sequencer c < length (accredited_keys c) \<and>
     1 \<le> configuration_threshold c \<and> configuration_threshold c \<le> length (accredited_keys c) \<and>
     1 \<le> transfer_threshold c \<and>
     tip_slot c < 2 ^ 64 \<and> tip_sequencer_starting_slot c < 2 ^ 64 \<and>
     posting_timeframe c < 2 ^ 32 \<and> posting_timeout c < 2 ^ 32"

definition turns :: "channel_state \<Rightarrow> nat \<Rightarrow> nat option" where
  "turns c s = (case timed_out_turns c s of Some n \<Rightarrow> Some n | None \<Rightarrow> timeframe_turns c s)"

lemma slot_grid_exact:
  assumes "a < 2 ^ 64" "s < 2 ^ 64"
  shows "slot_strict_add a ((s - a) div p * p mod 2 ^ 64) = Some (a + (s - a) div p * p)"
    "a + (s - a) div p * p \<le> max a s"
proof -
  have le: "(s - a) div p * p \<le> s - a" by (rule div_times_less_eq_dividend)
  then show bound: "a + (s - a) div p * p \<le> max a s" by linarith
  have "(s - a) div p * p mod 2 ^ 64 = (s - a) div p * p" using le assms(2) by (intro mod_less) linarith
  then show "slot_strict_add a ((s - a) div p * p mod 2 ^ 64) = Some (a + (s - a) div p * p)"
    using bound assms by (simp add: slot_strict_add_def checked_add_def)
qed

lemma round_robin_index:
  assumes "channel_ok c" "s < 2 ^ 64"
  shows "\<exists>start. round_robin c s = Some
      (case turns c s of None \<Rightarrow> tip_sequencer c
       | Some n \<Rightarrow> wrapping_add 64 (tip_sequencer c) n mod length (accredited_keys c), start) \<and>
    start \<le> max s (tip_sequencer_starting_slot c)"
proof -
  have k: "accredited_keys c \<noteq> []" "0 < length (accredited_keys c)" "length (accredited_keys c) < 2 ^ 16"
    and slots: "tip_slot c < 2 ^ 64" "tip_sequencer_starting_slot c < 2 ^ 64"
    using assms(1) by (auto simp: channel_ok_def)
  have m: "x mod length (accredited_keys c) mod 2 ^ 16 = x mod length (accredited_keys c)" for x
    using k mod_less_divisor [OF k(2), of x] by (intro mod_less) linarith
  show ?thesis
  proof (cases "timed_out_turns c s")
    case (Some n)
    then have t: "is_timed_out c s" "n = (s - tip_slot c) div posting_timeout c"
      by (auto simp: timed_out_turns_def checked_div_def split: if_splits)
    then have "tip_slot c \<le> s" by (auto simp: is_timed_out_def)
    then show ?thesis
      using Some k(1) m slot_grid_exact [OF slots(1) assms(2), of "posting_timeout c"] t(2)
      by (simp add: round_robin_def turns_def max_def)
  next
    case None
    then show ?thesis
      using k(1) m slot_grid_exact [OF slots(2) assms(2), of "posting_timeframe c"]
      by (auto simp: round_robin_def turns_def timeframe_turns_def checked_div_def max.commute)
  qed
qed

lemma round_robin_ok:
  assumes "channel_ok c" "s < 2 ^ 64"
  shows "\<exists>i start. round_robin c s = Some (i, start) \<and> i < length (accredited_keys c) \<and> start < 2 ^ 64"
proof -
  have "tip_sequencer c < length (accredited_keys c)" "tip_sequencer_starting_slot c < 2 ^ 64"
    using assms(1) by (auto simp: channel_ok_def)
  then show ?thesis
    using round_robin_index [OF assms] assms(2) mod_less_divisor [of "length (accredited_keys c)"]
    by (cases "turns c s") fastforce+
qed

lemma next_on_grid_None:
  assumes "next_on_grid s a p = None" "p \<noteq> 0" "s \<le> t" "t < 2 ^ 64"
  shows "(t - a) div p = (s - a) div p"
proof (rule ccontr)
  assume ne: "(t - a) div p \<noteq> (s - a) div p"
  have "(s - a) div p \<le> (t - a) div p" using assms(3) by (intro div_le_mono) simp
  then have n: "(s - a) div p + 1 \<le> (t - a) div p" using ne by simp
  have "((s - a) div p + 1) * p \<le> (t - a) div p * p" using n by (rule mult_le_mono1)
  also have "\<dots> \<le> t - a" by (rule div_times_less_eq_dividend)
  finally have d: "((s - a) div p + 1) * p \<le> t - a" .
  have "((s - a) div p + 1) * 1 \<le> ((s - a) div p + 1) * p" using assms(2) by (intro mult_le_mono2) simp
  then have e: "(s - a) div p + 1 \<le> ((s - a) div p + 1) * p" by (simp only: mult_1_right)
  have "t - a \<noteq> 0" using n by (cases "t - a = 0") auto
  then have f: "a + ((s - a) div p + 1) * p < 2 ^ 64" using d assms(4) by linarith
  then have "((s - a) div p + 1) * p < 2 ^ 64" by linarith
  moreover from this e have "(s - a) div p + 1 < 2 ^ 64" by (rule le_less_trans [rotated])
  moreover note f
  ultimately show False using assms(1,2) by (simp add: next_on_grid_def checked_add_def checked_mul_def split: if_splits)
qed

lemma next_on_grid_Some:
  assumes "next_on_grid s a p = Some b" "s \<le> t" "t < b"
  shows "(t - a) div p = (s - a) div p"
proof -
  have b: "b = a + ((s - a) div p + 1) * p" "p \<noteq> 0"
    using assms(1) by (auto simp: next_on_grid_def bind_Some_iff checked_Some_iffs split: if_splits)
  moreover have "0 < ((s - a) div p + 1) * p" using b(2) by simp
  ultimately have "t - a < ((s - a) div p + 1) * p" using assms(3) by linarith
  then have "(t - a) div p < (s - a) div p + 1" using b(2) by (subst div_less_iff_less_mult) simp_all
  moreover have "(s - a) div p \<le> (t - a) div p" using assms(2) by (intro div_le_mono) simp
  ultimately show ?thesis by simp
qed

text \<open>Between two boundaries neither grid advances.\<close>

definition before_boundary :: "nat option \<Rightarrow> nat \<Rightarrow> bool" where
  "before_boundary b t \<longleftrightarrow> (case b of None \<Rightarrow> True | Some b \<Rightarrow> t < b)"

lemma next_on_grid_same:
  "before_boundary (next_on_grid s a p) t \<Longrightarrow> s \<le> t \<Longrightarrow> t < 2 ^ 64 \<Longrightarrow> p \<noteq> 0 \<Longrightarrow> (t - a) div p = (s - a) div p"
  using next_on_grid_None [of s a p t] next_on_grid_Some [of s a p _ t] by (auto simp: before_boundary_def split: option.splits)

lemma turns_constant:
  assumes "before_boundary (next_round_robin_boundary c s) t" "s \<le> t" "t < 2 ^ 64"
  shows "turns c t = turns c s"
proof (cases "is_timed_out c s")
  case True
  then have p: "posting_timeout c \<noteq> 0" "is_timed_out c t" using assms(2) by (auto simp: is_timed_out_def)
  have "next_round_robin_boundary c s = next_on_grid s (tip_slot c) (posting_timeout c)"
    using True by (simp add: next_round_robin_boundary_def is_timed_out_def)
  then have "(t - tip_slot c) div posting_timeout c = (s - tip_slot c) div posting_timeout c"
    using next_on_grid_same assms p(1) by metis
  then show ?thesis using True p by (simp add: turns_def timed_out_turns_def checked_div_def)
next
  case False
  let ?f = "next_on_grid s (tip_sequencer_starting_slot c) (posting_timeframe c)"
  let ?o = "next_on_grid s (tip_slot c) (posting_timeout c)"
  have "next_round_robin_boundary c s = (case (?f, ?o) of (Some a, Some b) \<Rightarrow> Some (min a b) | (Some a, None) \<Rightarrow> Some a | (None, b) \<Rightarrow> b)"
    using False by (auto simp: next_round_robin_boundary_def is_timed_out_def Let_def)
  then have b: "before_boundary ?f t" "before_boundary ?o t"
    using assms(1) by (auto simp: before_boundary_def split: option.splits)
  have "\<not> is_timed_out c t"
  proof (cases "posting_timeout c = 0")
    case False
    then have "(t - tip_slot c) div posting_timeout c = (s - tip_slot c) div posting_timeout c"
      using next_on_grid_same [OF b(2) assms(2,3)] by simp
    also have "\<dots> = 0" using \<open>\<not> is_timed_out c s\<close> False by (auto simp: is_timed_out_def)
    finally show ?thesis using False by (simp add: is_timed_out_def div_eq_0_iff)
  qed (simp add: is_timed_out_def)
  moreover have "timeframe_turns c t = timeframe_turns c s"
    using next_on_grid_same [OF b(1) assms(2,3)] by (cases "posting_timeframe c = 0") (auto simp: timeframe_turns_def checked_div_def)
  ultimately show ?thesis using False by (simp add: turns_def timed_out_turns_def)
qed

text \<open>
  C37: The sequencer of a well-formed channel is determined without a panic, is one of the accredited
  keys, and keeps its turn until the slot \<^verbatim>\<open>next_round_robin_boundary\<close> gives (for ever if it gives none).
\<close>

theorem round_robin_keeps_turn:
  assumes "channel_ok c" "s < 2 ^ 64"
  shows "\<exists>i start. round_robin c s = Some (i, start) \<and> i < length (accredited_keys c) \<and>
    (\<forall>t. s \<le> t \<and> t < 2 ^ 64 \<and> (\<forall>b. next_round_robin_boundary c s = Some b \<longrightarrow> t < b) \<longrightarrow>
       (\<exists>start'. round_robin c t = Some (i, start')))"
proof -
  obtain i start where r: "round_robin c s = Some (i, start)" "i < length (accredited_keys c)"
    using round_robin_ok [OF assms] by blast
  have "\<exists>start'. round_robin c t = Some (i, start')"
    if "s \<le> t" "t < 2 ^ 64" "\<forall>b. next_round_robin_boundary c s = Some b \<longrightarrow> t < b" for t
  proof -
    have "before_boundary (next_round_robin_boundary c s) t" using that(3) by (simp add: before_boundary_def split: option.splits)
    then have "turns c t = turns c s" using turns_constant that(1,2) by blast
    then show ?thesis using round_robin_index [OF assms] round_robin_index [OF assms(1) that(2)] r(1) by auto
  qed
  then show ?thesis using r by blast
qed

definition example_channel :: channel_state where
  "example_channel = \<lparr>accredited_keys = [11, 12, 13], configuration_threshold = 2, tip_message = 5, config_tip_hash = 6,
     tip_slot = 100, tip_sequencer = 1, tip_sequencer_starting_slot = 95, posting_timeframe = 10, posting_timeout = 20,
     transfer_threshold = 2\<rparr>"

theorem round_robin_keeps_turn_witness:
  "round_robin example_channel 104 = Some (1, 95) \<and> next_round_robin_boundary example_channel 104 = Some 105 \<and>
   round_robin example_channel 130 = Some (2, 120)"
  using round_robin_keeps_turn [of example_channel 104]
  by (simp add: channel_ok_def example_channel_def round_robin_def timed_out_turns_def timeframe_turns_def is_timed_out_def
      next_round_robin_boundary_def next_on_grid_def slot_strict_add_def int_ops)

end
