(* ===== verification/Ops.thy ===== *)
theory Ops
  imports Crypto Channels
begin

text \<open>
  The operations of a transaction and their canonical encoding: the operation types of
  \<^verbatim>\<open>core/src/mantle/ops/\<close>, the messages of \<^verbatim>\<open>core/src/sdp/\<close>, \<^verbatim>\<open>Op\<close> and \<^verbatim>\<open>OpProof\<close>, and the signed transaction
  (\<^verbatim>\<open>core/src/mantle/transactions/tx_list/\<close>).

  A struct is a record, its derived codec the fields in declaration order (\<open>pair_c\<close>, \<open>conv_c\<close>).  Byte arrays of a fixed
  size are numbers.  The lemmas show that every codec obeys the contract of theory Codec, so that a
  signed transaction has exactly one encoding, and that the hash of a transaction determines it unless Blake2b collides.
\<close>

subsection \<open>Notes\<close>

record ledger_note =
  note_value :: nat
  note_pk :: nat

record utxo =
  utxo_op_id :: nat
  output_index :: nat
  utxo_note :: ledger_note

definition MAX_TRANSACTION_INPUTS :: nat where
  "MAX_TRANSACTION_INPUTS = 255"

definition MAX_TRANSACTION_OUTPUTS :: nat where
  "MAX_TRANSACTION_OUTPUTS = 255"

type_synonym inputs = "note_id list"
type_synonym outputs = "ledger_note list"

definition utxo_id :: "extern \<Rightarrow> utxo \<Rightarrow> note_id" where
  "utxo_id X u = digest X
     [from_le_bytes (ascii ''NOTE_ID_V1''), utxo_op_id u mod fr_modulus, output_index u, note_value (utxo_note u),
      note_pk (utxo_note u)]"

definition note_c :: "ledger_note codec_ops" where
  "note_c = conv_c (\<lambda>(v, k). Some \<lparr>note_value = v, note_pk = k\<rparr>) (\<lambda>n. (note_value n, note_pk n)) (pair_c (uint_c 8) fr_c)"

definition inputs_c :: "inputs codec_ops" where
  "inputs_c = ordered_set_c 0 MAX_TRANSACTION_INPUTS fr_c"

definition outputs_c :: "outputs codec_ops" where
  "outputs_c = vec_c 0 MAX_TRANSACTION_OUTPUTS note_c"

subsection \<open>Keys\<close>

text \<open>A key whose bytes are a point; a verified key is moreover not weak.\<close>

definition unverified_key_c :: "extern \<Rightarrow> ed_key codec_ops" where
  "unverified_key_c X = conv_c (\<lambda>b. if is_point X b then Some b else None) (\<lambda>k. k) (uint_c 32)"

definition public_key_c :: "extern \<Rightarrow> ed_key codec_ops" where
  "public_key_c X = conv_c (\<lambda>k. if is_weak X k then None else Some k) (\<lambda>k. k) (unverified_key_c X)"

subsection \<open>Transfers and channel operations\<close>

record transfer_op =
  t_inputs :: inputs
  t_outputs :: outputs

definition transfer_c :: "transfer_op codec_ops" where
  "transfer_c = conv_c (\<lambda>(i, ou). Some \<lparr>t_inputs = i, t_outputs = ou\<rparr>) (\<lambda>op. (t_inputs op, t_outputs op)) (pair_c inputs_c outputs_c)"

record inscription_op =
  i_channel_id :: channel_id
  inscription :: "byte list"
  i_parent :: msg_id
  i_signer :: ed_key

text \<open>A byte is the byte itself: \<^verbatim>\<open>u8\<close> values of a byte vector.\<close>

definition byte_c :: "byte codec_ops" where
  "byte_c = conv_c (\<lambda>n. Some (word_of_nat n)) unat (uint_c 1)"

definition inscription_c :: "extern \<Rightarrow> nat \<Rightarrow> inscription_op codec_ops" where
  "inscription_c X max_size =
     conv_c (\<lambda>(c, i, p, s). Some \<lparr>i_channel_id = c, inscription = i, i_parent = p, i_signer = s\<rparr>)
       (\<lambda>op. (i_channel_id op, inscription op, i_parent op, i_signer op))
       (pair_c (uint_c 32) (pair_c (runtime_vec_c 4 0 max_size byte_c) (pair_c (uint_c 32) (unverified_key_c X))))"

definition CHANNEL_MAX_KEYS :: nat where
  "CHANNEL_MAX_KEYS = 2 ^ 16 - 1"

record channel_config_op =
  cc_channel :: channel_id
  cc_parent :: msg_id
  cc_keys :: "ed_key list"
  cc_posting_timeframe :: nat
  cc_posting_timeout :: nat
  cc_configuration_threshold :: nat
  cc_transfer_threshold :: nat

text \<open>\<^verbatim>\<open>ChannelConfigOp::new\<close>; \<^term>\<open>None\<close> is the error.\<close>

definition channel_config_new :: "channel_id \<times> msg_id \<times> ed_key list \<times> nat \<times> nat \<times> nat \<times> nat \<Rightarrow> channel_config_op option" where
  "channel_config_new = (\<lambda>(channel, parent, keys, timeframe, timeout, configuration_threshold, transfer_threshold).
     if length keys < configuration_threshold then None
     else Some \<lparr>cc_channel = channel, cc_parent = parent, cc_keys = keys, cc_posting_timeframe = timeframe,
       cc_posting_timeout = timeout, cc_configuration_threshold = configuration_threshold,
       cc_transfer_threshold = transfer_threshold\<rparr>)"

definition channel_config_c :: "extern \<Rightarrow> channel_config_op codec_ops" where
  "channel_config_c X =
     conv_c channel_config_new
       (\<lambda>op. (cc_channel op, cc_parent op, cc_keys op, cc_posting_timeframe op, cc_posting_timeout op,
              cc_configuration_threshold op, cc_transfer_threshold op))
       (pair_c (uint_c 32) (pair_c (uint_c 32) (pair_c (vec_c 1 CHANNEL_MAX_KEYS (public_key_c X))
         (pair_c (uint_c 4) (pair_c (uint_c 4) (pair_c (nonzero_c 2) (nonzero_c 2)))))))"

record deposit_op =
  d_channel_id :: channel_id
  d_inputs :: inputs
  metadata :: "byte list"

definition deposit_c :: "nat \<Rightarrow> deposit_op codec_ops" where
  "deposit_c max_size =
     conv_c (\<lambda>(c, i, m). Some \<lparr>d_channel_id = c, d_inputs = i, metadata = m\<rparr>) (\<lambda>op. (d_channel_id op, d_inputs op, metadata op))
       (pair_c (uint_c 32) (pair_c inputs_c (runtime_vec_c 4 0 max_size byte_c)))"

record channel_withdraw_op =
  w_channel_id :: channel_id
  w_inputs :: inputs

definition channel_withdraw_c :: "channel_withdraw_op codec_ops" where
  "channel_withdraw_c =
     conv_c (\<lambda>(c, i). Some \<lparr>w_channel_id = c, w_inputs = i\<rparr>) (\<lambda>op. (w_channel_id op, w_inputs op)) (pair_c (uint_c 32) inputs_c)"

record channel_transfer_op =
  ct_channel_id :: channel_id
  ct_inputs :: inputs
  ct_outputs :: outputs

definition channel_transfer_c :: "channel_transfer_op codec_ops" where
  "channel_transfer_c =
     conv_c (\<lambda>(c, i, ou). Some \<lparr>ct_channel_id = c, ct_inputs = i, ct_outputs = ou\<rparr>)
       (\<lambda>op. (ct_channel_id op, ct_inputs op, ct_outputs op)) (pair_c (uint_c 32) (pair_c inputs_c outputs_c))"

subsection \<open>Service declarations\<close>

datatype service_type = BlendNetwork

definition service_type_code :: "service_type \<Rightarrow> nat" where
  "service_type_code s = (case s of BlendNetwork \<Rightarrow> 0)"

definition service_type_of :: "nat \<Rightarrow> service_type option" where
  "service_type_of n = (if n = 0 then Some BlendNetwork else None)"

definition service_type_c :: "service_type codec_ops" where
  "service_type_c = conv_c service_type_of service_type_code (uint_c 1)"

text \<open>The nonce: the creation epoch in the high half, the sequence number in the low half.\<close>

record nonce =
  lifecycle_epoch :: nat
  nonce_sequence :: nat

definition packed_u64 :: "nonce \<Rightarrow> nat" where
  "packed_u64 n = or (push_bit 32 (lifecycle_epoch n)) (nonce_sequence n)"

definition from_packed_u64 :: "nat \<Rightarrow> nonce" where
  "from_packed_u64 packed = \<lparr>lifecycle_epoch = drop_bit 32 packed mod 2 ^ 32, nonce_sequence = packed mod 2 ^ 32\<rparr>"

definition checked_next :: "nonce \<Rightarrow> nonce option" where
  "checked_next n = (if nonce_sequence n = 2 ^ 32 - 1 then None else Some (n\<lparr>nonce_sequence := nonce_sequence n + 1\<rparr>))"

definition nonce_c :: "nonce codec_ops" where
  "nonce_c = conv_c (\<lambda>n. Some (from_packed_u64 n)) packed_u64 (uint_c 8)"

text \<open>A locator is the bytes of a multiaddress.\<close>

definition MAX_LOCATOR_BYTE_SIZE :: nat where
  "MAX_LOCATOR_BYTE_SIZE = 329"

definition protocol_allowed :: "protocol \<Rightarrow> bool" where
  "protocol_allowed p = (case p of Ip4 ip \<Rightarrow> ip \<noteq> 0 | Ip6 ip \<Rightarrow> ip \<noteq> 0 | Tcp port \<Rightarrow> port \<noteq> 0 | Udp port \<Rightarrow> port \<noteq> 0
     | P2p \<Rightarrow> False | OtherProtocol \<Rightarrow> True)"

definition locator_try_from :: "extern \<Rightarrow> byte list \<Rightarrow> byte list option" where
  "locator_try_from X bytes =
     do { protocols \<leftarrow> multiaddr X bytes;
          if length bytes \<le> MAX_LOCATOR_BYTE_SIZE \<and> list_all protocol_allowed protocols then Some bytes else None }"

definition locator_c :: "extern \<Rightarrow> byte list codec_ops" where
  "locator_c X = conv_c (locator_try_from X) (\<lambda>l. l) (vec_c 0 MAX_LOCATOR_BYTE_SIZE byte_c)"

definition MAX_DECLARATION_LOCATOR_COUNT :: nat where
  "MAX_DECLARATION_LOCATOR_COUNT = 8"

record declaration_message =
  dm_service_type :: service_type
  dm_locators :: "byte list list"
  dm_provider_id :: ed_key
  dm_zk_id :: nat
  dm_service_note_id :: note_id

definition sdp_declare_c :: "extern \<Rightarrow> declaration_message codec_ops" where
  "sdp_declare_c X =
     conv_c (\<lambda>(s, l, p, z, n). Some \<lparr>dm_service_type = s, dm_locators = l, dm_provider_id = p, dm_zk_id = z, dm_service_note_id = n\<rparr>)
       (\<lambda>m. (dm_service_type m, dm_locators m, dm_provider_id m, dm_zk_id m, dm_service_note_id m))
       (pair_c service_type_c (pair_c (ordered_set_c 1 MAX_DECLARATION_LOCATOR_COUNT (locator_c X))
         (pair_c (public_key_c X) (pair_c fr_c fr_c))))"

record withdraw_message =
  wm_declaration_id :: nat
  wm_nonce :: nonce

definition sdp_withdraw_c :: "withdraw_message codec_ops" where
  "sdp_withdraw_c =
     conv_c (\<lambda>(d, n). Some \<lparr>wm_declaration_id = d, wm_nonce = n\<rparr>) (\<lambda>m. (wm_declaration_id m, wm_nonce m))
       (pair_c (uint_c 32) nonce_c)"

text \<open>The proof of quota: the nullifier, then the 128 bytes of the compressed proof.\<close>

record proof_of_quota =
  key_nullifier :: nat
  poq_proof :: nat

definition proof_of_quota_c :: "proof_of_quota codec_ops" where
  "proof_of_quota_c =
     conv_c (\<lambda>(n, p). Some \<lparr>key_nullifier = n, poq_proof = p\<rparr>) (\<lambda>q. (key_nullifier q, poq_proof q)) (pair_c fr_c (uint_c 128))"

record activity_proof =
  ap_epoch :: nat
  ap_signing_key :: ed_key
  ap_proof_of_quota :: proof_of_quota
  ap_selection_randomness :: nat

datatype activity_metadata = Blend activity_proof

definition activity_proof_c :: "extern \<Rightarrow> activity_proof codec_ops" where
  "activity_proof_c X =
     conv_c (\<lambda>(e, k, q, s). Some \<lparr>ap_epoch = e, ap_signing_key = k, ap_proof_of_quota = q, ap_selection_randomness = s\<rparr>)
       (\<lambda>p. (ap_epoch p, ap_signing_key p, ap_proof_of_quota p, ap_selection_randomness p))
       (pair_c (uint_c 4) (pair_c (public_key_c X) (pair_c proof_of_quota_c fr_c)))"

definition activity_metadata_c :: "extern \<Rightarrow> activity_metadata codec_ops" where
  "activity_metadata_c X =
     enum_c (\<lambda>m. case m of Blend _ \<Rightarrow> 1)
       [1 \<mapsto> variant_c Blend (\<lambda>m. case m of Blend p \<Rightarrow> Some p) (activity_proof_c X)]"

record active_message =
  am_declaration_id :: nat
  am_nonce :: nonce
  am_metadata :: activity_metadata

definition sdp_active_c :: "extern \<Rightarrow> active_message codec_ops" where
  "sdp_active_c X =
     conv_c (\<lambda>(d, n, m). Some \<lparr>am_declaration_id = d, am_nonce = n, am_metadata = m\<rparr>)
       (\<lambda>m. (am_declaration_id m, am_nonce m, am_metadata m))
       (pair_c (uint_c 32) (pair_c nonce_c (activity_metadata_c X)))"

subsection \<open>Rewards\<close>

record leader_claim_op =
  rewards_root :: nat
  voucher_nullifier :: nat
  lc_pk :: nat

definition leader_claim_c :: "leader_claim_op codec_ops" where
  "leader_claim_c =
     conv_c (\<lambda>(r, n, k). Some \<lparr>rewards_root = r, voucher_nullifier = n, lc_pk = k\<rparr>)
       (\<lambda>op. (rewards_root op, voucher_nullifier op, lc_pk op)) (pair_c fr_c (pair_c fr_c fr_c))"

record claim_pow_reward_op =
  epoch_nonce :: nat
  block_hash :: nat
  public_key :: nat

definition claim_pow_reward_c :: "claim_pow_reward_op codec_ops" where
  "claim_pow_reward_c =
     conv_c (\<lambda>(e, b, k). Some \<lparr>epoch_nonce = e, block_hash = b, public_key = k\<rparr>)
       (\<lambda>op. (epoch_nonce op, block_hash op, public_key op)) (pair_c fr_c (pair_c (uint_c 32) fr_c))"

subsection \<open>Operations\<close>

datatype op =
    ChannelInscribe inscription_op
  | ChannelConfig channel_config_op
  | ChannelDeposit deposit_op
  | ChannelWithdraw channel_withdraw_op
  | ChannelTransfer channel_transfer_op
  | SDPDeclare declaration_message
  | SDPWithdraw withdraw_message
  | SDPActive active_message
  | LeaderClaim leader_claim_op
  | Transfer transfer_op
  | ClaimPowReward claim_pow_reward_op

definition op_code :: "op \<Rightarrow> nat" where
  "op_code op = (case op of
     ChannelInscribe _ \<Rightarrow> 0x11 | ChannelConfig _ \<Rightarrow> 0x10 | ChannelDeposit _ \<Rightarrow> 0x12 | ChannelWithdraw _ \<Rightarrow> 0x13
   | ChannelTransfer _ \<Rightarrow> 0x14 | SDPDeclare _ \<Rightarrow> 0x20 | SDPWithdraw _ \<Rightarrow> 0x21 | SDPActive _ \<Rightarrow> 0x22
   | LeaderClaim _ \<Rightarrow> 0x30 | Transfer _ \<Rightarrow> 0x00 | ClaimPowReward _ \<Rightarrow> 0x40)"

definition op_variants :: "extern \<Rightarrow> nat \<Rightarrow> nat \<rightharpoonup> op codec_ops" where
  "op_variants X max_op_data_size =
    [0x11 \<mapsto> variant_c ChannelInscribe (\<lambda>op. case op of ChannelInscribe x \<Rightarrow> Some x | _ \<Rightarrow> None) (inscription_c X max_op_data_size),
     0x10 \<mapsto> variant_c ChannelConfig (\<lambda>op. case op of ChannelConfig x \<Rightarrow> Some x | _ \<Rightarrow> None) (channel_config_c X),
     0x12 \<mapsto> variant_c ChannelDeposit (\<lambda>op. case op of ChannelDeposit x \<Rightarrow> Some x | _ \<Rightarrow> None) (deposit_c max_op_data_size),
     0x13 \<mapsto> variant_c ChannelWithdraw (\<lambda>op. case op of ChannelWithdraw x \<Rightarrow> Some x | _ \<Rightarrow> None) channel_withdraw_c,
     0x14 \<mapsto> variant_c ChannelTransfer (\<lambda>op. case op of ChannelTransfer x \<Rightarrow> Some x | _ \<Rightarrow> None) channel_transfer_c,
     0x20 \<mapsto> variant_c SDPDeclare (\<lambda>op. case op of SDPDeclare x \<Rightarrow> Some x | _ \<Rightarrow> None) (sdp_declare_c X),
     0x21 \<mapsto> variant_c SDPWithdraw (\<lambda>op. case op of SDPWithdraw x \<Rightarrow> Some x | _ \<Rightarrow> None) sdp_withdraw_c,
     0x22 \<mapsto> variant_c SDPActive (\<lambda>op. case op of SDPActive x \<Rightarrow> Some x | _ \<Rightarrow> None) (sdp_active_c X),
     0x30 \<mapsto> variant_c LeaderClaim (\<lambda>op. case op of LeaderClaim x \<Rightarrow> Some x | _ \<Rightarrow> None) leader_claim_c,
     0x00 \<mapsto> variant_c Transfer (\<lambda>op. case op of Transfer x \<Rightarrow> Some x | _ \<Rightarrow> None) transfer_c,
     0x40 \<mapsto> variant_c ClaimPowReward (\<lambda>op. case op of ClaimPowReward x \<Rightarrow> Some x | _ \<Rightarrow> None) claim_pow_reward_c]"

definition op_c :: "extern \<Rightarrow> nat \<Rightarrow> op codec_ops" where
  "op_c X max_op_data_size = enum_c op_code (op_variants X max_op_data_size)"

text \<open>The identifiers hashes give: of an operation that creates notes, of a channel message.\<close>

definition op_id :: "extern \<Rightarrow> byte list \<Rightarrow> nat" where
  "op_id X op_bytes = blake2b X (ascii ''OPERATION_ID_V1'' @ op_bytes)"

definition message_id :: "extern \<Rightarrow> byte list \<Rightarrow> msg_id" where
  "message_id X encoding = blake2b X encoding"

definition declaration_id :: "extern \<Rightarrow> service_type \<Rightarrow> nat \<Rightarrow> nat" where
  "declaration_id X service zk_id = blake2b X (to_le_bytes 1 (service_type_code service) @ to_le_bytes 32 zk_id)"

definition puzzle_ticket :: "extern \<Rightarrow> claim_pow_reward_op \<Rightarrow> nat" where
  "puzzle_ticket X op = digest X [public_key op, block_hash op mod fr_modulus, epoch_nonce op]"

subsection \<open>Transactions\<close>

definition MAX_OPS_PER_TX :: nat where
  "MAX_OPS_PER_TX = 255"

record tx_ops =
  fork_digest :: nat
  tx_op_list :: "op list"

definition tx_ops_c :: "extern \<Rightarrow> nat \<Rightarrow> tx_ops codec_ops" where
  "tx_ops_c X max_op_data_size =
     conv_c (\<lambda>(f, ops). Some \<lparr>fork_digest = f, tx_op_list = ops\<rparr>) (\<lambda>tx. (fork_digest tx, tx_op_list tx))
       (pair_c (uint_c 32) (vec_c 0 MAX_OPS_PER_TX (op_c X max_op_data_size)))"

definition tx_hash :: "extern \<Rightarrow> nat \<Rightarrow> tx_ops \<Rightarrow> nat option" where
  "tx_hash X max_op_data_size tx =
     do { encoding \<leftarrow> c_enc (tx_ops_c X max_op_data_size) tx; Some (blake2b X (ascii ''MANTLE_TXHASH_V1'' @ encoding)) }"

text \<open>Proofs; a proof is decoded as the kind its operation asks for.\<close>

record zk_and_ed25519_proof =
  zk_sig :: nat
  ed25519_sig :: ed_sig

datatype op_proof =
    Ed25519Sig ed_sig
  | ZkSig nat
  | ZkAndEd25519Sigs zk_and_ed25519_proof
  | PoC nat
  | ChannelMultiSigProof "(nat \<times> ed_sig) list"
  | NoOpProof

definition MAX_SIGNATURES :: nat where
  "MAX_SIGNATURES = 2 ^ 16 - 1"

definition multi_sig_c :: "(nat \<times> ed_sig) list codec_ops" where
  "multi_sig_c = btree_map_c 0 MAX_SIGNATURES (uint_c 2) (uint_c 64)"

definition zk_and_ed25519_c :: "zk_and_ed25519_proof codec_ops" where
  "zk_and_ed25519_c =
     conv_c (\<lambda>(z, e). Some \<lparr>zk_sig = z, ed25519_sig = e\<rparr>) (\<lambda>p. (zk_sig p, ed25519_sig p)) (pair_c (uint_c 128) (uint_c 64))"

definition no_op_proof_c :: "unit codec_ops" where
  "no_op_proof_c = \<lparr>c_ok = (\<lambda>_. True), c_len = (\<lambda>_. Some 0), c_enc = (\<lambda>_. Some []), c_dec = (\<lambda>input. Inr (input, ()))\<rparr>"

definition ed25519_proof_c :: "op_proof codec_ops" where
  "ed25519_proof_c = variant_c Ed25519Sig (\<lambda>p. case p of Ed25519Sig s \<Rightarrow> Some s | _ \<Rightarrow> None) (uint_c 64)"

definition zk_proof_c :: "op_proof codec_ops" where
  "zk_proof_c = variant_c ZkSig (\<lambda>p. case p of ZkSig s \<Rightarrow> Some s | _ \<Rightarrow> None) (uint_c 128)"

definition multi_sig_proof_c :: "op_proof codec_ops" where
  "multi_sig_proof_c = variant_c ChannelMultiSigProof (\<lambda>p. case p of ChannelMultiSigProof s \<Rightarrow> Some s | _ \<Rightarrow> None) multi_sig_c"

definition proof_c :: "op \<Rightarrow> op_proof codec_ops" where
  "proof_c op = (case op of
     ChannelInscribe _ \<Rightarrow> ed25519_proof_c
   | ChannelConfig _ \<Rightarrow> multi_sig_proof_c
   | ChannelDeposit _ \<Rightarrow> zk_proof_c
   | ChannelWithdraw _ \<Rightarrow> multi_sig_proof_c
   | ChannelTransfer _ \<Rightarrow> multi_sig_proof_c
   | SDPDeclare _ \<Rightarrow> variant_c ZkAndEd25519Sigs (\<lambda>p. case p of ZkAndEd25519Sigs s \<Rightarrow> Some s | _ \<Rightarrow> None) zk_and_ed25519_c
   | SDPWithdraw _ \<Rightarrow> zk_proof_c
   | SDPActive _ \<Rightarrow> zk_proof_c
   | LeaderClaim _ \<Rightarrow> variant_c PoC (\<lambda>p. case p of PoC s \<Rightarrow> Some s | _ \<Rightarrow> None) (uint_c 128)
   | Transfer _ \<Rightarrow> zk_proof_c
   | ClaimPowReward _ \<Rightarrow> variant_c (\<lambda>_. NoOpProof) (\<lambda>p. case p of NoOpProof \<Rightarrow> Some () | _ \<Rightarrow> None) no_op_proof_c)"

text \<open>A signed transaction: the operations with their count, then the proofs.\<close>

record signed_ops =
  so_fork_digest :: nat
  so_ops :: "(op \<times> op_proof) list"

definition op_refs :: "signed_ops \<Rightarrow> tx_ops" where
  "op_refs tx = \<lparr>fork_digest = so_fork_digest tx, tx_op_list = map fst (so_ops tx)\<rparr>"

definition encode_proofs :: "(op \<times> op_proof) list \<Rightarrow> byte list option" where
  "encode_proofs ops = map_option concat (those (map (\<lambda>(op, p). c_enc (proof_c op) p) ops))"

definition signed_ops_length :: "extern \<Rightarrow> nat \<Rightarrow> signed_ops sizer" where
  "signed_ops_length X max_op_data_size tx =
     do { n \<leftarrow> c_len (tx_ops_c X max_op_data_size) (op_refs tx);
          ps \<leftarrow> those (map (\<lambda>(op, p). c_len (proof_c op) p) (so_ops tx));
          Some (wrapping_add 64 n (sum_list ps mod 2 ^ 64)) }"

definition signed_ops_encode :: "extern \<Rightarrow> nat \<Rightarrow> signed_ops encoder" where
  "signed_ops_encode X max_op_data_size tx =
     do { ops \<leftarrow> c_enc (tx_ops_c X max_op_data_size) (op_refs tx); proofs \<leftarrow> encode_proofs (so_ops tx); Some (ops @ proofs) }"

fun decode_with_ops :: "op list \<Rightarrow> op_proof list decoder" where
  "decode_with_ops [] input = Inr (input, [])"
| "decode_with_ops (op # ops) input =
     and_then (c_dec (proof_c op) input)
       (\<lambda>(rest, p). and_then (decode_with_ops ops rest) (\<lambda>(rest, ps). Inr (rest, p # ps)))"

datatype from_parts_error = LengthMismatch nat nat | OpProofMismatch nat

definition proof_matches :: "op \<Rightarrow> op_proof \<Rightarrow> bool" where
  "proof_matches op p = (case op of
     ChannelInscribe _ \<Rightarrow> (case p of Ed25519Sig _ \<Rightarrow> True | _ \<Rightarrow> False)
   | ChannelConfig _ \<Rightarrow> (case p of ChannelMultiSigProof _ \<Rightarrow> True | _ \<Rightarrow> False)
   | ChannelDeposit _ \<Rightarrow> (case p of ZkSig _ \<Rightarrow> True | _ \<Rightarrow> False)
   | ChannelWithdraw _ \<Rightarrow> (case p of ChannelMultiSigProof _ \<Rightarrow> True | _ \<Rightarrow> False)
   | ChannelTransfer _ \<Rightarrow> (case p of ChannelMultiSigProof _ \<Rightarrow> True | _ \<Rightarrow> False)
   | SDPDeclare _ \<Rightarrow> (case p of ZkAndEd25519Sigs _ \<Rightarrow> True | _ \<Rightarrow> False)
   | SDPWithdraw _ \<Rightarrow> (case p of ZkSig _ \<Rightarrow> True | _ \<Rightarrow> False)
   | SDPActive _ \<Rightarrow> (case p of ZkSig _ \<Rightarrow> True | _ \<Rightarrow> False)
   | LeaderClaim _ \<Rightarrow> (case p of PoC _ \<Rightarrow> True | _ \<Rightarrow> False)
   | Transfer _ \<Rightarrow> (case p of ZkSig _ \<Rightarrow> True | _ \<Rightarrow> False)
   | ClaimPowReward _ \<Rightarrow> (case p of NoOpProof \<Rightarrow> True | _ \<Rightarrow> False))"

definition from_parts :: "tx_ops \<Rightarrow> op_proof list \<Rightarrow> from_parts_error + signed_ops" where
  "from_parts tx proofs =
     (if length (tx_op_list tx) \<noteq> length proofs then Inl (LengthMismatch (length (tx_op_list tx)) (length proofs))
      else case find (\<lambda>(i, op, p). \<not> proof_matches op p) (enumerate 0 (zip (tx_op_list tx) proofs)) of
             Some (index, _) \<Rightarrow> Inl (OpProofMismatch index)
           | None \<Rightarrow> Inr \<lparr>so_fork_digest = fork_digest tx, so_ops = zip (tx_op_list tx) proofs\<rparr>)"

text \<open>A failure of \<^verbatim>\<open>from_parts\<close> is a custom decode error.\<close>

definition signed_ops_decode :: "extern \<Rightarrow> nat \<Rightarrow> signed_ops decoder" where
  "signed_ops_decode X max_op_data_size input =
     and_then (c_dec (tx_ops_c X max_op_data_size) input)
       (\<lambda>(rest, tx). and_then (decode_with_ops (tx_op_list tx) rest)
          (\<lambda>(rest, proofs). case from_parts tx proofs of Inl _ \<Rightarrow> Inl CustomError | Inr stx \<Rightarrow> Inr (rest, stx)))"

definition signed_ops_ok :: "extern \<Rightarrow> nat \<Rightarrow> signed_ops \<Rightarrow> bool" where
  "signed_ops_ok X max_op_data_size tx \<longleftrightarrow>
     c_ok (tx_ops_c X max_op_data_size) (op_refs tx) \<and> list_all (\<lambda>(op, p). c_ok (proof_c op) p) (so_ops tx)"

subsection \<open>Every codec obeys the contract\<close>

named_theorems lawful_intros \<open>the codecs that obey the contract\<close>

declare lawful_uint [lawful_intros] lawful_nonzero [lawful_intros] lawful_fr [lawful_intros] lawful_pair [lawful_intros]

lemma lawful_encodes: "lawful C \<Longrightarrow> c_ok C x \<Longrightarrow> \<exists>bs. c_enc C x = Some bs"
  using codec.encodes [of "c_ok C" "c_len C" "c_enc C" "c_dec C" x] by (auto simp: lawful_def)

lemma small_bounds: "MAX_TRANSACTION_INPUTS \<le> MAX_ENCODABLE_LENGTH" "MAX_TRANSACTION_OUTPUTS \<le> MAX_ENCODABLE_LENGTH"
  "CHANNEL_MAX_KEYS \<le> MAX_ENCODABLE_LENGTH" "MAX_LOCATOR_BYTE_SIZE \<le> MAX_ENCODABLE_LENGTH"
  "MAX_DECLARATION_LOCATOR_COUNT \<le> MAX_ENCODABLE_LENGTH" "MAX_OPS_PER_TX \<le> MAX_ENCODABLE_LENGTH" "MAX_SIGNATURES \<le> MAX_ENCODABLE_LENGTH"
  by (simp_all add: MAX_TRANSACTION_INPUTS_def MAX_TRANSACTION_OUTPUTS_def CHANNEL_MAX_KEYS_def MAX_LOCATOR_BYTE_SIZE_def
      MAX_DECLARATION_LOCATOR_COUNT_def MAX_OPS_PER_TX_def MAX_SIGNATURES_def MAX_ENCODABLE_LENGTH_def)

lemma lawful_note [lawful_intros]: "lawful note_c"
  unfolding note_c_def by (rule lawful_conv) (auto intro: lawful_intros)

lemma lawful_inputs [lawful_intros]: "lawful inputs_c"
  unfolding inputs_c_def by (intro lawful_ordered_set lawful_intros small_bounds)

lemma lawful_outputs [lawful_intros]: "lawful outputs_c"
  unfolding outputs_c_def
  by (intro lawful_vec lawful_intros small_bounds disjI1) (simp add: MAX_TRANSACTION_OUTPUTS_def ZERO_LENGTH_ELEMENT_MAX_def)

lemma lawful_unverified_key [lawful_intros]: "lawful (unverified_key_c X)"
  unfolding unverified_key_c_def by (rule lawful_conv) (auto intro: lawful_intros split: if_splits)

lemma lawful_public_key [lawful_intros]: "lawful (public_key_c X)"
  unfolding public_key_c_def by (rule lawful_conv) (auto intro: lawful_intros split: if_splits)

lemma public_key_nonempty: "c_enc (public_key_c X) k \<noteq> Some []"
  using uint_nonempty [of 32 k] by (simp add: public_key_c_def unverified_key_c_def conv_c_def)

lemma lawful_byte [lawful_intros]: "lawful byte_c"
  unfolding byte_c_def
proof (rule lawful_conv)
  show "lawful (uint_c 1)" by (rule lawful_uint)
qed (auto simp: uint_c_def uint_ok_def unat_of_nat)

lemma byte_nonempty: "c_enc byte_c b \<noteq> Some []"
  using uint_nonempty [of 1 "unat b"] by (simp add: byte_c_def conv_c_def)

lemma lawful_data [lawful_intros]: "max_size < 2 ^ 32 \<Longrightarrow> lawful (runtime_vec_c 4 0 max_size byte_c)"
  by (intro lawful_runtime_vec lawful_intros disjI2) (use byte_nonempty in auto)

lemma lawful_transfer [lawful_intros]: "lawful transfer_c"
  unfolding transfer_c_def by (rule lawful_conv) (auto intro: lawful_intros)

lemma lawful_inscription [lawful_intros]: "max_size < 2 ^ 32 \<Longrightarrow> lawful (inscription_c X max_size)"
  unfolding inscription_c_def by (rule lawful_conv, (intro lawful_intros; assumption), auto)

lemma lawful_channel_keys [lawful_intros]: "lawful (vec_c 1 CHANNEL_MAX_KEYS (public_key_c X))"
  by (intro lawful_vec lawful_intros small_bounds disjI2) (use public_key_nonempty in blast)

lemma lawful_channel_config [lawful_intros]: "lawful (channel_config_c X)"
  unfolding channel_config_c_def by (rule lawful_conv, intro lawful_intros, auto simp: channel_config_new_def split: if_splits)

lemma lawful_deposit [lawful_intros]: "max_size < 2 ^ 32 \<Longrightarrow> lawful (deposit_c max_size)"
  unfolding deposit_c_def by (rule lawful_conv, (intro lawful_intros; assumption), auto)

lemma lawful_channel_withdraw [lawful_intros]: "lawful channel_withdraw_c"
  unfolding channel_withdraw_c_def by (rule lawful_conv) (auto intro: lawful_intros)

lemma lawful_channel_transfer [lawful_intros]: "lawful channel_transfer_c"
  unfolding channel_transfer_c_def by (rule lawful_conv) (auto intro: lawful_intros)

lemma lawful_service_type [lawful_intros]: "lawful service_type_c"
  unfolding service_type_c_def
  by (rule lawful_conv) (auto intro: lawful_intros simp: service_type_of_def service_type_code_def split: if_splits)

lemma packed_u64_sum:
  assumes "nonce_sequence n < 2 ^ 32"
  shows "packed_u64 n = lifecycle_epoch n * 2 ^ 32 + nonce_sequence n"
proof -
  have "take_bit 32 (nonce_sequence n) = nonce_sequence n" using assms by (simp add: take_bit_nat_eq_self)
  then have "push_bit 32 (lifecycle_epoch n) AND nonce_sequence n = push_bit 32 (lifecycle_epoch n) AND take_bit 32 (nonce_sequence n)" by simp
  also have "\<dots> = 0" by (rule bit_eqI) (auto simp: bit_simps)
  finally have "push_bit 32 (lifecycle_epoch n) AND nonce_sequence n = 0" .
  then show ?thesis by (simp add: packed_u64_def disjunctive_add_eq_or [symmetric] push_bit_eq_mult)
qed

lemma packed_from_packed: "r < 2 ^ 64 \<Longrightarrow> packed_u64 (from_packed_u64 r) = r"
proof -
  assume r: "r < 2 ^ 64"
  have "r div 2 ^ 32 < 2 ^ 32" using r by (simp add: div_less_iff_less_mult)
  then show ?thesis by (simp add: packed_u64_sum from_packed_u64_def drop_bit_eq_div)
qed

lemma from_packed_packed: "lifecycle_epoch n < 2 ^ 32 \<Longrightarrow> nonce_sequence n < 2 ^ 32 \<Longrightarrow> from_packed_u64 (packed_u64 n) = n"
  by (simp add: packed_u64_sum from_packed_u64_def drop_bit_eq_div)

lemma lawful_nonce [lawful_intros]: "lawful nonce_c"
  unfolding nonce_c_def
proof (rule lawful_conv)
  fix r y assume "c_ok (uint_c 8) r" "Some (from_packed_u64 r) = Some y"
  then show "packed_u64 y = r" using packed_from_packed [of r] by (auto simp: uint_c_def uint_ok_def)
qed (rule lawful_intros)

lemma locator_try_from_Some: "locator_try_from X r = Some y \<Longrightarrow> y = r"
  by (auto simp: locator_try_from_def bind_Some_iff split: if_splits)

lemma lawful_locator [lawful_intros]: "lawful (locator_c X)"
  unfolding locator_c_def
proof (rule lawful_conv)
  show "lawful (vec_c 0 MAX_LOCATOR_BYTE_SIZE byte_c)" by (intro lawful_vec lawful_intros small_bounds disjI2) (use byte_nonempty in blast)
qed (rule locator_try_from_Some)

lemma lawful_locators [lawful_intros]: "lawful (ordered_set_c 1 MAX_DECLARATION_LOCATOR_COUNT (locator_c X))"
  by (intro lawful_ordered_set lawful_intros small_bounds)

lemma lawful_sdp_declare [lawful_intros]: "lawful (sdp_declare_c X)"
  unfolding sdp_declare_c_def by (rule lawful_conv, intro lawful_intros, auto)

lemma lawful_sdp_withdraw [lawful_intros]: "lawful sdp_withdraw_c"
  unfolding sdp_withdraw_c_def by (rule lawful_conv, intro lawful_intros, auto)

lemma lawful_proof_of_quota [lawful_intros]: "lawful proof_of_quota_c"
  unfolding proof_of_quota_c_def by (rule lawful_conv, intro lawful_intros, auto)

lemma lawful_activity_proof [lawful_intros]: "lawful (activity_proof_c X)"
  unfolding activity_proof_c_def by (rule lawful_conv, intro lawful_intros, auto)

lemma lawful_activity_metadata [lawful_intros]: "lawful (activity_metadata_c X)"
  unfolding activity_metadata_c_def
proof (rule lawful_enum)
  fix t :: nat and C assume "[1 \<mapsto> variant_c Blend (\<lambda>m. case m of Blend p \<Rightarrow> Some p) (activity_proof_c X)] t = Some C"
  then have C: "t = 1" "C = variant_c Blend (\<lambda>m. case m of Blend p \<Rightarrow> Some p) (activity_proof_c X)" by (auto split: if_splits)
  have "lawful C" unfolding C(2) by (rule lawful_variant) (auto intro: lawful_intros split: activity_metadata.splits)
  then show "lawful C \<and> t < 256 \<and> (\<forall>y. c_ok C y \<longrightarrow> (case y of Blend _ \<Rightarrow> 1) = t)" using C(1) by (auto split: activity_metadata.splits)
qed

lemma lawful_sdp_active [lawful_intros]: "lawful (sdp_active_c X)"
  unfolding sdp_active_c_def by (rule lawful_conv, intro lawful_intros, auto)

lemma lawful_leader_claim [lawful_intros]: "lawful leader_claim_c"
  unfolding leader_claim_c_def by (rule lawful_conv, intro lawful_intros, auto)

lemma lawful_claim_pow_reward [lawful_intros]: "lawful claim_pow_reward_c"
  unfolding claim_pow_reward_c_def by (rule lawful_conv, intro lawful_intros, auto)

lemma op_variants_code:
  assumes "op_variants X m t = Some C" "c_ok C y"
  shows "op_code y = t"
  using assms unfolding op_variants_def
  by (auto simp: variant_c_def op_code_def split: if_splits op.splits option.splits)

lemma op_variants_lawful: "m < 2 ^ 32 \<Longrightarrow> op_variants X m t = Some C \<Longrightarrow> lawful C \<and> t < 256"
  unfolding op_variants_def
  by (auto split: if_splits op.splits intro!: lawful_variant lawful_intros)

lemma lawful_op [lawful_intros]: "m < 2 ^ 32 \<Longrightarrow> lawful (op_c X m)"
  unfolding op_c_def by (rule lawful_enum) (use op_variants_lawful op_variants_code in blast)

lemma lawful_tx_ops [lawful_intros]: "m < 2 ^ 32 \<Longrightarrow> lawful (tx_ops_c X m)"
  unfolding tx_ops_c_def
proof (rule lawful_conv)
  assume "m < 2 ^ 32"
  then have "lawful (vec_c 0 MAX_OPS_PER_TX (op_c X m))"
    by (intro lawful_vec lawful_intros small_bounds disjI1) (simp_all add: MAX_OPS_PER_TX_def ZERO_LENGTH_ELEMENT_MAX_def)
  then show "lawful (pair_c (uint_c 32) (vec_c 0 MAX_OPS_PER_TX (op_c X m)))" by (intro lawful_intros)
qed auto

lemma lawful_no_op_proof [lawful_intros]: "lawful no_op_proof_c"
  unfolding lawful_def no_op_proof_c_def codec_ops.select_convs by unfold_locales auto

lemma lawful_multi_sig [lawful_intros]: "lawful multi_sig_c"
  unfolding multi_sig_c_def by (intro lawful_btree_map lawful_intros small_bounds)

lemma lawful_zk_and_ed25519 [lawful_intros]: "lawful zk_and_ed25519_c"
  unfolding zk_and_ed25519_c_def by (rule lawful_conv, intro lawful_intros, auto)

lemma lawful_proof [lawful_intros]: "lawful (proof_c op)"
  unfolding proof_c_def ed25519_proof_c_def zk_proof_c_def multi_sig_proof_c_def
  by (cases op) (auto split: op_proof.splits intro!: lawful_variant lawful_intros)

lemma proof_c_matches: "c_ok (proof_c op) p \<Longrightarrow> proof_matches op p"
  by (cases op) (auto simp: proof_c_def proof_matches_def ed25519_proof_c_def zk_proof_c_def multi_sig_proof_c_def variant_c_def
      split: op_proof.splits option.splits)

subsection \<open>Signed transactions\<close>

lemma encode_proofs_Cons:
  "encode_proofs ((op, p) # ops) = do { b \<leftarrow> c_enc (proof_c op) p; bs \<leftarrow> encode_proofs ops; Some (b @ bs) }"
  by (cases "those (map (\<lambda>(op, y). c_enc (proof_c op) y) ops)") (auto simp: encode_proofs_def split: option.splits)

lemma proofs_encode:
  assumes "list_all (\<lambda>(op, p). c_ok (proof_c op) p) ops"
  shows "\<exists>bs. encode_proofs ops = Some bs \<and> (length bs < 2 ^ 64 \<longrightarrow>
    (\<exists>ns. those (map (\<lambda>(op, p). c_len (proof_c op) p) ops) = Some ns \<and> sum_list ns = length bs))"
  using assms
proof (induction ops)
  case (Cons x ops)
  obtain op p where x: "x = (op, p)" by (cases x)
  obtain bs where bs: "encode_proofs ops = Some bs" "length bs < 2 ^ 64 \<longrightarrow>
      (\<exists>ns. those (map (\<lambda>(op, p). c_len (proof_c op) p) ops) = Some ns \<and> sum_list ns = length bs)"
    using Cons by auto
  obtain b where b: "c_enc (proof_c op) p = Some b" "length b < 2 ^ 64 \<longrightarrow> c_len (proof_c op) p = Some (length b)"
    using codec.encodes [OF lawful_proof [of op, unfolded lawful_def]] Cons.prems x by fastforce
  have "\<exists>ns. those (map (\<lambda>(op, p). c_len (proof_c op) p) (x # ops)) = Some ns \<and> sum_list ns = length (b @ bs)"
    if "length (b @ bs) < 2 ^ 64"
  proof -
    have "length b < 2 ^ 64" "length bs < 2 ^ 64" using that by simp_all
    then show ?thesis using b(2) bs(2) x by fastforce
  qed
  moreover have "encode_proofs (x # ops) = Some (b @ bs)" using b(1) bs(1) x by (simp add: encode_proofs_Cons)
  ultimately show ?case by blast
qed (simp add: encode_proofs_def)

lemma proofs_decode:
  "list_all (\<lambda>(op, p). c_ok (proof_c op) p) ops \<Longrightarrow> encode_proofs ops = Some bs \<Longrightarrow>
   decode_with_ops (map fst ops) (bs @ rest) = Inr (rest, map snd ops)"
proof (induction ops arbitrary: bs)
  case (Cons x ops)
  obtain op p where x: "x = (op, p)" by (cases x)
  obtain b bs' where b: "c_enc (proof_c op) p = Some b" "encode_proofs ops = Some bs'" "bs = b @ bs'"
    using Cons.prems(2) x by (auto simp: encode_proofs_Cons bind_Some_iff)
  have "c_dec (proof_c op) (b @ bs' @ rest) = Inr (bs' @ rest, p)"
    using codec.decodes [OF lawful_proof [of op, unfolded lawful_def] _ b(1)] Cons.prems(1) x by simp
  moreover have "decode_with_ops (map fst ops) (bs' @ rest) = Inr (rest, map snd ops)" using Cons.IH [OF _ b(2)] Cons.prems(1) by simp
  ultimately show ?case using b(3) x by (simp add: and_then_def)
qed (simp add: encode_proofs_def)

lemma proofs_canonical:
  "decode_with_ops ops input = Inr (rest, ps) \<Longrightarrow> length ps = length ops \<and> list_all (\<lambda>(op, p). c_ok (proof_c op) p) (zip ops ps) \<and>
   (\<exists>bs. encode_proofs (zip ops ps) = Some bs \<and> input = bs @ rest)"
proof (induction ops arbitrary: input ps)
  case (Cons op ops)
  obtain r p ps' where r: "c_dec (proof_c op) input = Inr (r, p)" "decode_with_ops ops r = Inr (rest, ps')" "ps = p # ps'"
    using Cons.prems by (auto simp: and_then_def split: sum.splits)
  obtain b where "c_ok (proof_c op) p" "c_enc (proof_c op) p = Some b" "input = b @ r"
    using codec.canonical_input [OF lawful_proof [of op, unfolded lawful_def] r(1)] by blast
  then show ?case using Cons.IH [OF r(2)] r(3) by (auto simp: encode_proofs_Cons)
qed (simp add: encode_proofs_def)

lemma find_enumerate_None:
  "find (\<lambda>(i, op, p). \<not> proof_matches op p) (enumerate n xs) = None \<longleftrightarrow> list_all (\<lambda>(op, p). proof_matches op p) xs"
  by (induction xs arbitrary: n) (auto simp del: not_None_eq)

lemma from_parts_iff:
  "from_parts tx ps = Inr stx \<longleftrightarrow> length ps = length (tx_op_list tx) \<and> list_all (\<lambda>(op, p). proof_matches op p) (zip (tx_op_list tx) ps) \<and>
   stx = \<lparr>so_fork_digest = fork_digest tx, so_ops = zip (tx_op_list tx) ps\<rparr>"
proof (cases "find (\<lambda>(i, op, p). \<not> proof_matches op p) (enumerate 0 (zip (tx_op_list tx) ps))")
  case None
  then show ?thesis using find_enumerate_None [of 0 "zip (tx_op_list tx) ps"] by (auto simp: from_parts_def)
next
  case (Some x)
  moreover have "\<not> list_all (\<lambda>(op, p). proof_matches op p) (zip (tx_op_list tx) ps)"
    using find_enumerate_None [of 0 "zip (tx_op_list tx) ps"] Some by simp
  ultimately show ?thesis by (cases x) (simp add: from_parts_def)
qed

lemma signed_ops_codec:
  assumes "m < 2 ^ 32"
  shows "codec (signed_ops_ok X m) (signed_ops_length X m) (signed_ops_encode X m) (signed_ops_decode X m)"
proof
  note ops = lawful_tx_ops [OF assms, of X, unfolded lawful_def]
  fix tx assume tx: "signed_ops_ok X m tx"
  then have v: "c_ok (tx_ops_c X m) (op_refs tx)" "list_all (\<lambda>(op, p). c_ok (proof_c op) p) (so_ops tx)" by (simp_all add: signed_ops_ok_def)
  obtain a where a: "c_enc (tx_ops_c X m) (op_refs tx) = Some a" "length a < 2 ^ 64 \<longrightarrow> c_len (tx_ops_c X m) (op_refs tx) = Some (length a)"
    using codec.encodes [OF ops v(1)] by blast
  obtain b where b: "encode_proofs (so_ops tx) = Some b" "length b < 2 ^ 64 \<longrightarrow>
      (\<exists>ns. those (map (\<lambda>(op, p). c_len (proof_c op) p) (so_ops tx)) = Some ns \<and> sum_list ns = length b)"
    using proofs_encode [OF v(2)] by blast
  have "signed_ops_length X m tx = Some (length (a @ b))" if "length (a @ b) < 2 ^ 64"
  proof -
    have "length a < 2 ^ 64" "length b < 2 ^ 64" using that by simp_all
    then show ?thesis using a(2) b(2) that by (auto simp: signed_ops_length_def wrapping_add_def)
  qed
  then show "\<exists>bs. signed_ops_encode X m tx = Some bs \<and> (length bs < 2 ^ 64 \<longrightarrow> signed_ops_length X m tx = Some (length bs))"
    using a(1) b(1) by (intro exI [of _ "a @ b"]) (simp add: signed_ops_encode_def)
  fix bs rest assume "signed_ops_encode X m tx = Some bs"
  then have bs: "bs = a @ b" using a(1) b(1) by (simp add: signed_ops_encode_def)
  have "list_all (\<lambda>(op, p). proof_matches op p) (so_ops tx)" using v(2) proof_c_matches by (fastforce simp: list_all_iff)
  then have "from_parts (op_refs tx) (map snd (so_ops tx)) = Inr tx" by (simp add: from_parts_iff op_refs_def zip_map_fst_snd)
  moreover have "c_dec (tx_ops_c X m) (a @ b @ rest) = Inr (b @ rest, op_refs tx)" by (rule codec.decodes [OF ops v(1) a(1)])
  moreover have "decode_with_ops (tx_op_list (op_refs tx)) (b @ rest) = Inr (rest, map snd (so_ops tx))"
    using proofs_decode [OF v(2) b(1)] by (simp add: op_refs_def)
  ultimately show "signed_ops_decode X m (bs @ rest) = Inr (rest, tx)" using bs by (simp add: signed_ops_decode_def and_then_def)
next
  note ops = lawful_tx_ops [OF assms, of X, unfolded lawful_def]
  fix input rest stx assume "signed_ops_decode X m input = Inr (rest, stx)"
  then obtain r tx ps where r: "c_dec (tx_ops_c X m) input = Inr (r, tx)" "decode_with_ops (tx_op_list tx) r = Inr (rest, ps)"
      "from_parts tx ps = Inr stx"
    by (auto simp: signed_ops_decode_def and_then_def split: sum.splits)
  obtain a where a: "c_ok (tx_ops_c X m) tx" "c_enc (tx_ops_c X m) tx = Some a" "input = a @ r" using codec.canonical_input [OF ops r(1)] by blast
  obtain b where b: "length ps = length (tx_op_list tx)" "list_all (\<lambda>(op, p). c_ok (proof_c op) p) (zip (tx_op_list tx) ps)"
      "encode_proofs (zip (tx_op_list tx) ps) = Some b" "r = b @ rest" using proofs_canonical [OF r(2)] by blast
  have s: "op_refs stx = tx" "so_ops stx = zip (tx_op_list tx) ps" using r(3) b(1) by (auto simp: from_parts_iff op_refs_def)
  show "signed_ops_ok X m stx \<and> (\<exists>bs. signed_ops_encode X m stx = Some bs \<and> input = bs @ rest)"
    using a b s by (simp add: signed_ops_ok_def signed_ops_encode_def)
qed

text \<open>
  C6: A signed transaction has exactly one encoding.  Every well-formed transaction is encoded, decoding the whole input
  succeeds precisely on encodings and gives the transaction back, and no proper prefix of an encoding decodes.
\<close>

theorem signed_tx_encoding_unique:
  assumes "max_op_data_size < 2 ^ 32"
  shows "(decode_all (signed_ops_decode X max_op_data_size) input = Inr tx \<longleftrightarrow>
            signed_ops_ok X max_op_data_size tx \<and> signed_ops_encode X max_op_data_size tx = Some input) \<and>
    (signed_ops_ok X max_op_data_size tx \<longrightarrow> (\<exists>bs. signed_ops_encode X max_op_data_size tx = Some bs \<and>
       (\<forall>k<length bs. \<exists>e. signed_ops_decode X max_op_data_size (take k bs) = Inl e)))"
proof (intro conjI impI)
  note c = signed_ops_codec [OF assms, of X]
  show "decode_all (signed_ops_decode X max_op_data_size) input = Inr tx \<longleftrightarrow>
      signed_ops_ok X max_op_data_size tx \<and> signed_ops_encode X max_op_data_size tx = Some input"
    by (rule codec.decode_all_iff [OF c])
  assume tx: "signed_ops_ok X max_op_data_size tx"
  then obtain bs where bs: "signed_ops_encode X max_op_data_size tx = Some bs" using codec.encodes [OF c tx] by blast
  then show "\<exists>bs. signed_ops_encode X max_op_data_size tx = Some bs \<and>
      (\<forall>k<length bs. \<exists>e. signed_ops_decode X max_op_data_size (take k bs) = Inl e)"
    using codec.truncated [OF c tx bs] by blast
qed

definition example_extern :: extern where
  "example_extern = \<lparr>permute = (\<lambda>(a, b, c). (a + 2 * b + 5 * c + 1, a, b)), blake2b = (\<lambda>bs. from_le_bytes (bs @ [1])),
     is_point = (\<lambda>_. True), is_weak = (\<lambda>k. k = 0), verify_strict = (\<lambda>k m s. s = k + 1), multiaddr = (\<lambda>bs. Some [OtherProtocol])\<rparr>"

definition example_tx :: signed_ops where
  "example_tx = \<lparr>so_fork_digest = 7, so_ops =
     [(Transfer \<lparr>t_inputs = [3, 4], t_outputs = [\<lparr>note_value = 10, note_pk = 9\<rparr>]\<rparr>, ZkSig 5),
      (ChannelWithdraw \<lparr>w_channel_id = 2, w_inputs = [8]\<rparr>, ChannelMultiSigProof [(0, 6), (2, 1)])]\<rparr>"

lemma example_tx_ok: "signed_ops_ok example_extern 1024 example_tx"
  by (simp add: signed_ops_ok_def example_tx_def op_refs_def tx_ops_c_def conv_c_def pair_c_def pair_ok_def vec_c_def bounded_ok_def
      MAX_OPS_PER_TX_def uint_c_def uint_ok_def op_c_def enum_c_def op_code_def op_variants_def variant_c_def transfer_c_def
      inputs_c_def ordered_set_c_def MAX_TRANSACTION_INPUTS_def MAX_TRANSACTION_OUTPUTS_def outputs_c_def note_c_def fr_c_def fr_ok_def
      fr_modulus_def channel_withdraw_c_def proof_c_def zk_proof_c_def multi_sig_proof_c_def multi_sig_c_def btree_map_c_def MAX_SIGNATURES_def)

theorem signed_tx_encoding_unique_witness:
  "\<exists>bs. signed_ops_encode example_extern 1024 example_tx = Some bs \<and> decode_all (signed_ops_decode example_extern 1024) bs = Inr example_tx"
proof -
  obtain bs where bs: "signed_ops_encode example_extern 1024 example_tx = Some bs"
    using signed_tx_encoding_unique [of 1024 example_extern "[]" example_tx] example_tx_ok by auto
  then show ?thesis using signed_tx_encoding_unique [of 1024 example_extern bs example_tx] example_tx_ok by simp
qed

text \<open>
  C24: The hash of a transaction binds its fork digest and its operations: if two different transactions have the same hash, then
  their canonical encodings differ and the two hashed messages, the domain tag followed by these encodings, are a collision of Blake2b.
\<close>

theorem tx_hash_binding:
  assumes "max_op_data_size < 2 ^ 32" "c_ok (tx_ops_c X max_op_data_size) tx" "c_ok (tx_ops_c X max_op_data_size) tx'"
    and "tx \<noteq> tx'" "tx_hash X max_op_data_size tx = tx_hash X max_op_data_size tx'"
  shows "\<exists>a b. c_enc (tx_ops_c X max_op_data_size) tx = Some a \<and> c_enc (tx_ops_c X max_op_data_size) tx' = Some b \<and> a \<noteq> b \<and>
    blake2b X (ascii ''MANTLE_TXHASH_V1'' @ a) = blake2b X (ascii ''MANTLE_TXHASH_V1'' @ b)"
proof -
  note c = lawful_tx_ops [OF assms(1), of X, unfolded lawful_def]
  obtain a b where ab: "c_enc (tx_ops_c X max_op_data_size) tx = Some a" "c_enc (tx_ops_c X max_op_data_size) tx' = Some b"
    using codec.encodes [OF c] assms(2,3) by blast
  then have "blake2b X (ascii ''MANTLE_TXHASH_V1'' @ a) = blake2b X (ascii ''MANTLE_TXHASH_V1'' @ b)"
    using assms(5) by (simp add: tx_hash_def)
  moreover have "a \<noteq> b" using codec.prefix_free [OF c assms(2,3) ab, of "[]" "[]"] assms(4) by blast
  ultimately show ?thesis using ab by blast
qed

text \<open>A broken hash: two transactions that differ in the fork digest only, under a constant \<open>blake2b\<close>.\<close>

definition constant_hash :: extern where
  "constant_hash = example_extern\<lparr>blake2b := \<lambda>_. 1\<rparr>"

lemma constant_hash_ok:
  "c_ok (tx_ops_c constant_hash 1024) \<lparr>fork_digest = 7, tx_op_list = []\<rparr>"
  "c_ok (tx_ops_c constant_hash 1024) \<lparr>fork_digest = 8, tx_op_list = []\<rparr>"
  by (simp_all add: tx_ops_c_def conv_c_def pair_c_def pair_ok_def vec_c_def bounded_ok_def MAX_OPS_PER_TX_def uint_c_def uint_ok_def)

lemma constant_hash_equal:
  "tx_hash constant_hash 1024 \<lparr>fork_digest = 7, tx_op_list = []\<rparr> = tx_hash constant_hash 1024 \<lparr>fork_digest = 8, tx_op_list = []\<rparr>"
  using lawful_encodes [OF lawful_tx_ops constant_hash_ok(1)] lawful_encodes [OF lawful_tx_ops constant_hash_ok(2)]
  by (auto simp: tx_hash_def constant_hash_def)

theorem tx_hash_binding_witness:
  "\<exists>a b. c_enc (tx_ops_c constant_hash 1024) \<lparr>fork_digest = 7, tx_op_list = []\<rparr> = Some a \<and>
     c_enc (tx_ops_c constant_hash 1024) \<lparr>fork_digest = 8, tx_op_list = []\<rparr> = Some b \<and> a \<noteq> b \<and>
     blake2b constant_hash (ascii ''MANTLE_TXHASH_V1'' @ a) = blake2b constant_hash (ascii ''MANTLE_TXHASH_V1'' @ b)"
  by (rule tx_hash_binding [OF _ constant_hash_ok _ constant_hash_equal]) simp_all

interpretation signed_tx: codec "signed_ops_ok X 1024" "signed_ops_length X 1024" "signed_ops_encode X 1024" "signed_ops_decode X 1024"
  for X :: extern
  by (rule signed_ops_codec) simp

end
