(* ===== verification/ServiceNotes.thy ===== *)
theory ServiceNotes
  imports Ops "HOL-Library.AList"
begin

text \<open>
  The notes in service (\<^verbatim>\<open>core/src/sdp/service_notes.rs\<close>): a note locked as the collateral of one declaration per service.

  The services of a note are the list of their entries, each service once.  The lemmas describe \<^verbatim>\<open>lock\<close> and \<^verbatim>\<open>unlock\<close> by
  the bindings they change: \<open>bound sn n t\<close> is the declaration that note \<open>n\<close> backs for service \<open>t\<close>, and a note is in
  service exactly while it has a binding (\<open>service_notes_ok\<close>).
\<close>

type_synonym declaration_id = nat

record min_stake =
  threshold :: nat
  timestamp :: nat

datatype service_notes_error =
    NoteInsufficientValue note_id nat
  | NoteAlreadyUsedForService note_id service_type
  | NoteNotUsedForService note_id service_type
  | NotAServiceNote note_id

record service_note =
  sn_note :: ledger_note
  sn_services :: "(service_type \<times> declaration_id) list"

type_synonym service_notes = "note_id \<rightharpoonup> service_note"

definition sn_new :: service_notes where
  "sn_new = Map.empty"

definition sn_get :: "service_notes \<Rightarrow> note_id \<Rightarrow> ledger_note option" where
  "sn_get sn note_id = map_option sn_note (sn note_id)"

definition sn_contains :: "service_notes \<Rightarrow> note_id \<Rightarrow> bool" where
  "sn_contains sn note_id \<longleftrightarrow> sn note_id \<noteq> None"

definition lock ::
  "min_stake \<Rightarrow> service_type \<Rightarrow> declaration_id \<Rightarrow> ledger_note \<Rightarrow> note_id \<Rightarrow> service_notes \<Rightarrow> service_notes_error + service_notes" where
  "lock min_stake service did n note_id sn =
     (if note_value n < threshold min_stake then Inl (NoteInsufficientValue note_id (note_value n))
      else case sn note_id of
             Some s \<Rightarrow>
               if map_of (sn_services s) service \<noteq> None then Inl (NoteAlreadyUsedForService note_id service)
               else Inr (sn(note_id \<mapsto> s\<lparr>sn_services := AList.update service did (sn_services s)\<rparr>))
           | None \<Rightarrow> Inr (sn(note_id \<mapsto> \<lparr>sn_note = n, sn_services = [(service, did)]\<rparr>)))"

definition is_used_for_service :: "service_notes \<Rightarrow> note_id \<Rightarrow> service_type \<Rightarrow> bool" where
  "is_used_for_service sn note_id service \<longleftrightarrow>
     (case sn note_id of None \<Rightarrow> False | Some s \<Rightarrow> map_of (sn_services s) service \<noteq> None)"

definition is_used_by_declaration :: "service_notes \<Rightarrow> note_id \<Rightarrow> service_type \<Rightarrow> declaration_id \<Rightarrow> bool" where
  "is_used_by_declaration sn note_id service did \<longleftrightarrow>
     Option.bind (sn note_id) (\<lambda>s. map_of (sn_services s) service) = Some did"

definition unlock ::
  "service_type \<Rightarrow> declaration_id \<Rightarrow> note_id \<Rightarrow> service_notes \<Rightarrow> service_notes_error + service_notes \<times> ledger_note" where
  "unlock service did note_id sn =
     (case sn note_id of
        Some s \<Rightarrow>
          if map_of (sn_services s) service \<noteq> Some did then Inl (NoteNotUsedForService note_id service)
          else let services = AList.delete service (sn_services s)
               in Inr (if services = [] then sn(note_id := None) else sn(note_id \<mapsto> s\<lparr>sn_services := services\<rparr>), sn_note s)
      | None \<Rightarrow> Inl (NotAServiceNote note_id))"

subsection \<open>Bindings\<close>

definition bound :: "service_notes \<Rightarrow> note_id \<Rightarrow> service_type \<Rightarrow> declaration_id option" where
  "bound sn n t = Option.bind (sn n) (\<lambda>s. map_of (sn_services s) t)"

definition service_notes_ok :: "service_notes \<Rightarrow> bool" where
  "service_notes_ok sn \<longleftrightarrow> finite (dom sn) \<and> (\<forall>n s. sn n = Some s \<longrightarrow> sn_services s \<noteq> [] \<and> distinct (map fst (sn_services s)))"

lemma bound_iffs:
  "is_used_for_service sn n t \<longleftrightarrow> bound sn n t \<noteq> None"
  "is_used_by_declaration sn n t d \<longleftrightarrow> bound sn n t = Some d"
  by (auto simp: is_used_for_service_def is_used_by_declaration_def bound_def split: option.splits)

lemma sn_contains_bound:
  assumes "service_notes_ok sn"
  shows "sn_contains sn n \<longleftrightarrow> (\<exists>t. bound sn n t \<noteq> None)"
proof (cases "sn n")
  case (Some s)
  then obtain x xs where "sn_services s = x # xs" using assms by (cases "sn_services s") (auto simp: service_notes_ok_def)
  then have "map_of (sn_services s) (fst x) = Some (snd x)" by simp
  then show ?thesis using Some by (auto simp: sn_contains_def bound_def)
qed (simp add: sn_contains_def bound_def)

lemma service_notes_new: "service_notes_ok sn_new" "bound sn_new n t = None"
  by (simp_all add: service_notes_ok_def sn_new_def bound_def)

lemma lock_spec:
  assumes "service_notes_ok sn"
  shows "lock m t d v n sn = Inr sn' \<Longrightarrow> service_notes_ok sn' \<and> bound sn n t = None \<and> threshold m \<le> note_value v \<and>
      (\<forall>n' t'. bound sn' n' t' = (if n' = n \<and> t' = t then Some d else bound sn n' t')) \<and>
      (\<forall>n'. sn_get sn' n' = (if n' = n \<and> sn n = None then Some v else sn_get sn n'))"
    and "threshold m \<le> note_value v \<Longrightarrow> bound sn n t = None \<Longrightarrow> \<exists>sn'. lock m t d v n sn = Inr sn'"
proof -
  assume "lock m t d v n sn = Inr sn'"
  then show "service_notes_ok sn' \<and> bound sn n t = None \<and> threshold m \<le> note_value v \<and>
      (\<forall>n' t'. bound sn' n' t' = (if n' = n \<and> t' = t then Some d else bound sn n' t')) \<and>
      (\<forall>n'. sn_get sn' n' = (if n' = n \<and> sn n = None then Some v else sn_get sn n'))"
    using assms by (auto simp: lock_def service_notes_ok_def bound_def sn_get_def update_conv' distinct_update map_of_eq_None_iff split: if_splits option.splits)
next
  show "threshold m \<le> note_value v \<Longrightarrow> bound sn n t = None \<Longrightarrow> \<exists>sn'. lock m t d v n sn = Inr sn'"
    by (auto simp: lock_def bound_def split: option.splits)
qed

lemma unlock_spec:
  assumes "service_notes_ok sn"
  shows "(\<exists>r. unlock t d n sn = Inr r) \<longleftrightarrow> bound sn n t = Some d"
    and "unlock t d n sn = Inr (sn', v) \<Longrightarrow> service_notes_ok sn' \<and> sn_get sn n = Some v \<and>
      (\<forall>n' t'. bound sn' n' t' = (if n' = n \<and> t' = t then None else bound sn n' t')) \<and>
      (\<forall>n'. sn_contains sn' n' \<longrightarrow> sn_get sn' n' = sn_get sn n')"
proof -
  show "(\<exists>r. unlock t d n sn = Inr r) \<longleftrightarrow> bound sn n t = Some d"
    by (auto simp: unlock_def bound_def Let_def split: option.splits)
next
  assume u: "unlock t d n sn = Inr (sn', v)"
  then obtain s where s: "sn n = Some s" "map_of (sn_services s) t = Some d" "v = sn_note s"
      "sn' = (if AList.delete t (sn_services s) = [] then sn(n := None) else sn(n \<mapsto> s\<lparr>sn_services := AList.delete t (sn_services s)\<rparr>))"
    by (auto simp: unlock_def Let_def split: option.splits if_splits)
  have del: "map_of (AList.delete t (sn_services s)) t' = (if t' = t then None else map_of (sn_services s) t')" for t'
    by (simp add: delete_conv')
  have "bound sn' n' t' = (if n' = n \<and> t' = t then None else bound sn n' t')" for n' t'
    using s(1,4) del [of t'] by (auto simp: bound_def)
  moreover have "service_notes_ok sn'" using assms s by (auto simp: service_notes_ok_def distinct_delete)
  moreover have "sn_contains sn' n' \<longrightarrow> sn_get sn' n' = sn_get sn n'" for n'
    using s by (auto simp: sn_contains_def sn_get_def)
  ultimately show "service_notes_ok sn' \<and> sn_get sn n = Some v \<and>
      (\<forall>n' t'. bound sn' n' t' = (if n' = n \<and> t' = t then None else bound sn n' t')) \<and>
      (\<forall>n'. sn_contains sn' n' \<longrightarrow> sn_get sn' n' = sn_get sn n')"
    using s(1,3) by (simp add: sn_get_def)
qed

end
