(* ===== verification/DynMerkle.thy ===== *)
theory DynMerkle
  imports MerkleRef
begin

text \<open>
  The dynamic Merkle tree of \<^verbatim>\<open>merkle/dynamic-merkle/src/lib.rs\<close>.

  A node is the source's \<^verbatim>\<open>Node\<close>; the hasher is the pair of \<open>compress\<close> and the empty value \<open>zero\<close>.  Every
  assertion, \<^verbatim>\<open>expect\<close> and \<^verbatim>\<open>panic!\<close> of the source is \<^term>\<open>None\<close>.  The lemmas show that every operation keeps
  the tree canonical (\<open>canonical\<close>), that a canonical tree is determined by its leaves (\<open>contents\<close>), and that
  insertion uses the lowest free position.
\<close>

datatype 'h node =
    Inner (nd_left: "'h node") (nd_right: "'h node") (nd_value: 'h)
      (right_subtree_size: nat) (left_subtree_size: nat) (nd_height: nat)
  | Empty nat
  | Leaf 'h

datatype 'h merkle_node = LeftNode (node_item: 'h) | RightNode (node_item: 'h)

definition TREE_HEIGHT_EXCEPT_ROOT :: nat where
  "TREE_HEIGHT_EXCEPT_ROOT = 32"

definition tree_empty_root :: "('h \<Rightarrow> 'h \<Rightarrow> 'h) \<Rightarrow> 'h \<Rightarrow> nat \<Rightarrow> 'h option" where
  "tree_empty_root compress zero height =
     (if height \<le> TREE_HEIGHT_EXCEPT_ROOT then Some (empty_roots compress zero height) else None)"

fun node_value :: "('h \<Rightarrow> 'h \<Rightarrow> 'h) \<Rightarrow> 'h \<Rightarrow> 'h node \<Rightarrow> 'h option" where
  "node_value compress zero (Inner _ _ v _ _ _) = Some v"
| "node_value compress zero (Leaf v) = Some v"
| "node_value compress zero (Empty height) = tree_empty_root compress zero height"

definition node_hash :: "('h \<Rightarrow> 'h \<Rightarrow> 'h) \<Rightarrow> 'h \<Rightarrow> 'h node \<Rightarrow> 'h node \<Rightarrow> 'h option" where
  "node_hash compress zero left right =
     do { a \<leftarrow> node_value compress zero left; b \<leftarrow> node_value compress zero right; Some (compress a b) }"

fun node_size :: "'h node \<Rightarrow> nat" where
  "node_size (Inner _ _ _ right_size left_size _) = wrapping_add 64 left_size right_size"
| "node_size (Leaf _) = 1"
| "node_size (Empty _) = 0"

fun node_height :: "'h node \<Rightarrow> nat" where
  "node_height (Inner _ _ _ _ _ height) = height"
| "node_height (Empty height) = height"
| "node_height (Leaf _) = 0"

definition node_capacity :: "'h node \<Rightarrow> nat" where
  "node_capacity n = 2 ^ (node_height n mod 64)"

fun first_empty_index :: "'h node \<Rightarrow> nat option" where
  "first_empty_index (Inner left right _ _ _ _) =
     (if node_size left < node_capacity left then first_empty_index left
      else if node_size right < node_capacity right
      then map_option (\<lambda>index. wrapping_add 64 (node_capacity left) index) (first_empty_index right)
      else None)"
| "first_empty_index (Empty _) = Some 0"
| "first_empty_index (Leaf _) = None"

definition new_inner :: "('h \<Rightarrow> 'h \<Rightarrow> 'h) \<Rightarrow> 'h \<Rightarrow> 'h node \<Rightarrow> 'h node \<Rightarrow> 'h node option" where
  "new_inner compress zero left right =
     (case (left, right) of
        (Empty left_height, Empty right_height) \<Rightarrow>
          if left_height = right_height then Some (Empty (wrapping_add 64 left_height 1)) else None
      | _ \<Rightarrow>
          if node_height left = node_height right
          then do { v \<leftarrow> node_hash compress zero left right;
                    Some (Inner left right v (node_size right) (node_size left)
                            (wrapping_add 64 (node_height left) 1)) }
          else None)"

datatype rebuild_error =
  EmptyHeightExceedsTree | SiblingHeightsDiffer | TreeHeightExceedsFixed | InvalidRootShape

fun rebuild_and_validate ::
  "('h \<Rightarrow> 'h \<Rightarrow> 'h) \<Rightarrow> 'h \<Rightarrow> 'h node \<Rightarrow> (rebuild_error + 'h node) option" where
  "rebuild_and_validate compress zero (Empty height) =
     Some (if TREE_HEIGHT_EXCEPT_ROOT < height then Inl EmptyHeightExceedsTree else Inr (Empty height))"
| "rebuild_and_validate compress zero (Leaf v) = Some (Inr (Leaf v))"
| "rebuild_and_validate compress zero (Inner left right _ _ _ _) =
     do { l \<leftarrow> rebuild_and_validate compress zero left;
          case l of
            Inl e \<Rightarrow> Some (Inl e)
          | Inr left \<Rightarrow>
              do { r \<leftarrow> rebuild_and_validate compress zero right;
                   case r of
                     Inl e \<Rightarrow> Some (Inl e)
                   | Inr right \<Rightarrow>
                       if node_height left \<noteq> node_height right then Some (Inl SiblingHeightsDiffer)
                       else do { n \<leftarrow> new_inner compress zero left right;
                                 Some (if TREE_HEIGHT_EXCEPT_ROOT < node_height n
                                       then Inl TreeHeightExceedsFixed else Inr n) } } }"

definition deserialize_tree ::
  "('h \<Rightarrow> 'h \<Rightarrow> 'h) \<Rightarrow> 'h \<Rightarrow> 'h node \<Rightarrow> (rebuild_error + 'h node) option" where
  "deserialize_tree compress zero raw =
     do { r \<leftarrow> rebuild_and_validate compress zero raw;
          Some (case r of
                  Inl e \<Rightarrow> Inl e
                | Inr root \<Rightarrow>
                    if node_height root \<noteq> TREE_HEIGHT_EXCEPT_ROOT \<or> (case root of Leaf _ \<Rightarrow> True | _ \<Rightarrow> False)
                    then Inl InvalidRootShape else Inr root) }"

primrec expansion :: "'h node \<Rightarrow> nat" where
  "expansion (Inner left right _ _ _ _) = Suc (expansion left + expansion right)"
| "expansion (Empty height) = height"
| "expansion (Leaf _) = 0"

function insert_or_modify ::
  "('h \<Rightarrow> 'h \<Rightarrow> 'h) \<Rightarrow> 'h \<Rightarrow> 'h node \<Rightarrow> nat \<Rightarrow> ('h node \<Rightarrow> 'h node option) \<Rightarrow> 'h node option" where
  "insert_or_modify compress zero (Inner left right v rs ls height) index f =
     (if index < node_capacity (Inner left right v rs ls height)
      then if index < node_capacity left
           then do { left \<leftarrow> insert_or_modify compress zero left index f; new_inner compress zero left right }
           else do { right \<leftarrow> insert_or_modify compress zero right (index - node_capacity left) f;
                     new_inner compress zero left right }
      else None)"
| "insert_or_modify compress zero (Empty (Suc height)) index f =
     (if index = 0
      then do { left \<leftarrow> insert_or_modify compress zero (Empty height) index f;
                new_inner compress zero left (Empty height) }
      else None)"
| "insert_or_modify compress zero (Empty 0) index f = (if index = 0 then f (Empty 0) else None)"
| "insert_or_modify compress zero (Leaf v) index f = (if index = 0 then f (Leaf v) else None)"
  by pat_completeness auto
termination
  by (relation "measure (\<lambda>(_, _, n, _, _). expansion n)") auto

definition insert_at :: "('h \<Rightarrow> 'h \<Rightarrow> 'h) \<Rightarrow> 'h \<Rightarrow> 'h node \<Rightarrow> nat \<Rightarrow> 'h \<Rightarrow> 'h node option" where
  "insert_at compress zero n index v =
     insert_or_modify compress zero n index
       (\<lambda>n. case n of Empty _ \<Rightarrow> Some (Leaf v) | Leaf _ \<Rightarrow> None | Inner _ _ _ _ _ _ \<Rightarrow> None)"

definition remove_at :: "('h \<Rightarrow> 'h \<Rightarrow> 'h) \<Rightarrow> 'h \<Rightarrow> 'h node \<Rightarrow> nat \<Rightarrow> 'h node option" where
  "remove_at compress zero n index =
     insert_or_modify compress zero n index (\<lambda>n. case n of Leaf _ \<Rightarrow> Some (Empty 0) | _ \<Rightarrow> None)"

definition update_at :: "('h \<Rightarrow> 'h \<Rightarrow> 'h) \<Rightarrow> 'h \<Rightarrow> 'h node \<Rightarrow> nat \<Rightarrow> 'h \<Rightarrow> 'h node option" where
  "update_at compress zero n index v =
     insert_or_modify compress zero n index (\<lambda>n. case n of Leaf _ \<Rightarrow> Some (Leaf v) | _ \<Rightarrow> None)"

text \<open>One level of a path: the sibling is appended, unless the path is full.\<close>

definition extend_path ::
  "'h merkle_node list option \<Rightarrow> 'h merkle_node option \<Rightarrow> 'h merkle_node list option option" where
  "extend_path path sibling_node =
     (case path of
        None \<Rightarrow> Some None
      | Some path \<Rightarrow>
          if TREE_HEIGHT_EXCEPT_ROOT \<le> length path then Some None
          else do { s \<leftarrow> sibling_node; Some (Some (path @ [s])) })"

fun node_path :: "('h \<Rightarrow> 'h \<Rightarrow> 'h) \<Rightarrow> 'h \<Rightarrow> 'h node \<Rightarrow> nat \<Rightarrow> 'h merkle_node list option option" where
  "node_path compress zero (Inner left right v rs ls height) index =
     (if index < node_capacity (Inner left right v rs ls height)
      then if index < node_capacity left
           then do { path \<leftarrow> node_path compress zero left index;
                     extend_path path (map_option RightNode (node_value compress zero right)) }
           else do { path \<leftarrow> node_path compress zero right (index - node_capacity left);
                     extend_path path (map_option LeftNode (node_value compress zero left)) }
      else None)"
| "node_path compress zero (Leaf v) index = Some (Some [])"
| "node_path compress zero (Empty height) index = Some None"

text \<open>The tree proper: \<^verbatim>\<open>DynamicMerkleTree\<close> is its root node.\<close>

definition tree_new :: "'h node" where
  "tree_new = Empty TREE_HEIGHT_EXCEPT_ROOT"

definition tree_size :: "'h node \<Rightarrow> nat" where
  "tree_size t = node_size t"

definition tree_insert :: "('h \<Rightarrow> 'h \<Rightarrow> 'h) \<Rightarrow> 'h \<Rightarrow> 'h node \<Rightarrow> 'h \<Rightarrow> ('h node \<times> nat) option" where
  "tree_insert compress zero t v =
     (if tree_size t < node_capacity t
      then do { index \<leftarrow> first_empty_index t; root \<leftarrow> insert_at compress zero t index v; Some (root, index) }
      else None)"

definition tree_remove :: "('h \<Rightarrow> 'h \<Rightarrow> 'h) \<Rightarrow> 'h \<Rightarrow> 'h node \<Rightarrow> nat \<Rightarrow> 'h node option" where
  "tree_remove compress zero t index =
     (if index < node_capacity t then remove_at compress zero t index else None)"

definition tree_update :: "('h \<Rightarrow> 'h \<Rightarrow> 'h) \<Rightarrow> 'h \<Rightarrow> 'h node \<Rightarrow> nat \<Rightarrow> 'h \<Rightarrow> 'h node option" where
  "tree_update compress zero t index v =
     (if index < node_capacity t then update_at compress zero t index v else None)"

fun tree_root :: "('h \<Rightarrow> 'h \<Rightarrow> 'h) \<Rightarrow> 'h \<Rightarrow> 'h node \<Rightarrow> 'h option" where
  "tree_root compress zero (Inner _ _ v _ _ _) = Some v"
| "tree_root compress zero (Leaf _) = None"
| "tree_root compress zero (Empty height) = tree_empty_root compress zero height"

definition tree_path :: "('h \<Rightarrow> 'h \<Rightarrow> 'h) \<Rightarrow> 'h \<Rightarrow> 'h node \<Rightarrow> nat \<Rightarrow> 'h merkle_node list option option" where
  "tree_path compress zero t index =
     do { path \<leftarrow> node_path compress zero t index;
          Some (case path of
                  None \<Rightarrow> None
                | Some path \<Rightarrow> if length path = TREE_HEIGHT_EXCEPT_ROOT then Some path else None) }"

fun build_sparse_subtree ::
  "('h \<Rightarrow> 'h \<Rightarrow> 'h) \<Rightarrow> 'h \<Rightarrow> (nat \<times> 'h) list \<Rightarrow> nat \<Rightarrow> nat \<Rightarrow> ('h node \<times> (nat \<times> 'h) list) option" where
  "build_sparse_subtree compress zero [] subtree_start height = Some (Empty height, [])"
| "build_sparse_subtree compress zero ((position, v) # items) subtree_start height =
     (if subtree_start \<le> position \<and> position - subtree_start < 2 ^ height
      then case height of
          0 \<Rightarrow> Some (Leaf v, items)
        | Suc h \<Rightarrow>
            let midpoint = subtree_start + 2 ^ height div 2
            in do { (left, items) \<leftarrow>
                      (if position < midpoint
                       then build_sparse_subtree compress zero ((position, v) # items) subtree_start h
                       else Some (Empty h, (position, v) # items));
                    (right, items) \<leftarrow>
                      (case items of
                         (p, _) # _ \<Rightarrow>
                           if p < subtree_start + 2 ^ height
                           then build_sparse_subtree compress zero items midpoint h
                           else Some (Empty h, items)
                       | [] \<Rightarrow> Some (Empty h, items));
                    n \<leftarrow> new_inner compress zero left right;
                    Some (n, items) }
      else None)"

declare build_sparse_subtree.simps(2) [simp del]

definition from_sorted_items :: "('h \<Rightarrow> 'h \<Rightarrow> 'h) \<Rightarrow> 'h \<Rightarrow> (nat \<times> 'h) list \<Rightarrow> 'h node option" where
  "from_sorted_items compress zero items =
     do { (root, items) \<leftarrow> build_sparse_subtree compress zero items 0 TREE_HEIGHT_EXCEPT_ROOT;
          if items = [] then Some root else None }"

definition tree_eq :: "('h \<Rightarrow> 'h \<Rightarrow> 'h) \<Rightarrow> 'h \<Rightarrow> 'h node \<Rightarrow> 'h node \<Rightarrow> bool option" where
  "tree_eq compress zero t u =
     do { a \<leftarrow> tree_root compress zero t; b \<leftarrow> tree_root compress zero u; Some (a = b) }"

subsection \<open>Canonical trees and their leaves\<close>

definition is_empty_node :: "'h node \<Rightarrow> bool" where
  "is_empty_node n \<longleftrightarrow> (case n of Empty _ \<Rightarrow> True | _ \<Rightarrow> False)"

fun canonical :: "('h \<Rightarrow> 'h \<Rightarrow> 'h) \<Rightarrow> 'h \<Rightarrow> nat \<Rightarrow> 'h node \<Rightarrow> bool" where
  "canonical compress zero h (Leaf v) \<longleftrightarrow> h = 0"
| "canonical compress zero h (Empty height) \<longleftrightarrow> height = h"
| "canonical compress zero 0 (Inner left right v rs ls height) \<longleftrightarrow> False"
| "canonical compress zero (Suc h) (Inner left right v rs ls height) \<longleftrightarrow>
     height = Suc h \<and> canonical compress zero h left \<and> canonical compress zero h right \<and>
     \<not> (is_empty_node left \<and> is_empty_node right) \<and>
     node_hash compress zero left right = Some v \<and> rs = node_size right \<and> ls = node_size left"

fun contents :: "'h node \<Rightarrow> nat \<Rightarrow> 'h option" where
  "contents (Inner left right _ _ _ height) i =
     (if i < 2 ^ (height - 1) then contents left i else contents right (i - 2 ^ (height - 1)))"
| "contents (Leaf v) i = (if i = 0 then Some v else None)"
| "contents (Empty _) i = None"

definition leaf_or :: "'h \<Rightarrow> 'h node \<Rightarrow> nat \<Rightarrow> 'h" where
  "leaf_or zero n i = (case contents n i of None \<Rightarrow> zero | Some v \<Rightarrow> v)"

lemma is_empty_node_simps [simp]:
  "is_empty_node (Empty h)" "\<not> is_empty_node (Leaf v)" "\<not> is_empty_node (Inner l r v rs ls h)"
  by (simp_all add: is_empty_node_def)

lemma canonical_height [simp]: "canonical c z h n \<Longrightarrow> node_height n = h"
  by (cases "(c, z, h, n)" rule: canonical.cases) auto

lemma canonical_capacity: "canonical c z h n \<Longrightarrow> h \<le> 32 \<Longrightarrow> node_capacity n = 2 ^ h"
  by (simp add: node_capacity_def)

lemma contents_bound: "canonical c z h n \<Longrightarrow> contents n i \<noteq> None \<Longrightarrow> i < 2 ^ h"
proof (induction c z h n arbitrary: i rule: canonical.induct)
  case (4 c z h l r v rs ls height)
  show ?case
  proof (cases "i < 2 ^ h")
    case False
    then have "i - 2 ^ h < 2 ^ h" using 4(3,4) by (intro "4.IH"(2)) auto
    then show ?thesis by simp
  qed simp
qed (auto split: if_splits)

lemma canonical_empty_iff: "canonical c z h n \<Longrightarrow> (\<forall>i. contents n i = None) \<longleftrightarrow> is_empty_node n"
proof (induction c z h n rule: canonical.induct)
  case (4 c z h l r v rs ls height)
  have "\<exists>i. contents l i \<noteq> None \<or> contents r i \<noteq> None" using 4 by auto
  then obtain i where "contents l i \<noteq> None \<or> contents r i \<noteq> None" by blast
  moreover have "contents (Inner l r v rs ls height) i = contents l i" if "contents l i \<noteq> None"
    using contents_bound [OF _ that] 4(3) by auto
  moreover have "contents (Inner l r v rs ls height) (i + 2 ^ h) = contents r i" using 4(3) by simp
  ultimately show ?case by (metis is_empty_node_simps(3))
qed auto

lemma node_value_merkle:
  "canonical c z h n \<Longrightarrow> h \<le> 32 \<Longrightarrow> node_value c z n = Some (merkle c (leaf_or z n) h 0)"
proof (induction c z h n rule: canonical.induct)
  case (2 c z h height)
  have "merkle c (leaf_or z (Empty h)) h 0 = empty_roots c z h" by (rule merkle_empty) (simp add: leaf_or_def)
  then show ?case using 2 by (simp add: tree_empty_root_def TREE_HEIGHT_EXCEPT_ROOT_def)
next
  case (4 c z h l r v rs ls height)
  have "merkle c (leaf_or z (Inner l r v rs ls (Suc h))) h 0 = merkle c (leaf_or z l) h 0"
    by (rule merkle_cong) (simp add: leaf_or_def)
  moreover have "merkle c (leaf_or z (Inner l r v rs ls (Suc h))) h (0 + 1) = merkle c (leaf_or z r) h 0"
    unfolding merkle_shift by (rule merkle_cong) (simp add: leaf_or_def)
  ultimately show ?case using 4 by (auto simp: node_hash_def)
qed (simp_all add: leaf_or_def)

lemma node_size_card:
  "canonical c z h n \<Longrightarrow> h \<le> 32 \<Longrightarrow> node_size n = card (dom (contents n)) \<and> finite (dom (contents n))"
proof (induction c z h n rule: canonical.induct)
  case (1 c z h v)
  have "dom (contents (Leaf v)) = {0}" by (auto split: if_splits)
  then show ?case by (simp del: contents.simps)
next
  case (2 c z h height)
  have d: "dom (contents (Empty height)) = {}" by auto
  show ?case unfolding d by simp
next
  case (4 c z h l r v rs ls height)
  let ?n = "Inner l r v rs ls height"
  have l: "dom (contents l) \<subseteq> {..<2 ^ h}" and r: "dom (contents r) \<subseteq> {..<2 ^ h}"
    using contents_bound [of c z h] 4(3) by fastforce+
  have "dom (contents ?n) = dom (contents l) \<union> (\<lambda>i. i + 2 ^ h) ` dom (contents r)"
  proof (intro set_eqI iffI)
    fix i assume "i \<in> dom (contents ?n)"
    then show "i \<in> dom (contents l) \<union> (\<lambda>i. i + 2 ^ h) ` dom (contents r)"
      using 4(3) by (cases "i < 2 ^ h") (auto intro!: image_eqI [of _ _ "i - 2 ^ h"])
  next
    fix i assume "i \<in> dom (contents l) \<union> (\<lambda>i. i + 2 ^ h) ` dom (contents r)"
    then show "i \<in> dom (contents ?n)" using 4(3) l by auto
  qed
  moreover have "dom (contents l) \<inter> (\<lambda>i. i + 2 ^ h) ` dom (contents r) = {}" using l by auto
  moreover have "card (dom (contents l)) + card (dom (contents r)) \<le> 2 ^ h + 2 ^ h"
    using card_mono [OF _ l] card_mono [OF _ r] by (intro add_mono) auto
  moreover have "(2::nat) ^ h + 2 ^ h \<le> 2 ^ 33" using 4(4) power_increasing [of "Suc h" 33 "2::nat"] by simp
  ultimately show ?case
    using 4 by (simp add: card_Un_disjoint card_image wrapping_add_def del: contents.simps)
qed simp_all

lemma node_size_le: "canonical c z h n \<Longrightarrow> h \<le> 32 \<Longrightarrow> node_size n \<le> 2 ^ h"
  using node_size_card [of c z h n] card_mono [of "{..<2 ^ h}" "dom (contents n)"] contents_bound [of c z h n]
  by fastforce

lemma node_full_iff:
  assumes "canonical c z h n" "h \<le> 32"
  shows "node_size n < node_capacity n \<longleftrightarrow> (\<exists>i < 2 ^ h. contents n i = None)"
proof -
  have sub: "dom (contents n) \<subseteq> {..<2 ^ h}" using contents_bound [OF assms(1)] by auto
  have "node_size n = 2 ^ h \<longleftrightarrow> dom (contents n) = {..<2 ^ h}"
    using node_size_card [OF assms] card_subset_eq [OF _ sub] by auto
  then have "node_size n < node_capacity n \<longleftrightarrow> dom (contents n) \<noteq> {..<2 ^ h}"
    using node_size_le [OF assms] canonical_capacity [OF assms] by linarith
  also have "\<dots> \<longleftrightarrow> (\<exists>i. i < 2 ^ h \<and> i \<notin> dom (contents n))" using sub by blast
  finally show ?thesis by (simp add: domIff)
qed

text \<open>A canonical tree is determined by its leaves.\<close>

lemma canonical_unique:
  "canonical c z h m \<Longrightarrow> canonical c z h n \<Longrightarrow> (\<And>i. contents m i = contents n i) \<Longrightarrow> m = n"
proof (induction c z h m arbitrary: n rule: canonical.induct)
  case (1 c z h v)
  then show ?case using "1"(3) [of 0] by (cases n) auto
next
  case (2 c z h height)
  then have "is_empty_node n" using canonical_empty_iff [of c z h n] by auto
  then show ?case using 2 by (cases n) auto
next
  case (4 c z h l r v rs ls height)
  show ?case
  proof (cases n)
    case (Inner l' r' v' rs' ls' height')
    have "contents l i = contents l' i" for i
    proof (cases "i < 2 ^ h")
      case True
      then show ?thesis using 4(5) [of i] 4(3,4) Inner by simp
    next
      case False
      moreover have "canonical c z h l" "canonical c z h l'" using 4(3,4) Inner by simp_all
      ultimately show ?thesis
        using contents_bound [of c z h l i] contents_bound [of c z h l' i] by (cases "contents l i"; cases "contents l' i") auto
    qed
    moreover have "contents r i = contents r' i" for i using 4(5) [of "i + 2 ^ h"] 4(3,4) Inner by simp
    ultimately have "l = l' \<and> r = r'" using 4(1) [of l'] 4(2) [of r'] 4(3,4) Inner by simp
    then show ?thesis using 4(3,4) Inner by simp
  next
    case (Empty h')
    then show ?thesis using canonical_empty_iff [OF 4(3)] 4(5) by simp
  next
    case (Leaf v')
    then show ?thesis using 4(4) by simp
  qed
qed simp

subsection \<open>Operations\<close>

lemma new_inner_nonempty:
  "\<not> (is_empty_node l \<and> is_empty_node r) \<Longrightarrow> new_inner c z l r =
    (if node_height l = node_height r
     then do { v \<leftarrow> node_hash c z l r;
               Some (Inner l r v (node_size r) (node_size l) (wrapping_add 64 (node_height l) 1)) }
     else None)"
  by (cases l; cases r) (simp_all add: new_inner_def)

lemma new_inner_canonical:
  assumes "canonical c z h l" "canonical c z h r" "h \<le> 32"
  shows "\<exists>n. new_inner c z l r = Some n \<and> canonical c z (Suc h) n \<and>
    (\<forall>i. contents n i = (if i < 2 ^ h then contents l i else contents r (i - 2 ^ h)))"
proof (cases "is_empty_node l \<and> is_empty_node r")
  case True
  then have "l = Empty h" "r = Empty h" using assms(1,2) by (cases l; cases r; simp)+
  then show ?thesis using assms(3) by (simp add: new_inner_def wrapping_add_def)
next
  case False
  obtain v where v: "node_hash c z l r = Some v"
    using node_value_merkle [OF assms(1)] node_value_merkle [OF assms(2)] assms(3) by (simp add: node_hash_def)
  then have "new_inner c z l r = Some (Inner l r v (node_size r) (node_size l) (Suc h))"
    using new_inner_nonempty [OF False, of c z] assms by (simp add: wrapping_add_def)
  then show ?thesis using False v assms by (intro exI conjI) auto
qed

text \<open>The positions an operation can reach: an empty subtree is only entered at its first position.\<close>

fun open_at :: "'h node \<Rightarrow> nat \<Rightarrow> bool" where
  "open_at (Inner left right _ _ _ height) i =
     (if i < 2 ^ (height - 1) then open_at left i else open_at right (i - 2 ^ (height - 1)))"
| "open_at (Leaf v) i \<longleftrightarrow> i = 0"
| "open_at (Empty _) i \<longleftrightarrow> i = 0"

definition terminal :: "'h option \<Rightarrow> 'h node" where
  "terminal v = (case v of None \<Rightarrow> Empty 0 | Some v \<Rightarrow> Leaf v)"

lemma open_at_leaf: "contents n i \<noteq> None \<Longrightarrow> open_at n i"
  by (induction n arbitrary: i) (auto split: if_splits)

lemma insert_or_modify_ok:
  assumes "canonical c z h n" "h \<le> 32" "i < 2 ^ h" "open_at n i" "f (terminal (contents n i)) = Some t" "canonical c z 0 t"
  shows "\<exists>m. insert_or_modify c z n i f = Some m \<and> canonical c z h m \<and>
    (\<forall>j. contents m j = (if j = i then contents t 0 else contents n j))"
  using assms
proof (induction c z n i f arbitrary: h rule: insert_or_modify.induct)
  case (1 c z l r v rs ls height i f)
  obtain k where h: "h = Suc k" "height = Suc k" "canonical c z k l" "canonical c z k r"
    using 1(3) by (cases h) auto
  have k: "k \<le> 32" using 1(4) h(1) by simp
  have cap: "node_capacity (Inner l r v rs ls height) = 2 ^ h" "node_capacity l = 2 ^ k"
    using canonical_capacity [OF 1(3,4)] canonical_capacity [OF h(3) k] by simp_all
  show ?case
  proof (cases "i < 2 ^ k")
    case True
    then obtain m where m: "insert_or_modify c z l i f = Some m" "canonical c z k m"
        "\<forall>j. contents m j = (if j = i then contents t 0 else contents l j)"
      using "1.IH"(1) [OF _ _ h(3) k] 1(5-8) cap h(2) by auto
    from new_inner_canonical [OF m(2) h(4) k]
    obtain n' where n': "new_inner c z m r = Some n'" "canonical c z (Suc k) n'"
      "\<forall>j. contents n' j = (if j < 2 ^ k then contents m j else contents r (j - 2 ^ k))" by blast
    have "\<forall>j. contents n' j = (if j = i then contents t 0 else contents (Inner l r v rs ls height) j)"
      using n'(3) m(3) True h(2) by simp
    then show ?thesis using m(1) n'(1,2) True cap 1(5) h(1) by simp
  next
    case False
    have "i - 2 ^ k < 2 ^ k" using 1(5) False h(1) by simp
    with False obtain m where m: "insert_or_modify c z r (i - 2 ^ k) f = Some m" "canonical c z k m"
        "\<forall>j. contents m j = (if j = i - 2 ^ k then contents t 0 else contents r j)"
      using "1.IH"(2) [OF _ _ h(4) k] 1(5-8) cap h(1,2) by auto
    from new_inner_canonical [OF h(3) m(2) k]
    obtain n' where n': "new_inner c z l m = Some n'" "canonical c z (Suc k) n'"
      "\<forall>j. contents n' j = (if j < 2 ^ k then contents l j else contents m (j - 2 ^ k))" by blast
    have "\<forall>j. contents n' j = (if j = i then contents t 0 else contents (Inner l r v rs ls height) j)"
      using n'(3) m(3) False h(2) by auto
    then show ?thesis using m(1) n'(1,2) False cap 1(5) h(1) by simp
  qed
next
  case (2 c z height i f)
  have k: "height \<le> 32" "h = Suc height" "i = 0" using 2(2,3,5) by simp_all
  obtain m where m: "insert_or_modify c z (Empty height) i f = Some m" "canonical c z height m"
      "\<forall>j. contents m j = (if j = i then contents t 0 else None)"
    using 2(1) [OF k(3), of height] 2(6,7) k by auto
  from new_inner_canonical [OF m(2) _ k(1), of "Empty height"]
  obtain n' where n': "new_inner c z m (Empty height) = Some n'" "canonical c z (Suc height) n'"
    "\<forall>j. contents n' j = (if j < 2 ^ height then contents m j else None)" by auto
  have "\<forall>j. contents n' j = (if j = i then contents t 0 else None)"
    using n'(3) m(3) k(3) by auto
  then show ?case using m(1) n'(1,2) k by simp
next
  case (3 c z i f)
  have "contents t j = None" if "j \<noteq> 0" for j using contents_bound [OF 3(6), of j] that by (cases "contents t j") auto
  then show ?case using 3 by (simp add: terminal_def)
next
  case (4 c z v i f)
  have "contents t j = None" if "j \<noteq> 0" for j using contents_bound [OF 4(6), of j] that by (cases "contents t j") auto
  then show ?case using 4 by (simp add: terminal_def)
qed

lemma insert_or_modify_None:
  assumes "canonical c z h n" "h \<le> 32" "f (terminal (contents n i)) = None"
  shows "insert_or_modify c z n i f = None"
  using assms
proof (induction c z n i f arbitrary: h rule: insert_or_modify.induct)
  case (1 c z l r v rs ls height i f)
  obtain k where h: "h = Suc k" "height = Suc k" "canonical c z k l" "canonical c z k r"
    using 1(3) by (cases h) auto
  have k: "k \<le> 32" using 1(4) h(1) by simp
  have "node_capacity l = 2 ^ k" using canonical_capacity [OF h(3) k] .
  then show ?case using "1.IH"(1) [OF _ _ h(3) k] "1.IH"(2) [OF _ _ h(4) k] 1(5) h(2) by auto
qed (auto simp: terminal_def)

lemma first_empty_index_least:
  assumes "canonical c z h n" "h \<le> 32" "\<exists>i < 2 ^ h. contents n i = None"
  shows "\<exists>i < 2 ^ h. first_empty_index n = Some i \<and> contents n i = None \<and> open_at n i \<and> (\<forall>j < i. contents n j \<noteq> None)"
  using assms
proof (induction n arbitrary: h)
  case (Inner l r v rs ls height)
  obtain k where h: "h = Suc k" "height = Suc k" "canonical c z k l" "canonical c z k r"
    using Inner.prems(1) by (cases h) auto
  have k: "k \<le> 32" using Inner.prems(2) h(1) by simp
  note full = node_full_iff [OF h(3) k] node_full_iff [OF h(4) k]
  show ?case
  proof (cases "\<exists>i < 2 ^ k. contents l i = None")
    case True
    then show ?thesis using Inner.IH(1) [OF h(3) k True] full(1) h(1,2) by auto
  next
    case False
    obtain i where i: "i < 2 ^ Suc k" "contents (Inner l r v rs ls height) i = None" using Inner.prems(3) h(1) by blast
    then have "\<not> i < 2 ^ k" using False h(2) by auto
    then have "i - 2 ^ k < 2 ^ k \<and> contents r (i - 2 ^ k) = None" using i h(2) by simp
    then have R: "\<exists>i < 2 ^ k. contents r i = None" by blast
    obtain j where j: "j < 2 ^ k" "first_empty_index r = Some j" "contents r j = None" "open_at r j"
      "\<forall>i < j. contents r i \<noteq> None"
      using Inner.IH(2) [OF h(4) k R] by blast
    have "(2::nat) ^ k + j < 2 ^ 64"
      using j(1) k power_increasing [of "Suc k" 63 "2::nat"] by simp
    moreover have "\<not> node_size l < node_capacity l" "node_size r < node_capacity r" using False R full by blast+
    ultimately have "first_empty_index (Inner l r v rs ls height) = Some (2 ^ k + j)"
      using j(2) canonical_capacity [OF h(3) k] by (simp add: wrapping_add_def)
    moreover have "contents (Inner l r v rs ls height) m \<noteq> None" if "m < 2 ^ k + j" for m
      using that False j(5) h(2) by (cases "m < 2 ^ k") auto
    ultimately show ?thesis using j h(1,2) by auto
  qed
qed (auto split: if_splits)

subsection \<open>Paths\<close>

lemma div_less_pow: "(j::nat) div 2 ^ Suc d = i div 2 ^ Suc d \<Longrightarrow> i < 2 ^ k \<Longrightarrow> d < k \<Longrightarrow> j < 2 ^ k"
proof -
  assume a: "j div 2 ^ Suc d = i div 2 ^ Suc d" "i < 2 ^ k" "d < k"
  obtain e where e: "k = Suc d + e" using a(3) less_iff_Suc_add by auto
  have "j div 2 ^ k = j div 2 ^ Suc d div 2 ^ e" "i div 2 ^ k = i div 2 ^ Suc d div 2 ^ e"
    by (simp_all only: e power_add div_mult2_eq)
  then have "j div 2 ^ k = 0" using a(1,2) by simp
  then show ?thesis by (simp add: div_eq_0_iff)
qed

lemma sibling_hash_left:
  assumes "i < 2 ^ k" "d < k" "\<And>j. j < 2 ^ k \<Longrightarrow> f j = g j"
  shows "sibling_hash c f i d = sibling_hash c g i d"
  unfolding sibling_hash_def
proof (rule merkle_cong, rule assms(3))
  fix j assume "sibling (i div 2 ^ d) * 2 ^ d \<le> j" "j < (sibling (i div 2 ^ d) + 1) * 2 ^ d"
  then have "j div 2 ^ d = sibling (i div 2 ^ d)" by (simp only: in_subtree_iff [symmetric])
  then have "j div 2 ^ d div 2 = i div 2 ^ d div 2" by simp
  then have "j div 2 ^ Suc d = i div 2 ^ Suc d" by (simp add: div_mult2_eq [symmetric] mult.commute)
  then show "j < 2 ^ k" using assms(1,2) by (rule div_less_pow)
qed

lemma div_add_pow:
  assumes "d < k"
  shows "((i::nat) + 2 ^ k) div 2 ^ d = i div 2 ^ d + 2 ^ (k - d)"
proof -
  have k: "(2::nat) ^ k = 2 ^ (k - d) * 2 ^ d" using assms by (simp add: power_add [symmetric])
  show ?thesis unfolding k by simp
qed

lemma sibling_hash_right:
  assumes "d < k"
  shows "sibling_hash c f (i + 2 ^ k) d = sibling_hash c (\<lambda>j. f (j + 2 ^ k)) i d"
proof -
  have "even ((2::nat) ^ (k - d))" using assms by simp
  then have "sibling (a + 2 ^ (k - d)) = sibling a + 2 ^ (k - d)" for a by (auto simp: sibling_def elim: oddE)
  moreover have "(2::nat) ^ (k - d) * 2 ^ d = 2 ^ k" using assms by (simp add: power_add [symmetric])
  ultimately show ?thesis by (simp only: sibling_hash_def merkle_shift div_add_pow [OF assms])
qed

definition side :: "nat \<Rightarrow> nat \<Rightarrow> 'h \<Rightarrow> 'h merkle_node" where
  "side i d s = (if even (i div 2 ^ d) then RightNode s else LeftNode s)"

lemma node_path_leaf:
  "canonical c z h n \<Longrightarrow> h \<le> 32 \<Longrightarrow> contents n i \<noteq> None \<Longrightarrow>
   node_path c z n i = Some (Some (map (\<lambda>d. side i d (sibling_hash c (leaf_or z n) i d)) [0..<h]))"
proof (induction n arbitrary: h i)
  case (Inner l r v rs ls height)
  obtain k where h: "h = Suc k" "height = Suc k" "canonical c z k l" "canonical c z k r"
    using Inner.prems(1) by (cases h) auto
  have k: "k \<le> 32" using Inner.prems(2) h(1) by simp
  have cap: "node_capacity (Inner l r v rs ls height) = 2 ^ h" "node_capacity l = 2 ^ k"
    using canonical_capacity [OF Inner.prems(1,2)] canonical_capacity [OF h(3) k] by simp_all
  have i: "i < 2 ^ h" using contents_bound [OF Inner.prems(1,3)] .
  let ?n = "Inner l r v rs ls height"
  have vl: "node_value c z l = Some (merkle c (leaf_or z ?n) k 0)"
    unfolding node_value_merkle [OF h(3) k] option.inject by (rule merkle_cong) (simp add: leaf_or_def h(2))
  have vr: "node_value c z r = Some (merkle c (leaf_or z ?n) k (0 + 1))"
    unfolding node_value_merkle [OF h(4) k] merkle_shift option.inject by (rule merkle_cong) (simp add: leaf_or_def h(2))
  show ?case
  proof (cases "i < 2 ^ k")
    case True
    have s: "sibling_hash c (leaf_or z ?n) i d = sibling_hash c (leaf_or z l) i d" if "d < k" for d
      by (rule sibling_hash_left [OF True that]) (simp add: leaf_or_def h(2))
    have "sibling_hash c (leaf_or z ?n) i k = merkle c (leaf_or z ?n) k 1"
      using True by (simp add: sibling_hash_def sibling_def)
    then show ?thesis
      using Inner.IH(1) [OF h(3) k, of i] Inner.prems(2,3) True i cap h(1,2) vr s
      by (simp add: extend_path_def TREE_HEIGHT_EXCEPT_ROOT_def side_def)
  next
    case False
    define j where "j = i - 2 ^ k"
    have ij: "i = j + 2 ^ k" "j < 2 ^ k" using False i h(1) by (simp_all add: j_def)
    have s: "side i d (sibling_hash c (leaf_or z ?n) i d) = side j d (sibling_hash c (leaf_or z r) j d)" if "d < k" for d
    proof -
      have "leaf_or z r = (\<lambda>j. leaf_or z ?n (j + 2 ^ k))" by (rule ext) (simp add: leaf_or_def h(2))
      moreover have "even (i div 2 ^ d) \<longleftrightarrow> even (j div 2 ^ d)"
        using that by (simp add: ij(1) div_add_pow)
      ultimately show ?thesis using sibling_hash_right [OF that, of c "leaf_or z ?n" j] by (simp only: side_def ij(1))
    qed
    have q: "i div 2 ^ k = 1" by (rule div_nat_eqI) (use ij in auto)
    then have "side i k (sibling_hash c (leaf_or z ?n) i k) = LeftNode (merkle c (leaf_or z ?n) k 0)"
      by (simp add: sibling_hash_def sibling_def side_def)
    then show ?thesis
      using Inner.IH(2) [OF h(4) k, of j] Inner.prems(2,3) False i cap h(1,2) vl s
      by (simp add: extend_path_def TREE_HEIGHT_EXCEPT_ROOT_def j_def [symmetric])
  qed
qed auto

lemma node_path_free:
  "canonical c z h n \<Longrightarrow> h \<le> 32 \<Longrightarrow> i < 2 ^ h \<Longrightarrow> contents n i = None \<Longrightarrow> node_path c z n i = Some None"
proof (induction n arbitrary: h i)
  case (Inner l r v rs ls height)
  obtain k where h: "h = Suc k" "height = Suc k" "canonical c z k l" "canonical c z k r"
    using Inner.prems(1) by (cases h) auto
  have k: "k \<le> 32" using Inner.prems(2) h(1) by simp
  have cap: "node_capacity (Inner l r v rs ls height) = 2 ^ h" "node_capacity l = 2 ^ k"
    using canonical_capacity [OF Inner.prems(1,2)] canonical_capacity [OF h(3) k] by simp_all
  have "\<not> i < 2 ^ k \<Longrightarrow> i - 2 ^ k < 2 ^ k" using Inner.prems(3) h(1) by simp
  then show ?case
    using Inner.IH(1) [OF h(3) k, of i] Inner.IH(2) [OF h(4) k, of "i - 2 ^ k"] Inner.prems(3,4) cap h(1,2)
    by (cases "i < 2 ^ k") (simp_all add: extend_path_def)
qed auto

subsection \<open>Recovery\<close>

text \<open>The half of a sparse subtree that starts at \<open>start\<close>.\<close>

definition sparse_half ::
  "('h \<Rightarrow> 'h \<Rightarrow> 'h) \<Rightarrow> 'h \<Rightarrow> (nat \<times> 'h) list \<Rightarrow> nat \<Rightarrow> nat \<Rightarrow> ('h node \<times> (nat \<times> 'h) list) option" where
  "sparse_half compress zero items start h =
     (case items of
        (p, _) # _ \<Rightarrow> if p < start + 2 ^ h then build_sparse_subtree compress zero items start h else Some (Empty h, items)
      | [] \<Rightarrow> Some (Empty h, items))"

definition sparse_ok ::
  "('h \<Rightarrow> 'h \<Rightarrow> 'h) \<Rightarrow> 'h \<Rightarrow> (nat \<times> 'h) list \<Rightarrow> nat \<Rightarrow> nat \<Rightarrow> ('h node \<times> (nat \<times> 'h) list) option \<Rightarrow> bool" where
  "sparse_ok compress zero items start h result \<longleftrightarrow>
     (\<exists>n. result = Some (n, filter (\<lambda>(p, _). start + 2 ^ h \<le> p) items) \<and> canonical compress zero h n \<and>
        (\<forall>i < 2 ^ h. contents n i = map_of items (start + i)))"

lemma sorted_items_above:
  "sorted_wrt (<) (map fst items) \<Longrightarrow> (case items of [] \<Rightarrow> True | (p, _) # _ \<Rightarrow> (b::nat) \<le> p) \<Longrightarrow> x \<in> set items \<Longrightarrow> b \<le> fst x"
  by (cases items) (auto dest!: bspec [where x = x])

lemma map_of_filter_above: "b \<le> i \<Longrightarrow> map_of (filter (\<lambda>(p, _). b \<le> p) items) i = map_of items (i::nat)"
  by (induction items) auto

lemma sparse_half_ok:
  assumes "\<And>items. items \<noteq> [] \<Longrightarrow> sorted_wrt (<) (map fst items) \<Longrightarrow> \<forall>x \<in> set items. start \<le> fst x \<Longrightarrow>
      fst (hd items) < start + 2 ^ h \<Longrightarrow> sparse_ok c z items start h (build_sparse_subtree c z items start h)"
    and "sorted_wrt (<) (map fst items)" "\<forall>x \<in> set items. start \<le> fst x"
  shows "sparse_ok c z items start h (sparse_half c z items start h)"
proof (cases items)
  case (Cons x xs)
  show ?thesis
  proof (cases "fst x < start + 2 ^ h")
    case True
    have "sparse_half c z items start h = build_sparse_subtree c z items start h"
      using True Cons by (cases x) (simp add: sparse_half_def)
    then show ?thesis using assms(1) [OF _ assms(2,3)] Cons True by simp
  next
    case False
    have above: "start + 2 ^ h \<le> fst y" if "y \<in> set items" for y
      by (rule sorted_items_above [OF assms(2) _ that]) (use Cons False in \<open>cases x, simp\<close>)
    have "filter (\<lambda>(p, _). start + 2 ^ h \<le> p) items = items"
      by (rule filter_True) (use above in fastforce)
    moreover have "map_of items (start + i) = None" if "i < 2 ^ h" for i
    proof -
      have "start + i \<notin> fst ` set items" using above that by fastforce
      then show ?thesis by (simp add: map_of_eq_None_iff)
    qed
    ultimately show ?thesis using Cons False by (auto simp: sparse_half_def sparse_ok_def split: prod.splits)
  qed
qed (simp add: sparse_half_def sparse_ok_def)

lemma build_sparse_ok:
  assumes "items \<noteq> []" "sorted_wrt (<) (map fst items)" "\<forall>x \<in> set items. start \<le> fst x"
    "fst (hd items) < start + 2 ^ h" "h \<le> 32"
  shows "sparse_ok c z items start h (build_sparse_subtree c z items start h)"
  using assms
proof (induction h arbitrary: items start)
  case 0
  obtain p v xs where i: "items = (p, v) # xs" using 0(1) by (cases items) auto
  then have "p = start" "\<forall>x \<in> set xs. start < fst x" using 0(2-4) by auto
  then have "filter (\<lambda>(p, _). start + 1 \<le> p) items = xs" using i by (auto simp: filter_id_conv)
  then show ?case using i \<open>p = start\<close> by (simp add: sparse_ok_def build_sparse_subtree.simps(2))
next
  case (Suc h)
  obtain p v xs where i: "items = (p, v) # xs" using Suc.prems(1) by (cases items) auto
  let ?mid = "start + 2 ^ h" and ?its = "filter (\<lambda>(p, _). start + 2 ^ h \<le> p) items"
  have h: "h \<le> 32" using Suc.prems(5) by simp
  have "sparse_ok c z items start h (sparse_half c z items start h)"
    by (rule sparse_half_ok [OF Suc.IH [OF _ _ _ _ h] Suc.prems(2,3)])
  then obtain l where l: "sparse_half c z items start h = Some (l, ?its)" "canonical c z h l"
    "\<forall>i < 2 ^ h. contents l i = map_of items (start + i)" by (auto simp: sparse_ok_def)
  have "sorted_wrt (<) (map fst ?its)" using Suc.prems(2) by (simp add: sorted_wrt_map sorted_wrt_filter)
  then have "sparse_ok c z ?its ?mid h (sparse_half c z ?its ?mid h)"
    by (intro sparse_half_ok [OF Suc.IH [OF _ _ _ _ h]]) auto
  then obtain r where r: "sparse_half c z ?its ?mid h = Some (r, filter (\<lambda>(p, _). ?mid + 2 ^ h \<le> p) ?its)"
      "canonical c z h r" "\<forall>i < 2 ^ h. contents r i = map_of ?its (?mid + i)" by (auto simp: sparse_ok_def)
  obtain n where n: "new_inner c z l r = Some n" "canonical c z (Suc h) n"
    "\<forall>i. contents n i = (if i < 2 ^ h then contents l i else contents r (i - 2 ^ h))"
    using new_inner_canonical [OF l(2) r(2) h] by blast
  have f: "filter (\<lambda>(p, _). ?mid + 2 ^ h \<le> p) ?its = filter (\<lambda>(p, _). start + 2 ^ Suc h \<le> p) items"
    by (auto intro!: filter_cong)
  have "build_sparse_subtree c z items start (Suc h) =
    do { (l, its) \<leftarrow> sparse_half c z items start h; (r, its) \<leftarrow> sparse_half c z its ?mid h;
         n \<leftarrow> new_inner c z l r; Some (n, its) }"
  proof -
    have "start \<le> p \<and> p - start < 2 ^ Suc h" using Suc.prems(3,4) i by auto
    moreover have m: "?mid + 2 ^ h = start + 2 ^ Suc h" by simp
    ultimately show ?thesis
      unfolding i sparse_half_def m by (subst build_sparse_subtree.simps(2)) (simp add: Let_def)
  qed
  then have "build_sparse_subtree c z items start (Suc h) = Some (n, filter (\<lambda>(p, _). start + 2 ^ Suc h \<le> p) items)"
    using l(1) r(1) n(1) unfolding f by simp
  moreover have "contents n j = map_of items (start + j)" if "j < 2 ^ Suc h" for j
  proof (cases "j < 2 ^ h")
    case False
    then have "contents r (j - 2 ^ h) = map_of ?its (?mid + (j - 2 ^ h))" using that r(3) by simp
    then show ?thesis using False n(3) map_of_filter_above [of ?mid "start + j" items] by simp
  qed (use n(3) l(3) in simp)
  ultimately show ?case using n(2) unfolding sparse_ok_def by blast
qed

lemma from_sorted_canonical:
  assumes can: "canonical compress zero 32 t" and "sorted_wrt (<) (map fst items)" "map_of items = contents t"
  shows "from_sorted_items compress zero items = Some t"
proof -
  have range: "fst x < 2 ^ 32" if "x \<in> set items" for x
    using contents_bound [OF can, of "fst x"] that assms(3) by (metis map_of_eq_None_iff imageI)
  have f: "filter (\<lambda>(p, _). 0 + 2 ^ 32 \<le> p) items = []"
    using range by (fastforce simp: filter_empty_conv)
  show ?thesis
  proof (cases "items = []")
    case True
    have "contents t i = None" for i using fun_cong [OF assms(3), of i] True by simp
    then have "is_empty_node t" using canonical_empty_iff [OF can] by blast
    then have "t = Empty 32" using can by (cases t) simp_all
    then show ?thesis using True by (simp add: from_sorted_items_def TREE_HEIGHT_EXCEPT_ROOT_def)
  next
    case False
    then have "fst (hd items) < 0 + 2 ^ 32" using range [of "hd items"] by simp
    from build_sparse_ok [OF False assms(2) _ this, of compress zero]
    obtain n where n: "build_sparse_subtree compress zero items 0 32 = Some (n, [])" "canonical compress zero 32 n"
        "\<forall>i < 2 ^ 32. contents n i = map_of items i"
      unfolding sparse_ok_def f by auto
    have "contents n i = contents t i" for i
      using n(3) contents_bound [OF n(2), of i] contents_bound [OF can, of i] assms(3)
      by (cases "i < 2 ^ 32"; cases "contents n i"; cases "contents t i") auto
    then have "n = t" by (rule canonical_unique [OF n(2) can])
    then show ?thesis using n(1) by (simp add: from_sorted_items_def TREE_HEIGHT_EXCEPT_ROOT_def)
  qed
qed

lemma rebuild_canonical:
  "\<exists>x. rebuild_and_validate c z n = Some x \<and>
     (\<forall>m. x = Inr m \<longrightarrow> node_height m \<le> 32 \<and> canonical c z (node_height m) m)"
proof (induction c z n rule: rebuild_and_validate.induct)
  case (3 c z l r v rs ls h)
  obtain x where x: "rebuild_and_validate c z l = Some x"
    "\<And>m. x = Inr m \<Longrightarrow> node_height m \<le> 32 \<and> canonical c z (node_height m) m" using "3.IH"(1) by blast
  show ?case
  proof (cases x)
    case (Inr l')
    obtain y where y: "rebuild_and_validate c z r = Some y"
      "\<And>m. y = Inr m \<Longrightarrow> node_height m \<le> 32 \<and> canonical c z (node_height m) m" using "3.IH"(2) [OF x(1) Inr] by blast
    show ?thesis
    proof (cases y)
      case r': (Inr r')
      show ?thesis
      proof (cases "node_height l' = node_height r'")
        case True
        obtain n where "new_inner c z l' r' = Some n" "canonical c z (Suc (node_height l')) n"
        proof -
          have l: "canonical c z (node_height l') l'" "node_height l' \<le> 32" using x(2) [OF Inr] by blast+
          have "canonical c z (node_height l') r'" using y(2) [OF r'] unfolding True by blast
          from new_inner_canonical [OF l(1) this l(2)] show thesis using that by blast
        qed
        moreover from this(2) have "node_height n = Suc (node_height l')" by (rule canonical_height)
        ultimately show ?thesis using x(1) y(1) Inr r' True by (simp add: TREE_HEIGHT_EXCEPT_ROOT_def)
      qed (use x(1) y(1) Inr r' in simp)
    qed (use x(1) y(1) Inr in simp)
  qed (use x(1) in simp)
qed (simp_all add: TREE_HEIGHT_EXCEPT_ROOT_def)

lemma rebuild_identity: "canonical c z h n \<Longrightarrow> h \<le> 32 \<Longrightarrow> rebuild_and_validate c z n = Some (Inr n)"
proof (induction n arbitrary: h)
  case (Inner l r v rs ls height)
  obtain k where h: "h = Suc k" "height = Suc k" "canonical c z k l" "canonical c z k r"
    "\<not> (is_empty_node l \<and> is_empty_node r)" "node_hash c z l r = Some v" "rs = node_size r" "ls = node_size l"
    using Inner.prems(1) by (cases h) auto
  have "new_inner c z l r = Some (Inner l r v rs ls height)"
    using h Inner.prems(2) by (simp add: new_inner_nonempty wrapping_add_def)
  then show ?case
    using Inner.IH(1) [OF h(3)] Inner.IH(2) [OF h(4)] Inner.prems(2) h(1-4) by (simp add: TREE_HEIGHT_EXCEPT_ROOT_def)
qed (simp_all add: TREE_HEIGHT_EXCEPT_ROOT_def)

subsection \<open>Properties\<close>

text \<open>The trees a program can hold, by the operations of the type.\<close>

inductive tree_reachable :: "('h \<Rightarrow> 'h \<Rightarrow> 'h) \<Rightarrow> 'h \<Rightarrow> 'h node \<Rightarrow> bool" for compress zero where
  reach_new: "tree_reachable compress zero tree_new"
| reach_insert: "tree_reachable compress zero t \<Longrightarrow> tree_insert compress zero t v = Some (t', i) \<Longrightarrow> tree_reachable compress zero t'"
| reach_remove: "tree_reachable compress zero t \<Longrightarrow> tree_remove compress zero t i = Some t' \<Longrightarrow> tree_reachable compress zero t'"
| reach_update: "tree_reachable compress zero t \<Longrightarrow> tree_update compress zero t i v = Some t' \<Longrightarrow> tree_reachable compress zero t'"
| reach_deserialize: "deserialize_tree compress zero raw = Some (Inr t) \<Longrightarrow> tree_reachable compress zero t"

lemma canonical_leaf_32 [simp]: "canonical c z 32 (Leaf v) \<longleftrightarrow> False"
  by simp

lemma tree_insert_spec:
  assumes "canonical c z 32 t" "tree_size t < 2 ^ 32"
  shows "\<exists>t' i. tree_insert c z t v = Some (t', i) \<and> canonical c z 32 t' \<and> i < 2 ^ 32 \<and> contents t i = None \<and>
    (\<forall>j < i. contents t j \<noteq> None) \<and> (\<forall>j. contents t' j = (if j = i then Some v else contents t j))"
proof -
  have cap: "node_capacity t = 2 ^ 32" using canonical_capacity [OF assms(1)] by simp
  then have "\<exists>i < 2 ^ 32. contents t i = None"
    using node_full_iff [OF assms(1)] assms(2) by (simp add: tree_size_def)
  then obtain i where i: "i < 2 ^ 32" "first_empty_index t = Some i" "contents t i = None" "open_at t i"
      "\<forall>j < i. contents t j \<noteq> None"
    using first_empty_index_least [OF assms(1)] by blast
  let ?f = "\<lambda>n. case n of Empty _ \<Rightarrow> Some (Leaf v) | Leaf _ \<Rightarrow> None | Inner _ _ _ _ _ _ \<Rightarrow> None"
  have "\<exists>m. insert_or_modify c z t i ?f = Some m \<and> canonical c z 32 m \<and>
      (\<forall>j. contents m j = (if j = i then contents (Leaf v) 0 else contents t j))"
    by (rule insert_or_modify_ok [OF assms(1) _ i(1,4)]) (simp_all add: i(3) terminal_def)
  then show ?thesis using i assms(2) cap by (auto simp: tree_insert_def insert_at_def)
qed

lemma tree_insert_full: "canonical c z 32 t \<Longrightarrow> \<not> tree_size t < 2 ^ 32 \<Longrightarrow> tree_insert c z t v = None"
  using canonical_capacity [of c z 32 t] by (simp add: tree_insert_def)

lemma tree_modify_spec:
  assumes "canonical c z 32 t" "contents t i = Some w" "f (Leaf w) = Some n'" "canonical c z 0 n'"
  shows "\<exists>t'. insert_or_modify c z t i f = Some t' \<and> canonical c z 32 t' \<and>
    (\<forall>j. contents t' j = (if j = i then contents n' 0 else contents t j))"
  by (rule insert_or_modify_ok [OF assms(1) _ contents_bound [OF assms(1)] open_at_leaf])
    (simp_all add: assms terminal_def)

lemma tree_remove_spec:
  assumes "canonical c z 32 t"
  shows "tree_remove c z t i = None \<longleftrightarrow> contents t i = None"
    and "tree_remove c z t i = Some t' \<Longrightarrow> canonical c z 32 t' \<and> (\<forall>j. contents t' j = (if j = i then None else contents t j))"
proof -
  have cap: "node_capacity t = 2 ^ 32" using canonical_capacity [OF assms] by simp
  have none: "tree_remove c z t i = None" if "contents t i = None"
    using insert_or_modify_None [OF assms, of _ i] that by (simp add: tree_remove_def remove_at_def terminal_def)
  have some: "\<exists>t'. tree_remove c z t i = Some t' \<and> canonical c z 32 t' \<and>
      (\<forall>j. contents t' j = (if j = i then None else contents t j))" if "contents t i = Some w" for w
    using tree_modify_spec [OF assms that, of "\<lambda>n. case n of Leaf _ \<Rightarrow> Some (Empty 0) | _ \<Rightarrow> None" "Empty 0"]
      contents_bound [OF assms, of i] that cap by (auto simp: tree_remove_def remove_at_def)
  show "tree_remove c z t i = None \<longleftrightarrow> contents t i = None" using none some by (cases "contents t i") auto
  show "canonical c z 32 t' \<and> (\<forall>j. contents t' j = (if j = i then None else contents t j))"
    if "tree_remove c z t i = Some t'" using none some that by (cases "contents t i") auto
qed

lemma tree_update_spec:
  assumes "canonical c z 32 t"
  shows "tree_update c z t i v = None \<longleftrightarrow> contents t i = None"
    and "tree_update c z t i v = Some t' \<Longrightarrow> canonical c z 32 t' \<and> (\<forall>j. contents t' j = (if j = i then Some v else contents t j))"
proof -
  have cap: "node_capacity t = 2 ^ 32" using canonical_capacity [OF assms] by simp
  have none: "tree_update c z t i v = None" if "contents t i = None"
    using insert_or_modify_None [OF assms, of _ i] that by (simp add: tree_update_def update_at_def terminal_def)
  have some: "\<exists>t'. tree_update c z t i v = Some t' \<and> canonical c z 32 t' \<and>
      (\<forall>j. contents t' j = (if j = i then Some v else contents t j))" if "contents t i = Some w" for w
    using tree_modify_spec [OF assms that, of "\<lambda>n. case n of Leaf _ \<Rightarrow> Some (Leaf v) | _ \<Rightarrow> None" "Leaf v"]
      contents_bound [OF assms, of i] that cap by (auto simp: tree_update_def update_at_def)
  show "tree_update c z t i v = None \<longleftrightarrow> contents t i = None" using none some by (cases "contents t i") auto
  show "canonical c z 32 t' \<and> (\<forall>j. contents t' j = (if j = i then Some v else contents t j))"
    if "tree_update c z t i v = Some t'" using none some that by (cases "contents t i") auto
qed

lemma deserialize_canonical:
  "deserialize_tree c z raw = Some (Inr t) \<Longrightarrow> canonical c z 32 t"
proof -
  assume d: "deserialize_tree c z raw = Some (Inr t)"
  then obtain x where x: "rebuild_and_validate c z raw = Some x" by (auto simp: deserialize_tree_def bind_Some_iff)
  then have t: "rebuild_and_validate c z raw = Some (Inr t)" "node_height t = 32"
    using d by (cases x; auto simp: deserialize_tree_def TREE_HEIGHT_EXCEPT_ROOT_def split: if_splits)+
  then have "canonical c z (node_height t) t" using rebuild_canonical [of c z raw] by (metis option.inject)
  then show ?thesis unfolding t(2) .
qed

lemma reachable_canonical: "tree_reachable c z t \<Longrightarrow> canonical c z 32 t"
proof (induction rule: tree_reachable.induct)
  case (reach_insert t v t' i)
  then have "tree_size t < 2 ^ 32" using tree_insert_full by fastforce
  then show ?case using tree_insert_spec [of c z t v] reach_insert by auto
qed (auto simp: tree_new_def TREE_HEIGHT_EXCEPT_ROOT_def dest: tree_remove_spec(2) tree_update_spec(2) deserialize_canonical)

lemma tree_root_merkle:
  assumes "canonical c z 32 t"
  shows "tree_root c z t = Some (merkle c (leaf_or z t) 32 0)"
  using node_value_merkle [OF assms] assms by (cases t) simp_all

interpretation dynamic_tree: merkle_container compress TREE_HEIGHT_EXCEPT_ROOT
  "tree_reachable compress zero" "leaf_or zero" "\<lambda>t. the (tree_root compress zero t)"
  "\<lambda>t i ss. \<exists>p. tree_path compress zero t i = Some (Some p) \<and> ss = map node_item p"
  for compress :: "'h \<Rightarrow> 'h \<Rightarrow> 'h" and zero
proof (unfold_locales, goal_cases)
  case (1 t)
  show ?case using tree_root_merkle [OF reachable_canonical [OF 1]] by (simp add: TREE_HEIGHT_EXCEPT_ROOT_def)
next
  case (2 t i ss)
  note can = reachable_canonical [OF 2(1)]
  have i: "i < 2 ^ 32" using 2(3) by (simp add: TREE_HEIGHT_EXCEPT_ROOT_def)
  obtain p where p: "tree_path compress zero t i = Some (Some p)" "ss = map node_item p" using 2(2) by blast
  have "contents t i \<noteq> None"
    using p(1) node_path_free [OF can _ i] by (cases "contents t i") (simp_all add: tree_path_def)
  from node_path_leaf [OF can _ this]
  have "p = map (\<lambda>d. side i d (sibling_hash compress (leaf_or zero t) i d)) [0..<32]"
    using p(1) by (simp add: tree_path_def TREE_HEIGHT_EXCEPT_ROOT_def)
  then show ?case using p(2) by (simp add: TREE_HEIGHT_EXCEPT_ROOT_def side_def)
qed

text \<open>A tree with one leaf, for the examples below.\<close>

lemma one_leaf_tree:
  "\<exists>t. tree_reachable Node (Atom 0) t \<and> tree_insert Node (Atom 0) tree_new (Atom 1) = Some (t, 0) \<and>
     contents t = [0 \<mapsto> Atom 1]"
proof -
  have n: "canonical Node (Atom 0) 32 tree_new" "tree_size (tree_new :: symbolic node) < 2 ^ 32"
      "contents (tree_new :: symbolic node) i = None" for i
    by (simp_all add: tree_new_def tree_size_def TREE_HEIGHT_EXCEPT_ROOT_def)
  obtain t i where t: "tree_insert Node (Atom 0) tree_new (Atom 1) = Some (t, i)"
      "\<forall>j < i. contents (tree_new :: symbolic node) j \<noteq> None" "\<forall>j. contents t j = (if j = i then Some (Atom 1) else contents tree_new j)"
    using tree_insert_spec [OF n(1,2), of "Atom 1"] by blast
  have "i = 0" using t(2) n(3) by blast
  moreover from this have "contents t = [0 \<mapsto> Atom 1]" using t(3) n(3) by (intro ext) simp
  ultimately show ?thesis using t(1) reach_insert [OF reach_new t(1)] by blast
qed

text \<open>
  On every tree a program can hold, \<^verbatim>\<open>insert\<close> stores the leaf at the lowest free position and changes no
  other one, and panics only when all \<^verbatim>\<open>2^32\<close> positions are taken; \<^verbatim>\<open>size\<close> counts the stored leaves.
\<close>

theorem tree_insert_lowest_free:
  assumes "tree_reachable compress zero t"
  shows "tree_size t = card (dom (contents t)) \<and>
    (if tree_size t < 2 ^ 32
     then \<exists>t' i. tree_insert compress zero t v = Some (t', i) \<and> i < 2 ^ 32 \<and> contents t i = None \<and>
       (\<forall>j < i. contents t j \<noteq> None) \<and> contents t' = (contents t)(i \<mapsto> v)
     else tree_insert compress zero t v = None)"
proof -
  note can = reachable_canonical [OF assms]
  have "tree_size t = card (dom (contents t))" using node_size_card [OF can] by (simp add: tree_size_def)
  moreover have "\<exists>t' i. tree_insert compress zero t v = Some (t', i) \<and> i < 2 ^ 32 \<and> contents t i = None \<and>
      (\<forall>j < i. contents t j \<noteq> None) \<and> contents t' = (contents t)(i \<mapsto> v)" if "tree_size t < 2 ^ 32"
    using tree_insert_spec [OF can that, of v] by (fastforce intro!: ext)
  ultimately show ?thesis using tree_insert_full [OF can] by simp
qed

theorem tree_insert_lowest_free_witness:
  "\<exists>t i. tree_insert Node (Atom 0) tree_new (Atom 1) = Some (t, i) \<and> contents t = (contents tree_new)(i \<mapsto> Atom 1)"
  using tree_insert_lowest_free [OF reach_new, of Node "Atom 0" "Atom 1"] by (auto simp: tree_size_def tree_new_def)

text \<open>
  C20: A tree is determined by its leaves, whatever the insertions, removals, updates and
  deserialisations that led to it; its root is the reference root of its leaves, never a panic.
\<close>

theorem tree_history_independent:
  assumes "tree_reachable compress zero t"
  shows "tree_root compress zero t = Some (merkle compress (leaf_or zero t) TREE_HEIGHT_EXCEPT_ROOT 0) \<and>
    (\<forall>u. tree_reachable compress zero u \<and> contents u = contents t \<longrightarrow> u = t)"
proof -
  note can = reachable_canonical [OF assms]
  have "u = t" if "tree_reachable compress zero u" "contents u = contents t" for u
    using canonical_unique [OF reachable_canonical [OF that(1)] can] that(2) by simp
  then show ?thesis using tree_root_merkle [OF can] by (simp add: TREE_HEIGHT_EXCEPT_ROOT_def)
qed

theorem tree_history_independent_witness:
  "\<exists>t. tree_insert Node (Atom 0) tree_new (Atom 1) = Some (t, 0) \<and>
     tree_root Node (Atom 0) t = Some (merkle Node (leaf_or (Atom 0) t) TREE_HEIGHT_EXCEPT_ROOT 0)"
  using one_leaf_tree tree_history_independent [of Node "Atom 0"] by blast

text \<open>
  C31: \<^verbatim>\<open>remove\<close> and \<^verbatim>\<open>update\<close> change exactly the leaf at the given index and panic exactly when there is none;
  removing what was just inserted gives back the tree.
\<close>

theorem tree_remove_update:
  assumes "tree_reachable compress zero t"
  shows "(tree_remove compress zero t i = None \<longleftrightarrow> contents t i = None) \<and>
    (\<forall>t'. tree_remove compress zero t i = Some t' \<longrightarrow> contents t' = (contents t)(i := None)) \<and>
    (tree_update compress zero t i v = None \<longleftrightarrow> contents t i = None) \<and>
    (\<forall>t'. tree_update compress zero t i v = Some t' \<longrightarrow> contents t' = (contents t)(i \<mapsto> v)) \<and>
    (\<forall>t' j. tree_insert compress zero t v = Some (t', j) \<longrightarrow> tree_remove compress zero t' j = Some t)"
proof (intro conjI allI impI)
  note can = reachable_canonical [OF assms]
  show "tree_remove compress zero t i = None \<longleftrightarrow> contents t i = None"
    "tree_update compress zero t i v = None \<longleftrightarrow> contents t i = None"
    using tree_remove_spec(1) [OF can] tree_update_spec(1) [OF can] by blast+
  show "contents t' = (contents t)(i := None)" if "tree_remove compress zero t i = Some t'" for t'
    using tree_remove_spec(2) [OF can that] by (intro ext) auto
  show "contents t' = (contents t)(i \<mapsto> v)" if "tree_update compress zero t i v = Some t'" for t'
    using tree_update_spec(2) [OF can that] by (intro ext) auto
  fix t' j assume ins: "tree_insert compress zero t v = Some (t', j)"
  then have "tree_size t < 2 ^ 32" using tree_insert_full [OF can] by fastforce
  then have t': "canonical compress zero 32 t'" "contents t j = None"
      "\<forall>k. contents t' k = (if k = j then Some v else contents t k)"
    using tree_insert_spec [OF can, of v] ins by auto
  then obtain u where u: "tree_remove compress zero t' j = Some u"
    using tree_remove_spec(1) [OF t'(1), of j] by (cases "tree_remove compress zero t' j") auto
  have "u = t"
    by (rule canonical_unique [OF _ can]) (use tree_remove_spec(2) [OF t'(1) u] t'(2,3) in auto)
  then show "tree_remove compress zero t' j = Some t" using u by simp
qed

theorem tree_remove_update_witness:
  "\<exists>t. tree_insert Node (Atom 0) tree_new (Atom 1) = Some (t, 0) \<and> tree_remove Node (Atom 0) t 0 = Some tree_new"
  using one_leaf_tree tree_remove_update [OF reach_new, of Node "Atom 0" 0 "Atom 1"] by blast

text \<open>Recomputing the root from a leaf and a path, by the sides its nodes carry.\<close>

primrec climb :: "('h \<Rightarrow> 'h \<Rightarrow> 'h) \<Rightarrow> 'h \<Rightarrow> 'h merkle_node list \<Rightarrow> 'h" where
  "climb compress x [] = x"
| "climb compress x (n # ns) = climb compress (case n of LeftNode s \<Rightarrow> compress s x | RightNode s \<Rightarrow> compress x s) ns"

lemma climb_sides:
  assumes "length ns = length ss" "\<And>d. d < length ss \<Longrightarrow> ns ! d = side j d (ss ! d)"
  shows "climb c x ns = fold_path c j x ss"
  using assms
proof (induction ns ss arbitrary: j x rule: list_induct2)
  case (Cons n ns s ss)
  have n: "n = side j 0 s" using Cons.prems [of 0] by simp
  have "ns ! d = side (j div 2) d (ss ! d)" if "d < length ss" for d
    using Cons.prems [of "Suc d"] that by (simp add: side_def div_mult2_eq)
  from Cons.IH [OF this] show ?case unfolding n by (simp add: side_def)
qed simp

text \<open>
  C29: A path is returned exactly for the stored leaves.  It has 32 nodes, each on the side that the index of the leaf
  tells, and hashing the leaf with them on these sides gives the root.  If other 32 siblings lead from this position another value to the root,
  then walking up both ways side by side finds two different inputs that the hash compresses to the same value.
\<close>

theorem tree_path_sound:
  assumes "tree_reachable compress zero t" "i < 2 ^ TREE_HEIGHT_EXCEPT_ROOT"
  shows "\<exists>path root. tree_path compress zero t i = Some path \<and> tree_root compress zero t = Some root \<and>
    (path = None \<longleftrightarrow> contents t i = None) \<and>
    (\<forall>p v. path = Some p \<and> contents t i = Some v \<longrightarrow> climb compress v p = root \<and> length p = TREE_HEIGHT_EXCEPT_ROOT \<and>
       (\<forall>d < TREE_HEIGHT_EXCEPT_ROOT. (\<exists>s. p ! d = LeftNode s) \<longleftrightarrow> odd (i div 2 ^ d))) \<and>
    (\<forall>ss x. length ss = TREE_HEIGHT_EXCEPT_ROOT \<and> fold_path compress i x ss = root \<and> x \<noteq> leaf_or zero t i \<longrightarrow>
       (\<exists>a b a' b'. path_collision compress i x ss (leaf_or zero t i) (map (sibling_hash compress (leaf_or zero t) i) [0..<TREE_HEIGHT_EXCEPT_ROOT])
            = Some ((a, b), a', b') \<and> (a, b) \<noteq> (a', b') \<and> compress a b = compress a' b'))"
proof -
  note can = reachable_canonical [OF assms(1)]
  have i: "i < 2 ^ 32" using assms(2) by (simp add: TREE_HEIGHT_EXCEPT_ROOT_def)
  let ?p = "map (\<lambda>d. side i d (sibling_hash compress (leaf_or zero t) i d)) [0..<32]"
  have free: "tree_path compress zero t i = Some None" if "contents t i = None"
    using node_path_free [OF can _ i that] by (simp add: tree_path_def)
  have leaf: "tree_path compress zero t i = Some (Some ?p)" if "contents t i \<noteq> None"
    using node_path_leaf [OF can _ that] by (simp add: tree_path_def TREE_HEIGHT_EXCEPT_ROOT_def)
  obtain root where root: "tree_root compress zero t = Some root" using tree_root_merkle [OF can] by blast
  have "climb compress v ?p = fold_path compress i v (map node_item ?p)" for v
    by (rule climb_sides) (simp_all add: side_def)
  then have verifies: "climb compress v ?p = root" if "contents t i = Some v" for v
    using dynamic_tree.path_verifies [OF assms(1) _ assms(2), of "map node_item ?p"] leaf that root
    by (simp add: leaf_or_def)
  have sides: "(\<exists>s. ?p ! d = LeftNode s) \<longleftrightarrow> odd (i div 2 ^ d)" if "d < TREE_HEIGHT_EXCEPT_ROOT" for d
    using that by (simp add: TREE_HEIGHT_EXCEPT_ROOT_def side_def)
  have binds: "\<exists>a b a' b'. path_collision compress i x ss (leaf_or zero t i) (map (sibling_hash compress (leaf_or zero t) i) [0..<TREE_HEIGHT_EXCEPT_ROOT])
            = Some ((a, b), a', b') \<and> (a, b) \<noteq> (a', b') \<and> compress a b = compress a' b'"
    if "length ss = TREE_HEIGHT_EXCEPT_ROOT" "fold_path compress i x ss = root" "x \<noteq> leaf_or zero t i" for ss x
    using dynamic_tree.path_binding [OF assms that(1) _ that(3)] that(2) root by simp
  show ?thesis
  proof (cases "contents t i")
    case None
    then show ?thesis using free root binds by blast
  next
    case (Some v)
    moreover have "length ?p = TREE_HEIGHT_EXCEPT_ROOT" by (simp add: TREE_HEIGHT_EXCEPT_ROOT_def)
    ultimately obtain p where p: "tree_path compress zero t i = Some (Some p)" "climb compress v p = root" "length p = TREE_HEIGHT_EXCEPT_ROOT"
        "\<forall>d < TREE_HEIGHT_EXCEPT_ROOT. (\<exists>s. p ! d = LeftNode s) \<longleftrightarrow> odd (i div 2 ^ d)"
      using leaf verifies [OF Some] sides by blast
    show ?thesis
      by (rule exI [of _ "Some p"], rule exI [of _ root], intro conjI allI impI; (elim conjE)?)
        (use Some root p binds in \<open>simp_all only: option.simps\<close>)
  qed
qed

theorem tree_path_sound_witness:
  "\<exists>t p root s. tree_insert Node (Atom 0) tree_new (Atom 1) = Some (t, 0) \<and> tree_path Node (Atom 0) t 0 = Some (Some p) \<and>
     tree_root Node (Atom 0) t = Some root \<and> climb Node (Atom 1) p = root \<and> p ! 0 = RightNode s"
proof -
  obtain t where t: "tree_reachable Node (Atom 0) t" "tree_insert Node (Atom 0) tree_new (Atom 1) = Some (t, 0)"
    "contents t = [0 \<mapsto> Atom 1]" using one_leaf_tree by blast
  obtain p root where p: "tree_path Node (Atom 0) t 0 = Some (Some p)" "tree_root Node (Atom 0) t = Some root" "climb Node (Atom 1) p = root"
      "\<not> (\<exists>s. p ! 0 = LeftNode s)"
    using tree_path_sound [OF t(1), of 0] t(3) by (fastforce simp: TREE_HEIGHT_EXCEPT_ROOT_def)
  obtain s where "p ! 0 = RightNode s" using p(4) by (cases "p ! 0") auto
  then show ?thesis using t(2) p(1-3) by blast
qed

text \<open>
  C30: Deserialising never panics, whatever nodes it is given; what it accepts is a well-formed tree with
  recomputed hashes, and a serialised tree is read back unchanged.
\<close>

theorem deserialize_total_roundtrip:
  "(\<exists>r. deserialize_tree compress zero raw = Some r \<and> (\<forall>t. r = Inr t \<longrightarrow> canonical compress zero TREE_HEIGHT_EXCEPT_ROOT t)) \<and>
   (tree_reachable compress zero t \<longrightarrow> deserialize_tree compress zero t = Some (Inr t))"
proof (intro conjI impI)
  obtain x where "rebuild_and_validate compress zero raw = Some x"
    using rebuild_canonical [of compress zero raw] by (elim exE conjE)
  then obtain r where "deserialize_tree compress zero raw = Some r" by (simp add: deserialize_tree_def)
  then show "\<exists>r. deserialize_tree compress zero raw = Some r \<and> (\<forall>t. r = Inr t \<longrightarrow> canonical compress zero TREE_HEIGHT_EXCEPT_ROOT t)"
    using deserialize_canonical [of compress zero raw] by (simp add: TREE_HEIGHT_EXCEPT_ROOT_def)
next
  assume "tree_reachable compress zero t"
  note can = reachable_canonical [OF this]
  show "deserialize_tree compress zero t = Some (Inr t)"
    using rebuild_identity [OF can] can canonical_height [OF can]
    by (cases t) (simp_all add: deserialize_tree_def TREE_HEIGHT_EXCEPT_ROOT_def)
qed

theorem deserialize_total_roundtrip_witness:
  "\<exists>t. tree_insert Node (Atom 0) tree_new (Atom 1) = Some (t, 0) \<and> deserialize_tree Node (Atom 0) t = Some (Inr t)"
  using one_leaf_tree deserialize_total_roundtrip [of Node "Atom 0"] by blast

text \<open>
  Rebuilding a tree from its leaves in ascending order gives the very same tree.
\<close>

theorem from_sorted_items_roundtrip:
  assumes "tree_reachable compress zero t" "sorted_wrt (<) (map fst items)" "map_of items = contents t"
  shows "from_sorted_items compress zero items = Some t"
  by (rule from_sorted_canonical [OF reachable_canonical [OF assms(1)] assms(2,3)])

theorem from_sorted_items_roundtrip_witness:
  "\<exists>t. tree_insert Node (Atom 0) tree_new (Atom 1) = Some (t, 0) \<and>
     from_sorted_items Node (Atom 0) [(0, Atom 1)] = Some t"
proof -
  obtain t where t: "tree_reachable Node (Atom 0) t" "tree_insert Node (Atom 0) tree_new (Atom 1) = Some (t, 0)"
    "contents t = [0 \<mapsto> Atom 1]" using one_leaf_tree by blast
  from from_sorted_items_roundtrip [OF t(1), of "[(0, Atom 1)]"] show ?thesis using t(2,3) by auto
qed

end
