(* ===== verification/MerkleStore.thy ===== *)
theory MerkleStore
  imports DynMerkle "HOL-Library.AList"
begin

text \<open>
  The keyed store over a dynamic Merkle tree (\<^verbatim>\<open>merkle/tree/src/lib.rs\<close>) and its wrapper for unspent notes
  (\<^verbatim>\<open>merkle/utxotree/src/lib.rs\<close>).

  The map of the items is the list of its entries, each key once; the order carries no meaning.  What
  the clients rely on is the locale \<open>keyed_store\<close>: a store is a finite map with room for a number of further
  keys.  The store is an instance of it as long as no key is inserted twice (\<open>store_ok\<close>).
\<close>

record ('k, 'i, 'h) leaf_extractor =
  le_compress :: "'h \<Rightarrow> 'h \<Rightarrow> 'h"
  le_zero :: 'h
  le_leaf :: "'k \<Rightarrow> 'i \<Rightarrow> 'h"

record ('k, 'i, 'h) merkle_tree =
  mt_merkle :: "'h node"
  mt_items :: "('k \<times> 'i \<times> nat) list"

datatype tree_error = NotFound

datatype recovery_error = PositionOutOfBounds nat nat | DuplicateKey nat

definition store_new :: "('k, 'i, 'h) merkle_tree" where
  "store_new = \<lparr>mt_merkle = tree_new, mt_items = []\<rparr>"

definition store_size :: "('k, 'i, 'h) merkle_tree \<Rightarrow> nat" where
  "store_size s = tree_size (mt_merkle s)"

definition store_root :: "('k, 'i, 'h) leaf_extractor \<Rightarrow> ('k, 'i, 'h) merkle_tree \<Rightarrow> 'h option" where
  "store_root E s = tree_root (le_compress E) (le_zero E) (mt_merkle s)"

definition store_contains :: "('k, 'i, 'h) merkle_tree \<Rightarrow> 'k \<Rightarrow> bool" where
  "store_contains s key \<longleftrightarrow> map_of (mt_items s) key \<noteq> None"

definition store_get :: "('k, 'i, 'h) merkle_tree \<Rightarrow> 'k \<Rightarrow> 'i option" where
  "store_get s key = map_option fst (map_of (mt_items s) key)"

definition store_path ::
  "('k, 'i, 'h) leaf_extractor \<Rightarrow> ('k, 'i, 'h) merkle_tree \<Rightarrow> 'k \<Rightarrow> 'h merkle_node list option option" where
  "store_path E s key =
     (case map_of (mt_items s) key of
        None \<Rightarrow> Some None
      | Some (_, pos) \<Rightarrow> tree_path (le_compress E) (le_zero E) (mt_merkle s) pos)"

definition store_iter :: "('k, 'i, 'h) merkle_tree \<Rightarrow> ('k \<times> 'i) list" where
  "store_iter s = map (\<lambda>(key, item, _). (key, item)) (mt_items s)"

definition store_insert ::
  "('k, 'i, 'h) leaf_extractor \<Rightarrow> 'k \<Rightarrow> 'i \<Rightarrow> ('k, 'i, 'h) merkle_tree \<Rightarrow> (('k, 'i, 'h) merkle_tree \<times> nat) option" where
  "store_insert E key item s =
     do { (merkle, pos) \<leftarrow> tree_insert (le_compress E) (le_zero E) (mt_merkle s) (le_leaf E key item);
          Some (\<lparr>mt_merkle = merkle, mt_items = AList.update key (item, pos) (mt_items s)\<rparr>, pos) }"

definition store_update ::
  "('k, 'i, 'h) leaf_extractor \<Rightarrow> 'k \<Rightarrow> 'i \<Rightarrow> ('k, 'i, 'h) merkle_tree
     \<Rightarrow> (tree_error + ('k, 'i, 'h) merkle_tree) option" where
  "store_update E key item s =
     (case map_of (mt_items s) key of
        None \<Rightarrow> fail NotFound
      | Some (_, pos) \<Rightarrow>
          bind_res (run (tree_update (le_compress E) (le_zero E) (mt_merkle s) pos (le_leaf E key item)))
            (\<lambda>merkle. ok \<lparr>mt_merkle = merkle, mt_items = AList.update key (item, pos) (mt_items s)\<rparr>))"

definition store_remove ::
  "('k, 'i, 'h) leaf_extractor \<Rightarrow> 'k \<Rightarrow> ('k, 'i, 'h) merkle_tree
     \<Rightarrow> (tree_error + ('k, 'i, 'h) merkle_tree \<times> 'i) option" where
  "store_remove E key s =
     (case map_of (mt_items s) key of
        None \<Rightarrow> fail NotFound
      | Some (item, pos) \<Rightarrow>
          bind_res (run (tree_remove (le_compress E) (le_zero E) (mt_merkle s) pos))
            (\<lambda>merkle. ok (\<lparr>mt_merkle = merkle, mt_items = AList.delete key (mt_items s)\<rparr>, item)))"

definition store_compressed :: "('k, 'i, 'h) merkle_tree \<Rightarrow> (nat \<times> 'k \<times> 'i) list" where
  "store_compressed s = fold (\<lambda>(k, v, pos). btree_insert pos (k, v)) (mt_items s) []"

definition store_from_iter ::
  "('k, 'i, 'h) leaf_extractor \<Rightarrow> ('k \<times> 'i) list \<Rightarrow> ('k, 'i, 'h) merkle_tree option" where
  "store_from_iter E xs = fold_run (\<lambda>s (key, item). map_option fst (store_insert E key item s)) store_new xs"

fun validate_entries :: "nat \<Rightarrow> 'k list \<Rightarrow> (nat \<times> 'k \<times> 'i) list \<Rightarrow> recovery_error + unit" where
  "validate_entries capacity keys [] = Inr ()"
| "validate_entries capacity keys ((position, key, _) # items) =
     (if capacity \<le> position then Inl (PositionOutOfBounds position capacity)
      else if key \<in> set keys then Inl (DuplicateKey position)
      else validate_entries capacity (key # keys) items)"

definition store_try_from ::
  "('k, 'i, 'h) leaf_extractor \<Rightarrow> (nat \<times> 'k \<times> 'i) list \<Rightarrow> (recovery_error + ('k, 'i, 'h) merkle_tree) option" where
  "store_try_from E items =
     (case validate_entries (2 ^ TREE_HEIGHT_EXCEPT_ROOT) [] items of
        Inl e \<Rightarrow> fail e
      | Inr _ \<Rightarrow>
          bind_res (run (from_sorted_items (le_compress E) (le_zero E)
                           (map (\<lambda>(pos, key, item). (pos, le_leaf E key item)) items)))
            (\<lambda>merkle. ok \<lparr>mt_merkle = merkle,
                          mt_items = fold (\<lambda>(pos, key, item). AList.update key (item, pos)) items []\<rparr>))"

text \<open>The entries of a serialised store, in the order they are read.\<close>

fun visit_entries :: "(nat \<times> 'e) list \<Rightarrow> (nat \<times> 'e) list \<Rightarrow> (nat \<times> 'e) list option" where
  "visit_entries items [] = Some items"
| "visit_entries items ((position, e) # access) =
     (if map_of items position \<noteq> None then None else visit_entries (btree_insert position e items) access)"

definition store_eq :: "('k, 'i, 'h) leaf_extractor \<Rightarrow> ('k, 'i, 'h) merkle_tree \<Rightarrow> ('k, 'i, 'h) merkle_tree \<Rightarrow> bool option" where
  "store_eq E s t =
     (if (\<forall>k \<in> fst ` set (mt_items s) \<union> fst ` set (mt_items t). map_of (mt_items s) k = map_of (mt_items t) k)
      then tree_eq (le_compress E) (le_zero E) (mt_merkle s) (mt_merkle t) else Some False)"

subsection \<open>The tree of unspent notes\<close>

text \<open>Its leaf is the field element of the key; the item takes no part.\<close>

definition utxo_leaf :: "('h \<Rightarrow> 'h \<Rightarrow> 'h) \<Rightarrow> 'h \<Rightarrow> ('k \<Rightarrow> 'h) \<Rightarrow> ('k, 'i, 'h) leaf_extractor" where
  "utxo_leaf compress zero as_fr = \<lparr>le_compress = compress, le_zero = zero, le_leaf = (\<lambda>key item. as_fr key)\<rparr>"

definition utxo_witness :: "('k, 'i, 'h) merkle_tree \<Rightarrow> 'k \<Rightarrow> unit option" where
  "utxo_witness s key = (if store_contains s key then Some () else None)"

subsection \<open>The contract of a keyed store\<close>

locale keyed_store =
  fixes valid :: "'s \<Rightarrow> bool" and lookup :: "'s \<Rightarrow> 'k \<Rightarrow> 'i option" and room :: "'s \<Rightarrow> nat"
    and insert :: "'k \<Rightarrow> 'i \<Rightarrow> 's \<Rightarrow> ('s \<times> nat) option" and remove :: "'k \<Rightarrow> 's \<Rightarrow> (tree_error + 's \<times> 'i) option"
  assumes insert_fresh: "valid s \<Longrightarrow> lookup s k = None \<Longrightarrow> 0 < room s \<Longrightarrow>
      \<exists>s' pos. insert k i s = Some (s', pos) \<and> valid s' \<and> lookup s' = (lookup s)(k \<mapsto> i) \<and> room s' = room s - 1"
    and remove_absent: "valid s \<Longrightarrow> lookup s k = None \<Longrightarrow> remove k s = fail NotFound"
    and remove_present: "valid s \<Longrightarrow> lookup s k = Some i \<Longrightarrow>
      \<exists>s'. remove k s = ok (s', i) \<and> valid s' \<and> lookup s' = (lookup s)(k := None) \<and> room s' = room s + 1"
    and finite_lookup: "valid s \<Longrightarrow> finite (dom (lookup s))"
begin

text \<open>A loop that inserts new keys.\<close>

lemma insert_all:
  assumes "valid s" "distinct (map fst xs)" "\<forall>x \<in> set xs. lookup s (fst x) = None" "length xs \<le> room s"
  shows "\<exists>s'. fold_run (\<lambda>s (k, i). map_option fst (insert k i s)) s xs = Some s' \<and> valid s' \<and>
    lookup s' = lookup s ++ map_of xs \<and> room s' = room s - length xs"
  using assms
proof (induction xs arbitrary: s)
  case (Cons x xs)
  obtain k i where x: "x = (k, i)" by (cases x)
  obtain s1 pos where s1: "insert k i s = Some (s1, pos)" "valid s1" "lookup s1 = (lookup s)(k \<mapsto> i)" "room s1 = room s - 1"
    using insert_fresh [OF Cons.prems(1), of k i] Cons.prems(3,4) x by auto
  have "\<forall>y \<in> set xs. lookup s1 (fst y) = None" using Cons.prems(2,3) s1(3) x by force
  then obtain s' where s': "fold_run (\<lambda>s (k, i). map_option fst (insert k i s)) s1 xs = Some s'" "valid s'"
      "lookup s' = lookup s1 ++ map_of xs" "room s' = room s1 - length xs"
    using Cons.IH [OF s1(2)] Cons.prems(2,4) s1(4) by fastforce
  have "(lookup s)(k \<mapsto> i) ++ map_of xs = lookup s ++ map_of ((k, i) # xs)"
    using Cons.prems(2) x by (simp add: map_add_upd_left dom_map_of_conv_image_fst del: fun_upd_apply)
  then have "lookup s' = lookup s ++ map_of (x # xs)" using s'(3) unfolding s1(3) x by (rule trans [rotated])
  moreover have "fold_run (\<lambda>s (k, i). map_option fst (insert k i s)) s (x # xs) = Some s'" "room s' = room s - length (x # xs)"
    using s1(1,4) s' x by simp_all
  ultimately show ?case using s'(2) by blast
qed simp

text \<open>A loop that removes keys and stops at the first one that is missing.\<close>

lemma remove_all:
  assumes "valid s"
  shows "if distinct ks \<and> (\<forall>k \<in> set ks. lookup s k \<noteq> None)
    then \<exists>s'. try_fold (\<lambda>k s. bind_res (map_err (\<lambda>_. e k) (remove k s)) (\<lambda>(s, _). ok s)) ks s = ok s' \<and> valid s' \<and>
      lookup s' = lookup s |` (- set ks) \<and> room s' = room s + length ks
    else \<exists>k \<in> set ks. try_fold (\<lambda>k s. bind_res (map_err (\<lambda>_. e k) (remove k s)) (\<lambda>(s, _). ok s)) ks s = fail (e k)"
  using assms
proof (induction ks arbitrary: s)
  case (Cons k ks)
  show ?case
  proof (cases "lookup s k")
    case None
    then show ?thesis using remove_absent [OF Cons.prems] by simp
  next
    case (Some i)
    then obtain s1 where s1: "remove k s = ok (s1, i)" "valid s1" "lookup s1 = (lookup s)(k := None)" "room s1 = room s + 1"
      using remove_present [OF Cons.prems] by blast
    let ?F = "\<lambda>k s. bind_res (map_err (\<lambda>_. e k) (remove k s)) (\<lambda>(s, _). ok s)"
    have step: "try_fold ?F (k # ks) s = try_fold ?F ks s1" using s1(1) by simp
    have eq: "lookup s1 |` (- set ks) = lookup s |` (- set (k # ks))" "room s1 + length ks = room s + length (k # ks)"
      using s1(3,4) by (auto simp: restrict_map_def fun_eq_iff)
    show ?thesis
    proof (cases "distinct (k # ks) \<and> (\<forall>j \<in> set (k # ks). lookup s j \<noteq> None)")
      case True
      then have c: "distinct ks \<and> (\<forall>j \<in> set ks. lookup s1 j \<noteq> None)" using s1(3) by auto
      show ?thesis using Cons.IH [OF s1(2)] unfolding if_P [OF True] if_P [OF c] step eq .
    next
      case False
      then have c: "\<not> (distinct ks \<and> (\<forall>j \<in> set ks. lookup s1 j \<noteq> None))" using s1(3) Some by auto
      have "\<exists>k \<in> set ks. try_fold ?F ks s1 = fail (e k)" using Cons.IH [OF s1(2)] unfolding if_not_P [OF c] .
      then show ?thesis unfolding if_not_P [OF False] step by auto
    qed
  qed
qed (auto simp: restrict_map_def)

end

subsection \<open>The store implements the contract\<close>

definition store_ok :: "('k, 'i, 'h) leaf_extractor \<Rightarrow> ('k, 'i, 'h) merkle_tree \<Rightarrow> bool" where
  "store_ok E s \<longleftrightarrow>
     canonical (le_compress E) (le_zero E) 32 (mt_merkle s) \<and> distinct (map fst (mt_items s)) \<and>
     (\<forall>k k' i i' p. map_of (mt_items s) k = Some (i, p) \<and> map_of (mt_items s) k' = Some (i', p) \<longrightarrow> k = k') \<and>
     (\<forall>p l. contents (mt_merkle s) p = Some l \<longleftrightarrow> (\<exists>k i. map_of (mt_items s) k = Some (i, p) \<and> l = le_leaf E k i))"

definition store_room :: "('k, 'i, 'h) merkle_tree \<Rightarrow> nat" where
  "store_room s = 2 ^ 32 - store_size s"

lemma store_okD:
  assumes "store_ok E s"
  shows "canonical (le_compress E) (le_zero E) 32 (mt_merkle s)" "distinct (map fst (mt_items s))"
    and "map_of (mt_items s) k = Some (i, p) \<Longrightarrow> map_of (mt_items s) k' = Some (i', p) \<Longrightarrow> k = k'"
    and "contents (mt_merkle s) p = Some l \<longleftrightarrow> (\<exists>k i. map_of (mt_items s) k = Some (i, p) \<and> l = le_leaf E k i)"
  using assms unfolding store_ok_def by blast+

lemma store_new_ok: "store_ok E store_new"
  by (simp add: store_ok_def store_new_def tree_new_def TREE_HEIGHT_EXCEPT_ROOT_def)

lemma store_get_iff: "store_get s k = Some i \<longleftrightarrow> (\<exists>p. map_of (mt_items s) k = Some (i, p))"
  by (auto simp: store_get_def)

lemma store_get_None: "store_get s k = None \<longleftrightarrow> map_of (mt_items s) k = None"
  by (simp add: store_get_def)

lemma finite_store_get: "finite (dom (store_get s))"
  by (rule finite_subset [OF _ finite_dom_map_of [of "mt_items s"]]) (auto simp: store_get_def)

lemma store_size_card:
  assumes "store_ok E s"
  shows "store_size s = card (dom (store_get s))" "finite (dom (contents (mt_merkle s)))"
    "store_size s = card (dom (contents (mt_merkle s)))"
proof -
  note can = store_okD(1) [OF assms]
  show size: "store_size s = card (dom (contents (mt_merkle s)))" and fin: "finite (dom (contents (mt_merkle s)))"
    using node_size_card [OF can] by (simp_all add: store_size_def tree_size_def)
  have "bij_betw (\<lambda>k. snd (the (map_of (mt_items s) k))) (dom (store_get s)) (dom (contents (mt_merkle s)))"
  proof (rule bij_betw_imageI)
    show "inj_on (\<lambda>k. snd (the (map_of (mt_items s) k))) (dom (store_get s))"
      using store_okD(3) [OF assms] by (fastforce simp: inj_on_def store_get_iff)
    have "p \<in> dom (contents (mt_merkle s)) \<longleftrightarrow> (\<exists>k i. map_of (mt_items s) k = Some (i, p))" for p
      using store_okD(4) [OF assms, of p] by (auto simp: dom_def)
    then have "dom (contents (mt_merkle s)) = {p. \<exists>k i. map_of (mt_items s) k = Some (i, p)}" by blast
    also have "\<dots> = (\<lambda>k. snd (the (map_of (mt_items s) k))) ` dom (store_get s)"
    proof (intro equalityI subsetI)
      fix p assume "p \<in> {p. \<exists>k i. map_of (mt_items s) k = Some (i, p)}"
      then obtain k i where "map_of (mt_items s) k = Some (i, p)" by blast
      then show "p \<in> (\<lambda>k. snd (the (map_of (mt_items s) k))) ` dom (store_get s)"
        by (intro image_eqI [of _ _ k]) (auto simp: store_get_def)
    next
      fix p assume "p \<in> (\<lambda>k. snd (the (map_of (mt_items s) k))) ` dom (store_get s)"
      then obtain k i q where "map_of (mt_items s) k = Some (i, q)" "p = q" by (auto simp: store_get_def)
      then show "p \<in> {p. \<exists>k i. map_of (mt_items s) k = Some (i, p)}" by blast
    qed
    finally show "(\<lambda>k. snd (the (map_of (mt_items s) k))) ` dom (store_get s) = dom (contents (mt_merkle s))" by (rule sym)
  qed
  then show "store_size s = card (dom (store_get s))" unfolding size by (rule bij_betw_same_card [symmetric])
qed

lemma store_insert_fresh:
  assumes "store_ok E s" "store_get s k = None" "0 < store_room s"
  shows "\<exists>s' pos. store_insert E k i s = Some (s', pos) \<and> store_ok E s' \<and> store_get s' = (store_get s)(k \<mapsto> i) \<and>
    store_room s' = store_room s - 1"
proof -
  note can = store_okD(1) [OF assms(1)]
  have "tree_size (mt_merkle s) < 2 ^ 32" using assms(3) by (simp add: store_room_def store_size_def)
  from tree_insert_spec [OF can this]
  obtain m pos where m: "tree_insert (le_compress E) (le_zero E) (mt_merkle s) (le_leaf E k i) = Some (m, pos)"
      "canonical (le_compress E) (le_zero E) 32 m" "contents (mt_merkle s) pos = None"
      "\<forall>p. contents m p = (if p = pos then Some (le_leaf E k i) else contents (mt_merkle s) p)"
    by blast
  let ?s = "\<lparr>mt_merkle = m, mt_items = AList.update k (i, pos) (mt_items s)\<rparr>"
  have mo: "map_of (mt_items ?s) = (map_of (mt_items s))(k \<mapsto> (i, pos))" by (simp add: update_conv')
  have free: "map_of (mt_items s) j \<noteq> Some (i', pos)" for j i'
    using store_okD(4) [OF assms(1), of pos] m(3) by auto
  have none: "map_of (mt_items s) k = None" using assms(2) by (simp add: store_get_None)
  have "store_ok E ?s"
    unfolding store_ok_def mo
  proof (intro conjI allI impI)
    show "canonical (le_compress E) (le_zero E) 32 (mt_merkle ?s)" using m(2) by simp
    show "distinct (map fst (mt_items ?s))" using store_okD(2) [OF assms(1)] by (simp add: distinct_update)
    show "a = b" if "((map_of (mt_items s))(k \<mapsto> (i, pos))) a = Some (x, p) \<and> ((map_of (mt_items s))(k \<mapsto> (i, pos))) b = Some (y, p)" for a b x y p
      using that free store_okD(3) [OF assms(1)] by (auto split: if_splits)
    show "contents (mt_merkle ?s) p = Some l \<longleftrightarrow> (\<exists>k' i'. ((map_of (mt_items s))(k \<mapsto> (i, pos))) k' = Some (i', p) \<and> l = le_leaf E k' i')" for p l
    proof (cases "p = pos")
      case False
      then have "((map_of (mt_items s))(k \<mapsto> (i, pos))) k' = Some (i', p) \<longleftrightarrow> map_of (mt_items s) k' = Some (i', p)" for k' i'
        using none by auto
      then show ?thesis using m(4) False store_okD(4) [OF assms(1), of p l] by (simp del: fun_upd_apply)
    qed (use m(4) free in auto)
  qed
  moreover have "store_get ?s = (store_get s)(k \<mapsto> i)" by (auto simp: store_get_def fun_eq_iff update_conv')
  moreover have "store_size ?s = store_size s + 1"
  proof -
    have "dom (contents m) = insert pos (dom (contents (mt_merkle s)))" using m(4) by (auto simp: dom_def)
    then show ?thesis
      using store_size_card [OF calculation(1)] store_size_card [OF assms(1)] m(3) by (simp add: domIff)
  qed
  ultimately show ?thesis using m(1) by (simp add: store_insert_def store_room_def del: fun_upd_apply)
qed

lemma store_remove_spec:
  assumes "store_ok E s"
  shows "store_get s k = None \<Longrightarrow> store_remove E k s = fail NotFound"
    and "store_get s k = Some i \<Longrightarrow> \<exists>s'. store_remove E k s = ok (s', i) \<and> store_ok E s' \<and>
      store_get s' = (store_get s)(k := None) \<and> store_room s' = store_room s + 1"
proof -
  show "store_remove E k s = fail NotFound" if "store_get s k = None"
    using that by (simp add: store_remove_def store_get_None)
  assume "store_get s k = Some i"
  then obtain pos where pos: "map_of (mt_items s) k = Some (i, pos)" by (auto simp: store_get_iff)
  note can = store_okD(1) [OF assms]
  have in_tree: "contents (mt_merkle s) pos \<noteq> None" using store_okD(4) [OF assms, of pos] pos by fastforce
  then obtain m where m: "tree_remove (le_compress E) (le_zero E) (mt_merkle s) pos = Some m"
    using tree_remove_spec(1) [OF can, of pos] by (cases "tree_remove (le_compress E) (le_zero E) (mt_merkle s) pos") auto
  note m' = tree_remove_spec(2) [OF can m]
  let ?s = "\<lparr>mt_merkle = m, mt_items = AList.delete k (mt_items s)\<rparr>"
  have mo: "map_of (mt_items ?s) = (map_of (mt_items s))(k := None)" by (simp add: delete_conv')
  have "store_ok E ?s"
    unfolding store_ok_def mo
  proof (intro conjI allI impI)
    show "canonical (le_compress E) (le_zero E) 32 (mt_merkle ?s)" using m' by simp
    show "distinct (map fst (mt_items ?s))" using store_okD(2) [OF assms] by (simp add: distinct_delete)
    show "a = b" if "((map_of (mt_items s))(k := None)) a = Some (x, p) \<and> ((map_of (mt_items s))(k := None)) b = Some (y, p)" for a b x y p
      using that store_okD(3) [OF assms] by (auto split: if_splits)
    show "contents (mt_merkle ?s) p = Some l \<longleftrightarrow> (\<exists>k' i'. ((map_of (mt_items s))(k := None)) k' = Some (i', p) \<and> l = le_leaf E k' i')" for p l
    proof (cases "p = pos")
      case True
      have "k' = k" if "map_of (mt_items s) k' = Some (i', pos)" for k' i' using store_okD(3) [OF assms that pos] .
      then show ?thesis using m' True by auto
    next
      case False
      then have "((map_of (mt_items s))(k := None)) k' = Some (i', p) \<longleftrightarrow> map_of (mt_items s) k' = Some (i', p)" for k' i'
        using pos by auto
      then show ?thesis using m' False store_okD(4) [OF assms, of p l] by (simp del: fun_upd_apply)
    qed
  qed
  moreover have "store_get ?s = (store_get s)(k := None)" by (auto simp: store_get_def fun_eq_iff delete_conv')
  moreover have "store_size ?s + 1 = store_size s" "store_size s \<le> 2 ^ 32"
  proof -
    have "dom (contents (mt_merkle s)) = insert pos (dom (contents m))" "pos \<notin> dom (contents m)"
      using m' in_tree by (auto simp: dom_def)
    moreover have "finite (dom (contents m))" using calculation(1) store_size_card(2) [OF assms] by simp
    ultimately show "store_size ?s + 1 = store_size s"
      using store_size_card(3) [OF \<open>store_ok E ?s\<close>] store_size_card(3) [OF assms] by simp
    show "store_size s \<le> 2 ^ 32" using node_size_le [OF can] by (simp add: store_size_def tree_size_def)
  qed
  ultimately show "\<exists>s'. store_remove E k s = ok (s', i) \<and> store_ok E s' \<and>
      store_get s' = (store_get s)(k := None) \<and> store_room s' = store_room s + 1"
    using m pos by (simp add: store_remove_def store_room_def run_def del: fun_upd_apply)
qed

interpretation store: keyed_store "store_ok E" store_get store_room "store_insert E" "store_remove E"
  for E :: "('k, 'i, 'h) leaf_extractor"
  by unfold_locales (rule store_insert_fresh store_remove_spec finite_store_get; assumption)+

lemma store_update_spec:
  assumes "store_ok E s"
  shows "store_get s k = None \<Longrightarrow> store_update E k v s = fail NotFound"
    and "store_get s k = Some i \<Longrightarrow> \<exists>s'. store_update E k v s = ok s' \<and> store_ok E s' \<and> store_get s' = (store_get s)(k \<mapsto> v)"
proof -
  show "store_update E k v s = fail NotFound" if "store_get s k = None"
    using that by (simp add: store_update_def store_get_None)
  assume "store_get s k = Some i"
  then obtain pos where pos: "map_of (mt_items s) k = Some (i, pos)" by (auto simp: store_get_iff)
  note can = store_okD(1) [OF assms]
  have in_tree: "contents (mt_merkle s) pos \<noteq> None" using store_okD(4) [OF assms, of pos] pos by fastforce
  then obtain m where m: "tree_update (le_compress E) (le_zero E) (mt_merkle s) pos (le_leaf E k v) = Some m"
    using tree_update_spec(1) [OF can, of pos "le_leaf E k v"]
    by (cases "tree_update (le_compress E) (le_zero E) (mt_merkle s) pos (le_leaf E k v)") auto
  note m' = tree_update_spec(2) [OF can m]
  let ?s = "\<lparr>mt_merkle = m, mt_items = AList.update k (v, pos) (mt_items s)\<rparr>"
  have mo: "map_of (mt_items ?s) = (map_of (mt_items s))(k \<mapsto> (v, pos))" by (simp add: update_conv')
  have only: "k' = k" if "map_of (mt_items s) k' = Some (i', pos)" for k' i' using store_okD(3) [OF assms that pos] .
  have "store_ok E ?s"
    unfolding store_ok_def mo
  proof (intro conjI allI impI)
    show "canonical (le_compress E) (le_zero E) 32 (mt_merkle ?s)" using m' by simp
    show "distinct (map fst (mt_items ?s))" using store_okD(2) [OF assms] by (simp add: distinct_update)
    show "a = b" if "((map_of (mt_items s))(k \<mapsto> (v, pos))) a = Some (x, p) \<and> ((map_of (mt_items s))(k \<mapsto> (v, pos))) b = Some (y, p)" for a b x y p
      using that store_okD(3) [OF assms] only by (auto split: if_splits)
    show "contents (mt_merkle ?s) p = Some l \<longleftrightarrow> (\<exists>k' i'. ((map_of (mt_items s))(k \<mapsto> (v, pos))) k' = Some (i', p) \<and> l = le_leaf E k' i')" for p l
    proof (cases "p = pos")
      case False
      then have "((map_of (mt_items s))(k \<mapsto> (v, pos))) k' = Some (i', p) \<longleftrightarrow> map_of (mt_items s) k' = Some (i', p)" for k' i'
        using pos by auto
      then show ?thesis using m' False store_okD(4) [OF assms, of p l] by (simp del: fun_upd_apply)
    qed (use m' only in auto)
  qed
  moreover have "store_get ?s = (store_get s)(k \<mapsto> v)" by (auto simp: store_get_def fun_eq_iff update_conv')
  ultimately show "\<exists>s'. store_update E k v s = ok s' \<and> store_ok E s' \<and> store_get s' = (store_get s)(k \<mapsto> v)"
    using m pos by (simp add: store_update_def run_def del: fun_upd_apply)
qed

subsection \<open>Compression and recovery\<close>

lemma compressed_entries:
  assumes "store_ok E s"
  shows "set (store_compressed s) = (\<lambda>(k, v, p). (p, k, v)) ` set (mt_items s)" "sorted_keys (store_compressed s)"
proof -
  let ?xs = "map (\<lambda>(k, v, p). (p, k, v)) (mt_items s)"
  have f: "store_compressed s = fold (\<lambda>(k, v). btree_insert k v) ?xs []"
    by (simp add: store_compressed_def fold_map comp_def case_prod_unfold)
  have key: "x = y" if "x \<in> set (mt_items s)" "y \<in> set (mt_items s)" "snd (snd x) = snd (snd y)" for x y
  proof -
    have "map_of (mt_items s) (fst x) = Some (fst (snd x), snd (snd x))" "map_of (mt_items s) (fst y) = Some (fst (snd y), snd (snd y))"
      using that(1,2) store_okD(2) [OF assms] by simp_all
    then have "fst x = fst y" using store_okD(3) [OF assms] that(3) by metis
    then show ?thesis using that(1,2) store_okD(2) [OF assms] by (metis eq_key_imp_eq_value prod.collapse)
  qed
  have "distinct (map fst ?xs)"
    using key store_okD(2) [OF assms] by (auto simp: distinct_map inj_on_def case_prod_unfold)
  then show "set (store_compressed s) = (\<lambda>(k, v, p). (p, k, v)) ` set (mt_items s)"
    unfolding f by (subst set_fold_btree_insert) auto
  have "sorted_keys (fold (\<lambda>(k, v). btree_insert k v) ys m)" if "sorted_keys m" for ys and m :: "(nat \<times> 'a \<times> 'b) list"
    using that by (induction ys arbitrary: m) (auto intro: sorted_btree_insert)
  then show "sorted_keys (store_compressed s)" unfolding f by simp
qed

lemma validate_entries_ok:
  "distinct (map (\<lambda>(p, k, v). k) xs) \<Longrightarrow> \<forall>x \<in> set xs. fst x < capacity \<and> fst (snd x) \<notin> set keys \<Longrightarrow>
   validate_entries capacity keys xs = Inr ()"
  by (induction capacity keys xs rule: validate_entries.induct) force+

lemma map_of_fold_update:
  "distinct (map (\<lambda>(p, k, v). k) xs) \<Longrightarrow>
   map_of (fold (\<lambda>(pos, key, item). AList.update key (item, pos)) xs al) k =
     (case map_of (map (\<lambda>(p, k, v). (k, v, p)) xs) k of None \<Rightarrow> map_of al k | Some x \<Rightarrow> Some x)"
proof (induction xs arbitrary: al)
  case (Cons x xs)
  obtain p k' v where x: "x = (p, k', v)" by (cases x)
  have "map_of (map (\<lambda>(p, k, v). (k, v, p)) xs) k' = None"
    using Cons.prems x by (force simp: map_of_eq_None_iff case_prod_unfold)
  then show ?case using Cons x by (auto simp: update_conv' split: option.splits)
qed simp

lemma store_roundtrip:
  assumes "store_ok E s"
  shows "\<exists>s'. store_try_from E (store_compressed s) = ok s' \<and> mt_merkle s' = mt_merkle s \<and> map_of (mt_items s') = map_of (mt_items s)"
proof -
  let ?c = "store_compressed s"
  note ent = compressed_entries [OF assms] and can = store_okD(1) [OF assms] and dist = store_okD(2) [OF assms]
  have iff: "(p, k, v) \<in> set ?c \<longleftrightarrow> map_of (mt_items s) k = Some (v, p)" for p k v
    using ent(1) dist by (force simp: map_of_eq_Some_iff image_iff case_prod_unfold)
  have "distinct ?c" using sorted_keys_distinct [OF ent(2)] by (simp add: distinct_map)
  moreover have "inj_on (\<lambda>(p, k, v). k) (set ?c)" using iff by (fastforce simp: inj_on_def)
  ultimately have keys: "distinct (map (\<lambda>(p, k, v). k) ?c)" by (simp add: distinct_map)
  have in_tree: "contents (mt_merkle s) p = Some (le_leaf E k v)" if "(p, k, v) \<in> set ?c" for p k v
    using that iff store_okD(4) [OF assms, of p] by blast
  then have "validate_entries (2 ^ TREE_HEIGHT_EXCEPT_ROOT) [] ?c = Inr ()"
    using contents_bound [OF can] by (intro validate_entries_ok [OF keys]) (fastforce simp: TREE_HEIGHT_EXCEPT_ROOT_def)
  moreover have "from_sorted_items (le_compress E) (le_zero E) (map (\<lambda>(pos, key, item). (pos, le_leaf E key item)) ?c) = Some (mt_merkle s)"
  proof (rule from_sorted_canonical [OF can])
    show "sorted_wrt (<) (map fst (map (\<lambda>(pos, key, item). (pos, le_leaf E key item)) ?c))"
      using ent(2) by (simp add: comp_def case_prod_unfold)
    have m: "map_of (map (\<lambda>(pos, key, item). (pos, le_leaf E key item)) xs) p = map_option (\<lambda>(k, v). le_leaf E k v) (map_of xs p)" for xs and p :: nat
      by (induction xs) auto
    show "map_of (map (\<lambda>(pos, key, item). (pos, le_leaf E key item)) ?c) = contents (mt_merkle s)"
    proof
      fix p
      show "map_of (map (\<lambda>(pos, key, item). (pos, le_leaf E key item)) ?c) p = contents (mt_merkle s) p"
      proof (cases "contents (mt_merkle s) p")
        case None
        then have "map_of ?c p = None" using in_tree by (force simp: map_of_eq_None_iff)
        then show ?thesis using m None by simp
      next
        case (Some l)
        then obtain k v where kv: "map_of (mt_items s) k = Some (v, p)" "l = le_leaf E k v" using store_okD(4) [OF assms, of p l] by blast
        then have "map_of ?c p = Some (k, v)" using iff sorted_keys_distinct [OF ent(2)] by simp
        then show ?thesis using m Some kv(2) by simp
      qed
    qed
  qed
  moreover have "map_of (fold (\<lambda>(pos, key, item). AList.update key (item, pos)) ?c []) = map_of (mt_items s)"
  proof
    fix k
    have "distinct (map fst (map (\<lambda>(p, k, v). (k, v, p)) ?c))" using keys by (simp add: comp_def case_prod_unfold)
    then have "map_of (map (\<lambda>(p, k, v). (k, v, p)) ?c) k = Some (v, p) \<longleftrightarrow> map_of (mt_items s) k = Some (v, p)" for v p
      using iff [of p k v] by (subst map_of_eq_Some_iff) (auto simp: image_iff case_prod_unfold intro: bexI [of _ "(p, k, v)"])
    then have "map_of (map (\<lambda>(p, k, v). (k, v, p)) ?c) k = map_of (mt_items s) k"
      by (cases "map_of (mt_items s) k"; cases "map_of (map (\<lambda>(p, k, v). (k, v, p)) ?c) k") auto
    then show "map_of (fold (\<lambda>(pos, key, item). AList.update key (item, pos)) ?c []) k = map_of (mt_items s) k"
      using map_of_fold_update [OF keys, of "[]" k] by (simp split: option.splits)
  qed
  ultimately show ?thesis by (simp add: store_try_from_def run_def)
qed

subsection \<open>Properties\<close>

text \<open>The stores a client builds, if it inserts each key only while it is absent.\<close>

inductive store_reachable :: "('k, 'i, 'h) leaf_extractor \<Rightarrow> ('k, 'i, 'h) merkle_tree \<Rightarrow> bool" for E where
  store_start: "store_reachable E store_new"
| store_inserted: "store_reachable E s \<Longrightarrow> store_get s k = None \<Longrightarrow> store_insert E k i s = Some (s', pos) \<Longrightarrow> store_reachable E s'"
| store_updated: "store_reachable E s \<Longrightarrow> store_update E k i s = ok s' \<Longrightarrow> store_reachable E s'"
| store_removed: "store_reachable E s \<Longrightarrow> store_remove E k s = ok (s', i) \<Longrightarrow> store_reachable E s'"

lemma store_insert_room: "store_ok E s \<Longrightarrow> store_insert E k i s = Some x \<Longrightarrow> 0 < store_room s"
  using tree_insert_full [OF store_okD(1), of E s "le_leaf E k i"]
  by (fastforce simp: store_insert_def store_room_def store_size_def)

lemma store_reachable_ok: "store_reachable E s \<Longrightarrow> store_ok E s"
proof (induction rule: store_reachable.induct)
  case store_start
  show ?case by (rule store_new_ok)
next
  case (store_inserted s k i s' pos)
  then show ?case using store_insert_fresh [of E s k i] store_insert_room [of E s k i] by auto
next
  case (store_updated s k i s')
  then show ?case using store_update_spec(1) [of E s k i] store_update_spec(2) [of E s k _ i] by (cases "store_get s k") auto
next
  case (store_removed s k s' i)
  then show ?case using store_remove_spec [of E s k] by (cases "store_get s k") auto
qed

text \<open>A store with one item, for the examples below.\<close>

definition example_leaf :: "(nat, nat, symbolic) leaf_extractor" where
  "example_leaf = utxo_leaf Node (Atom 0) Atom"

lemma one_item_store:
  "\<exists>s pos. store_insert example_leaf 1 7 store_new = Some (s, pos) \<and> store_reachable example_leaf s \<and> store_get s = [1 \<mapsto> 7]"
proof -
  have e: "store_get (store_new :: (nat, nat, symbolic) merkle_tree) = Map.empty" by (auto simp: store_get_def store_new_def)
  have "0 < store_room (store_new :: (nat, nat, symbolic) merkle_tree)"
    by (simp add: store_room_def store_size_def store_new_def tree_size_def tree_new_def)
  from store_insert_fresh [OF store_new_ok [of example_leaf] _ this, of 1 7] e
  obtain s pos where s: "store_insert example_leaf 1 7 store_new = Some (s, pos)" "store_get s = [1 \<mapsto> 7]" by auto
  then show ?thesis using store_inserted [OF store_start _ s(1)] e by auto
qed

text \<open>
  C19: A store behaves as a finite map: inserting an absent key, updating and removing give the updated
  map, the errors are exactly the missing keys, and no call panics while fewer than \<^verbatim>\<open>2^32\<close> items are stored.
\<close>

theorem store_behaves_as_map:
  assumes "store_reachable E s"
  shows "store_size s = card (dom (store_get s)) \<and>
    (store_get s k = None \<and> store_size s < 2 ^ 32 \<longrightarrow>
       (\<exists>s' pos. store_insert E k i s = Some (s', pos) \<and> store_get s' = (store_get s)(k \<mapsto> i))) \<and>
    (if store_get s k = None then store_remove E k s = fail NotFound \<and> store_update E k i s = fail NotFound
     else (\<exists>s'. store_remove E k s = ok (s', the (store_get s k)) \<and> store_get s' = (store_get s)(k := None)) \<and>
          (\<exists>s'. store_update E k i s = ok s' \<and> store_get s' = (store_get s)(k \<mapsto> i)))"
proof -
  note sok = store_reachable_ok [OF assms]
  have "\<exists>s' pos. store_insert E k i s = Some (s', pos) \<and> store_get s' = (store_get s)(k \<mapsto> i)"
    if "store_get s k = None \<and> store_size s < 2 ^ 32"
    using store_insert_fresh [OF sok, of k i] that by (auto simp: store_room_def)
  moreover have "(\<exists>s'. store_remove E k s = ok (s', v) \<and> store_get s' = (store_get s)(k := None)) \<and>
      (\<exists>s'. store_update E k i s = ok s' \<and> store_get s' = (store_get s)(k \<mapsto> i))" if "store_get s k = Some v" for v
    using store_remove_spec(2) [OF sok that] store_update_spec(2) [OF sok that, of i] by blast
  ultimately show ?thesis
    using store_size_card(1) [OF sok] store_remove_spec(1) [OF sok] store_update_spec(1) [OF sok]
    by (cases "store_get s k") (simp_all del: fun_upd_apply)
qed

theorem store_behaves_as_map_witness:
  "\<exists>s pos s'. store_insert example_leaf 1 7 store_new = Some (s, pos) \<and> store_remove example_leaf 1 s = ok (s', 7) \<and>
     store_remove example_leaf 2 s = fail NotFound"
proof -
  obtain s pos where s: "store_insert example_leaf 1 7 store_new = Some (s, pos)" "store_reachable example_leaf s"
    "store_get s = [1 \<mapsto> 7]" using one_item_store by blast
  then show ?thesis
    using store_behaves_as_map [OF s(2), of 1 0] store_behaves_as_map [OF s(2), of 2 0] by auto
qed

text \<open>
  Every stored key has a path, and its siblings lead from the key's leaf to the root of the store.
\<close>

theorem store_path_to_root:
  assumes "store_reachable E s" "store_get s k = Some i"
  shows "\<exists>pos p root. store_path E s k = Some (Some p) \<and> store_root E s = Some root \<and>
    map_of (mt_items s) k = Some (i, pos) \<and> fold_path (le_compress E) pos (le_leaf E k i) (map node_item p) = root"
proof -
  note sok = store_reachable_ok [OF assms(1)]
  note can = store_okD(1) [OF sok]
  obtain pos where pos: "map_of (mt_items s) k = Some (i, pos)" using assms(2) by (auto simp: store_get_iff)
  then have c: "contents (mt_merkle s) pos = Some (le_leaf E k i)" using store_okD(4) [OF sok, of pos] by blast
  then have bound: "pos < 2 ^ 32" using contents_bound [OF can, of pos] by simp
  let ?f = "leaf_or (le_zero E) (mt_merkle s)"
  let ?p = "map (\<lambda>d. side pos d (sibling_hash (le_compress E) ?f pos d)) [0..<32]"
  have p: "store_path E s k = Some (Some ?p)"
    using node_path_leaf [OF can, of pos] c pos by (simp add: store_path_def tree_path_def TREE_HEIGHT_EXCEPT_ROOT_def)
  have items: "map node_item ?p = map (\<lambda>d. sibling_hash (le_compress E) ?f pos d) [0..<32]" by (simp add: side_def)
  have "fold_path (le_compress E) pos (merkle (le_compress E) ?f 0 pos) (map node_item ?p)
      = merkle (le_compress E) ?f (0 + length (map node_item ?p)) (pos div 2 ^ length (map node_item ?p))"
    unfolding items by (rule fold_path_merkle) (simp add: sibling_hash_def)
  then have "fold_path (le_compress E) pos (le_leaf E k i) (map node_item ?p) = merkle (le_compress E) ?f 32 0"
    using bound c by (simp add: leaf_or_def)
  then show ?thesis using tree_root_merkle [OF can] p pos by (auto simp: store_root_def)
qed

theorem store_path_to_root_witness:
  "\<exists>s pos p root. store_insert example_leaf 1 7 store_new = Some (s, pos) \<and> store_path example_leaf s 1 = Some (Some p) \<and>
     store_root example_leaf s = Some root"
proof -
  obtain s pos where s: "store_insert example_leaf 1 7 store_new = Some (s, pos)" "store_reachable example_leaf s"
    "store_get s = [1 \<mapsto> 7]" using one_item_store by blast
  then show ?thesis using store_path_to_root [OF s(2), of 1 7] by auto
qed

text \<open>
  A store survives compression: recovering from the compressed form never fails and gives back the
  same tree and the same items, hence an equal store.
\<close>

theorem compression_roundtrip:
  assumes "store_reachable E s"
  shows "\<exists>s'. store_try_from E (store_compressed s) = ok s' \<and> store_eq E s' s = Some True \<and>
    map_of (mt_items s') = map_of (mt_items s)"
proof -
  note sok = store_reachable_ok [OF assms]
  obtain s' where s': "store_try_from E (store_compressed s) = ok s'" "mt_merkle s' = mt_merkle s"
      "map_of (mt_items s') = map_of (mt_items s)"
    using store_roundtrip [OF sok] by blast
  then have "store_eq E s' s = Some True"
    using tree_root_merkle [OF store_okD(1) [OF sok]] by (simp add: store_eq_def tree_eq_def)
  then show ?thesis using s' by blast
qed

theorem compression_roundtrip_witness:
  "\<exists>s pos s'. store_insert example_leaf 1 7 store_new = Some (s, pos) \<and>
     store_try_from example_leaf (store_compressed s) = ok s' \<and> store_eq example_leaf s' s = Some True"
proof -
  obtain s pos where s: "store_insert example_leaf 1 7 store_new = Some (s, pos)" "store_reachable example_leaf s"
    using one_item_store by blast
  then show ?thesis using compression_roundtrip [OF s(2)] by auto
qed

text \<open>Inserting a key that is already stored leaves its old leaf in the tree for ever.\<close>

lemma insert_present_key_leaks_leaf:
  assumes "store_ok E s" "store_get s k = Some i" "store_insert E k j s = Some (s', pos)"
  shows "store_size s' = card (dom (store_get s')) + 1"
proof -
  note can = store_okD(1) [OF assms(1)]
  have room: "tree_size (mt_merkle s) < 2 ^ 32" using store_insert_room [OF assms(1,3)] by (simp add: store_room_def store_size_def)
  from tree_insert_spec [OF can room, of "le_leaf E k j"] assms(3)
  obtain m where m: "canonical (le_compress E) (le_zero E) 32 m" "contents (mt_merkle s) pos = None"
      "\<forall>p. contents m p = (if p = pos then Some (le_leaf E k j) else contents (mt_merkle s) p)"
      "s' = \<lparr>mt_merkle = m, mt_items = AList.update k (j, pos) (mt_items s)\<rparr>"
    by (auto simp: store_insert_def)
  have "dom (contents m) = insert pos (dom (contents (mt_merkle s)))" using m(3) by (auto simp: dom_def)
  then have "store_size s' = store_size s + 1"
    using node_size_card [OF m(1)] store_size_card(2,3) [OF assms(1)] m(2,4)
    by (simp add: store_size_def tree_size_def domIff)
  moreover have "dom (store_get s') = dom (store_get s)"
    using m(4) assms(2) by (auto simp: store_get_def dom_def update_conv')
  ultimately show ?thesis using store_size_card(1) [OF assms(1)] by simp
qed

end
