(* ===== verification/NoteLedger.thy ===== *)
theory NoteLedger
  imports ServiceNotes MerkleStore
begin

text \<open>
  Spending and creating notes: \<^verbatim>\<open>Inputs\<close> and \<^verbatim>\<open>Outputs\<close> of \<^verbatim>\<open>core/src/mantle/ledger.rs\<close>, the transfer operation
  (\<^verbatim>\<open>core/src/mantle/ops/transfer.rs\<close>), and the deferred proofs (\<^verbatim>\<open>core/src/mantle/batch.rs\<close>).

  The unspent notes are the store of theory MerkleStore whose leaves are the note identifiers.  The lemmas
  reduce the loops over inputs and outputs to the contract \<open>keyed_store\<close>; the properties are
  that an accepted transfer spends unspent notes that are neither in service nor owned by a channel, each once, and
  that executing it changes the total value of the unspent notes by exactly its balance.
\<close>

type_synonym utxos = "(note_id, utxo, nat) merkle_tree"

definition note_tree :: "extern \<Rightarrow> (note_id, utxo, nat) leaf_extractor" where
  "note_tree X = utxo_leaf (zk_compress X) 0 (\<lambda>id. id)"

datatype bounded_error = TooManyItems nat nat | DuplicateItem nat

datatype inputs_error =
    InexistingNote note_id
  | ServiceNote note_id
  | ChannelNote note_id
  | NotAChannelNote note_id
  | EmptyInputs
  | DoubleSpend
  | InputsOverflow
  | InputsBounded bounded_error

datatype outputs_error =
    ZeroValueNote
  | OutputsOverflow
  | OutputsBounded bounded_error

subsection \<open>Outputs\<close>

definition outputs_try_new :: "ledger_note list \<Rightarrow> (outputs_error + outputs) option" where
  "outputs_try_new notes =
     (if length notes \<le> MAX_TRANSACTION_OUTPUTS then ok notes
      else fail (OutputsBounded (TooManyItems (length notes) MAX_TRANSACTION_OUTPUTS)))"

definition output_utxos :: "nat \<Rightarrow> outputs \<Rightarrow> utxo list" where
  "output_utxos oid outputs =
     map (\<lambda>(index, n). \<lparr>utxo_op_id = oid, output_index = index, utxo_note = n\<rparr>) (enumerate 0 outputs)"

definition utxo_by_index :: "nat \<Rightarrow> nat \<Rightarrow> outputs \<Rightarrow> utxo option" where
  "utxo_by_index index oid outputs =
     (if index < length outputs then Some \<lparr>utxo_op_id = oid, output_index = index, utxo_note = outputs ! index\<rparr> else None)"

definition outputs_validate :: "outputs \<Rightarrow> (outputs_error + unit) option" where
  "outputs_validate outputs = try_all (\<lambda>n. ensure (note_value n \<noteq> 0) ZeroValueNote) outputs"

definition outputs_execute :: "extern \<Rightarrow> nat \<Rightarrow> outputs \<Rightarrow> utxos \<Rightarrow> utxos option" where
  "outputs_execute X oid outputs us =
     fold_run (\<lambda>s u. map_option fst (store_insert (note_tree X) (utxo_id X u) u s)) us (output_utxos oid outputs)"

definition outputs_amount :: "outputs \<Rightarrow> (outputs_error + nat) option" where
  "outputs_amount outputs = try_fold (\<lambda>n amount. ok_or OutputsOverflow (checked_add 64 amount (note_value n))) outputs 0"

subsection \<open>Inputs\<close>

definition inputs_preverify :: "inputs \<Rightarrow> (inputs_error + unit) option" where
  "inputs_preverify inputs = ensure (inputs \<noteq> []) EmptyInputs"

definition validate_uniqueness :: "inputs \<Rightarrow> (inputs_error + unit) option" where
  "validate_uniqueness inputs = ensure (card (set inputs) = length inputs) DoubleSpend"

definition validate_not_in_service_and_present :: "service_notes \<Rightarrow> utxos \<Rightarrow> inputs \<Rightarrow> (inputs_error + unit) option" where
  "validate_not_in_service_and_present sn us inputs =
     try_all (\<lambda>i. bind_res (ensure (\<not> sn_contains sn i) (ServiceNote i)) (\<lambda>_. ensure (store_contains us i) (InexistingNote i))) inputs"

definition validate_not_in_channel :: "service_notes \<Rightarrow> channels \<Rightarrow> utxos \<Rightarrow> inputs \<Rightarrow> (inputs_error + unit) option" where
  "validate_not_in_channel sn cs us inputs =
     bind_res (validate_uniqueness inputs) (\<lambda>_.
     bind_res (validate_not_in_service_and_present sn us inputs) (\<lambda>_.
     try_all (\<lambda>i. ensure (\<not> is_channel_note cs i) (ChannelNote i)) inputs))"

definition validate_in_channel ::
  "service_notes \<Rightarrow> channels \<Rightarrow> channel_id \<Rightarrow> utxos \<Rightarrow> inputs \<Rightarrow> (inputs_error + unit) option" where
  "validate_in_channel sn cs channel us inputs =
     bind_res (validate_uniqueness inputs) (\<lambda>_.
     bind_res (validate_not_in_service_and_present sn us inputs) (\<lambda>_.
     try_all (\<lambda>i. ensure (is_channel_note_of cs i channel) (NotAChannelNote i)) inputs))"

definition inputs_execute :: "extern \<Rightarrow> inputs \<Rightarrow> utxos \<Rightarrow> (inputs_error + utxos) option" where
  "inputs_execute X inputs us =
     try_fold (\<lambda>i s. bind_res (map_err (\<lambda>_. InexistingNote i) (store_remove (note_tree X) i s)) (\<lambda>(s, _). ok s)) inputs us"

definition inputs_amount :: "utxos \<Rightarrow> inputs \<Rightarrow> (inputs_error + nat) option" where
  "inputs_amount us inputs =
     try_fold (\<lambda>i amount. bind_res (ok_or (InexistingNote i) (store_get us i))
       (\<lambda>u. ok_or InputsOverflow (checked_add 64 amount (note_value (utxo_note u))))) inputs 0"

definition get_pk :: "utxos \<Rightarrow> inputs \<Rightarrow> (inputs_error + nat list) option" where
  "get_pk us inputs =
     try_fold (\<lambda>i pks. bind_res (ok_or (InexistingNote i) (store_get us i)) (\<lambda>u. ok (pks @ [note_pk (utxo_note u)]))) inputs []"

subsection \<open>Deferred proofs\<close>

record deferred_zk_sig =
  dz_proof :: nat
  dz_inputs :: zksign_inputs

record deferred_leader_claim =
  dl_proof :: nat
  dl_inputs :: "nat list"

record deferred_proofs =
  zk_sigs :: "deferred_zk_sig list"
  leader_claims :: "deferred_leader_claim list"

definition deferred_new :: deferred_proofs where
  "deferred_new = \<lparr>zk_sigs = [], leader_claims = []\<rparr>"

definition deferred_extend :: "deferred_proofs \<Rightarrow> deferred_proofs \<Rightarrow> deferred_proofs" where
  "deferred_extend d other = \<lparr>zk_sigs = zk_sigs d @ zk_sigs other, leader_claims = leader_claims d @ leader_claims other\<rparr>"

definition defer_zk_sig :: "deferred_zk_sig \<Rightarrow> deferred_proofs \<Rightarrow> deferred_proofs" where
  "defer_zk_sig p d = d\<lparr>zk_sigs := zk_sigs d @ [p]\<rparr>"

definition defer_leader_claim :: "deferred_leader_claim \<Rightarrow> deferred_proofs \<Rightarrow> deferred_proofs" where
  "defer_leader_claim p d = d\<lparr>leader_claims := leader_claims d @ [p]\<rparr>"

datatype batch_error = InvalidZkSignatures | MalformedZkSignature | InvalidLeaderClaimProofs | MalformedLeaderClaimProof

text \<open>The batch verifiers of the proof crates are parameters; \<^term>\<open>None\<close> is their error.\<close>

definition deferred_verify ::
  "(deferred_zk_sig list \<Rightarrow> bool option) \<Rightarrow> (deferred_leader_claim list \<Rightarrow> bool option) \<Rightarrow> deferred_proofs \<Rightarrow> (batch_error + unit) option" where
  "deferred_verify zk_batch poc_batch d =
     bind_res
       (if zk_sigs d = [] then ok ()
        else case zk_batch (zk_sigs d) of
               Some True \<Rightarrow> ok () | Some False \<Rightarrow> fail InvalidZkSignatures | None \<Rightarrow> fail MalformedZkSignature)
       (\<lambda>_. if leader_claims d = [] then ok ()
            else case poc_batch (leader_claims d) of
                   Some True \<Rightarrow> ok () | Some False \<Rightarrow> fail InvalidLeaderClaimProofs | None \<Rightarrow> fail MalformedLeaderClaimProof)"

text \<open>The field element a transaction hash is signed as, and the signature over its bytes.\<close>

definition hash_to_fr :: "nat \<Rightarrow> nat" where
  "hash_to_fr h = h mod fr_modulus"

definition ed_verify :: "extern \<Rightarrow> ed_key \<Rightarrow> nat \<Rightarrow> ed_sig \<Rightarrow> bool" where
  "ed_verify X key h signature \<longleftrightarrow> verify_strict X key (to_le_bytes 32 h) signature"

subsection \<open>Events\<close>

record deposit_note =
  dn_note_id :: note_id
  dn_value :: nat
  dn_pk :: nat

datatype tx_event_payload =
    Deposit channel_id nat "byte list" "deposit_note list"
  | LeaderRewardClaimed nat utxo
  | PoWRewardClaimed nat utxo

record tx_event =
  ev_tx_hash :: nat
  ev_op_id :: nat
  ev_payload :: tx_event_payload

subsection \<open>Transfers\<close>

datatype transfer_error =
    TransferInputs inputs_error
  | TransferOutputs outputs_error
  | BalanceOverflow
  | InvalidTransferProof

definition transfer_op_id :: "extern \<Rightarrow> transfer_op \<Rightarrow> nat option" where
  "transfer_op_id X op = map_option (op_id X) (c_enc transfer_c op)"

definition transfer_balance :: "utxos \<Rightarrow> transfer_op \<Rightarrow> (transfer_error + int) option" where
  "transfer_balance us op =
     bind_res (map_err TransferInputs (inputs_amount us (t_inputs op))) (\<lambda>input_amount.
     bind_res (map_err TransferOutputs (outputs_amount (t_outputs op))) (\<lambda>output_amount.
     bind_res (ok_or BalanceOverflow (checked_add_int 128 0 (int input_amount))) (\<lambda>balance.
     ok_or BalanceOverflow (checked_sub_int 128 balance (int output_amount)))))"

definition transfer_preverify :: "transfer_op \<Rightarrow> (transfer_error + unit) option" where
  "transfer_preverify op =
     bind_res (map_err TransferInputs (inputs_preverify (t_inputs op))) (\<lambda>_.
     map_err TransferOutputs (outputs_validate (t_outputs op)))"

definition transfer_verify ::
  "extern \<Rightarrow> service_notes \<Rightarrow> channels \<Rightarrow> utxos \<Rightarrow> nat \<Rightarrow> transfer_op \<Rightarrow> nat \<Rightarrow> (transfer_error + deferred_zk_sig) option" where
  "transfer_verify X sn cs us h op proof =
     bind_res (map_err TransferInputs (validate_not_in_channel sn cs us (t_inputs op))) (\<lambda>_.
     bind_res (map_err TransferInputs (get_pk us (t_inputs op))) (\<lambda>pks.
     case inputs_from_pks X (hash_to_fr h) pks of
       Inl _ \<Rightarrow> fail InvalidTransferProof
     | Inr inputs \<Rightarrow> ok \<lparr>dz_proof = proof, dz_inputs = inputs\<rparr>))"

definition transfer_execute :: "extern \<Rightarrow> transfer_op \<Rightarrow> utxos \<Rightarrow> (transfer_error + utxos \<times> tx_event list) option" where
  "transfer_execute X op us =
     bind_res (map_err TransferInputs (inputs_execute X (t_inputs op) us)) (\<lambda>us.
     bind_res (run (do { oid \<leftarrow> transfer_op_id X op; outputs_execute X oid (t_outputs op) us })) (\<lambda>us. ok (us, [])))"

subsection \<open>The value of notes\<close>

abbreviation utxo_value :: "utxo \<Rightarrow> nat" where
  "utxo_value u \<equiv> note_value (utxo_note u)"

definition total_value :: "utxos \<Rightarrow> nat" where
  "total_value us = map_total utxo_value (store_get us)"

definition input_value :: "utxos \<Rightarrow> inputs \<Rightarrow> nat" where
  "input_value us inputs = sum_list (map (\<lambda>i. utxo_value (the (store_get us i))) inputs)"

definition output_value :: "outputs \<Rightarrow> nat" where
  "output_value outputs = sum_list (map note_value outputs)"

abbreviation notes_ok :: "extern \<Rightarrow> utxos \<Rightarrow> bool" where
  "notes_ok X \<equiv> store_ok (note_tree X)"

text \<open>The identifiers of the outputs are new: no two of them coincide and none is the identifier of an unspent note.\<close>

definition fresh_outputs :: "extern \<Rightarrow> utxos \<Rightarrow> nat \<Rightarrow> outputs \<Rightarrow> bool" where
  "fresh_outputs X us oid outputs \<longleftrightarrow>
     distinct (map (utxo_id X) (output_utxos oid outputs)) \<and>
     (\<forall>u \<in> set (output_utxos oid outputs). store_get us (utxo_id X u) = None)"

lemma store_contains_iff: "store_contains us i \<longleftrightarrow> store_get us i \<noteq> None"
  by (simp add: store_contains_def store_get_def)

lemma length_output_utxos [simp]: "length (output_utxos oid outputs) = length outputs"
  by (simp add: output_utxos_def)

lemma output_utxos_values: "map utxo_value (output_utxos oid outputs) = map note_value outputs"
proof -
  have "map (utxo_value \<circ> (\<lambda>(index, n). \<lparr>utxo_op_id = oid, output_index = index, utxo_note = n\<rparr>)) (enumerate k xs)
      = map note_value xs" for k xs
    by (induction xs arbitrary: k) auto
  then show ?thesis by (simp add: output_utxos_def)
qed

lemma utxo_by_index_nth: "utxo_by_index i oid outputs = (if i < length outputs then Some (output_utxos oid outputs ! i) else None)"
  by (simp add: utxo_by_index_def output_utxos_def nth_enumerate_eq)

lemma validate_uniqueness_ok: "validate_uniqueness inputs = ok () \<longleftrightarrow> distinct inputs"
  by (simp add: validate_uniqueness_def distinct_card card_distinct iffI)

lemma validate_not_in_service_ok:
  "validate_not_in_service_and_present sn us inputs = ok u \<longleftrightarrow>
     (\<forall>i \<in> set inputs. \<not> sn_contains sn i \<and> store_get us i \<noteq> None)"
  by (simp add: validate_not_in_service_and_present_def try_all_ok_iff bind_res_ok_iff store_contains_iff)

lemma validate_not_in_channel_ok:
  "validate_not_in_channel sn cs us inputs = ok u \<longleftrightarrow>
     distinct inputs \<and> (\<forall>i \<in> set inputs. \<not> sn_contains sn i \<and> store_get us i \<noteq> None \<and> \<not> is_channel_note cs i)"
  by (auto simp: validate_not_in_channel_def bind_res_ok_iff validate_uniqueness_ok validate_not_in_service_ok try_all_ok_iff)

lemma validate_in_channel_ok:
  "validate_in_channel sn cs c us inputs = ok u \<longleftrightarrow>
     distinct inputs \<and> (\<forall>i \<in> set inputs. \<not> sn_contains sn i \<and> store_get us i \<noteq> None \<and> is_channel_note_of cs i c)"
  by (auto simp: validate_in_channel_def bind_res_ok_iff validate_uniqueness_ok validate_not_in_service_ok try_all_ok_iff)

lemma try_all_ensure_returns [simp]: "try_all (\<lambda>x. ensure (p x) (e x)) xs \<noteq> None"
  by (rule try_all_returns) simp

lemma validate_returns:
  "validate_not_in_channel sn cs us inputs \<noteq> None" "validate_in_channel sn cs c us inputs \<noteq> None"
proof -
  have "validate_not_in_service_and_present sn us inputs \<noteq> None"
    unfolding validate_not_in_service_and_present_def by (rule try_all_returns) (simp add: bind_res_None_iff)
  then show "validate_not_in_channel sn cs us inputs \<noteq> None" "validate_in_channel sn cs c us inputs \<noteq> None"
    by (simp_all add: validate_not_in_channel_def validate_in_channel_def bind_res_None_iff validate_uniqueness_def)
qed

lemma inputs_amount_ok_iff:
  "inputs_amount us inputs = ok a \<longleftrightarrow>
     (\<forall>i \<in> set inputs. store_get us i \<noteq> None) \<and> a = input_value us inputs \<and> a < 2 ^ 64"
proof -
  have f: "(\<lambda>i amount. bind_res (ok_or (InexistingNote i) (store_get us i))
        (\<lambda>u. ok_or InputsOverflow (checked_add 64 amount (utxo_value u))))
    = (\<lambda>i amount. bind_res (ok_or (InexistingNote i) (map_option utxo_value (store_get us i)))
        (\<lambda>v. ok_or InputsOverflow (checked_add 64 amount v)))"
    by (intro ext) (simp add: ok_or_def split: option.splits)
  have v: "sum_list (map (\<lambda>i. the (map_option utxo_value (store_get us i))) inputs) = input_value us inputs"
    if "\<forall>i \<in> set inputs. store_get us i \<noteq> None"
    unfolding input_value_def using that by (intro arg_cong [of _ _ sum_list] map_cong) auto
  show ?thesis unfolding inputs_amount_def f try_sum_ok_iff using v by (cases "inputs = []") (auto simp: input_value_def)
qed

lemma get_pk_ok_iff:
  "get_pk us inputs = ok pks \<longleftrightarrow>
     (\<forall>i \<in> set inputs. store_get us i \<noteq> None) \<and> pks = map (\<lambda>i. note_pk (utxo_note (the (store_get us i)))) inputs"
  by (simp add: get_pk_def try_collect_ok_iff)

lemma outputs_amount_ok_iff: "outputs_amount outputs = ok a \<longleftrightarrow> a = output_value outputs \<and> a < 2 ^ 64"
proof -
  have f: "(\<lambda>n amount. ok_or OutputsOverflow (checked_add 64 amount (note_value n)))
    = (\<lambda>n amount. bind_res (ok_or OutputsOverflow (Some (note_value n))) (\<lambda>v. ok_or OutputsOverflow (checked_add 64 amount v)))"
    by (intro ext) (simp add: ok_or_def)
  show ?thesis unfolding outputs_amount_def f try_sum_ok_iff output_value_def by (cases "outputs = []") auto
qed

lemma inputs_execute_spec:
  assumes "notes_ok X us" "distinct inputs" "\<forall>i \<in> set inputs. store_get us i \<noteq> None"
  shows "\<exists>us'. inputs_execute X inputs us = ok us' \<and> notes_ok X us' \<and> store_get us' = store_get us |` (- set inputs) \<and>
    store_room us' = store_room us + length inputs"
  using store.remove_all [OF assms(1), of inputs InexistingNote] assms(2,3) by (simp add: inputs_execute_def)

lemma inputs_execute_fail:
  assumes "notes_ok X us" "\<not> (distinct inputs \<and> (\<forall>i \<in> set inputs. store_get us i \<noteq> None))"
  shows "\<exists>i \<in> set inputs. inputs_execute X inputs us = fail (InexistingNote i)"
  using store.remove_all [OF assms(1), of inputs InexistingNote] unfolding if_not_P [OF assms(2)] inputs_execute_def .

lemma outputs_execute_spec:
  assumes "notes_ok X us" "fresh_outputs X us oid outputs" "length outputs \<le> store_room us"
  shows "\<exists>us'. outputs_execute X oid outputs us = Some us' \<and> notes_ok X us' \<and>
    store_get us' = store_get us ++ map_of (map (\<lambda>u. (utxo_id X u, u)) (output_utxos oid outputs)) \<and>
    store_room us' = store_room us - length outputs"
proof -
  let ?xs = "map (\<lambda>u. (utxo_id X u, u)) (output_utxos oid outputs)"
  have "distinct (map fst ?xs)" "\<forall>x \<in> set ?xs. store_get us (fst x) = None" "length ?xs \<le> store_room us"
    using assms(2,3) by (auto simp: fresh_outputs_def comp_def)
  from store.insert_all [OF assms(1) this] show ?thesis by (simp add: outputs_execute_def fold_run_map)
qed

lemma total_value_inputs:
  assumes "notes_ok X us" "distinct inputs" "\<forall>i \<in> set inputs. store_get us i \<noteq> None"
    and "store_get us' = store_get us |` (- set inputs)"
  shows "total_value us' + input_value us inputs = total_value us"
  using map_total_restrict [OF store.finite_lookup [OF assms(1)] assms(2,3), of utxo_value] assms(4)
  by (simp add: total_value_def input_value_def)

lemma total_value_outputs:
  assumes "notes_ok X us" "fresh_outputs X us oid outputs"
    and "store_get us' = store_get us ++ map_of (map (\<lambda>u. (utxo_id X u, u)) (output_utxos oid outputs))"
  shows "total_value us' = total_value us + output_value outputs"
proof -
  have "distinct (map fst (map (\<lambda>u. (utxo_id X u, u)) (output_utxos oid outputs)))"
    "\<forall>x \<in> set (map (\<lambda>u. (utxo_id X u, u)) (output_utxos oid outputs)). store_get us (fst x) = None"
    using assms(2) by (auto simp: fresh_outputs_def comp_def)
  from map_total_add [OF store.finite_lookup [OF assms(1)] this, of utxo_value] show ?thesis
    using assms(3) output_utxos_values [of oid outputs] by (simp add: total_value_def output_value_def comp_def)
qed

lemma inputs_from_pks_iff:
  "inputs_from_pks X m pks = Inr i \<longleftrightarrow> length pks \<le> MAX_ZK_SIGNING_KEYS \<and>
     i = \<lparr>public_keys = pks @ replicate (MAX_ZK_SIGNING_KEYS - length pks) (to_public_key X 0), zk_msg = m\<rparr>"
  by (auto simp: inputs_from_pks_def)

definition owner :: "utxos \<Rightarrow> note_id \<Rightarrow> nat" where
  "owner us i = note_pk (utxo_note (the (store_get us i)))"

text \<open>The statement a ZK signature over the hash of a transaction has to prove: it is signed by all these keys.\<close>

definition signed_by :: "extern \<Rightarrow> nat list \<Rightarrow> nat \<Rightarrow> zksign_inputs" where
  "signed_by X pks h =
     \<lparr>public_keys = pks @ replicate (MAX_ZK_SIGNING_KEYS - length pks) (to_public_key X 0), zk_msg = hash_to_fr h\<rparr>"

lemma transfer_verify_iff:
  "transfer_verify X sn cs us h op proof = ok d \<longleftrightarrow>
     distinct (t_inputs op) \<and> length (t_inputs op) \<le> MAX_ZK_SIGNING_KEYS \<and>
     (\<forall>i \<in> set (t_inputs op). store_get us i \<noteq> None \<and> \<not> sn_contains sn i \<and> \<not> is_channel_note cs i) \<and>
     d = \<lparr>dz_proof = proof, dz_inputs = signed_by X (map (owner us) (t_inputs op)) h\<rparr>"
  by (auto simp: transfer_verify_def bind_res_ok_iff validate_not_in_channel_ok get_pk_ok_iff inputs_from_pks_def signed_by_def
      owner_def split: sum.splits if_splits)

lemma transfer_balance_iff:
  "transfer_balance us op = ok b \<longleftrightarrow>
     (\<forall>i \<in> set (t_inputs op). store_get us i \<noteq> None) \<and> input_value us (t_inputs op) < 2 ^ 64 \<and> output_value (t_outputs op) < 2 ^ 64 \<and>
     b = int (input_value us (t_inputs op)) - int (output_value (t_outputs op))"
  by (auto simp: transfer_balance_def bind_res_ok_iff inputs_amount_ok_iff outputs_amount_ok_iff checked_add_int_def checked_sub_int_def)

lemma input_value_bound:
  assumes "notes_ok X us" "distinct inputs" "\<forall>i \<in> set inputs. store_get us i \<noteq> None"
  shows "input_value us inputs \<le> total_value us"
proof -
  obtain us' :: utxos where "store_get us' = store_get us |` (- set inputs)" using inputs_execute_spec [OF assms] by blast
  from total_value_inputs [OF assms this] show ?thesis by simp
qed

lemma spend_and_create:
  assumes "notes_ok X us" "distinct inputs" "\<forall>i \<in> set inputs. store_get us i \<noteq> None" "fresh_outputs X us oid outputs"
    and "length outputs \<le> store_room us + length inputs"
  shows "\<exists>us1 us'. inputs_execute X inputs us = ok us1 \<and> outputs_execute X oid outputs us1 = Some us' \<and> notes_ok X us' \<and>
    store_get us' = store_get us |` (- set inputs) ++ map_of (map (\<lambda>u. (utxo_id X u, u)) (output_utxos oid outputs)) \<and>
    store_room us' = store_room us + length inputs - length outputs \<and>
    total_value us' + input_value us inputs = total_value us + output_value outputs"
proof -
  obtain us1 where us1: "inputs_execute X inputs us = ok us1" "notes_ok X us1"
      "store_get us1 = store_get us |` (- set inputs)" "store_room us1 = store_room us + length inputs"
    using inputs_execute_spec [OF assms(1-3)] by blast
  have fresh: "fresh_outputs X us1 oid outputs" using assms(4) us1(3) by (auto simp: fresh_outputs_def restrict_map_def)
  obtain us' where us': "outputs_execute X oid outputs us1 = Some us'" "notes_ok X us'"
      "store_get us' = store_get us1 ++ map_of (map (\<lambda>u. (utxo_id X u, u)) (output_utxos oid outputs))"
      "store_room us' = store_room us1 - length outputs"
    using outputs_execute_spec [OF us1(2) fresh] assms(5) us1(4) by auto
  have "total_value us' + input_value us inputs = total_value us + output_value outputs"
    using total_value_inputs [OF assms(1-3) us1(3)] total_value_outputs [OF us1(2) fresh us'(3)] by simp
  then show ?thesis using us1 us' by auto
qed

lemma transfer_execute_spec:
  assumes "notes_ok X us" "distinct (t_inputs op)" "\<forall>i \<in> set (t_inputs op). store_get us i \<noteq> None"
    and "transfer_op_id X op = Some oid" "fresh_outputs X us oid (t_outputs op)"
    and "length (t_outputs op) \<le> store_room us + length (t_inputs op)"
  shows "\<exists>us'. transfer_execute X op us = ok (us', []) \<and> notes_ok X us' \<and>
    store_get us' = store_get us |` (- set (t_inputs op)) ++ map_of (map (\<lambda>u. (utxo_id X u, u)) (output_utxos oid (t_outputs op))) \<and>
    store_room us' = store_room us + length (t_inputs op) - length (t_outputs op) \<and>
    total_value us' + input_value us (t_inputs op) = total_value us + output_value (t_outputs op)"
  using spend_and_create [OF assms(1-3,5,6)] assms(4) by (auto simp: transfer_execute_def)

subsection \<open>Examples\<close>

definition example_utxo :: "nat \<Rightarrow> nat \<Rightarrow> utxo" where
  "example_utxo v pk = \<lparr>utxo_op_id = 1, output_index = 0, utxo_note = \<lparr>note_value = v, note_pk = pk\<rparr>\<rparr>"

definition example_notes :: "note_id \<rightharpoonup> utxo" where
  "example_notes = [3 \<mapsto> example_utxo 10 21, 4 \<mapsto> example_utxo 5 22, 5 \<mapsto> example_utxo 8 23]"

text \<open>A tree that holds these notes.\<close>

lemma example_notes_exist:
  "\<exists>us. notes_ok X us \<and> store_get us = example_notes \<and> store_room us = 2 ^ 32 - 3"
proof -
  let ?xs = "[(3 :: note_id, example_utxo 10 21), (4, example_utxo 5 22), (5, example_utxo 8 23)]"
  have room: "store_room (store_new :: utxos) = 2 ^ 32" and empty: "store_get (store_new :: utxos) = Map.empty"
    by (simp_all add: store_room_def store_size_def store_new_def tree_size_def tree_new_def store_get_def fun_eq_iff)
  have d: "distinct (map fst ?xs)" "\<forall>x \<in> set ?xs. store_get (store_new :: utxos) (fst x) = None"
    "length ?xs \<le> store_room (store_new :: utxos)" using room empty by simp_all
  have "example_notes = Map.empty ++ map_of ?xs" by (auto simp: example_notes_def fun_eq_iff)
  then show ?thesis using store.insert_all [OF store_new_ok [of "note_tree X"] d] unfolding empty room by auto
qed

text \<open>Parameters under which the identifiers of the example are small numbers.\<close>

definition plain_extern :: extern where
  "plain_extern = example_extern\<lparr>permute := (\<lambda>st. st), blake2b := (\<lambda>_. 1)\<rparr>"

definition example_transfer :: transfer_op where
  "example_transfer = \<lparr>t_inputs = [3, 4], t_outputs = [\<lparr>note_value = 6, note_pk = 31\<rparr>, \<lparr>note_value = 7, note_pk = 32\<rparr>]\<rparr>"

lemma plain_digest: "digest plain_extern xs = (sum_list xs + 1) mod fr_modulus"
proof -
  have "fold (update_one plain_extern) xs (a mod fr_modulus, b, c) = ((a + sum_list xs) mod fr_modulus, b, c)" for a b c
    by (induction xs arbitrary: a) (simp_all add: update_one_def plain_extern_def mod_add_left_eq add.assoc)
  from this [of 0 0 0] show ?thesis
    by (simp add: digest_def hasher_update_def hasher_new_def update_one_def plain_extern_def mod_Suc_eq)
qed

lemma plain_utxo_id:
  "utxo_id plain_extern u =
     (232989242343357190262607 + utxo_op_id u + output_index u + note_value (utxo_note u) + note_pk (utxo_note u)) mod fr_modulus"
proof -
  have "from_le_bytes (ascii ''NOTE_ID_V1'') = 232989242343357190262606" by (simp add: ascii_def)
  moreover have "(a + x mod fr_modulus + b) mod fr_modulus = (a + x + b) mod fr_modulus" for a x b :: nat
    by (rule mod_add_cong [OF mod_add_right_eq refl])
  note this [of 232989242343357190262607 "utxo_op_id u" "output_index u + note_value (utxo_note u) + note_pk (utxo_note u)"]
  ultimately show ?thesis unfolding utxo_id_def plain_digest by (simp add: ac_simps)
qed

lemma example_transfer_outputs:
  "transfer_op_id plain_extern example_transfer = Some 1"
  "store_get us = example_notes \<Longrightarrow> fresh_outputs plain_extern us 1 (t_outputs example_transfer)"
proof -
  have "c_ok transfer_c example_transfer"
    by (simp add: example_transfer_def transfer_c_def conv_c_def pair_c_def pair_ok_def inputs_c_def ordered_set_c_def outputs_c_def
        vec_c_def bounded_ok_def note_c_def uint_c_def uint_ok_def fr_c_def fr_ok_def fr_modulus_def MAX_TRANSACTION_INPUTS_def
        MAX_TRANSACTION_OUTPUTS_def)
  then obtain bs where "c_enc transfer_c example_transfer = Some bs"
    using lawful_encodes [OF lawful_transfer] by blast
  then show "transfer_op_id plain_extern example_transfer = Some 1"
    by (simp add: transfer_op_id_def op_id_def plain_extern_def)
  show "fresh_outputs plain_extern us 1 (t_outputs example_transfer)" if "store_get us = example_notes"
    using that by (simp add: fresh_outputs_def example_transfer_def output_utxos_def plain_utxo_id example_notes_def fr_modulus_def)
qed

lemma example_transfer_checks:
  assumes "store_get us = example_notes"
  shows "distinct (t_inputs example_transfer)" "length (t_inputs example_transfer) \<le> MAX_ZK_SIGNING_KEYS"
    "\<forall>i \<in> set (t_inputs example_transfer). store_get us i \<noteq> None \<and> \<not> sn_contains sn_new i \<and> \<not> is_channel_note channels_new i"
    "map (owner us) (t_inputs example_transfer) = [21, 22]"
  using assms
  by (simp_all add: example_transfer_def example_notes_def example_utxo_def owner_def MAX_ZK_SIGNING_KEYS_def sn_contains_def sn_new_def
      is_channel_note_def cn_contains_def channels_new_def cn_new_def)

lemma transfer_preverify_iff:
  "transfer_preverify op = ok () \<longleftrightarrow> t_inputs op \<noteq> [] \<and> (\<forall>n \<in> set (t_outputs op). note_value n \<noteq> 0)"
  by (auto simp: transfer_preverify_def inputs_preverify_def outputs_validate_def bind_res_ok_iff try_all_ok_iff ensure_def)

text \<open>
  C7: A transfer passes both its stateless and its stateful check precisely if it has at least one input and no output of value zero,
  its inputs are pairwise different unspent notes, at most as many as a signature can authorise (32), none of them in service and none
  owned by a channel; and the deferred proof then has to show that the owners of all these notes signed this transaction.
\<close>

theorem transfer_accepts_spendable_notes:
  "transfer_preverify op = ok () \<and> transfer_verify X sn cs us h op proof = ok d \<longleftrightarrow>
     t_inputs op \<noteq> [] \<and> (\<forall>n \<in> set (t_outputs op). note_value n \<noteq> 0) \<and>
     distinct (t_inputs op) \<and> length (t_inputs op) \<le> 32 \<and>
     (\<forall>i \<in> set (t_inputs op). store_get us i \<noteq> None \<and> \<not> sn_contains sn i \<and> \<not> is_channel_note cs i) \<and>
     d = \<lparr>dz_proof = proof, dz_inputs = signed_by X (map (owner us) (t_inputs op)) h\<rparr>"
  unfolding transfer_preverify_iff transfer_verify_iff MAX_ZK_SIGNING_KEYS_def by blast

theorem transfer_accepts_spendable_notes_witness:
  "\<exists>us d. store_get us = example_notes \<and> transfer_preverify example_transfer = ok () \<and>
     transfer_verify plain_extern sn_new channels_new us 99 example_transfer 7 = ok d \<and>
     take 2 (public_keys (dz_inputs d)) = [21, 22]"
proof -
  obtain us :: utxos where us: "store_get us = example_notes" using example_notes_exist by blast
  have "t_inputs example_transfer \<noteq> []" "\<forall>n \<in> set (t_outputs example_transfer). note_value n \<noteq> 0"
    by (simp_all add: example_transfer_def)
  then have "transfer_preverify example_transfer = ok () \<and> transfer_verify plain_extern sn_new channels_new us 99 example_transfer 7
      = ok \<lparr>dz_proof = 7, dz_inputs = signed_by plain_extern [21, 22] 99\<rparr>"
    unfolding transfer_accepts_spendable_notes using example_transfer_checks [OF us] by (simp add: MAX_ZK_SIGNING_KEYS_def)
  then show ?thesis using us by (intro exI conjI) (auto simp: signed_by_def)
qed

text \<open>
  C25: Executing an accepted transfer succeeds, replaces its inputs by its outputs, and changes the total value of the unspent notes by
  minus its balance: no value is created.  The identifiers of the outputs have to be new and the tree needs room for them.
\<close>

theorem transfer_conserves_value:
  assumes "notes_ok X us" "transfer_verify X sn cs us h op proof = ok d" "transfer_balance us op = ok b"
    and "transfer_op_id X op = Some oid" "fresh_outputs X us oid (t_outputs op)"
    and "length (t_outputs op) \<le> store_room us + length (t_inputs op)"
  shows "\<exists>us'. transfer_execute X op us = ok (us', []) \<and> notes_ok X us' \<and> int (total_value us') = int (total_value us) - b \<and>
    store_get us' = store_get us |` (- set (t_inputs op)) ++ map_of (map (\<lambda>u. (utxo_id X u, u)) (output_utxos oid (t_outputs op)))"
proof -
  have v: "distinct (t_inputs op)" "\<forall>i \<in> set (t_inputs op). store_get us i \<noteq> None"
    using assms(2) by (auto simp: transfer_verify_iff)
  have "b = int (input_value us (t_inputs op)) - int (output_value (t_outputs op))" using assms(3) by (simp add: transfer_balance_iff)
  then show ?thesis using transfer_execute_spec [OF assms(1) v assms(4-6)] by force
qed

theorem transfer_conserves_value_witness:
  "\<exists>us us'. total_value us = 23 \<and> transfer_execute plain_extern example_transfer us = ok (us', []) \<and> total_value us' = 21"
proof -
  obtain us where us: "notes_ok plain_extern us" "store_get us = example_notes" "store_room us = 2 ^ 32 - 3"
    using example_notes_exist by blast
  have v: "transfer_verify plain_extern sn_new channels_new us 99 example_transfer 7
      = ok \<lparr>dz_proof = 7, dz_inputs = signed_by plain_extern [21, 22] 99\<rparr>"
    unfolding transfer_verify_iff using example_transfer_checks [OF us(2)] by simp
  have b: "transfer_balance us example_transfer = ok 2"
    unfolding transfer_balance_iff using us(2)
    by (simp add: example_transfer_def example_notes_def example_utxo_def input_value_def output_value_def)
  have "length (t_outputs example_transfer) \<le> store_room us + length (t_inputs example_transfer)" by (simp add: example_transfer_def)
  from transfer_conserves_value [OF us(1) v b example_transfer_outputs(1) example_transfer_outputs(2) [OF us(2)] this]
  obtain us' where us': "transfer_execute plain_extern example_transfer us = ok (us', [])" "int (total_value us') = int (total_value us) - 2"
    by blast
  have "total_value us = 23"
    using us(2) by (simp add: total_value_def example_notes_def example_utxo_def map_total_new)
  then show ?thesis using us' by auto
qed

end
