(* ===== verification/ChannelOps.thy ===== *)
theory ChannelOps
  imports NoteLedger
begin

text \<open>
  The operations on channels (\<^verbatim>\<open>core/src/mantle/ops/channel/\<close>): inscriptions, configuration, deposits, withdrawals and transfers
  between the notes of a channel.  Each has the three stages of the source: \<^verbatim>\<open>preverify\<close> (no state), \<^verbatim>\<open>verify\<close> (against the
  state), \<^verbatim>\<open>execute\<close>.

  A multi-signature is the list of its entries in ascending key index.  The lemmas show
  what each stage accepts, that execution does not fail after verification, that channels stay
  well-formed (\<open>channels_ok\<close>), and how the notes and their ownership change (\<open>register_all\<close>, \<open>unregister_all\<close>).
\<close>

datatype channel_error =
    InvalidParent channel_id msg_id msg_id
  | UnauthorizedSigner channel_id ed_key
  | InvalidSigner
  | InvalidSignature
  | InvalidSignatureIndex channel_id nat nat
  | ChannelNotFound channel_id
  | UnbalancedTransfer
  | ChannelNotesError channel_notes_error
  | ChannelInputs inputs_error
  | ChannelOutputs outputs_error
  | ThresholdUnmet channel_id nat nat

definition nth_opt :: "'a list \<Rightarrow> nat \<Rightarrow> 'a option" where
  "nth_opt xs i = (if i < length xs then Some (xs ! i) else None)"

subsection \<open>Inscriptions\<close>

definition inscription_id :: "extern \<Rightarrow> inscription_op \<Rightarrow> msg_id option" where
  "inscription_id X op = map_option (message_id X) (c_enc (inscription_c X (2 ^ 32 - 1)) op)"

definition inscription_preverify :: "extern \<Rightarrow> nat \<Rightarrow> inscription_op \<Rightarrow> ed_sig \<Rightarrow> (channel_error + unit) option" where
  "inscription_preverify X h op signature =
     bind_res (ensure (\<not> is_weak X (i_signer op)) InvalidSigner) (\<lambda>_.
     ensure (ed_verify X (i_signer op) h signature) InvalidSignature)"

definition inscription_verify :: "channels \<Rightarrow> nat \<Rightarrow> inscription_op \<Rightarrow> (channel_error + unit) option" where
  "inscription_verify cs block_slot op =
     (case ch_channels cs (i_channel_id op) of
        Some channel \<Rightarrow>
          bind_res (ensure (i_parent op = tip_message channel) (InvalidParent (i_channel_id op) (i_parent op) (tip_message channel))) (\<lambda>_.
          bind_res (run (do { (index, _) \<leftarrow> round_robin channel block_slot; nth_opt (accredited_keys channel) index })) (\<lambda>key.
          ensure (i_signer op = key) (UnauthorizedSigner (i_channel_id op) (i_signer op))))
      | None \<Rightarrow> ensure (i_parent op = root_msg) (InvalidParent (i_channel_id op) (i_parent op) root_msg))"

definition created_channel :: "ed_key \<Rightarrow> nat \<Rightarrow> channel_state" where
  "created_channel signer block_slot =
     \<lparr>accredited_keys = [signer], configuration_threshold = 1, tip_message = root_msg, config_tip_hash = root_msg,
      tip_slot = block_slot, tip_sequencer = 0, tip_sequencer_starting_slot = block_slot, posting_timeframe = 0,
      posting_timeout = 0, transfer_threshold = DEFAULT_TRANSFER_THRESHOLD\<rparr>"

definition inscription_execute :: "extern \<Rightarrow> nat \<Rightarrow> inscription_op \<Rightarrow> channels \<Rightarrow> (channel_error + channels \<times> tx_event list) option" where
  "inscription_execute X block_slot op cs =
     (let channel = (case ch_channels cs (i_channel_id op) of Some c \<Rightarrow> c | None \<Rightarrow> created_channel (i_signer op) block_slot)
      in do { (new_sequencer, new_starting_slot) \<leftarrow> round_robin channel block_slot;
              id \<leftarrow> inscription_id X op;
              ok (cs\<lparr>ch_channels := (ch_channels cs)(i_channel_id op \<mapsto>
                    channel\<lparr>tip_message := id, tip_sequencer := new_sequencer,
                            tip_sequencer_starting_slot := new_starting_slot, tip_slot := block_slot\<rparr>)\<rparr>, []) })"

definition channels_from_genesis :: "extern \<Rightarrow> inscription_op \<Rightarrow> (channel_error + channels \<times> tx_event list) option" where
  "channels_from_genesis X op = inscription_execute X 0 op channels_new"

subsection \<open>Configuration\<close>

definition config_id :: "extern \<Rightarrow> channel_config_op \<Rightarrow> msg_id option" where
  "config_id X op = map_option (message_id X) (c_enc (channel_config_c X) op)"

definition config_preverify :: "channel_config_op \<Rightarrow> (channel_error + unit) option" where
  "config_preverify op = ok ()"

definition config_verify :: "extern \<Rightarrow> channels \<Rightarrow> nat \<Rightarrow> channel_config_op \<Rightarrow> (nat \<times> ed_sig) list \<Rightarrow> (channel_error + unit) option" where
  "config_verify X cs h op signatures =
     (case ch_channels cs (cc_channel op) of
        Some channel \<Rightarrow>
          bind_res (ensure (cc_parent op = config_tip_hash channel) (InvalidParent (cc_channel op) (cc_parent op) (config_tip_hash channel))) (\<lambda>_.
          bind_res (ensure (length signatures = configuration_threshold channel)
                      (ThresholdUnmet (cc_channel op) (configuration_threshold channel) (length signatures))) (\<lambda>_.
          try_all (\<lambda>(index, signature).
            bind_res (ok_or (InvalidSignatureIndex (cc_channel op) (length (accredited_keys channel)) index) (nth_opt (accredited_keys channel) index))
              (\<lambda>key. ensure (ed_verify X key h signature) InvalidSignature)) signatures))
      | None \<Rightarrow>
          bind_res (ensure (cc_parent op = root_msg) (InvalidParent (cc_channel op) (cc_parent op) root_msg)) (\<lambda>_.
          ensure (signatures = []) (ThresholdUnmet (cc_channel op) 0 (length signatures))))"

definition config_execute :: "extern \<Rightarrow> nat \<Rightarrow> channel_config_op \<Rightarrow> channels \<Rightarrow> (channel_error + channels \<times> tx_event list) option" where
  "config_execute X block_slot op cs =
     do { id \<leftarrow> config_id X op;
          let channel = (case ch_channels cs (cc_channel op) of
              Some channel \<Rightarrow>
                channel\<lparr>accredited_keys := cc_keys op, configuration_threshold := cc_configuration_threshold op,
                        tip_sequencer := 0, tip_sequencer_starting_slot := block_slot,
                        posting_timeframe := cc_posting_timeframe op, posting_timeout := cc_posting_timeout op,
                        transfer_threshold := cc_transfer_threshold op, tip_slot := block_slot, config_tip_hash := id\<rparr>
            | None \<Rightarrow>
                \<lparr>accredited_keys = cc_keys op, configuration_threshold = cc_configuration_threshold op, tip_message = root_msg,
                 config_tip_hash = id, tip_slot = block_slot, tip_sequencer = 0, tip_sequencer_starting_slot = block_slot,
                 posting_timeframe = cc_posting_timeframe op, posting_timeout = cc_posting_timeout op,
                 transfer_threshold = cc_transfer_threshold op\<rparr>);
          ok (cs\<lparr>ch_channels := (ch_channels cs)(cc_channel op \<mapsto> channel)\<rparr>, []) }"

subsection \<open>Deposits\<close>

definition deposit_op_id :: "extern \<Rightarrow> deposit_op \<Rightarrow> nat option" where
  "deposit_op_id X op = map_option (op_id X) (c_enc (deposit_c (2 ^ 32 - 1)) op)"

definition deposit_outputs :: "utxos \<Rightarrow> deposit_op \<Rightarrow> (channel_error + outputs) option" where
  "deposit_outputs us op =
     bind_res (try_fold (\<lambda>i notes. bind_res (ok_or (ChannelInputs (InexistingNote i)) (store_get us i)) (\<lambda>u. ok (notes @ [utxo_note u])))
                 (d_inputs op) [])
       (\<lambda>notes. map_err ChannelOutputs (outputs_try_new notes))"

definition deposit_preverify :: "deposit_op \<Rightarrow> (channel_error + unit) option" where
  "deposit_preverify op = map_err ChannelInputs (inputs_preverify (d_inputs op))"

definition deposit_verify ::
  "extern \<Rightarrow> service_notes \<Rightarrow> channels \<Rightarrow> utxos \<Rightarrow> nat \<Rightarrow> deposit_op \<Rightarrow> nat \<Rightarrow> (channel_error + deferred_zk_sig) option" where
  "deposit_verify X sn cs us h op proof =
     bind_res (ensure (ch_channels cs (d_channel_id op) \<noteq> None) (ChannelNotFound (d_channel_id op))) (\<lambda>_.
     bind_res (map_err ChannelInputs (validate_not_in_channel sn cs us (d_inputs op))) (\<lambda>_.
     bind_res (map_err ChannelInputs (get_pk us (d_inputs op))) (\<lambda>pks.
     case inputs_from_pks X (hash_to_fr h) pks of
       Inl _ \<Rightarrow> fail InvalidSignature
     | Inr inputs \<Rightarrow> ok \<lparr>dz_proof = proof, dz_inputs = inputs\<rparr>)))"

text \<open>\<^verbatim>\<open>DepositRecreatedNotes::try_push\<close>\<close>

definition push_note :: "deposit_note \<Rightarrow> deposit_note list \<Rightarrow> (inputs_error + deposit_note list) option" where
  "push_note n notes =
     (if MAX_TRANSACTION_INPUTS \<le> length notes then fail (InputsBounded (TooManyItems (length notes + 1) MAX_TRANSACTION_INPUTS))
      else ok (notes @ [n]))"

definition register_deposit_note :: "extern \<Rightarrow> channel_id \<Rightarrow> utxo \<Rightarrow> channels \<times> deposit_note list \<Rightarrow> (channel_error + channels \<times> deposit_note list) option" where
  "register_deposit_note X channel u = (\<lambda>(cs, notes).
     bind_res (map_err ChannelNotesError (Some (register_channel_note (utxo_id X u) channel cs))) (\<lambda>cs.
     bind_res (map_err ChannelInputs (push_note \<lparr>dn_note_id = utxo_id X u, dn_value = note_value (utxo_note u),
                                       dn_pk = note_pk (utxo_note u)\<rparr> notes)) (\<lambda>notes. ok (cs, notes))))"

definition deposit_execute ::
  "extern \<Rightarrow> nat \<Rightarrow> deposit_op \<Rightarrow> channels \<times> utxos \<Rightarrow> (channel_error + (channels \<times> utxos) \<times> tx_event list) option" where
  "deposit_execute X h op = (\<lambda>(cs, us).
     bind_res (map_err ChannelInputs (inputs_amount us (d_inputs op))) (\<lambda>amount.
     bind_res (deposit_outputs us op) (\<lambda>outputs.
     bind_res (map_err ChannelInputs (inputs_execute X (d_inputs op) us)) (\<lambda>us.
     do { oid \<leftarrow> deposit_op_id X op;
          us \<leftarrow> outputs_execute X oid outputs us;
          bind_res (try_fold (register_deposit_note X (d_channel_id op)) (output_utxos oid outputs) (cs, [])) (\<lambda>(cs, notes).
          ok ((cs, us), [\<lparr>ev_tx_hash = h, ev_op_id = oid, ev_payload = Deposit (d_channel_id op) amount (metadata op) notes\<rparr>])) }))))"

subsection \<open>Multi-signatures\<close>

datatype multi_sig_error =
    MultiSigChannelNotFound channel_id
  | KeyNotFound channel_id nat
  | NotEnoughSignatures nat nat nat
  | InvalidMultiSigSignature nat nat

definition get_channel_transfer_threshold :: "channels \<Rightarrow> channel_id \<Rightarrow> (multi_sig_error + nat) option" where
  "get_channel_transfer_threshold cs channel =
     (case ch_channels cs channel of None \<Rightarrow> fail (MultiSigChannelNotFound channel) | Some c \<Rightarrow> ok (transfer_threshold c))"

definition get_key_from_channel_at_index :: "channels \<Rightarrow> channel_id \<Rightarrow> nat \<Rightarrow> (multi_sig_error + ed_key) option" where
  "get_key_from_channel_at_index cs channel index =
     bind_res (ok_or (MultiSigChannelNotFound channel) (ch_channels cs channel)) (\<lambda>c.
     ok_or (KeyNotFound channel index) (nth_opt (accredited_keys c) index))"

definition verify_channel_multi_sig ::
  "extern \<Rightarrow> channels \<Rightarrow> channel_id \<Rightarrow> (nat \<times> ed_sig) list \<Rightarrow> nat \<Rightarrow> nat \<Rightarrow> (multi_sig_error + unit) option" where
  "verify_channel_multi_sig X cs channel signatures h op_index =
     bind_res (get_channel_transfer_threshold cs channel) (\<lambda>threshold.
     bind_res (ensure (length signatures = threshold) (NotEnoughSignatures op_index (length signatures) threshold)) (\<lambda>_.
     try_all (\<lambda>(entry_index, key_index, signature).
       bind_res (get_key_from_channel_at_index cs channel key_index) (\<lambda>key.
       ensure (ed_verify X key h signature) (InvalidMultiSigSignature op_index entry_index))) (enumerate 0 signatures)))"

text \<open>The check of the number of signatures and of each of them that withdrawals and transfers repeat.\<close>

definition check_transfer_signatures ::
  "extern \<Rightarrow> nat \<Rightarrow> channel_id \<Rightarrow> channel_state \<Rightarrow> (nat \<times> ed_sig) list \<Rightarrow> (channel_error + unit) option" where
  "check_transfer_signatures X h channel_id channel signatures =
     bind_res (ensure (length signatures = transfer_threshold channel)
                 (ThresholdUnmet channel_id (transfer_threshold channel) (length signatures))) (\<lambda>_.
     try_all (\<lambda>(index, signature).
       bind_res (ok_or InvalidSignature (nth_opt (accredited_keys channel) index))
         (\<lambda>key. ensure (ed_verify X key h signature) InvalidSignature)) signatures)"

subsection \<open>Withdrawals\<close>

definition channel_withdraw_preverify :: "channel_withdraw_op \<Rightarrow> (channel_error + unit) option" where
  "channel_withdraw_preverify op = map_err ChannelInputs (inputs_preverify (w_inputs op))"

definition channel_withdraw_verify ::
  "extern \<Rightarrow> service_notes \<Rightarrow> channels \<Rightarrow> utxos \<Rightarrow> nat \<Rightarrow> nat \<Rightarrow> channel_withdraw_op \<Rightarrow> (nat \<times> ed_sig) list \<Rightarrow> (channel_error + unit) option" where
  "channel_withdraw_verify X sn cs us h op_index op signatures =
     bind_res (map_err (\<lambda>_. InvalidSignature) (verify_channel_multi_sig X cs (w_channel_id op) signatures h op_index)) (\<lambda>_.
     bind_res (ok_or (ChannelNotFound (w_channel_id op)) (ch_channels cs (w_channel_id op))) (\<lambda>channel.
     bind_res (map_err ChannelInputs (validate_in_channel sn cs (w_channel_id op) us (w_inputs op))) (\<lambda>_.
     check_transfer_signatures X h (w_channel_id op) channel signatures)))"

definition unregister_note :: "channel_id \<Rightarrow> note_id \<Rightarrow> channels \<Rightarrow> (channel_error + channels) option" where
  "unregister_note channel i cs = map_err ChannelNotesError (Some (unregister_channel_note i channel cs))"

definition channel_withdraw_execute :: "channel_withdraw_op \<Rightarrow> channels \<Rightarrow> (channel_error + channels \<times> tx_event list) option" where
  "channel_withdraw_execute op cs =
     bind_res (try_fold (unregister_note (w_channel_id op)) (w_inputs op) cs) (\<lambda>cs. ok (cs, []))"

subsection \<open>Transfers within a channel\<close>

definition channel_transfer_op_id :: "extern \<Rightarrow> channel_transfer_op \<Rightarrow> nat option" where
  "channel_transfer_op_id X op = map_option (op_id X) (c_enc channel_transfer_c op)"

definition channel_transfer_preverify :: "channel_transfer_op \<Rightarrow> (channel_error + unit) option" where
  "channel_transfer_preverify op =
     bind_res (map_err ChannelInputs (inputs_preverify (ct_inputs op))) (\<lambda>_. map_err ChannelOutputs (outputs_validate (ct_outputs op)))"

definition channel_transfer_verify ::
  "extern \<Rightarrow> service_notes \<Rightarrow> channels \<Rightarrow> utxos \<Rightarrow> nat \<Rightarrow> nat \<Rightarrow> channel_transfer_op \<Rightarrow> (nat \<times> ed_sig) list \<Rightarrow> (channel_error + unit) option" where
  "channel_transfer_verify X sn cs us h op_index op signatures =
     bind_res (map_err (\<lambda>_. InvalidSignature) (verify_channel_multi_sig X cs (ct_channel_id op) signatures h op_index)) (\<lambda>_.
     bind_res (ok_or (ChannelNotFound (ct_channel_id op)) (ch_channels cs (ct_channel_id op))) (\<lambda>channel.
     bind_res (map_err ChannelInputs (validate_in_channel sn cs (ct_channel_id op) us (ct_inputs op))) (\<lambda>_.
     bind_res (map_err ChannelInputs (inputs_amount us (ct_inputs op))) (\<lambda>input_amount.
     bind_res (map_err ChannelOutputs (outputs_amount (ct_outputs op))) (\<lambda>output_amount.
     bind_res (ensure (input_amount = output_amount) UnbalancedTransfer) (\<lambda>_.
     check_transfer_signatures X h (ct_channel_id op) channel signatures))))))"

definition channel_transfer_execute ::
  "extern \<Rightarrow> channel_transfer_op \<Rightarrow> channels \<times> utxos \<Rightarrow> (channel_error + (channels \<times> utxos) \<times> tx_event list) option" where
  "channel_transfer_execute X op = (\<lambda>(cs, us).
     bind_res (map_err ChannelInputs (inputs_execute X (ct_inputs op) us)) (\<lambda>us.
     bind_res (try_fold (unregister_note (ct_channel_id op)) (ct_inputs op) cs) (\<lambda>cs.
     do { oid \<leftarrow> channel_transfer_op_id X op;
          us \<leftarrow> outputs_execute X oid (ct_outputs op) us;
          bind_res (try_fold (\<lambda>u cs. map_err ChannelNotesError (Some (register_channel_note (utxo_id X u) (ct_channel_id op) cs)))
                      (output_utxos oid (ct_outputs op)) cs) (\<lambda>cs.
          ok ((cs, us), [])) })))"

subsection \<open>Well-formed channels\<close>

definition channels_ok :: "channels \<Rightarrow> bool" where
  "channels_ok cs \<longleftrightarrow> (\<forall>c st. ch_channels cs c = Some st \<longrightarrow> channel_ok st)"

lemma channels_okD: "channels_ok cs \<Longrightarrow> ch_channels cs c = Some st \<Longrightarrow> channel_ok st"
  by (simp add: channels_ok_def)

lemma channels_new_ok: "channels_ok channels_new"
  by (simp add: channels_ok_def channels_new_def)

lemma created_channel_ok: "slot < 2 ^ 64 \<Longrightarrow> channel_ok (created_channel signer slot)"
  by (simp add: channel_ok_def created_channel_def DEFAULT_TRANSFER_THRESHOLD_def)

lemma created_channel_turn: "round_robin (created_channel signer slot) slot = Some (0, slot)"
  by (simp add: round_robin_def created_channel_def timed_out_turns_def timeframe_turns_def is_timed_out_def checked_div_def)

lemma nth_opt_Some_iff: "nth_opt xs i = Some x \<longleftrightarrow> i < length xs \<and> x = xs ! i"
  by (auto simp: nth_opt_def)

text \<open>The sequencer whose turn it is.\<close>

definition sequencer_at :: "channel_state \<Rightarrow> nat \<Rightarrow> ed_key option" where
  "sequencer_at c slot = do { (index, _) \<leftarrow> round_robin c slot; nth_opt (accredited_keys c) index }"

lemma sequencer_at_returns: "channel_ok c \<Longrightarrow> slot < 2 ^ 64 \<Longrightarrow> sequencer_at c slot \<noteq> None"
  using round_robin_ok [of c slot] by (auto simp: sequencer_at_def nth_opt_def)

lemma inscription_verify_ok_iff:
  "inscription_verify cs slot op = ok u \<longleftrightarrow>
     (case ch_channels cs (i_channel_id op) of
        None \<Rightarrow> i_parent op = root_msg
      | Some c \<Rightarrow> i_parent op = tip_message c \<and> sequencer_at c slot = Some (i_signer op))"
  by (auto simp: inscription_verify_def sequencer_at_def bind_res_ok_iff split: option.splits)

lemma inscription_verify_returns:
  assumes "channels_ok cs" "slot < 2 ^ 64"
  shows "inscription_verify cs slot op \<noteq> None"
proof (cases "ch_channels cs (i_channel_id op)")
  case (Some c)
  then show ?thesis
    using sequencer_at_returns [OF channels_okD [OF assms(1) Some] assms(2)]
    by (auto simp: inscription_verify_def sequencer_at_def bind_res_None_iff)
qed (simp add: inscription_verify_def)

lemma inscription_execute_spec:
  assumes "channels_ok cs" "slot < 2 ^ 64" "inscription_id X op = Some mid" "inscription_verify cs slot op = ok u"
  shows "\<exists>cs' c. inscription_execute X slot op cs = ok (cs', []) \<and> channels_ok cs' \<and> ch_notes cs' = ch_notes cs \<and>
    ch_channels cs' = (ch_channels cs)(i_channel_id op \<mapsto> c) \<and> tip_message c = mid \<and> tip_slot c = slot \<and>
    accredited_keys c ! tip_sequencer c = i_signer op"
proof -
  define c0 where "c0 = (case ch_channels cs (i_channel_id op) of Some c \<Rightarrow> c | None \<Rightarrow> created_channel (i_signer op) slot)"
  have ok0: "channel_ok c0"
    using created_channel_ok [OF assms(2)] channels_okD [OF assms(1)] by (auto simp: c0_def split: option.splits)
  obtain i start where r: "round_robin c0 slot = Some (i, start)" "i < length (accredited_keys c0)" "start < 2 ^ 64"
    using round_robin_ok [OF ok0 assms(2)] by blast
  let ?c = "c0\<lparr>tip_message := mid, tip_sequencer := i, tip_sequencer_starting_slot := start, tip_slot := slot\<rparr>"
  have "accredited_keys c0 ! i = i_signer op"
  proof (cases "ch_channels cs (i_channel_id op)")
    case None
    then show ?thesis using r(1) created_channel_turn [of "i_signer op" slot] by (simp add: c0_def created_channel_def)
  next
    case (Some c)
    then show ?thesis
      using assms(4) r(1) by (auto simp: inscription_verify_ok_iff sequencer_at_def nth_opt_Some_iff c0_def)
  qed
  moreover have "channel_ok ?c" using ok0 r(2,3) assms(2) by (simp add: channel_ok_def)
  moreover have "inscription_execute X slot op cs = ok (cs\<lparr>ch_channels := (ch_channels cs)(i_channel_id op \<mapsto> ?c)\<rparr>, [])"
    using r(1) assms(3) by (simp add: inscription_execute_def c0_def)
  ultimately show ?thesis
    using assms(1) by (intro exI [of _ "cs\<lparr>ch_channels := (ch_channels cs)(i_channel_id op \<mapsto> ?c)\<rparr>"] exI [of _ ?c]) (auto simp: channels_ok_def)
qed

text \<open>What a well-formed configuration gives: its codec accepts it.\<close>

definition config_op_ok :: "extern \<Rightarrow> channel_config_op \<Rightarrow> bool" where
  "config_op_ok X op \<longleftrightarrow> c_ok (channel_config_c X) op"

lemma config_op_okD:
  assumes "config_op_ok X op"
  shows "1 \<le> length (cc_keys op)" "length (cc_keys op) < 2 ^ 16" "cc_posting_timeframe op < 2 ^ 32" "cc_posting_timeout op < 2 ^ 32"
    "1 \<le> cc_configuration_threshold op" "1 \<le> cc_transfer_threshold op" "cc_configuration_threshold op \<le> length (cc_keys op)"
    "\<exists>mid. config_id X op = Some mid"
proof -
  show "1 \<le> length (cc_keys op)" "length (cc_keys op) < 2 ^ 16" "cc_posting_timeframe op < 2 ^ 32" "cc_posting_timeout op < 2 ^ 32"
    "1 \<le> cc_configuration_threshold op" "1 \<le> cc_transfer_threshold op" "cc_configuration_threshold op \<le> length (cc_keys op)"
    using assms
    by (auto simp: config_op_ok_def channel_config_c_def conv_c_def pair_c_def pair_ok_def vec_c_def bounded_ok_def uint_c_def uint_ok_def
        nonzero_c_def nonzero_ok_def CHANNEL_MAX_KEYS_def channel_config_new_def split: if_splits)
  obtain bs where "c_enc (channel_config_c X) op = Some bs"
    using lawful_encodes [OF lawful_channel_config] assms unfolding config_op_ok_def by blast
  then show "\<exists>mid. config_id X op = Some mid" by (simp add: config_id_def)
qed

lemma config_execute_spec:
  assumes "channels_ok cs" "slot < 2 ^ 64" "config_op_ok X op"
  shows "\<exists>cs' c. config_execute X slot op cs = ok (cs', []) \<and> channels_ok cs' \<and> ch_notes cs' = ch_notes cs \<and>
    ch_channels cs' = (ch_channels cs)(cc_channel op \<mapsto> c) \<and> accredited_keys c = cc_keys op \<and>
    configuration_threshold c = cc_configuration_threshold op \<and> transfer_threshold c = cc_transfer_threshold op \<and>
    tip_message c = (case ch_channels cs (cc_channel op) of None \<Rightarrow> root_msg | Some c0 \<Rightarrow> tip_message c0) \<and>
    config_id X op = Some (config_tip_hash c)"
proof -
  note d = config_op_okD [OF assms(3)]
  obtain mid where mid: "config_id X op = Some mid" using d(8) by blast
  then obtain cs' c where e: "config_execute X slot op cs = ok (cs', [])" "cs' = cs\<lparr>ch_channels := (ch_channels cs)(cc_channel op \<mapsto> c)\<rparr>"
      "accredited_keys c = cc_keys op" "configuration_threshold c = cc_configuration_threshold op"
      "transfer_threshold c = cc_transfer_threshold op" "tip_sequencer c = 0" "tip_sequencer_starting_slot c = slot" "tip_slot c = slot"
      "posting_timeframe c = cc_posting_timeframe op" "posting_timeout c = cc_posting_timeout op" "config_tip_hash c = mid"
      "tip_message c = (case ch_channels cs (cc_channel op) of None \<Rightarrow> root_msg | Some c0 \<Rightarrow> tip_message c0)"
    by (cases "ch_channels cs (cc_channel op)") (simp_all add: config_execute_def)
  have "channel_ok c" using d e(3-10) assms(2) by (auto simp: channel_ok_def)
  then have "channels_ok cs'" using assms(1) e(2) by (auto simp: channels_ok_def)
  then show ?thesis using e mid by auto
qed

subsection \<open>Authority\<close>

text \<open>Enough signatures over the hash, each under the accredited key of its index.\<close>

definition multi_signed :: "extern \<Rightarrow> channel_state \<Rightarrow> nat \<Rightarrow> nat \<Rightarrow> (nat \<times> ed_sig) list \<Rightarrow> bool" where
  "multi_signed X c required h signatures \<longleftrightarrow>
     length signatures = required \<and>
     (\<forall>(i, sig) \<in> set signatures. i < length (accredited_keys c) \<and> ed_verify X (accredited_keys c ! i) h sig)"

lemma check_keys_ok_iff:
  "try_all (\<lambda>(i, sig). bind_res (ok_or (e i) (nth_opt keys i)) (\<lambda>key. ensure (ed_verify X key h sig) e')) sigs = ok u \<longleftrightarrow>
     (\<forall>(i, sig) \<in> set sigs. i < length keys \<and> ed_verify X (keys ! i) h sig)"
  unfolding try_all_ok_iff
  by (intro ball_cong refl) (auto simp: bind_res_ok_iff nth_opt_Some_iff split: prod.splits)

lemma check_transfer_signatures_ok_iff:
  "check_transfer_signatures X h channel c sigs = ok u \<longleftrightarrow> multi_signed X c (transfer_threshold c) h sigs"
  by (simp add: check_transfer_signatures_def bind_res_ok_iff check_keys_ok_iff multi_signed_def)

lemma verify_channel_multi_sig_ok_iff:
  "verify_channel_multi_sig X cs channel sigs h op_index = ok u \<longleftrightarrow>
     (\<exists>c. ch_channels cs channel = Some c \<and> multi_signed X c (transfer_threshold c) h sigs)"
proof (cases "ch_channels cs channel")
  case (Some c)
  have "(\<forall>x \<in> set (enumerate 0 sigs). (case x of (entry, i, sig) \<Rightarrow>
      bind_res (get_key_from_channel_at_index cs channel i) (\<lambda>key. ensure (ed_verify X key h sig) (InvalidMultiSigSignature op_index entry))) = ok ())
    \<longleftrightarrow> (\<forall>x \<in> set (map snd (enumerate 0 sigs)). fst x < length (accredited_keys c) \<and> ed_verify X (accredited_keys c ! fst x) h (snd x))"
    unfolding set_map ball_simps
    by (intro ball_cong refl)
      (auto simp: get_key_from_channel_at_index_def Some bind_res_ok_iff nth_opt_Some_iff split: prod.splits)
  then show ?thesis
    using Some by (auto simp: verify_channel_multi_sig_def get_channel_transfer_threshold_def bind_res_ok_iff try_all_ok_iff multi_signed_def)
qed (simp add: verify_channel_multi_sig_def get_channel_transfer_threshold_def)

lemma channel_withdraw_verify_iff:
  "channel_withdraw_verify X sn cs us h k op sigs = ok u \<longleftrightarrow>
     (\<exists>c. ch_channels cs (w_channel_id op) = Some c \<and> multi_signed X c (transfer_threshold c) h sigs) \<and> distinct (w_inputs op) \<and>
     (\<forall>i \<in> set (w_inputs op). ch_notes cs i = Some (w_channel_id op) \<and> store_get us i \<noteq> None \<and> \<not> sn_contains sn i)"
  by (auto simp: channel_withdraw_verify_def bind_res_ok_iff verify_channel_multi_sig_ok_iff check_transfer_signatures_ok_iff
      validate_in_channel_ok is_channel_note_of_def is_a_channel_def)

lemma channel_transfer_verify_iff:
  "channel_transfer_verify X sn cs us h k op sigs = ok u \<longleftrightarrow>
     (\<exists>c. ch_channels cs (ct_channel_id op) = Some c \<and> multi_signed X c (transfer_threshold c) h sigs) \<and> distinct (ct_inputs op) \<and>
     (\<forall>i \<in> set (ct_inputs op). ch_notes cs i = Some (ct_channel_id op) \<and> store_get us i \<noteq> None \<and> \<not> sn_contains sn i) \<and>
     input_value us (ct_inputs op) = output_value (ct_outputs op) \<and> output_value (ct_outputs op) < 2 ^ 64"
  by (auto simp: channel_transfer_verify_def bind_res_ok_iff verify_channel_multi_sig_ok_iff check_transfer_signatures_ok_iff
      validate_in_channel_ok is_channel_note_of_def is_a_channel_def inputs_amount_ok_iff outputs_amount_ok_iff)

lemma config_verify_iff:
  "config_verify X cs h op sigs = ok u \<longleftrightarrow>
     (case ch_channels cs (cc_channel op) of
        None \<Rightarrow> cc_parent op = root_msg \<and> sigs = []
      | Some c \<Rightarrow> cc_parent op = config_tip_hash c \<and> multi_signed X c (configuration_threshold c) h sigs)"
proof (cases "ch_channels cs (cc_channel op)")
  case (Some c)
  show ?thesis
    using check_keys_ok_iff [of "InvalidSignatureIndex (cc_channel op) (length (accredited_keys c))" "accredited_keys c" X h InvalidSignature sigs]
    by (auto simp: config_verify_def Some bind_res_ok_iff multi_signed_def)
qed (auto simp: config_verify_def bind_res_ok_iff)

lemma deposit_verify_iff:
  "deposit_verify X sn cs us h op proof = ok d \<longleftrightarrow>
     ch_channels cs (d_channel_id op) \<noteq> None \<and> distinct (d_inputs op) \<and> length (d_inputs op) \<le> MAX_ZK_SIGNING_KEYS \<and>
     (\<forall>i \<in> set (d_inputs op). store_get us i \<noteq> None \<and> \<not> sn_contains sn i \<and> \<not> is_channel_note cs i) \<and>
     d = \<lparr>dz_proof = proof, dz_inputs = signed_by X (map (owner us) (d_inputs op)) h\<rparr>"
  by (auto simp: deposit_verify_def bind_res_ok_iff validate_not_in_channel_ok get_pk_ok_iff inputs_from_pks_def signed_by_def
      owner_def split: sum.splits if_splits)

subsection \<open>Ownership of notes\<close>

lemma register_all:
  assumes "distinct ids" "\<forall>i \<in> set ids. ch_notes cs i = None"
  shows "try_fold (\<lambda>i cs. map_err e (Some (register_channel_note i c cs))) ids cs
    = ok (cs\<lparr>ch_notes := ch_notes cs ++ map_of (map (\<lambda>i. (i, c)) ids)\<rparr>)"
  using assms
proof (induction ids arbitrary: cs)
  case (Cons i ids)
  let ?cs = "cs\<lparr>ch_notes := (ch_notes cs)(i \<mapsto> c)\<rparr>"
  have "register_channel_note i c cs = Inr ?cs" using Cons.prems(2) by (simp add: register_channel_note_def into_channel_def)
  moreover have "\<forall>j \<in> set ids. ch_notes ?cs j = None" using Cons.prems by auto
  moreover have "(ch_notes cs)(i \<mapsto> c) ++ map_of (map (\<lambda>i. (i, c)) ids) = ch_notes cs ++ map_of (map (\<lambda>i. (i, c)) (i # ids))"
    using Cons.prems(1) by (simp add: map_add_upd_left dom_map_of_conv_image_fst image_image del: fun_upd_apply)
  ultimately show ?case using Cons.IH [of ?cs] Cons.prems(1) by (simp del: fun_upd_apply)
qed simp

lemma unregister_all:
  assumes "distinct ids" "\<forall>i \<in> set ids. ch_notes cs i = Some c"
  shows "try_fold (unregister_note c) ids cs = ok (cs\<lparr>ch_notes := ch_notes cs |` (- set ids)\<rparr>)"
  using assms
proof (induction ids arbitrary: cs)
  case (Cons i ids)
  let ?cs = "cs\<lparr>ch_notes := (ch_notes cs)(i := None)\<rparr>"
  have "unregister_note c i cs = ok ?cs"
    using Cons.prems(2) by (simp add: unregister_note_def unregister_channel_note_def into_bedrock_def)
  moreover have "(ch_notes cs)(i := None) |` (- set ids) = ch_notes cs |` (- set (i # ids))" by (auto simp: restrict_map_def fun_eq_iff)
  moreover have "\<forall>j \<in> set ids. ch_notes ?cs j = Some c" using Cons.prems by auto
  ultimately show ?case using Cons.IH [of ?cs] Cons.prems(1) by (simp del: fun_upd_apply)
qed (simp add: restrict_map_def)

text \<open>The notes that channels own are unspent and belong to a channel that exists.\<close>

definition channel_notes_ok :: "channels \<Rightarrow> utxos \<Rightarrow> bool" where
  "channel_notes_ok cs us \<longleftrightarrow> (\<forall>n c. ch_notes cs n = Some c \<longrightarrow> store_get us n \<noteq> None \<and> ch_channels cs c \<noteq> None)"

definition channel_value :: "channels \<Rightarrow> utxos \<Rightarrow> channel_id \<Rightarrow> nat" where
  "channel_value cs us c = map_total utxo_value (store_get us |` {n. ch_notes cs n = Some c})"

text \<open>The notes an operation moves: its inputs leave the ledger, its outputs enter it owned by the channel.\<close>

definition moves_notes :: "extern \<Rightarrow> channel_id \<Rightarrow> inputs \<Rightarrow> nat \<Rightarrow> outputs \<Rightarrow> channels \<times> utxos \<Rightarrow> channels \<times> utxos \<Rightarrow> bool" where
  "moves_notes X c inputs oid outputs = (\<lambda>(cs, us) (cs', us').
     store_get us' = store_get us |` (- set inputs) ++ map_of (map (\<lambda>u. (utxo_id X u, u)) (output_utxos oid outputs)) \<and>
     cs' = cs\<lparr>ch_notes := ch_notes cs |` (- set inputs) ++ map_of (map (\<lambda>u. (utxo_id X u, c)) (output_utxos oid outputs))\<rparr>)"

lemma map_of_ids:
  "map_of (map (\<lambda>u. (f u, g u)) xs) i = (case find (\<lambda>u. f u = i) xs of None \<Rightarrow> None | Some u \<Rightarrow> Some (g u))"
  by (induction xs) auto

lemma find_fresh:
  assumes "fresh_outputs X us oid outputs" "find (\<lambda>u. utxo_id X u = n) (output_utxos oid outputs) = Some u"
  shows "store_get us n = None"
  using assms by (auto simp: fresh_outputs_def find_Some_iff)

lemma moved_notes_value:
  assumes "notes_ok X us" "channel_notes_ok cs us" "fresh_outputs X us oid outputs" "moves_notes X c inputs oid outputs (cs, us) (cs', us')"
  shows "channel_value cs' us' c' =
    map_total utxo_value (store_get us |` ({n. ch_notes cs n = Some c'} - set inputs)) + (if c' = c then output_value outputs else 0)"
proof -
  let ?new = "map (\<lambda>u. (utxo_id X u, u)) (output_utxos oid outputs)"
  let ?old = "store_get us |` ({n. ch_notes cs n = Some c'} - set inputs)"
  have eq: "store_get us' |` {n. ch_notes cs' n = Some c'} = ?old ++ (if c' = c then map_of ?new else Map.empty)"
  proof
    fix n
    show "(store_get us' |` {n. ch_notes cs' n = Some c'}) n = (?old ++ (if c' = c then map_of ?new else Map.empty)) n"
    proof (cases "find (\<lambda>u. utxo_id X u = n) (output_utxos oid outputs)")
      case None
      then show ?thesis using assms(4) by (auto simp: moves_notes_def map_of_ids map_add_def restrict_map_def)
    next
      case (Some u)
      then have "store_get us n = None" by (rule find_fresh [OF assms(3)])
      then have "ch_notes cs n = None" using assms(2) by (cases "ch_notes cs n") (fastforce simp: channel_notes_ok_def)+
      then show ?thesis using assms(4) Some by (auto simp: moves_notes_def map_of_ids map_add_def restrict_map_def)
    qed
  qed
  have "finite (dom ?old)" using store.finite_lookup [OF assms(1)] by (rule finite_subset [rotated]) (auto simp: restrict_map_def split: if_splits)
  moreover have "distinct (map fst ?new)" "\<forall>x \<in> set ?new. ?old (fst x) = None"
    using assms(3) by (auto simp: fresh_outputs_def comp_def restrict_map_def)
  ultimately have "map_total utxo_value (?old ++ map_of ?new) = map_total utxo_value ?old + output_value outputs"
    using map_total_add [of ?old ?new utxo_value] output_utxos_values [of oid outputs] by (simp add: output_value_def comp_def)
  then show ?thesis unfolding channel_value_def eq by (cases "c' = c") simp_all
qed

lemma moved_notes_ok:
  assumes "channel_notes_ok cs us" "ch_channels cs c \<noteq> None" "moves_notes X c inputs oid outputs (cs, us) (cs', us')"
  shows "channel_notes_ok cs' us'"
  unfolding channel_notes_ok_def
proof (intro allI impI)
  fix n d assume "ch_notes cs' n = Some d"
  then show "store_get us' n \<noteq> None \<and> ch_channels cs' d \<noteq> None"
    using assms by (cases "find (\<lambda>u. utxo_id X u = n) (output_utxos oid outputs)")
      (auto simp: moves_notes_def map_of_ids map_add_def restrict_map_def channel_notes_ok_def split: if_splits)
qed

lemma restrict_minus: "m |` (A - set xs) = (m |` A) |` (- set xs)"
  by (auto simp: restrict_map_def fun_eq_iff)

lemma owned_value:
  assumes "notes_ok X us" "channel_notes_ok cs us" "distinct inputs" "\<forall>i \<in> set inputs. ch_notes cs i = Some c"
  shows "map_total utxo_value (store_get us |` ({n. ch_notes cs n = Some c'} - set inputs)) + (if c' = c then input_value us inputs else 0)
    = channel_value cs us c'"
proof (cases "c' = c")
  case True
  let ?m = "store_get us |` {n. ch_notes cs n = Some c}"
  have "finite (dom ?m)" using store.finite_lookup [OF assms(1)] by (rule finite_subset [rotated]) (auto simp: restrict_map_def split: if_splits)
  moreover have "\<forall>i \<in> set inputs. ?m i \<noteq> None" using assms(2,4) by (auto simp: channel_notes_ok_def)
  ultimately have "map_total utxo_value (?m |` (- set inputs)) + sum_list (map (\<lambda>i. utxo_value (the (?m i))) inputs) = map_total utxo_value ?m"
    using map_total_restrict [of ?m inputs utxo_value] assms(3) by blast
  moreover have "map (\<lambda>i. utxo_value (the (?m i))) inputs = map (\<lambda>i. utxo_value (the (store_get us i))) inputs" using assms(4) by simp
  ultimately show ?thesis unfolding channel_value_def input_value_def restrict_minus True by simp
next
  case False
  then have "{n. ch_notes cs n = Some c'} - set inputs = {n. ch_notes cs n = Some c'}" using assms(4) by auto
  then show ?thesis using False by (simp add: channel_value_def)
qed

lemma register_deposit_notes:
  assumes "distinct (map (utxo_id X) us)" "\<forall>u \<in> set us. ch_notes cs (utxo_id X u) = None" "length acc + length us \<le> MAX_TRANSACTION_INPUTS"
  shows "try_fold (register_deposit_note X c) us (cs, acc)
    = ok (cs\<lparr>ch_notes := ch_notes cs ++ map_of (map (\<lambda>u. (utxo_id X u, c)) us)\<rparr>,
          acc @ map (\<lambda>u. \<lparr>dn_note_id = utxo_id X u, dn_value = utxo_value u, dn_pk = note_pk (utxo_note u)\<rparr>) us)"
  using assms
proof (induction us arbitrary: cs acc)
  case (Cons u us)
  let ?cs = "cs\<lparr>ch_notes := (ch_notes cs)(utxo_id X u \<mapsto> c)\<rparr>"
  let ?n = "\<lparr>dn_note_id = utxo_id X u, dn_value = utxo_value u, dn_pk = note_pk (utxo_note u)\<rparr>"
  have "register_deposit_note X c u (cs, acc) = ok (?cs, acc @ [?n])"
    using Cons.prems(2,3) by (simp add: register_deposit_note_def register_channel_note_def into_channel_def push_note_def)
  moreover have "\<forall>u' \<in> set us. ch_notes ?cs (utxo_id X u') = None" using Cons.prems(1,2) by (auto simp: image_iff)
  moreover have "(ch_notes cs)(utxo_id X u \<mapsto> c) ++ map_of (map (\<lambda>u. (utxo_id X u, c)) us) = ch_notes cs ++ map_of (map (\<lambda>u. (utxo_id X u, c)) (u # us))"
    using Cons.prems(1) by (simp add: map_add_upd_left dom_map_of_conv_image_fst image_image del: fun_upd_apply)
  ultimately show ?case using Cons.IH [of ?cs "acc @ [?n]"] Cons.prems(1,3) by (simp del: fun_upd_apply)
qed simp

text \<open>The notes a deposit creates in the channel: its inputs, unchanged.\<close>

abbreviation recreated :: "utxos \<Rightarrow> inputs \<Rightarrow> outputs" where
  "recreated us inputs \<equiv> map (\<lambda>i. utxo_note (the (store_get us i))) inputs"

lemma recreated_value: "output_value (recreated us inputs) = input_value us inputs"
  by (simp add: output_value_def input_value_def comp_def)

lemma fresh_not_owned:
  "channel_notes_ok cs us \<Longrightarrow> fresh_outputs X us oid outputs \<Longrightarrow> u \<in> set (output_utxos oid outputs) \<Longrightarrow> ch_notes cs (utxo_id X u) = None"
  by (cases "ch_notes cs (utxo_id X u)") (fastforce simp: channel_notes_ok_def fresh_outputs_def)+

lemma deposit_execute_spec:
  assumes "notes_ok X us" "channel_notes_ok cs us" "distinct (d_inputs op)" "length (d_inputs op) \<le> MAX_TRANSACTION_INPUTS"
    and "\<forall>i \<in> set (d_inputs op). store_get us i \<noteq> None \<and> \<not> is_channel_note cs i" "input_value us (d_inputs op) < 2 ^ 64"
    and "deposit_op_id X op = Some oid" "fresh_outputs X us oid (recreated us (d_inputs op))"
  shows "\<exists>cs' us' notes. deposit_execute X h op (cs, us) = ok ((cs', us'),
      [\<lparr>ev_tx_hash = h, ev_op_id = oid, ev_payload = Deposit (d_channel_id op) (input_value us (d_inputs op)) (metadata op) notes\<rparr>]) \<and>
    notes_ok X us' \<and> moves_notes X (d_channel_id op) (d_inputs op) oid (recreated us (d_inputs op)) (cs, us) (cs', us') \<and>
    store_room us' = store_room us \<and> total_value us' = total_value us"
proof -
  let ?ins = "d_inputs op" and ?outs = "recreated us (d_inputs op)" and ?new = "output_utxos oid (recreated us (d_inputs op))"
  have pres: "\<forall>i \<in> set ?ins. store_get us i \<noteq> None" using assms(5) by blast
  obtain us1 us' where x: "inputs_execute X ?ins us = ok us1" "outputs_execute X oid ?outs us1 = Some us'" "notes_ok X us'"
      "store_get us' = store_get us |` (- set ?ins) ++ map_of (map (\<lambda>u. (utxo_id X u, u)) ?new)"
      "store_room us' = store_room us + length ?ins - length ?outs" "total_value us' + input_value us ?ins = total_value us + output_value ?outs"
    using spend_and_create [OF assms(1,3) pres assms(8)] by auto
  have amount: "inputs_amount us ?ins = ok (input_value us ?ins)" using pres assms(6) by (simp add: inputs_amount_ok_iff)
  have outs: "deposit_outputs us op = ok ?outs"
    using pres assms(4) by (simp add: deposit_outputs_def bind_res_ok_iff try_collect_ok_iff outputs_try_new_def MAX_TRANSACTION_INPUTS_def MAX_TRANSACTION_OUTPUTS_def)
  have "distinct (map (utxo_id X) ?new)" using assms(8) by (simp add: fresh_outputs_def)
  moreover have "\<forall>u \<in> set ?new. ch_notes cs (utxo_id X u) = None" using fresh_not_owned [OF assms(2,8)] by blast
  ultimately have reg: "try_fold (register_deposit_note X (d_channel_id op)) ?new (cs, [])
      = ok (cs\<lparr>ch_notes := ch_notes cs ++ map_of (map (\<lambda>u. (utxo_id X u, d_channel_id op)) ?new)\<rparr>,
            map (\<lambda>u. \<lparr>dn_note_id = utxo_id X u, dn_value = utxo_value u, dn_pk = note_pk (utxo_note u)\<rparr>) ?new)"
    using register_deposit_notes [of X ?new cs "[]"] assms(4) by simp
  have "ch_notes cs |` (- set ?ins) = ch_notes cs"
    using assms(5) by (auto simp: restrict_map_def fun_eq_iff is_channel_note_def cn_contains_def)
  then have "moves_notes X (d_channel_id op) ?ins oid ?outs (cs, us)
      (cs\<lparr>ch_notes := ch_notes cs ++ map_of (map (\<lambda>u. (utxo_id X u, d_channel_id op)) ?new)\<rparr>, us')"
    using x(4) by (simp add: moves_notes_def)
  moreover have "store_room us' = store_room us" "total_value us' = total_value us" using x(5,6) recreated_value [of us ?ins] by simp_all
  ultimately show ?thesis
    using amount outs reg x(1-3) assms(7) by (auto simp: deposit_execute_def)
qed

lemma channel_transfer_execute_spec:
  assumes "notes_ok X us" "channel_notes_ok cs us" "distinct (ct_inputs op)"
    and "\<forall>i \<in> set (ct_inputs op). store_get us i \<noteq> None \<and> ch_notes cs i = Some (ct_channel_id op)"
    and "channel_transfer_op_id X op = Some oid" "fresh_outputs X us oid (ct_outputs op)"
    and "length (ct_outputs op) \<le> store_room us + length (ct_inputs op)"
  shows "\<exists>cs' us'. channel_transfer_execute X op (cs, us) = ok ((cs', us'), []) \<and> notes_ok X us' \<and>
    moves_notes X (ct_channel_id op) (ct_inputs op) oid (ct_outputs op) (cs, us) (cs', us') \<and>
    store_room us' = store_room us + length (ct_inputs op) - length (ct_outputs op) \<and>
    total_value us' + input_value us (ct_inputs op) = total_value us + output_value (ct_outputs op)"
proof -
  let ?ins = "ct_inputs op" and ?outs = "ct_outputs op" and ?new = "output_utxos oid (ct_outputs op)" and ?c = "ct_channel_id op"
  have pres: "\<forall>i \<in> set ?ins. store_get us i \<noteq> None" and own: "\<forall>i \<in> set ?ins. ch_notes cs i = Some ?c" using assms(4) by blast+
  obtain us1 us' where x: "inputs_execute X ?ins us = ok us1" "outputs_execute X oid ?outs us1 = Some us'" "notes_ok X us'"
      "store_get us' = store_get us |` (- set ?ins) ++ map_of (map (\<lambda>u. (utxo_id X u, u)) ?new)"
      "store_room us' = store_room us + length ?ins - length ?outs" "total_value us' + input_value us ?ins = total_value us + output_value ?outs"
    using spend_and_create [OF assms(1,3) pres assms(6,7)] by auto
  let ?cs1 = "cs\<lparr>ch_notes := ch_notes cs |` (- set ?ins)\<rparr>"
  have un: "try_fold (unregister_note ?c) ?ins cs = ok ?cs1" by (rule unregister_all [OF assms(3) own])
  have "distinct (map (utxo_id X) ?new)" "\<forall>i \<in> set (map (utxo_id X) ?new). ch_notes ?cs1 i = None"
    using assms(6) fresh_not_owned [OF assms(2,6)] by (auto simp: fresh_outputs_def restrict_map_def)
  from register_all [OF this, of ChannelNotesError ?c]
  have "try_fold (\<lambda>i cs. map_err ChannelNotesError (Some (register_channel_note i ?c cs))) (map (utxo_id X) ?new) ?cs1
      = ok (cs\<lparr>ch_notes := ch_notes cs |` (- set ?ins) ++ map_of (map (\<lambda>u. (utxo_id X u, ?c)) ?new)\<rparr>)"
    by (simp add: comp_def)
  then have "try_fold (\<lambda>u cs. map_err ChannelNotesError (Some (register_channel_note (utxo_id X u) ?c cs))) ?new ?cs1
      = ok (cs\<lparr>ch_notes := ch_notes cs |` (- set ?ins) ++ map_of (map (\<lambda>u. (utxo_id X u, ?c)) ?new)\<rparr>)"
    by (simp only: try_fold_map)
  then show ?thesis using x un assms(5) by (auto simp: channel_transfer_execute_def moves_notes_def)
qed

lemma channel_withdraw_execute_spec:
  assumes "distinct (w_inputs op)" "\<forall>i \<in> set (w_inputs op). ch_notes cs i = Some (w_channel_id op)"
  shows "channel_withdraw_execute op cs = ok (cs\<lparr>ch_notes := ch_notes cs |` (- set (w_inputs op))\<rparr>, [])"
  using unregister_all [OF assms] by (simp add: channel_withdraw_execute_def)

lemma deposit_accounting:
  assumes "notes_ok X us" "channel_notes_ok cs us" "total_value us < 2 ^ 64" "deposit_verify X sn cs us h op proof = ok d"
    and "deposit_op_id X op = Some oid" "fresh_outputs X us oid (recreated us (d_inputs op))"
  shows "\<exists>cs' us' ev. deposit_execute X h op (cs, us) = ok ((cs', us'), ev) \<and> notes_ok X us' \<and> channel_notes_ok cs' us' \<and>
    total_value us' = total_value us \<and> ch_channels cs' = ch_channels cs \<and>
    (\<forall>c. channel_value cs' us' c = channel_value cs us c + (if c = d_channel_id op then input_value us (d_inputs op) else 0))"
proof -
  have v: "distinct (d_inputs op)" "length (d_inputs op) \<le> MAX_TRANSACTION_INPUTS" "ch_channels cs (d_channel_id op) \<noteq> None"
    "\<forall>i \<in> set (d_inputs op). store_get us i \<noteq> None \<and> \<not> is_channel_note cs i"
    using assms(4) by (auto simp: deposit_verify_iff MAX_ZK_SIGNING_KEYS_def MAX_TRANSACTION_INPUTS_def)
  have "input_value us (d_inputs op) \<le> total_value us" using v(1,4) by (intro input_value_bound [OF assms(1)]) auto
  then have "input_value us (d_inputs op) < 2 ^ 64" using assms(3) by linarith
  from deposit_execute_spec [OF assms(1,2) v(1,2,4) this assms(5,6), of h]
  obtain cs' us' ev where x: "deposit_execute X h op (cs, us) = ok ((cs', us'), ev)" "notes_ok X us'" "total_value us' = total_value us"
      "moves_notes X (d_channel_id op) (d_inputs op) oid (recreated us (d_inputs op)) (cs, us) (cs', us')"
    by blast
  have "{n. ch_notes cs n = Some c} - set (d_inputs op) = {n. ch_notes cs n = Some c}" for c
    using v(4) by (auto simp: is_channel_note_def cn_contains_def)
  then have "channel_value cs' us' c = channel_value cs us c + (if c = d_channel_id op then input_value us (d_inputs op) else 0)" for c
    using moved_notes_value [OF assms(1,2,6) x(4), of c] recreated_value [of us "d_inputs op"] by (simp add: channel_value_def)
  moreover have "ch_channels cs' = ch_channels cs" using x(4) by (simp add: moves_notes_def)
  ultimately show ?thesis using x moved_notes_ok [OF assms(2) v(3) x(4)] by auto
qed

lemma channel_transfer_accounting:
  assumes "notes_ok X us" "channel_notes_ok cs us" "channel_transfer_verify X sn cs us h k op sigs = ok u"
    and "channel_transfer_op_id X op = Some oid" "fresh_outputs X us oid (ct_outputs op)"
    and "length (ct_outputs op) \<le> store_room us + length (ct_inputs op)"
  shows "\<exists>cs' us'. channel_transfer_execute X op (cs, us) = ok ((cs', us'), []) \<and> notes_ok X us' \<and> channel_notes_ok cs' us' \<and>
    total_value us' = total_value us \<and> ch_channels cs' = ch_channels cs \<and> (\<forall>c. channel_value cs' us' c = channel_value cs us c)"
proof -
  have v: "distinct (ct_inputs op)" "\<forall>i \<in> set (ct_inputs op). store_get us i \<noteq> None \<and> ch_notes cs i = Some (ct_channel_id op)"
    "ch_channels cs (ct_channel_id op) \<noteq> None" "input_value us (ct_inputs op) = output_value (ct_outputs op)"
    using assms(3) by (auto simp: channel_transfer_verify_iff)
  from channel_transfer_execute_spec [OF assms(1,2) v(1,2) assms(4-6)]
  obtain cs' us' where x: "channel_transfer_execute X op (cs, us) = ok ((cs', us'), [])" "notes_ok X us'"
      "total_value us' + input_value us (ct_inputs op) = total_value us + output_value (ct_outputs op)"
      "moves_notes X (ct_channel_id op) (ct_inputs op) oid (ct_outputs op) (cs, us) (cs', us')"
    by blast
  have "\<forall>i \<in> set (ct_inputs op). ch_notes cs i = Some (ct_channel_id op)" using v(2) by blast
  then have "channel_value cs' us' c = channel_value cs us c" for c
    using moved_notes_value [OF assms(1,2,5) x(4), of c] owned_value [OF assms(1,2) v(1), of "ct_channel_id op" c] v(4) by auto
  moreover have "ch_channels cs' = ch_channels cs" using x(4) by (simp add: moves_notes_def)
  ultimately show ?thesis using x v(4) moved_notes_ok [OF assms(2) v(3) x(4)] by auto
qed

lemma channel_withdraw_accounting:
  assumes "notes_ok X us" "channel_notes_ok cs us" "channel_withdraw_verify X sn cs us h k op sigs = ok u"
  shows "\<exists>cs'. channel_withdraw_execute op cs = ok (cs', []) \<and> channel_notes_ok cs' us \<and> ch_channels cs' = ch_channels cs \<and>
    (\<forall>i \<in> set (w_inputs op). \<not> is_channel_note cs' i) \<and>
    (\<forall>c. channel_value cs' us c + (if c = w_channel_id op then input_value us (w_inputs op) else 0) = channel_value cs us c)"
proof -
  have v: "distinct (w_inputs op)" "\<forall>i \<in> set (w_inputs op). ch_notes cs i = Some (w_channel_id op)"
    using assms(3) by (auto simp: channel_withdraw_verify_iff)
  let ?cs = "cs\<lparr>ch_notes := ch_notes cs |` (- set (w_inputs op))\<rparr>"
  have "{n. (ch_notes cs |` (- set (w_inputs op))) n = Some c} = {n. ch_notes cs n = Some c} - set (w_inputs op)" for c
    by (auto simp: restrict_map_def split: if_splits)
  then have "channel_value ?cs us c + (if c = w_channel_id op then input_value us (w_inputs op) else 0) = channel_value cs us c" for c
    using owned_value [OF assms(1,2) v, of c] by (simp add: channel_value_def)
  moreover have "channel_notes_ok ?cs us" using assms(2) by (auto simp: channel_notes_ok_def restrict_map_def split: if_splits)
  moreover have "\<forall>i \<in> set (w_inputs op). \<not> is_channel_note ?cs i" by (simp add: is_channel_note_def cn_contains_def)
  ultimately show ?thesis using channel_withdraw_execute_spec [OF v] by auto
qed

lemma multi_signed_signers:
  assumes "multi_signed X c n h sigs" "sorted_keys sigs"
  shows "card {i. i < length (accredited_keys c) \<and> (\<exists>sig. (i, sig) \<in> set sigs \<and> ed_verify X (accredited_keys c ! i) h sig)} = n"
proof -
  have "{i. i < length (accredited_keys c) \<and> (\<exists>sig. (i, sig) \<in> set sigs \<and> ed_verify X (accredited_keys c ! i) h sig)} = set (map fst sigs)"
    using assms(1) by (force simp: multi_signed_def)
  moreover have "card (set (map fst sigs)) = length sigs" using distinct_card [OF sorted_keys_distinct [OF assms(2)]] by simp
  ultimately show ?thesis using assms(1) by (simp add: multi_signed_def)
qed

text \<open>A channel with three keys and one note, for the examples.\<close>

definition example_channels :: channels where
  "example_channels = \<lparr>ch_channels = [2 \<mapsto> example_channel], ch_notes = [5 \<mapsto> 2]\<rparr>"

definition example_inscription :: inscription_op where
  "example_inscription = \<lparr>i_channel_id = 2, inscription = [7, 8], i_parent = 5, i_signer = 12\<rparr>"

definition example_deposit :: deposit_op where
  "example_deposit = \<lparr>d_channel_id = 2, d_inputs = [3], metadata = [1]\<rparr>"

definition example_withdraw :: channel_withdraw_op where
  "example_withdraw = \<lparr>w_channel_id = 2, w_inputs = [5]\<rparr>"

lemma example_channels_ok: "channels_ok example_channels"
  by (auto simp: channels_ok_def example_channels_def channel_ok_def example_channel_def split: if_splits)

lemma example_ids: "inscription_id plain_extern example_inscription = Some 1" "deposit_op_id plain_extern example_deposit = Some 1"
proof -
  have "c_ok (inscription_c plain_extern (2 ^ 32 - 1)) example_inscription" "c_ok (deposit_c (2 ^ 32 - 1)) example_deposit"
    by (simp_all add: example_inscription_def inscription_c_def conv_c_def pair_c_def pair_ok_def uint_c_def uint_ok_def runtime_vec_c_def
        bounded_ok_def byte_c_def unverified_key_c_def plain_extern_def example_extern_def example_deposit_def deposit_c_def inputs_c_def
        ordered_set_c_def MAX_TRANSACTION_INPUTS_def fr_c_def fr_ok_def fr_modulus_def)
  moreover have "(2 ^ 32 - 1 :: nat) < 2 ^ 32" by simp
  ultimately obtain bs bs' where "c_enc (inscription_c plain_extern (2 ^ 32 - 1)) example_inscription = Some bs"
      "c_enc (deposit_c (2 ^ 32 - 1)) example_deposit = Some bs'"
    using lawful_encodes [OF lawful_inscription] lawful_encodes [OF lawful_deposit] by blast
  then show "inscription_id plain_extern example_inscription = Some 1" "deposit_op_id plain_extern example_deposit = Some 1"
    by (simp_all add: inscription_id_def message_id_def deposit_op_id_def op_id_def plain_extern_def)
qed

lemma example_deposit_fresh: "store_get us = example_notes \<Longrightarrow> fresh_outputs plain_extern us 1 (recreated us (d_inputs example_deposit))"
  by (simp add: fresh_outputs_def example_deposit_def output_utxos_def plain_utxo_id example_notes_def example_utxo_def fr_modulus_def)

lemma example_total: "store_get us = example_notes \<Longrightarrow> total_value us = 23"
  by (simp add: total_value_def example_notes_def example_utxo_def map_total_new)

lemma example_channel_notes: "store_get us = example_notes \<Longrightarrow> channel_notes_ok example_channels us"
  by (auto simp: channel_notes_ok_def example_channels_def example_notes_def)

subsection \<open>Properties\<close>

text \<open>
  C26: An accepted inscription extends its channel: its parent is the last message, its signer is the sequencer whose turn it is (a channel
  is created by its first inscription), execution succeeds, records it as the last message and its signer as
  the sequencer, leaves every other channel alone and keeps all channels well-formed.  Verification never panics.
\<close>

theorem inscription_extends_channel:
  assumes "channels_ok cs" "slot < 2 ^ 64" "inscription_id X op = Some mid"
  shows "inscription_verify cs slot op \<noteq> None \<and>
    (inscription_verify cs slot op = ok () \<longrightarrow>
      (case ch_channels cs (i_channel_id op) of
         None \<Rightarrow> i_parent op = root_msg
       | Some c \<Rightarrow> i_parent op = tip_message c \<and> sequencer_at c slot = Some (i_signer op)) \<and>
      (\<exists>cs' c. inscription_execute X slot op cs = ok (cs', []) \<and> channels_ok cs' \<and> ch_notes cs' = ch_notes cs \<and>
        ch_channels cs' = (ch_channels cs)(i_channel_id op \<mapsto> c) \<and> tip_message c = mid \<and> tip_slot c = slot \<and>
        accredited_keys c ! tip_sequencer c = i_signer op))"
  using inscription_verify_returns [OF assms(1,2), of op] inscription_execute_spec [OF assms] inscription_verify_ok_iff [of cs slot op]
  by blast

theorem inscription_extends_channel_witness:
  "inscription_verify example_channels 104 example_inscription = ok () \<and>
   (\<exists>cs' c. inscription_execute plain_extern 104 example_inscription example_channels = ok (cs', []) \<and>
      ch_channels cs' 2 = Some c \<and> tip_message c = 1 \<and> accredited_keys c ! tip_sequencer c = 12)"
proof -
  have "inscription_verify example_channels 104 example_inscription = ok ()"
    by (simp add: inscription_verify_ok_iff example_channels_def example_inscription_def example_channel_def sequencer_at_def round_robin_def
        timed_out_turns_def timeframe_turns_def is_timed_out_def slot_strict_add_def nth_opt_def int_ops)
  then show ?thesis
    using inscription_extends_channel [OF example_channels_ok _ example_ids(1), of 104] by (auto simp: example_inscription_def)
qed

text \<open>
  C11: The funds of a channel move, and its configuration changes, only under signatures by as many different accredited keys as the
  channel's threshold, over this very transaction; and what moves is unspent and belongs to that channel.
\<close>

theorem channel_needs_threshold:
  assumes "sorted_keys sigs"
  shows "(channel_withdraw_verify X sn cs us h k w sigs = ok () \<longrightarrow>
      (\<exists>c. ch_channels cs (w_channel_id w) = Some c \<and> transfer_threshold c =
         card {i. i < length (accredited_keys c) \<and> (\<exists>sig. (i, sig) \<in> set sigs \<and> ed_verify X (accredited_keys c ! i) h sig)}) \<and>
      distinct (w_inputs w) \<and> (\<forall>i \<in> set (w_inputs w). ch_notes cs i = Some (w_channel_id w) \<and> store_get us i \<noteq> None \<and> \<not> sn_contains sn i)) \<and>
    (channel_transfer_verify X sn cs us h k t sigs = ok () \<longrightarrow>
      (\<exists>c. ch_channels cs (ct_channel_id t) = Some c \<and> transfer_threshold c =
         card {i. i < length (accredited_keys c) \<and> (\<exists>sig. (i, sig) \<in> set sigs \<and> ed_verify X (accredited_keys c ! i) h sig)}) \<and>
      distinct (ct_inputs t) \<and> (\<forall>i \<in> set (ct_inputs t). ch_notes cs i = Some (ct_channel_id t) \<and> store_get us i \<noteq> None \<and> \<not> sn_contains sn i)) \<and>
    (config_verify X cs h g sigs = ok () \<longrightarrow>
      (case ch_channels cs (cc_channel g) of
         None \<Rightarrow> cc_parent g = root_msg
       | Some c \<Rightarrow> cc_parent g = config_tip_hash c \<and> configuration_threshold c =
           card {i. i < length (accredited_keys c) \<and> (\<exists>sig. (i, sig) \<in> set sigs \<and> ed_verify X (accredited_keys c ! i) h sig)}))"
  using multi_signed_signers [OF _ assms]
  by (auto simp: channel_withdraw_verify_iff channel_transfer_verify_iff config_verify_iff split: option.splits)

theorem channel_needs_threshold_witness:
  "\<exists>us. channel_withdraw_verify plain_extern sn_new example_channels us 99 0 example_withdraw [(0, 12), (1, 13)] = ok () \<and>
     card {i. i < length (accredited_keys example_channel) \<and>
       (\<exists>sig. (i, sig) \<in> set [(0, 12), (1, 13)] \<and> ed_verify plain_extern (accredited_keys example_channel ! i) 99 sig)} = 2"
proof -
  obtain us where us: "notes_ok plain_extern us" "store_get us = example_notes" using example_notes_exist by blast
  have v: "channel_withdraw_verify plain_extern sn_new example_channels us 99 0 example_withdraw [(0, 12), (1, 13)] = ok ()"
    using us(2) by (simp add: channel_withdraw_verify_iff multi_signed_def example_channels_def example_channel_def example_withdraw_def
        example_notes_def ed_verify_def plain_extern_def example_extern_def sn_contains_def sn_new_def)
  then show ?thesis
    using channel_needs_threshold [of "[(0, 12), (1, 13)]" plain_extern sn_new example_channels us 99 0 example_withdraw]
    by (intro exI conjI) (auto simp: example_channels_def example_withdraw_def example_channel_def)
qed

text \<open>
  C15: After verification the value operations of a channel succeed and account exactly.  A deposit moves the value of its inputs into its
  channel, a withdrawal releases its inputs from it, a transfer keeps the value of every channel; none changes the total value of the
  unspent notes, and the notes of channels stay unspent notes.  Identifiers of new notes have to be new, and the tree needs room.
\<close>

theorem channel_value_accounting:
  assumes "notes_ok X us" "channel_notes_ok cs us" "total_value us < 2 ^ 64"
  shows "(deposit_verify X sn cs us h dop proof = ok d \<and> deposit_op_id X dop = Some oid \<and> fresh_outputs X us oid (recreated us (d_inputs dop)) \<longrightarrow>
      (\<exists>cs' us' ev. deposit_execute X h dop (cs, us) = ok ((cs', us'), ev) \<and> notes_ok X us' \<and> channel_notes_ok cs' us' \<and>
        total_value us' = total_value us \<and>
        (\<forall>c. channel_value cs' us' c = channel_value cs us c + (if c = d_channel_id dop then input_value us (d_inputs dop) else 0)))) \<and>
    (channel_withdraw_verify X sn cs us h k w sigs = ok () \<longrightarrow>
      (\<exists>cs'. channel_withdraw_execute w cs = ok (cs', []) \<and> channel_notes_ok cs' us \<and>
        (\<forall>i \<in> set (w_inputs w). \<not> is_channel_note cs' i) \<and>
        (\<forall>c. channel_value cs' us c + (if c = w_channel_id w then input_value us (w_inputs w) else 0) = channel_value cs us c))) \<and>
    (channel_transfer_verify X sn cs us h k t sigs = ok () \<and> channel_transfer_op_id X t = Some oid \<and> fresh_outputs X us oid (ct_outputs t) \<and>
       length (ct_outputs t) \<le> store_room us + length (ct_inputs t) \<longrightarrow>
      (\<exists>cs' us'. channel_transfer_execute X t (cs, us) = ok ((cs', us'), []) \<and> notes_ok X us' \<and> channel_notes_ok cs' us' \<and>
        total_value us' = total_value us \<and> (\<forall>c. channel_value cs' us' c = channel_value cs us c)))"
proof (intro conjI impI)
  assume "deposit_verify X sn cs us h dop proof = ok d \<and> deposit_op_id X dop = Some oid \<and> fresh_outputs X us oid (recreated us (d_inputs dop))"
  then show "\<exists>cs' us' ev. deposit_execute X h dop (cs, us) = ok ((cs', us'), ev) \<and> notes_ok X us' \<and> channel_notes_ok cs' us' \<and>
      total_value us' = total_value us \<and>
      (\<forall>c. channel_value cs' us' c = channel_value cs us c + (if c = d_channel_id dop then input_value us (d_inputs dop) else 0))"
    using deposit_accounting [OF assms] by blast
next
  assume "channel_withdraw_verify X sn cs us h k w sigs = ok ()"
  then show "\<exists>cs'. channel_withdraw_execute w cs = ok (cs', []) \<and> channel_notes_ok cs' us \<and> (\<forall>i \<in> set (w_inputs w). \<not> is_channel_note cs' i) \<and>
      (\<forall>c. channel_value cs' us c + (if c = w_channel_id w then input_value us (w_inputs w) else 0) = channel_value cs us c)"
    using channel_withdraw_accounting [OF assms(1,2)] by blast
next
  assume "channel_transfer_verify X sn cs us h k t sigs = ok () \<and> channel_transfer_op_id X t = Some oid \<and> fresh_outputs X us oid (ct_outputs t) \<and>
     length (ct_outputs t) \<le> store_room us + length (ct_inputs t)"
  then show "\<exists>cs' us'. channel_transfer_execute X t (cs, us) = ok ((cs', us'), []) \<and> notes_ok X us' \<and> channel_notes_ok cs' us' \<and>
      total_value us' = total_value us \<and> (\<forall>c. channel_value cs' us' c = channel_value cs us c)"
    using channel_transfer_accounting [OF assms(1,2)] by blast
qed

theorem channel_value_accounting_witness:
  "\<exists>us cs' us' ev. channel_value example_channels us 2 = 8 \<and>
     deposit_execute plain_extern 99 example_deposit (example_channels, us) = ok ((cs', us'), ev) \<and>
     channel_value cs' us' 2 = 18 \<and> total_value us' = 23"
proof -
  obtain us where us: "notes_ok plain_extern us" "store_get us = example_notes" using example_notes_exist by blast
  have v: "deposit_verify plain_extern sn_new example_channels us 99 example_deposit 7
      = ok \<lparr>dz_proof = 7, dz_inputs = signed_by plain_extern [21] 99\<rparr>"
    unfolding deposit_verify_iff using us(2)
    by (simp add: example_channels_def example_deposit_def example_notes_def example_utxo_def owner_def MAX_ZK_SIGNING_KEYS_def
        sn_contains_def sn_new_def is_channel_note_def cn_contains_def)
  have "store_get us |` {n. ch_notes example_channels n = Some 2} = [5 \<mapsto> example_utxo 8 23]"
    using us(2) by (auto simp: example_channels_def example_notes_def restrict_map_def fun_eq_iff split: if_splits)
  then have "channel_value example_channels us 2 = 8" by (simp add: channel_value_def map_total_new example_utxo_def)
  moreover have "input_value us (d_inputs example_deposit) = 10" "d_channel_id example_deposit = 2"
    using us(2) by (simp_all add: input_value_def example_deposit_def example_notes_def example_utxo_def)
  moreover obtain cs' us' ev where "deposit_execute plain_extern 99 example_deposit (example_channels, us) = ok ((cs', us'), ev)"
      "total_value us' = total_value us"
      "\<forall>c. channel_value cs' us' c = channel_value example_channels us c +
         (if c = d_channel_id example_deposit then input_value us (d_inputs example_deposit) else 0)"
    using channel_value_accounting [THEN conjunct1, THEN mp, OF us(1) example_channel_notes [OF us(2)] _
        conjI [OF v conjI [OF example_ids(2) example_deposit_fresh [OF us(2)]]]] example_total [OF us(2)] by auto
  ultimately show ?thesis using example_total [OF us(2)] by auto
qed

end
