(* ===== verification/SdpOps.thy ===== *)
theory SdpOps
  imports ChannelOps
begin

text \<open>
  Service declarations: \<^verbatim>\<open>Declaration\<close> and its operations (\<^verbatim>\<open>core/src/sdp/mod.rs\<close>, \<^verbatim>\<open>core/src/mantle/ops/sdp/\<close>) and the
  removal of withdrawn declarations (\<^verbatim>\<open>core/src/sdp/service_notes.rs\<close>).

  The declarations of a service are the list of their entries, each identifier once; where the source iterates
  them the entries are sorted by the bytes of the identifier.  The invariant \<open>registry_ok\<close> ties declarations,
  provider index and service notes together: every declaration holds its note, every note in service backs a declaration.  The lemmas show that every operation keeps it,
  that the calls of \<^verbatim>\<open>expect\<close> cannot panic under it, and that a nonce is never accepted twice.
\<close>

datatype sdp_error =
    SdpInexistingNote note_id
  | SdpChannelNote note_id
  | InvalidZkSignature
  | InvalidEddsaSignature
  | DuplicateDeclaration declaration_id
  | DuplicateProviderId service_type ed_key
  | SdpNoteInsufficientValue note_id nat
  | SdpNoteAlreadyUsedForService note_id service_type
  | UnexpectedError
  | DeclarationNotFound declaration_id
  | DeclarationIdMismatch declaration_id declaration_id
  | SdpServiceNotFound service_type
  | DeclarationWithdrawn declaration_id nat
  | InvalidNonceLifecycle nat nat
  | InvalidNonceSequence nat nat
  | SdpNotAServiceNote note_id
  | SdpNoteNotUsedForService note_id service_type

subsection \<open>Declarations\<close>

record sdp_declaration =
  decl_service_type :: service_type
  decl_provider_id :: ed_key
  decl_service_note_id :: note_id
  decl_locators :: "byte list list"
  decl_zk_id :: nat
  decl_created :: nat
  decl_active :: nat
  decl_withdraw_at :: "nat option"
  decl_nonce :: nonce

type_synonym declarations = "(declaration_id \<times> sdp_declaration) list"
type_synonym provider_index = "ed_key \<rightharpoonup> declaration_id"

definition SNAPSHOT_FINALIZATION_DELAY :: nat where
  "SNAPSHOT_FINALIZATION_DELAY = 2"

definition inactivity_period_new :: "nat \<Rightarrow> nat option" where
  "inactivity_period_new period = (if period < SNAPSHOT_FINALIZATION_DELAY then None else Some period)"

definition decl_id :: "extern \<Rightarrow> sdp_declaration \<Rightarrow> declaration_id" where
  "decl_id X d = declaration_id X (decl_service_type d) (decl_zk_id d)"

definition message_decl_id :: "extern \<Rightarrow> declaration_message \<Rightarrow> declaration_id" where
  "message_decl_id X m = declaration_id X (dm_service_type m) (dm_zk_id m)"

definition declaration_new :: "nat \<Rightarrow> declaration_message \<Rightarrow> sdp_declaration option" where
  "declaration_new epoch m =
     do { active \<leftarrow> epoch_strict_add epoch SNAPSHOT_FINALIZATION_DELAY;
          Some \<lparr>decl_service_type = dm_service_type m, decl_provider_id = dm_provider_id m, decl_service_note_id = dm_service_note_id m,
            decl_locators = dm_locators m, decl_zk_id = dm_zk_id m, decl_created = epoch, decl_active = active,
            decl_withdraw_at = None, decl_nonce = \<lparr>lifecycle_epoch = epoch, nonce_sequence = 0\<rparr>\<rparr> }"

definition origin_epoch :: "activity_metadata \<Rightarrow> nat" where
  "origin_epoch m = (case m of Blend p \<Rightarrow> ap_epoch p)"

definition submission_epoch :: "activity_metadata \<Rightarrow> nat option" where
  "submission_epoch m = (case m of Blend p \<Rightarrow> epoch_strict_add (ap_epoch p) 1)"

subsection \<open>Declaring\<close>

definition validate_service_scoped_uniqueness :: "declaration_message \<Rightarrow> provider_index \<Rightarrow> (sdp_error + unit) option" where
  "validate_service_scoped_uniqueness op index =
     ensure (index (dm_provider_id op) = None) (DuplicateProviderId (dm_service_type op) (dm_provider_id op))"

definition declare_validate ::
  "extern \<Rightarrow> declaration_message \<Rightarrow> ledger_note \<Rightarrow> channels \<Rightarrow> declarations \<Rightarrow> provider_index \<Rightarrow> service_notes \<Rightarrow> min_stake \<Rightarrow> (sdp_error + unit) option" where
  "declare_validate X op n cs ds index sn stake =
     bind_res (ensure (map_of ds (message_decl_id X op) = None) (DuplicateDeclaration (message_decl_id X op))) (\<lambda>_.
     bind_res (validate_service_scoped_uniqueness op index) (\<lambda>_.
     bind_res (ensure (\<not> is_channel_note cs (dm_service_note_id op)) (SdpChannelNote (dm_service_note_id op))) (\<lambda>_.
     bind_res (ensure (threshold stake \<le> note_value n) (SdpNoteInsufficientValue (dm_service_note_id op) (note_value n))) (\<lambda>_.
     ensure (\<not> is_used_for_service sn (dm_service_note_id op) (dm_service_type op))
       (SdpNoteAlreadyUsedForService (dm_service_note_id op) (dm_service_type op))))))"

definition declare_preverify :: "extern \<Rightarrow> nat \<Rightarrow> declaration_message \<Rightarrow> ed_sig \<Rightarrow> (sdp_error + unit) option" where
  "declare_preverify X h op signature = ensure (ed_verify X (dm_provider_id op) h signature) InvalidEddsaSignature"

definition declare_verify ::
  "extern \<Rightarrow> utxos \<Rightarrow> channels \<Rightarrow> service_notes \<Rightarrow> nat \<Rightarrow> declarations \<Rightarrow> provider_index \<Rightarrow> min_stake
     \<Rightarrow> declaration_message \<Rightarrow> zk_and_ed25519_proof \<Rightarrow> (sdp_error + deferred_zk_sig) option" where
  "declare_verify X us cs sn h ds index stake op proof =
     bind_res (ok_or (SdpInexistingNote (dm_service_note_id op)) (store_get us (dm_service_note_id op))) (\<lambda>u.
     case inputs_from_pks X (hash_to_fr h) [note_pk (utxo_note u), dm_zk_id op] of
       Inl _ \<Rightarrow> fail InvalidZkSignature
     | Inr inputs \<Rightarrow>
         bind_res (declare_validate X op (utxo_note u) cs ds index sn stake) (\<lambda>_.
         ok \<lparr>dz_proof = zk_sig proof, dz_inputs = inputs\<rparr>))"

definition declare_verify_genesis ::
  "extern \<Rightarrow> utxos \<Rightarrow> channels \<Rightarrow> service_notes \<Rightarrow> declarations \<Rightarrow> provider_index \<Rightarrow> min_stake \<Rightarrow> declaration_message \<Rightarrow> (sdp_error + unit) option" where
  "declare_verify_genesis X us cs sn ds index stake op =
     bind_res (ok_or (SdpInexistingNote (dm_service_note_id op)) (store_get us (dm_service_note_id op))) (\<lambda>u.
     declare_validate X op (utxo_note u) cs ds index sn stake)"

text \<open>What the operations of a service change: its declarations, its provider index, and the service notes.\<close>

record registry =
  reg_declarations :: declarations
  reg_providers :: provider_index
  reg_notes :: service_notes

definition declare_execute ::
  "extern \<Rightarrow> utxos \<Rightarrow> nat \<Rightarrow> min_stake \<Rightarrow> declaration_message \<Rightarrow> registry \<Rightarrow> (sdp_error + registry \<times> tx_event list) option" where
  "declare_execute X us epoch stake op r =
     do { d \<leftarrow> declaration_new epoch op;
          u \<leftarrow> store_get us (dm_service_note_id op);
          let did = message_decl_id X op;
          bind_res (map_err (\<lambda>_. UnexpectedError) (Some (lock stake (dm_service_type op) did (utxo_note u) (dm_service_note_id op) (reg_notes r))))
            (\<lambda>sn. ok (\<lparr>reg_declarations = AList.update did d (reg_declarations r),
                       reg_providers = (reg_providers r)(dm_provider_id op \<mapsto> did), reg_notes = sn\<rparr>, [])) }"

subsection \<open>Activity and withdrawal\<close>

definition validate_declaration_id :: "extern \<Rightarrow> declaration_id \<Rightarrow> sdp_declaration \<Rightarrow> (sdp_error + unit) option" where
  "validate_declaration_id X did d = ensure (did = decl_id X d) (DeclarationIdMismatch did (decl_id X d))"

definition validate_nonce :: "nonce \<Rightarrow> sdp_declaration \<Rightarrow> (sdp_error + unit) option" where
  "validate_nonce candidate d =
     bind_res (ensure (lifecycle_epoch candidate = decl_created d) (InvalidNonceLifecycle (lifecycle_epoch candidate) (decl_created d))) (\<lambda>_.
     ensure (nonce_sequence (decl_nonce d) < nonce_sequence candidate)
       (InvalidNonceSequence (nonce_sequence candidate) (nonce_sequence (decl_nonce d))))"

definition active_verify :: "extern \<Rightarrow> nat \<Rightarrow> nat \<Rightarrow> sdp_declaration \<Rightarrow> active_message \<Rightarrow> nat \<Rightarrow> (sdp_error + deferred_zk_sig) option" where
  "active_verify X h epoch d op proof =
     bind_res (validate_declaration_id X (am_declaration_id op) d) (\<lambda>_.
     bind_res (case decl_withdraw_at d of
                 Some withdraw_at \<Rightarrow> ensure (\<not> withdraw_at < epoch) (DeclarationWithdrawn (am_declaration_id op) withdraw_at)
               | None \<Rightarrow> ok ()) (\<lambda>_.
     bind_res (validate_nonce (am_nonce op) d) (\<lambda>_.
     case inputs_from_pks X (hash_to_fr h) [decl_zk_id d] of
       Inl _ \<Rightarrow> fail InvalidZkSignature
     | Inr inputs \<Rightarrow> ok \<lparr>dz_proof = proof, dz_inputs = inputs\<rparr>)))"

definition active_execute :: "nat \<Rightarrow> active_message \<Rightarrow> declarations \<Rightarrow> (sdp_error + declarations \<times> tx_event list) option" where
  "active_execute epoch op ds =
     do { d \<leftarrow> map_of ds (am_declaration_id op);
          ok (AList.update (am_declaration_id op) (d\<lparr>decl_active := epoch, decl_nonce := am_nonce op\<rparr>) ds, []) }"

definition sdp_withdraw_verify ::
  "extern \<Rightarrow> nat \<Rightarrow> service_notes \<Rightarrow> sdp_declaration \<Rightarrow> withdraw_message \<Rightarrow> nat \<Rightarrow> (sdp_error + deferred_zk_sig) option" where
  "sdp_withdraw_verify X h sn d op proof =
     bind_res (validate_declaration_id X (wm_declaration_id op) d) (\<lambda>_.
     bind_res (case decl_withdraw_at d of
                 Some withdraw_at \<Rightarrow> fail (DeclarationWithdrawn (wm_declaration_id op) withdraw_at) | None \<Rightarrow> ok ()) (\<lambda>_.
     bind_res (ok_or (SdpNotAServiceNote (decl_service_note_id d)) (sn_get sn (decl_service_note_id d))) (\<lambda>n.
     bind_res (ensure (is_used_by_declaration sn (decl_service_note_id d) (decl_service_type d) (wm_declaration_id op))
                 (SdpNoteNotUsedForService (decl_service_note_id d) (decl_service_type d))) (\<lambda>_.
     bind_res (validate_nonce (wm_nonce op) d) (\<lambda>_.
     case inputs_from_pks X (hash_to_fr h) [note_pk n, decl_zk_id d] of
       Inl _ \<Rightarrow> fail InvalidZkSignature
     | Inr inputs \<Rightarrow> ok \<lparr>dz_proof = proof, dz_inputs = inputs\<rparr>)))))"

definition sdp_withdraw_execute :: "nat \<Rightarrow> withdraw_message \<Rightarrow> declarations \<Rightarrow> (sdp_error + declarations \<times> tx_event list) option" where
  "sdp_withdraw_execute epoch op ds =
     do { d \<leftarrow> map_of ds (wm_declaration_id op);
          withdraw_at \<leftarrow> epoch_strict_add epoch SNAPSHOT_FINALIZATION_DELAY;
          ok (AList.update (wm_declaration_id op) (d\<lparr>decl_withdraw_at := Some withdraw_at, decl_nonce := wm_nonce op\<rparr>) ds, []) }"

subsection \<open>Removing withdrawn declarations\<close>

datatype header_event =
    SdpNoteUnlocked note_id service_type declaration_id
  | SdpRewardDistributed service_type utxo

text \<open>The order of the identifiers: that of their bytes.\<close>

definition byte_order :: "nat \<Rightarrow> nat" where
  "byte_order did = from_le_bytes (rev (to_le_bytes 32 did))"

definition withdrawn :: "nat \<Rightarrow> sdp_declaration \<Rightarrow> bool" where
  "withdrawn epoch d \<longleftrightarrow> (case decl_withdraw_at d of None \<Rightarrow> False | Some withdraw_at \<Rightarrow> \<not> epoch \<le> withdraw_at)"

definition remove_declaration :: "registry \<times> header_event list \<Rightarrow> declaration_id \<times> sdp_declaration \<Rightarrow> (registry \<times> header_event list) option" where
  "remove_declaration = (\<lambda>(r, events) (did, d).
     case unlock (decl_service_type d) did (decl_service_note_id d) (reg_notes r) of
       Inl _ \<Rightarrow> None
     | Inr (sn, _) \<Rightarrow>
         Some (\<lparr>reg_declarations = AList.delete did (reg_declarations r), reg_providers = (reg_providers r)(decl_provider_id d := None), reg_notes = sn\<rparr>,
               if sn_contains sn (decl_service_note_id d) then events
               else events @ [SdpNoteUnlocked (decl_service_note_id d) (decl_service_type d) did]))"

definition remove_withdrawn_declarations :: "nat \<Rightarrow> registry \<Rightarrow> (registry \<times> header_event list) option" where
  "remove_withdrawn_declarations epoch r =
     fold_run remove_declaration (r, [])
       (sort_key (\<lambda>(did, _). byte_order did) (filter (\<lambda>(_, d). withdrawn epoch d) (reg_declarations r)))"

subsection \<open>The registry of a service\<close>

definition registry_ok :: "extern \<Rightarrow> registry \<Rightarrow> bool" where
  "registry_ok X r \<longleftrightarrow>
     distinct (map fst (reg_declarations r)) \<and> service_notes_ok (reg_notes r) \<and>
     (\<forall>did d. map_of (reg_declarations r) did = Some d \<longrightarrow>
        did = decl_id X d \<and> bound (reg_notes r) (decl_service_note_id d) (decl_service_type d) = Some did \<and>
        reg_providers r (decl_provider_id d) = Some did) \<and>
     (\<forall>n t did. bound (reg_notes r) n t = Some did \<longrightarrow>
        (\<exists>d. map_of (reg_declarations r) did = Some d \<and> decl_service_note_id d = n \<and> decl_service_type d = t)) \<and>
     (\<forall>p did. reg_providers r p = Some did \<longrightarrow> (\<exists>d. map_of (reg_declarations r) did = Some d \<and> decl_provider_id d = p))"

definition registry_new :: registry where
  "registry_new = \<lparr>reg_declarations = [], reg_providers = Map.empty, reg_notes = sn_new\<rparr>"

lemma registry_new_ok: "registry_ok X registry_new"
  by (simp add: registry_ok_def registry_new_def service_notes_new)

lemma registry_okD:
  assumes "registry_ok X r"
  shows "distinct (map fst (reg_declarations r))" "service_notes_ok (reg_notes r)"
    "map_of (reg_declarations r) did = Some d \<Longrightarrow> did = decl_id X d"
    "map_of (reg_declarations r) did = Some d \<Longrightarrow> bound (reg_notes r) (decl_service_note_id d) (decl_service_type d) = Some did"
    "map_of (reg_declarations r) did = Some d \<Longrightarrow> reg_providers r (decl_provider_id d) = Some did"
    "bound (reg_notes r) n t = Some did \<Longrightarrow>
       \<exists>d. map_of (reg_declarations r) did = Some d \<and> decl_service_note_id d = n \<and> decl_service_type d = t"
    "reg_providers r p = Some did \<Longrightarrow> \<exists>d. map_of (reg_declarations r) did = Some d \<and> decl_provider_id d = p"
  using assms by (auto simp: registry_ok_def)

text \<open>A note is in service exactly while a declaration holds it.\<close>

lemma in_service_iff:
  assumes "registry_ok X r"
  shows "sn_contains (reg_notes r) n \<longleftrightarrow> (\<exists>did d. map_of (reg_declarations r) did = Some d \<and> decl_service_note_id d = n)"
proof
  assume "sn_contains (reg_notes r) n"
  then obtain t did where "bound (reg_notes r) n t = Some did" using sn_contains_bound [OF registry_okD(2) [OF assms], of n] by blast
  then show "\<exists>did d. map_of (reg_declarations r) did = Some d \<and> decl_service_note_id d = n" using registry_okD(6) [OF assms] by blast
next
  assume "\<exists>did d. map_of (reg_declarations r) did = Some d \<and> decl_service_note_id d = n"
  then obtain did d where "map_of (reg_declarations r) did = Some d" "decl_service_note_id d = n" by blast
  then have "bound (reg_notes r) n (decl_service_type d) = Some did" using registry_okD(4) [OF assms] by blast
  then show "sn_contains (reg_notes r) n" using sn_contains_bound [OF registry_okD(2) [OF assms], of n] by auto
qed

lemma declare_validate_iff:
  "declare_validate X op n cs ds index sn stake = ok u \<longleftrightarrow>
     map_of ds (message_decl_id X op) = None \<and> index (dm_provider_id op) = None \<and> \<not> is_channel_note cs (dm_service_note_id op) \<and>
     threshold stake \<le> note_value n \<and> bound sn (dm_service_note_id op) (dm_service_type op) = None"
  by (auto simp: declare_validate_def validate_service_scoped_uniqueness_def bind_res_ok_iff bound_iffs)

lemma declare_verify_iff:
  "declare_verify X us cs sn h ds index stake op proof = ok z \<longleftrightarrow>
     (\<exists>u. store_get us (dm_service_note_id op) = Some u \<and> declare_validate X op (utxo_note u) cs ds index sn stake = ok () \<and>
       z = \<lparr>dz_proof = zk_sig proof, dz_inputs = signed_by X [note_pk (utxo_note u), dm_zk_id op] h\<rparr>)"
proof -
  have i: "inputs_from_pks X (hash_to_fr h) [a, b] = Inr (signed_by X [a, b] h)" for a b
    by (simp add: inputs_from_pks_def signed_by_def MAX_ZK_SIGNING_KEYS_def)
  show ?thesis by (auto simp: declare_verify_def bind_res_ok_iff i)
qed

lemma declare_execute_spec:
  assumes "registry_ok X r" "store_get us (dm_service_note_id op) = Some u" "epoch + SNAPSHOT_FINALIZATION_DELAY < 2 ^ 32"
    and "declare_validate X op (utxo_note u) cs (reg_declarations r) (reg_providers r) (reg_notes r) stake = ok w"
  shows "\<exists>r' d. declare_execute X us epoch stake op r = ok (r', []) \<and> registry_ok X r' \<and> declaration_new epoch op = Some d \<and>
    map_of (reg_declarations r') = (map_of (reg_declarations r))(message_decl_id X op \<mapsto> d) \<and>
    (\<forall>n. sn_contains (reg_notes r') n \<longleftrightarrow> sn_contains (reg_notes r) n \<or> n = dm_service_note_id op)"
proof -
  let ?id = "message_decl_id X op" and ?n = "dm_service_note_id op" and ?t = "dm_service_type op"
  have v: "map_of (reg_declarations r) ?id = None" "reg_providers r (dm_provider_id op) = None" "threshold stake \<le> note_value (utxo_note u)"
      "bound (reg_notes r) ?n ?t = None"
    using assms(4) by (auto simp: declare_validate_iff)
  obtain d where d: "declaration_new epoch op = Some d" "decl_service_note_id d = ?n" "decl_service_type d = ?t"
      "decl_provider_id d = dm_provider_id op" "decl_id X d = ?id"
    using assms(3) by (simp add: declaration_new_def epoch_strict_add_def checked_add_def decl_id_def message_decl_id_def)
  note sok = registry_okD(2) [OF assms(1)]
  obtain sn' where sn': "lock stake ?t ?id (utxo_note u) ?n (reg_notes r) = Inr sn'" using lock_spec(2) [OF sok v(3,4)] by blast
  then have b: "service_notes_ok sn'" "\<And>n t. bound sn' n t = (if n = ?n \<and> t = ?t then Some ?id else bound (reg_notes r) n t)"
    using lock_spec(1) [OF sok sn'] by blast+
  let ?r = "\<lparr>reg_declarations = AList.update ?id d (reg_declarations r), reg_providers = (reg_providers r)(dm_provider_id op \<mapsto> ?id), reg_notes = sn'\<rparr>"
  have "registry_ok X ?r"
    unfolding registry_ok_def
  proof (intro conjI allI impI)
    fix did e assume e: "map_of (reg_declarations ?r) did = Some e"
    then have old: "did \<noteq> ?id \<Longrightarrow> map_of (reg_declarations r) did = Some e" by (simp add: update_conv')
    have "did = decl_id X e \<and> bound sn' (decl_service_note_id e) (decl_service_type e) = Some did \<and> reg_providers ?r (decl_provider_id e) = Some did"
    proof (cases "did = ?id")
      case True
      then have "e = d" using e by (simp add: update_conv')
      then show ?thesis using True d(2-5) b(2) by simp
    next
      case False
      note o = registry_okD(3-5) [OF assms(1) old [OF False]]
      then have "\<not> (decl_service_note_id e = ?n \<and> decl_service_type e = ?t)" "decl_provider_id e \<noteq> dm_provider_id op" using v(2,4) by auto
      then show ?thesis using o b(2) [of "decl_service_note_id e" "decl_service_type e"] by auto
    qed
    then show "did = decl_id X e" "bound (reg_notes ?r) (decl_service_note_id e) (decl_service_type e) = Some did"
        "reg_providers ?r (decl_provider_id e) = Some did"
      by simp_all
  next
    fix n t did assume "bound (reg_notes ?r) n t = Some did"
    then have nt: "(if n = ?n \<and> t = ?t then Some ?id else bound (reg_notes r) n t) = Some did" using b(2) [of n t] by simp
    show "\<exists>e. map_of (reg_declarations ?r) did = Some e \<and> decl_service_note_id e = n \<and> decl_service_type e = t"
    proof (cases "n = ?n \<and> t = ?t")
      case True
      then show ?thesis using nt d(2,3) by (auto simp: update_conv')
    next
      case False
      then obtain e where "map_of (reg_declarations r) did = Some e" "decl_service_note_id e = n" "decl_service_type e = t"
        using registry_okD(6) [OF assms(1), of n t did] nt by auto
      then show ?thesis using v(1) by (auto simp: update_conv')
    qed
  next
    fix p did assume "reg_providers ?r p = Some did"
    then have pd: "((reg_providers r)(dm_provider_id op \<mapsto> ?id)) p = Some did" by simp
    show "\<exists>e. map_of (reg_declarations ?r) did = Some e \<and> decl_provider_id e = p"
    proof (cases "p = dm_provider_id op")
      case True
      then show ?thesis using pd d(4) by (auto simp: update_conv')
    next
      case False
      then obtain e where "map_of (reg_declarations r) did = Some e" "decl_provider_id e = p" using registry_okD(7) [OF assms(1), of p did] pd by auto
      then show ?thesis using v(1) by (auto simp: update_conv')
    qed
  qed (use b(1) registry_okD(1) [OF assms(1)] in \<open>simp_all add: distinct_update\<close>)
  moreover have "sn_contains sn' n \<longleftrightarrow> sn_contains (reg_notes r) n \<or> n = ?n" for n
    using sn_contains_bound [OF b(1), of n] sn_contains_bound [OF sok, of n] b(2) [of n] by auto
  moreover have "declare_execute X us epoch stake op r = ok (?r, [])" using d(1) assms(2) sn' by (simp add: declare_execute_def Let_def)
  ultimately show ?thesis using d(1) by (intro exI [of _ ?r] exI [of _ d]) (simp add: update_conv')
qed

text \<open>Updating a declaration without touching what the registry indexes.\<close>

lemma registry_update:
  assumes "registry_ok X r" "map_of (reg_declarations r) did = Some d"
    and "decl_service_type d' = decl_service_type d" "decl_zk_id d' = decl_zk_id d" "decl_service_note_id d' = decl_service_note_id d"
      "decl_provider_id d' = decl_provider_id d"
  shows "registry_ok X (r\<lparr>reg_declarations := AList.update did d' (reg_declarations r)\<rparr>)"
proof -
  have id: "decl_id X d' = decl_id X d" using assms(3,4) by (simp add: decl_id_def)
  let ?r = "r\<lparr>reg_declarations := AList.update did d' (reg_declarations r)\<rparr>"
  show ?thesis
    unfolding registry_ok_def
  proof (intro conjI allI impI)
    fix i e assume e: "map_of (reg_declarations ?r) i = Some e"
    then have old: "i \<noteq> did \<Longrightarrow> map_of (reg_declarations r) i = Some e" and new: "i = did \<Longrightarrow> e = d'" by (auto simp: update_conv')
    have "i = decl_id X e \<and> bound (reg_notes r) (decl_service_note_id e) (decl_service_type e) = Some i \<and> reg_providers r (decl_provider_id e) = Some i"
    proof (cases "i = did")
      case True
      then show ?thesis using new [OF True] registry_okD(3-5) [OF assms(1,2)] assms(3-6) id by simp
    next
      case False
      then show ?thesis using registry_okD(3-5) [OF assms(1) old [OF False]] by blast
    qed
    then show "i = decl_id X e" "bound (reg_notes ?r) (decl_service_note_id e) (decl_service_type e) = Some i" "reg_providers ?r (decl_provider_id e) = Some i"
      by simp_all
  next
    fix n t i assume "bound (reg_notes ?r) n t = Some i"
    then obtain e where "map_of (reg_declarations r) i = Some e" "decl_service_note_id e = n" "decl_service_type e = t"
      using registry_okD(6) [OF assms(1), of n t i] by auto
    then show "\<exists>e. map_of (reg_declarations ?r) i = Some e \<and> decl_service_note_id e = n \<and> decl_service_type e = t"
      using assms(2,3,5) by (cases "i = did") (auto simp: update_conv')
  next
    fix p i assume "reg_providers ?r p = Some i"
    then obtain e where "map_of (reg_declarations r) i = Some e" "decl_provider_id e = p" using registry_okD(7) [OF assms(1), of p i] by auto
    then show "\<exists>e. map_of (reg_declarations ?r) i = Some e \<and> decl_provider_id e = p"
      using assms(2,6) by (cases "i = did") (auto simp: update_conv')
  qed (use registry_okD(1,2) [OF assms(1)] in \<open>simp_all add: distinct_update\<close>)
qed

text \<open>The notes that events report as unlocked.\<close>

definition unlocked_notes :: "header_event list \<Rightarrow> note_id set" where
  "unlocked_notes ev = {n. \<exists>t i. SdpNoteUnlocked n t i \<in> set ev}"

lemma unlocked_notes_simps [simp]:
  "unlocked_notes [] = {}" "unlocked_notes (ev @ [SdpNoteUnlocked n t i]) = insert n (unlocked_notes ev)"
  by (auto simp: unlocked_notes_def)

lemma remove_declaration_spec:
  assumes "registry_ok X r" "map_of (reg_declarations r) did = Some d"
  shows "\<exists>r' ev'. remove_declaration (r, ev) (did, d) = Some (r', ev') \<and> registry_ok X r' \<and>
    map_of (reg_declarations r') = (map_of (reg_declarations r))(did := None) \<and>
    (\<forall>n. n \<in> unlocked_notes ev' \<longleftrightarrow> n \<in> unlocked_notes ev \<or> sn_contains (reg_notes r) n \<and> \<not> sn_contains (reg_notes r') n) \<and>
    (\<forall>n. sn_contains (reg_notes r') n \<longrightarrow> sn_contains (reg_notes r) n)"
proof -
  let ?n = "decl_service_note_id d" and ?t = "decl_service_type d" and ?p = "decl_provider_id d"
  note sok = registry_okD(2) [OF assms(1)] and b = registry_okD(4) [OF assms] and p = registry_okD(5) [OF assms]
  obtain sn' v where u: "unlock ?t did ?n (reg_notes r) = Inr (sn', v)" using unlock_spec(1) [OF sok] b by fastforce
  have sn': "service_notes_ok sn'" "\<And>n t. bound sn' n t = (if n = ?n \<and> t = ?t then None else bound (reg_notes r) n t)"
    using unlock_spec(2) [OF sok u] by blast+
  let ?r = "\<lparr>reg_declarations = AList.delete did (reg_declarations r), reg_providers = (reg_providers r)(?p := None), reg_notes = sn'\<rparr>"
  have del: "map_of (AList.delete did (reg_declarations r)) i = (if i = did then None else map_of (reg_declarations r) i)" for i
    by (simp add: delete_conv')
  have "registry_ok X ?r"
    unfolding registry_ok_def
  proof (intro conjI allI impI)
    fix i e assume "map_of (reg_declarations ?r) i = Some e"
    then have e: "i \<noteq> did" "map_of (reg_declarations r) i = Some e" using del [of i] by (auto split: if_splits)
    note o = registry_okD(3-5) [OF assms(1) e(2)]
    have "\<not> (decl_service_note_id e = ?n \<and> decl_service_type e = ?t)" "decl_provider_id e \<noteq> ?p" using o(2,3) b p e(1) by auto
    then show "i = decl_id X e" "bound (reg_notes ?r) (decl_service_note_id e) (decl_service_type e) = Some i" "reg_providers ?r (decl_provider_id e) = Some i"
      using o sn'(2) [of "decl_service_note_id e" "decl_service_type e"] by auto
  next
    fix n t i assume "bound (reg_notes ?r) n t = Some i"
    then have nt: "\<not> (n = ?n \<and> t = ?t)" "bound (reg_notes r) n t = Some i" using sn'(2) [of n t] by (auto split: if_splits)
    then obtain e where e: "map_of (reg_declarations r) i = Some e" "decl_service_note_id e = n" "decl_service_type e = t"
      using registry_okD(6) [OF assms(1)] by blast
    then have "i \<noteq> did" using assms(2) nt(1) by auto
    then show "\<exists>e. map_of (reg_declarations ?r) i = Some e \<and> decl_service_note_id e = n \<and> decl_service_type e = t" using e del [of i] by auto
  next
    fix q i assume "reg_providers ?r q = Some i"
    then have q: "q \<noteq> ?p" "reg_providers r q = Some i" by (auto split: if_splits)
    then obtain e where e: "map_of (reg_declarations r) i = Some e" "decl_provider_id e = q" using registry_okD(7) [OF assms(1)] by blast
    then have "i \<noteq> did" using assms(2) q(1) by auto
    then show "\<exists>e. map_of (reg_declarations ?r) i = Some e \<and> decl_provider_id e = q" using e del [of i] by auto
  qed (use sn'(1) registry_okD(1) [OF assms(1)] in \<open>simp_all add: distinct_delete\<close>)
  moreover have "map_of (reg_declarations ?r) = (map_of (reg_declarations r))(did := None)" using del by (auto simp: fun_eq_iff)
  moreover have c: "sn_contains (reg_notes r) n \<longleftrightarrow> (if n = ?n then True else sn_contains sn' n)" for n
    using sn_contains_bound [OF sok, of n] sn_contains_bound [OF sn'(1), of n] b sn'(2) [of n] by auto
  moreover have "remove_declaration (r, ev) (did, d) = Some (?r, if sn_contains sn' ?n then ev else ev @ [SdpNoteUnlocked ?n ?t did])"
    using u by (simp add: remove_declaration_def)
  ultimately show ?thesis by (intro exI [of _ ?r] exI conjI allI impI) (auto simp: c split: if_splits)
qed

lemma remove_withdrawn_spec:
  assumes "registry_ok X r"
  shows "\<exists>r' ev. remove_withdrawn_declarations epoch r = Some (r', ev) \<and> registry_ok X r' \<and>
    (\<forall>did. map_of (reg_declarations r') did =
       (case map_of (reg_declarations r) did of None \<Rightarrow> None | Some d \<Rightarrow> if withdrawn epoch d then None else Some d)) \<and>
    (\<forall>n. n \<in> unlocked_notes ev \<longleftrightarrow> sn_contains (reg_notes r) n \<and> \<not> sn_contains (reg_notes r') n) \<and>
    (\<forall>n. sn_contains (reg_notes r') n \<longrightarrow> sn_contains (reg_notes r) n)"
proof -
  let ?xs = "sort_key (\<lambda>(did, _). byte_order did) (filter (\<lambda>(_, d). withdrawn epoch d) (reg_declarations r))"
  define P where "P = (\<lambda>(ys :: (declaration_id \<times> sdp_declaration) list) (r', ev). registry_ok X r' \<and> map_of (reg_declarations r') = map_of (reg_declarations r) |` (- fst ` set ys) \<and>
      (\<forall>n. n \<in> unlocked_notes ev \<longleftrightarrow> sn_contains (reg_notes r) n \<and> \<not> sn_contains (reg_notes r') n) \<and>
      (\<forall>n. sn_contains (reg_notes r') n \<longrightarrow> sn_contains (reg_notes r) n))"
  have dist: "distinct (map fst (reg_declarations r))" by (rule registry_okD(1) [OF assms])
  have "distinct (map fst (filter (\<lambda>(_, d). withdrawn epoch d) (reg_declarations r)))" using dist by (rule distinct_map_filter)
  then have dx: "distinct (map fst ?xs)" unfolding distinct_map by simp
  have "\<exists>b. fold_run remove_declaration (r, []) ?xs = Some b \<and> P ?xs b"
  proof (rule fold_run_invariant)
    show "P [] (r, [])" using assms by (auto simp: P_def restrict_map_def)
  next
    fix ys x zs b assume xs: "?xs = ys @ x # zs" and "P ys b"
    obtain did d where x: "x = (did, d)" by (cases x)
    obtain r1 ev where b: "b = (r1, ev)" by (cases b)
    have "x \<in> set ?xs" unfolding xs by simp
    then have "map_of (reg_declarations r) did = Some d" using dist x by (simp add: map_of_eq_Some_iff)
    moreover have "did \<notin> fst ` set ys" using dx unfolding xs by (auto simp: x)
    ultimately have m: "map_of (reg_declarations r1) did = Some d" "registry_ok X r1" using \<open>P ys b\<close> b by (simp_all add: P_def)
    obtain r' ev' where r': "remove_declaration (r1, ev) (did, d) = Some (r', ev')" "registry_ok X r'"
        "map_of (reg_declarations r') = (map_of (reg_declarations r1))(did := None)"
        "\<forall>n. n \<in> unlocked_notes ev' \<longleftrightarrow> n \<in> unlocked_notes ev \<or> sn_contains (reg_notes r1) n \<and> \<not> sn_contains (reg_notes r') n"
        "\<forall>n. sn_contains (reg_notes r') n \<longrightarrow> sn_contains (reg_notes r1) n"
      using remove_declaration_spec [OF m(2,1), of ev] by blast
    have "map_of (reg_declarations r') = map_of (reg_declarations r) |` (- fst ` set (ys @ [x]))"
      using \<open>P ys b\<close> b r'(3) x by (auto simp: P_def restrict_map_def fun_eq_iff)
    then have "P (ys @ [x]) (r', ev')" using \<open>P ys b\<close> b r'(2,4,5) unfolding P_def by auto
    then show "\<exists>b'. remove_declaration b x = Some b' \<and> P (ys @ [x]) b'" using r'(1) b x by blast
  qed
  then obtain r' ev where r': "remove_withdrawn_declarations epoch r = Some (r', ev)" "P ?xs (r', ev)"
    unfolding remove_withdrawn_declarations_def by auto
  have "map_of (reg_declarations r') did = (case map_of (reg_declarations r) did of None \<Rightarrow> None | Some d \<Rightarrow> if withdrawn epoch d then None else Some d)" for did
  proof (cases "map_of (reg_declarations r) did")
    case (Some d)
    then have "(did, e) \<in> set (reg_declarations r) \<longleftrightarrow> e = d" for e using map_of_eq_Some_iff [OF dist, of did e] by auto
    then have "did \<in> fst ` set ?xs \<longleftrightarrow> withdrawn epoch d" by (auto simp: image_iff)
    then show ?thesis using r'(2) Some by (auto simp: P_def restrict_map_def)
  qed (use r'(2) in \<open>auto simp: P_def restrict_map_def\<close>)
  then show ?thesis using r' unfolding P_def by auto
qed

subsection \<open>Messages about a declaration\<close>

lemma validate_nonce_iff:
  "validate_nonce n d = ok u \<longleftrightarrow> lifecycle_epoch n = decl_created d \<and> nonce_sequence (decl_nonce d) < nonce_sequence n"
  by (auto simp: validate_nonce_def bind_res_ok_iff)

lemma active_verify_iff:
  "active_verify X h epoch d op proof = ok z \<longleftrightarrow>
     am_declaration_id op = decl_id X d \<and> \<not> withdrawn epoch d \<and> validate_nonce (am_nonce op) d = ok () \<and>
     z = \<lparr>dz_proof = proof, dz_inputs = signed_by X [decl_zk_id d] h\<rparr>"
proof -
  have "inputs_from_pks X (hash_to_fr h) [a] = Inr (signed_by X [a] h)" for a
    by (simp add: inputs_from_pks_def signed_by_def MAX_ZK_SIGNING_KEYS_def)
  then show ?thesis
    by (auto simp: active_verify_def validate_declaration_id_def bind_res_ok_iff withdrawn_def split: option.splits)
qed

lemma sdp_withdraw_verify_iff:
  "sdp_withdraw_verify X h sn d op proof = ok z \<longleftrightarrow>
     wm_declaration_id op = decl_id X d \<and> decl_withdraw_at d = None \<and> validate_nonce (wm_nonce op) d = ok () \<and>
     bound sn (decl_service_note_id d) (decl_service_type d) = Some (wm_declaration_id op) \<and>
     (\<exists>n. sn_get sn (decl_service_note_id d) = Some n \<and> z = \<lparr>dz_proof = proof, dz_inputs = signed_by X [note_pk n, decl_zk_id d] h\<rparr>)"
proof -
  have "inputs_from_pks X (hash_to_fr h) [a, b] = Inr (signed_by X [a, b] h)" for a b
    by (simp add: inputs_from_pks_def signed_by_def MAX_ZK_SIGNING_KEYS_def)
  then show ?thesis
    by (auto simp: sdp_withdraw_verify_def validate_declaration_id_def bind_res_ok_iff bound_iffs split: option.splits)
qed

text \<open>
  The runs of a service: accepted operations during an epoch, and the removal of withdrawn declarations when a later
  epoch begins.  A step that consumes a nonce is labelled with it.
\<close>

inductive sdp_step :: "extern \<Rightarrow> registry \<times> nat \<Rightarrow> (declaration_id \<times> nonce) option \<Rightarrow> registry \<times> nat \<Rightarrow> bool" for X where
  declared: "declare_verify X us cs (reg_notes r) h (reg_declarations r) (reg_providers r) stake op proof = ok z \<Longrightarrow>
     declare_execute X us e stake op r = ok (r', ev) \<Longrightarrow> sdp_step X (r, e) None (r', e)"
| activated: "map_of (reg_declarations r) (am_declaration_id op) = Some d \<Longrightarrow> active_verify X h e d op zk = ok z \<Longrightarrow>
     active_execute e op (reg_declarations r) = ok (ds, ev) \<Longrightarrow>
     sdp_step X (r, e) (Some (am_declaration_id op, am_nonce op)) (r\<lparr>reg_declarations := ds\<rparr>, e)"
| withdrew: "map_of (reg_declarations r) (wm_declaration_id op) = Some d \<Longrightarrow> sdp_withdraw_verify X h (reg_notes r) d op zk = ok z \<Longrightarrow>
     sdp_withdraw_execute e op (reg_declarations r) = ok (ds, ev) \<Longrightarrow>
     sdp_step X (r, e) (Some (wm_declaration_id op, wm_nonce op)) (r\<lparr>reg_declarations := ds\<rparr>, e)"
| began: "e < e' \<Longrightarrow> remove_withdrawn_declarations e' r = Some (r', evs) \<Longrightarrow> sdp_step X (r, e) None (r', e')"

inductive sdp_run :: "extern \<Rightarrow> (declaration_id \<times> nonce) list \<Rightarrow> registry \<times> nat \<Rightarrow> bool" for X where
  run_start: "sdp_run X [] (registry_new, e)"
| run_step: "sdp_run X used s \<Longrightarrow> sdp_step X s l s' \<Longrightarrow> sdp_run X (case l of None \<Rightarrow> used | Some x \<Rightarrow> x # used) s'"

text \<open>When declarations were created, and which nonces they have consumed.\<close>

definition lifecycle_ok :: "nat \<Rightarrow> sdp_declaration \<Rightarrow> bool" where
  "lifecycle_ok e d \<longleftrightarrow> decl_created d \<le> e \<and> (\<forall>w. decl_withdraw_at d = Some w \<longrightarrow> decl_created d < w)"

definition consumed :: "registry \<times> nat \<Rightarrow> declaration_id \<times> nonce \<Rightarrow> bool" where
  "consumed = (\<lambda>(r, e) (did, n). case map_of (reg_declarations r) did of
     None \<Rightarrow> lifecycle_epoch n < e
   | Some d \<Rightarrow> lifecycle_epoch n < decl_created d \<or>
       lifecycle_epoch n = decl_created d \<and> nonce_sequence n \<le> nonce_sequence (decl_nonce d))"

definition sdp_ok :: "extern \<Rightarrow> (declaration_id \<times> nonce) list \<Rightarrow> registry \<times> nat \<Rightarrow> bool" where
  "sdp_ok X used = (\<lambda>(r, e). registry_ok X r \<and> distinct used \<and>
     (\<forall>did d. map_of (reg_declarations r) did = Some d \<longrightarrow> lifecycle_ok e d) \<and> (\<forall>x \<in> set used. consumed (r, e) x))"

lemma sdp_okD:
  assumes "sdp_ok X used (r, e)"
  shows "registry_ok X r" "distinct used" "map_of (reg_declarations r) did = Some d \<Longrightarrow> lifecycle_ok e d" "x \<in> set used \<Longrightarrow> consumed (r, e) x"
  using assms by (auto simp: sdp_ok_def)

lemma consume_nonce:
  assumes "sdp_ok X used (r, e)" "map_of (reg_declarations r) did = Some d" "validate_nonce n d = ok ()"
    and "d' = d\<lparr>decl_active := a, decl_withdraw_at := w, decl_nonce := n\<rparr>" "w = decl_withdraw_at d \<or> w = Some (e + 2)"
  shows "sdp_ok X ((did, n) # used) (r\<lparr>reg_declarations := AList.update did d' (reg_declarations r)\<rparr>, e)"
proof -
  let ?r = "r\<lparr>reg_declarations := AList.update did d' (reg_declarations r)\<rparr>"
  have n: "lifecycle_epoch n = decl_created d" "nonce_sequence (decl_nonce d) < nonce_sequence n" using assms(3) by (simp_all add: validate_nonce_iff)
  have "(did, n) \<notin> set used" using sdp_okD(4) [OF assms(1), of "(did, n)"] assms(2) n by (auto simp: consumed_def)
  moreover have "consumed (?r, e) x" if x: "x \<in> set ((did, n) # used)" for x
  proof (cases "fst x = did")
    case True
    have "x = (did, n) \<or> consumed (r, e) x" using x sdp_okD(4) [OF assms(1), of x] by auto
    then show ?thesis using True assms(2,4) n by (cases x) (auto simp: consumed_def update_conv')
  next
    case False
    then have "consumed (r, e) x" using x sdp_okD(4) [OF assms(1), of x] by auto
    then show ?thesis using False by (cases x) (simp add: consumed_def update_conv')
  qed
  moreover have "lifecycle_ok e b" if "map_of (reg_declarations ?r) i = Some b" for i b
  proof (cases "i = did")
    case True
    then have "b = d'" using that by (simp add: update_conv')
    then show ?thesis using sdp_okD(3) [OF assms(1,2)] assms(4,5) by (auto simp: lifecycle_ok_def)
  next
    case False
    then show ?thesis using sdp_okD(3) [OF assms(1), of i b] that by (simp add: update_conv')
  qed
  moreover have "registry_ok X ?r" using registry_update [OF sdp_okD(1) [OF assms(1)] assms(2), of d'] assms(4) by simp
  ultimately show ?thesis using sdp_okD(2) [OF assms(1)] by (auto simp: sdp_ok_def)
qed

lemma sdp_step_ok:
  assumes "sdp_step X s l s'" "sdp_ok X used s"
  shows "sdp_ok X (case l of None \<Rightarrow> used | Some x \<Rightarrow> x # used) s'"
  using assms(1)
proof cases
  case (declared us cs r h stake m sg z e r' ev)
  note ok = assms(2) [unfolded declared(1)]
  obtain u where u: "store_get us (dm_service_note_id m) = Some u"
      "declare_validate X m (utxo_note u) cs (reg_declarations r) (reg_providers r) (reg_notes r) stake = ok ()"
    using declared(4) by (auto simp: declare_verify_iff)
  have "epoch_strict_add e SNAPSHOT_FINALIZATION_DELAY \<noteq> None"
    using declared(5) by (auto simp: declare_execute_def declaration_new_def bind_Some_iff)
  then have bound: "e + SNAPSHOT_FINALIZATION_DELAY < 2 ^ 32" by (auto simp: epoch_strict_add_def checked_add_def split: if_splits)
  obtain d where d: "registry_ok X r'" "declaration_new e m = Some d"
      "map_of (reg_declarations r') = (map_of (reg_declarations r))(message_decl_id X m \<mapsto> d)"
    using declare_execute_spec [OF sdp_okD(1) [OF ok] u(1) bound u(2)] declared(5) by auto
  have n: "map_of (reg_declarations r) (message_decl_id X m) = None" using u(2) by (simp add: declare_validate_iff)
  have c: "decl_created d = e" "decl_withdraw_at d = None" using d(2) by (auto simp: declaration_new_def bind_Some_iff)
  have "consumed (r', e) x" if "x \<in> set used" for x
    using sdp_okD(4) [OF ok that] n d(3) c(1) by (cases x) (auto simp: consumed_def split: if_splits)
  moreover have "lifecycle_ok e b" if "map_of (reg_declarations r') i = Some b" for i b
    using that d(3) c sdp_okD(3) [OF ok, of i b] by (auto simp: lifecycle_ok_def split: if_splits)
  ultimately show ?thesis using declared(2,3) d(1) sdp_okD(2) [OF ok] by (simp add: sdp_ok_def)
next
  case (activated r m d h e zk z ds ev)
  note ok = assms(2) [unfolded activated(1)]
  have "validate_nonce (am_nonce m) d = ok ()" using activated(5) by (simp add: active_verify_iff)
  moreover have "ds = AList.update (am_declaration_id m) (d\<lparr>decl_active := e, decl_withdraw_at := decl_withdraw_at d, decl_nonce := am_nonce m\<rparr>) (reg_declarations r)"
    using activated(4,6) by (simp add: active_execute_def)
  ultimately show ?thesis using consume_nonce [OF ok activated(4) _ refl, of "am_nonce m" "decl_withdraw_at d" "e"] activated(2,3) by simp
next
  case (withdrew r m d h zk z e ds ev)
  note ok = assms(2) [unfolded withdrew(1)]
  have "validate_nonce (wm_nonce m) d = ok ()" using withdrew(5) by (simp add: sdp_withdraw_verify_iff)
  moreover have "ds = AList.update (wm_declaration_id m) (d\<lparr>decl_active := decl_active d, decl_withdraw_at := Some (e + 2), decl_nonce := wm_nonce m\<rparr>) (reg_declarations r)"
    using withdrew(4,6) by (auto simp: sdp_withdraw_execute_def bind_Some_iff epoch_strict_add_def checked_add_def SNAPSHOT_FINALIZATION_DELAY_def split: if_splits)
  ultimately show ?thesis using consume_nonce [OF ok withdrew(4) _ refl, of "wm_nonce m" "Some (e + 2)" "decl_active d"] withdrew(2,3) by simp
next
  case (began e e' r r' evs)
  note ok = assms(2) [unfolded began(1)]
  have r': "registry_ok X r'" "\<And>i. map_of (reg_declarations r') i =
      (case map_of (reg_declarations r) i of None \<Rightarrow> None | Some d \<Rightarrow> if withdrawn e' d then None else Some d)"
    using remove_withdrawn_spec [OF sdp_okD(1) [OF ok], of e'] began(5) by auto
  have "consumed (r', e') x" if "x \<in> set used" for x
  proof -
    obtain i n where x: "x = (i, n)" by (cases x)
    show ?thesis
    proof (cases "map_of (reg_declarations r) i")
      case None
      then show ?thesis using sdp_okD(4) [OF ok that] r'(2) [of i] began(4) x by (simp add: consumed_def)
    next
      case (Some d)
      then have "withdrawn e' d \<Longrightarrow> decl_created d < e'" using sdp_okD(3) [OF ok Some] by (auto simp: lifecycle_ok_def withdrawn_def split: option.splits)
      then show ?thesis using sdp_okD(4) [OF ok that] r'(2) [of i] Some x by (auto simp: consumed_def)
    qed
  qed
  moreover have "lifecycle_ok e' b" if "map_of (reg_declarations r') i = Some b" for i b
    using that r'(2) [of i] sdp_okD(3) [OF ok, of i b] began(4) by (auto simp: lifecycle_ok_def split: option.splits if_splits)
  ultimately show ?thesis using began(2,3) r'(1) sdp_okD(2) [OF ok] by (simp add: sdp_ok_def)
qed

lemma sdp_run_ok: "sdp_run X used s \<Longrightarrow> sdp_ok X used s"
proof (induction rule: sdp_run.induct)
  case (run_start e)
  then show ?case by (simp add: sdp_ok_def registry_new_ok) (simp add: registry_new_def)
next
  case (run_step used s l s')
  then show ?case using sdp_step_ok by blast
qed

subsection \<open>An example\<close>

text \<open>A provider declares in epoch 4 with note 3, withdraws, and is removed when epoch 7 begins.\<close>

definition example_declare :: declaration_message where
  "example_declare = \<lparr>dm_service_type = BlendNetwork, dm_locators = [], dm_provider_id = 12, dm_zk_id = 41, dm_service_note_id = 3\<rparr>"

definition example_registry :: registry where
  "example_registry = \<lparr>reg_declarations = [(1, \<lparr>decl_service_type = BlendNetwork, decl_provider_id = 12, decl_service_note_id = 3, decl_locators = [],
       decl_zk_id = 41, decl_created = 4, decl_active = 6, decl_withdraw_at = None, decl_nonce = \<lparr>lifecycle_epoch = 4, nonce_sequence = 0\<rparr>\<rparr>)],
     reg_providers = [12 \<mapsto> 1], reg_notes = [3 \<mapsto> \<lparr>sn_note = \<lparr>note_value = 10, note_pk = 21\<rparr>, sn_services = [(BlendNetwork, 1)]\<rparr>]\<rparr>"

definition example_withdrawn :: declarations where
  "example_withdrawn = map (map_prod id (\<lambda>d. d\<lparr>decl_withdraw_at := Some 6, decl_nonce := \<lparr>lifecycle_epoch = 4, nonce_sequence = 1\<rparr>\<rparr>))
     (reg_declarations example_registry)"

definition example_withdraw_message :: withdraw_message where
  "example_withdraw_message = \<lparr>wm_declaration_id = 1, wm_nonce = \<lparr>lifecycle_epoch = 4, nonce_sequence = 1\<rparr>\<rparr>"

lemmas example_sdp_defs = example_declare_def example_registry_def example_withdrawn_def example_withdraw_message_def

lemma plain_declaration_id: "declaration_id plain_extern t z = 1"
  by (simp add: declaration_id_def plain_extern_def)

lemma example_declared:
  fixes us :: utxos
  assumes "store_get us = example_notes"
  shows "sdp_step plain_extern (registry_new, 4) None (example_registry, 4)"
proof (rule declared)
  show "declare_verify plain_extern us channels_new (reg_notes registry_new) 99 (reg_declarations registry_new) (reg_providers registry_new)
      \<lparr>threshold = 5, timestamp = 0\<rparr> example_declare \<lparr>zk_sig = 0, ed25519_sig = 0\<rparr>
      = ok \<lparr>dz_proof = 0, dz_inputs = signed_by plain_extern [21, 41] 99\<rparr>"
    using assms by (simp add: declare_verify_iff declare_validate_iff registry_new_def example_declare_def example_notes_def example_utxo_def
        is_channel_note_def cn_contains_def channels_new_def cn_new_def bound_def sn_new_def)
  show "declare_execute plain_extern us 4 \<lparr>threshold = 5, timestamp = 0\<rparr> example_declare registry_new = ok (example_registry, [])"
    using assms by (simp add: declare_execute_def declaration_new_def epoch_strict_add_def checked_add_def SNAPSHOT_FINALIZATION_DELAY_def
        example_sdp_defs example_notes_def example_utxo_def registry_new_def lock_def sn_new_def message_decl_id_def plain_declaration_id)
qed

lemma example_withdrew:
  "sdp_step plain_extern (example_registry, 4) (Some (1, \<lparr>lifecycle_epoch = 4, nonce_sequence = 1\<rparr>))
     (example_registry\<lparr>reg_declarations := example_withdrawn\<rparr>, 4)"
proof -
  have "sdp_withdraw_verify plain_extern 99 (reg_notes example_registry) (snd (hd (reg_declarations example_registry))) example_withdraw_message 0
      = ok \<lparr>dz_proof = 0, dz_inputs = signed_by plain_extern [21, 41] 99\<rparr>"
    by (simp add: sdp_withdraw_verify_iff example_sdp_defs decl_id_def plain_declaration_id validate_nonce_iff bound_def sn_get_def)
  moreover have "sdp_withdraw_execute 4 example_withdraw_message (reg_declarations example_registry) = ok (example_withdrawn, [])"
    by (simp add: sdp_withdraw_execute_def example_sdp_defs epoch_strict_add_def checked_add_def SNAPSHOT_FINALIZATION_DELAY_def)
  ultimately show ?thesis
    using withdrew [of example_registry example_withdraw_message "snd (hd (reg_declarations example_registry))"]
    by (simp add: example_withdraw_message_def) (simp add: example_registry_def)
qed

lemma example_sdp_run:
  "sdp_run plain_extern [(1, \<lparr>lifecycle_epoch = 4, nonce_sequence = 1\<rparr>)] (example_registry\<lparr>reg_declarations := example_withdrawn\<rparr>, 4)"
proof -
  obtain us :: utxos where us: "store_get us = example_notes" using example_notes_exist by blast
  show ?thesis using run_step [OF run_step [OF run_start example_declared [OF us]] example_withdrew] by simp
qed

subsection \<open>Properties\<close>

text \<open>
  C10: Over any run of a service, no message about a declaration is accepted twice: a nonce is consumed at most once for a declaration identifier, also
  after the declaration was withdrawn, removed and declared again; and declarations, provider index and service notes stay consistent.
\<close>

theorem sdp_nonces_used_once:
  assumes "sdp_run X used (r, e)"
  shows "distinct used \<and> registry_ok X r"
  using sdp_okD(1,2) [OF sdp_run_ok [OF assms]] by blast

theorem sdp_nonces_used_once_witness:
  "distinct [(1 :: declaration_id, \<lparr>lifecycle_epoch = 4, nonce_sequence = 1\<rparr>)] \<and>
   registry_ok plain_extern (example_registry\<lparr>reg_declarations := example_withdrawn\<rparr>)"
  using sdp_nonces_used_once [OF example_sdp_run] .

text \<open>
  C27: Removing the withdrawn declarations never panics.  It removes exactly those whose withdrawal epoch has passed, keeps the registry consistent, and releases a note exactly
  when no remaining declaration holds it; the events name exactly the notes released.
\<close>

theorem withdrawn_declarations_removed:
  assumes "registry_ok X r"
  shows "\<exists>r' ev. remove_withdrawn_declarations epoch r = Some (r', ev) \<and> registry_ok X r' \<and>
    (\<forall>did. map_of (reg_declarations r') did =
       (case map_of (reg_declarations r) did of None \<Rightarrow> None | Some d \<Rightarrow> if withdrawn epoch d then None else Some d)) \<and>
    (\<forall>n. sn_contains (reg_notes r') n \<longleftrightarrow> (\<exists>did d. map_of (reg_declarations r') did = Some d \<and> decl_service_note_id d = n)) \<and>
    (\<forall>n. n \<in> unlocked_notes ev \<longleftrightarrow> sn_contains (reg_notes r) n \<and> \<not> sn_contains (reg_notes r') n)"
  using remove_withdrawn_spec [OF assms, of epoch] in_service_iff by blast

theorem withdrawn_declarations_removed_witness:
  "\<exists>r' ev. remove_withdrawn_declarations 7 (example_registry\<lparr>reg_declarations := example_withdrawn\<rparr>) = Some (r', ev) \<and>
     map_of (reg_declarations r') = Map.empty \<and> 3 \<in> unlocked_notes ev"
proof -
  let ?r = "example_registry\<lparr>reg_declarations := example_withdrawn\<rparr>"
  have "registry_ok plain_extern ?r" using sdp_okD(1) [OF sdp_run_ok [OF example_sdp_run]] .
  from withdrawn_declarations_removed [OF this, of 7] obtain r' ev where r': "remove_withdrawn_declarations 7 ?r = Some (r', ev)"
      "\<And>did. map_of (reg_declarations r') did =
         (case map_of (reg_declarations ?r) did of None \<Rightarrow> None | Some d \<Rightarrow> if withdrawn 7 d then None else Some d)"
      "\<And>n. sn_contains (reg_notes r') n \<longleftrightarrow> (\<exists>did d. map_of (reg_declarations r') did = Some d \<and> decl_service_note_id d = n)"
      "\<And>n. n \<in> unlocked_notes ev \<longleftrightarrow> sn_contains (reg_notes ?r) n \<and> \<not> sn_contains (reg_notes r') n"
    by blast
  have none: "map_of (reg_declarations r') = Map.empty" using r'(2) by (simp add: fun_eq_iff example_sdp_defs withdrawn_def)
  moreover have "sn_contains (reg_notes ?r) 3" by (simp add: example_registry_def sn_contains_def)
  ultimately show ?thesis using r'(1) r'(3) [of 3] r'(4) [of 3] by auto
qed

end
