(* ===== verification/BlendRewards.thy ===== *)
theory BlendRewards
  imports SdpOps "HOL-Library.Multiset"
begin

text \<open>
  Rewards of Blend nodes: \<^verbatim>\<open>ledger/src/mantle/sdp/rewards/\<close>, with the evaluation of the activity proofs of
  \<^verbatim>\<open>blend/message/src/reward/\<close>.

  Nodes prove in an epoch that they were active in the epoch before, the target epoch, whose income is then shared: every
  prover gets a share, the provers with the smallest Hamming distance two.  The lemmas show that the shares never exceed the income and lose only
  the remainder of the division, and that the iteration order of the source's hash maps does not matter.

  What other crates or floating-point functions of the platform compute is a field of the record \<open>blend_extern\<close>.  A floating-point
  parameter of the configuration is its bit pattern.
\<close>

subsection \<open>Evaluation of blending tokens\<close>

text \<open>The state of an epoch, of \<^verbatim>\<open>ledger/src/cryptarchia/mod.rs\<close>.\<close>

record epoch_state =
  eps_epoch :: nat
  eps_nonce :: nat
  eps_blend_difficulty :: nat
  eps_utxos :: utxos
  eps_total_stake :: nat
  eps_lottery_0 :: nat
  eps_lottery_1 :: nat
  eps_active :: "service_type \<rightharpoonup> declarations"

record rewards_parameters =
  rounds_per_epoch :: nat
  message_frequency_per_round :: nat
  cover_replication_factor :: nat
  num_blend_layers :: nat
  data_replication_factor :: nat
  minimum_network_size :: nat
  activity_threshold_sensitivity :: nat

record leader_inputs =
  pol_ledger_aged :: nat
  pol_epoch_nonce :: nat
  message_quota :: nat
  pol_lottery_0 :: nat
  pol_lottery_1 :: nat

record pow_inputs =
  pow_blend_difficulty :: nat
  pow_quota :: nat

record poq_inputs =
  core_zk_root :: nat
  core_node_quota :: nat
  leader_in :: leader_inputs
  pow_in :: pow_inputs

text \<open>
  The quota before it is checked is computed with floats, as is \<open>ceil_log2\<close>; the proofs are Groth16 proofs; \<open>core_root\<close> is
  the root of the Merkle tree of the keys, \<open>token_bytes\<close> and \<open>service_bytes\<close> are encodings by bincode.
\<close>

record blend_extern =
  float_quota :: "rewards_parameters \<Rightarrow> nat \<Rightarrow> nat"
  ceil_log2 :: "nat \<Rightarrow> nat"
  blake2b_var :: "nat \<Rightarrow> byte list \<Rightarrow> byte list"
  verify_quota :: "poq_inputs \<Rightarrow> proof_of_quota \<Rightarrow> ed_key \<Rightarrow> bool"
  verify_selection :: "nat \<Rightarrow> nat \<Rightarrow> nat \<Rightarrow> nat \<Rightarrow> bool"
  token_bytes :: "ed_key \<Rightarrow> proof_of_quota \<Rightarrow> nat \<Rightarrow> byte list"
  core_root :: "nat list \<Rightarrow> nat"
  service_bytes :: "service_type \<Rightarrow> byte list"

datatype evaluation_error = TotalCoreQuotaTooLarge nat | NetworkSizeTooLarge nat

record token_evaluation =
  token_count_byte_len :: nat
  activity_threshold :: nat

definition quota_try_new :: "nat \<Rightarrow> nat option" where
  "quota_try_new value = (if value \<le> 2 ^ 20 - 1 then Some value else None)"

definition core_quota :: "blend_extern \<Rightarrow> rewards_parameters \<Rightarrow> nat \<Rightarrow> nat option" where
  "core_quota B p membership_size =
     (let quota_integer = float_quota B p membership_size in if quota_integer = 0 then None else quota_try_new quota_integer)"

definition token_count_bit_len :: "blend_extern \<Rightarrow> nat \<Rightarrow> nat \<Rightarrow> evaluation_error + nat" where
  "token_count_bit_len B node_core_quota num_core_nodes =
     (case checked_mul 64 node_core_quota num_core_nodes of
        None \<Rightarrow> Inl (TotalCoreQuotaTooLarge (2 ^ 64 - 1))
      | Some q \<Rightarrow> if q \<le> 2 ^ 53 - 1 then Inr (ceil_log2 B (q + 1)) else Inl (TotalCoreQuotaTooLarge q))"

definition compute_activity_threshold :: "blend_extern \<Rightarrow> nat \<Rightarrow> nat \<Rightarrow> nat \<Rightarrow> evaluation_error + nat" where
  "compute_activity_threshold B bit_len num_core_nodes sensitivity =
     (case checked_add 64 num_core_nodes 1 of
        None \<Rightarrow> Inl (NetworkSizeTooLarge num_core_nodes)
      | Some n \<Rightarrow> if n \<le> 2 ^ 53 - 1 then Inr (bit_len - ceil_log2 B n - sensitivity) else Inl (NetworkSizeTooLarge num_core_nodes))"

definition token_evaluation_new :: "blend_extern \<Rightarrow> nat \<Rightarrow> nat \<Rightarrow> nat \<Rightarrow> evaluation_error + token_evaluation" where
  "token_evaluation_new B node_core_quota num_core_nodes sensitivity =
     (case token_count_bit_len B node_core_quota num_core_nodes of
        Inl e \<Rightarrow> Inl e
      | Inr bit_len \<Rightarrow> (case compute_activity_threshold B bit_len num_core_nodes sensitivity of
            Inl e \<Rightarrow> Inl e
          | Inr t \<Rightarrow> Inr \<lparr>token_count_byte_len = div_ceil bit_len 8, activity_threshold = t\<rparr>))"

definition hash_var :: "blend_extern \<Rightarrow> byte list \<Rightarrow> nat \<Rightarrow> byte list" where
  "hash_var B input output_size = blake2b_var B (min output_size 64) input"

definition hamming :: "byte list \<Rightarrow> byte list \<Rightarrow> nat" where
  "hamming a b = sum_list (map (\<lambda>(x, y). length (filter (bit (xor x y)) [0..<8])) (zip a b)) mod 2 ^ 64"

definition hamming_distance :: "blend_extern \<Rightarrow> byte list \<Rightarrow> nat \<Rightarrow> nat \<Rightarrow> nat" where
  "hamming_distance B token byte_len next_epoch_randomness =
     hamming (hash_var B token byte_len) (hash_var B (to_le_bytes 32 next_epoch_randomness) byte_len)"

definition evaluate_token :: "blend_extern \<Rightarrow> token_evaluation \<Rightarrow> byte list \<Rightarrow> nat \<Rightarrow> nat option" where
  "evaluate_token B ev token next_epoch_randomness =
     (let distance = hamming_distance B token (token_count_byte_len ev) next_epoch_randomness
      in if distance \<le> activity_threshold ev then Some distance else None)"

definition verify_and_build :: "blend_extern \<Rightarrow> poq_inputs \<Rightarrow> activity_proof \<Rightarrow> nat \<Rightarrow> nat \<Rightarrow> byte list option" where
  "verify_and_build B inputs p node_index membership_size =
     (if verify_quota B inputs (ap_proof_of_quota p) (ap_signing_key p) \<and>
         verify_selection B (ap_selection_randomness p) node_index membership_size (key_nullifier (ap_proof_of_quota p))
      then Some (token_bytes B (ap_signing_key p) (ap_proof_of_quota p) (ap_selection_randomness p)) else None)"

subsection \<open>The parameters of an epoch\<close>

definition core_quota_and_token_evaluation :: "blend_extern \<Rightarrow> rewards_parameters \<Rightarrow> nat \<Rightarrow> (evaluation_error + nat \<times> token_evaluation) option" where
  "core_quota_and_token_evaluation B p num_core_nodes =
     do { quota \<leftarrow> core_quota B p num_core_nodes;
          Some (case token_evaluation_new B quota num_core_nodes (activity_threshold_sensitivity p) of Inl e \<Rightarrow> Inl e | Inr ev \<Rightarrow> Inr (quota, ev)) }"

definition encapsulations_per_message :: "rewards_parameters \<Rightarrow> nat option" where
  "encapsulations_per_message p =
     quota_try_new (wrapping_add 64 (num_blend_layers p) (wrapping_mul 64 (num_blend_layers p) (data_replication_factor p)))"

definition leader_inputs_of :: "extern \<Rightarrow> rewards_parameters \<Rightarrow> epoch_state \<Rightarrow> leader_inputs option" where
  "leader_inputs_of X p e =
     do { root \<leftarrow> store_root (note_tree X) (eps_utxos e);
          quota \<leftarrow> encapsulations_per_message p;
          Some \<lparr>pol_ledger_aged = root, pol_epoch_nonce = eps_nonce e, message_quota = quota,
            pol_lottery_0 = eps_lottery_0 e, pol_lottery_1 = eps_lottery_1 e\<rparr> }"

definition pow_inputs_of :: "rewards_parameters \<Rightarrow> epoch_state \<Rightarrow> pow_inputs option" where
  "pow_inputs_of p e = do { quota \<leftarrow> quota_try_new (num_blend_layers p); Some \<lparr>pow_blend_difficulty = eps_blend_difficulty e, pow_quota = quota\<rparr> }"

subsection \<open>The target epoch\<close>

datatype rewards_error =
    TargetEpochNotSet
  | InvalidEpoch nat nat
  | InvalidOpinionLength nat nat
  | DuplicateActiveMessage nat ed_key
  | InvalidProofType
  | RewardsInvalidProof
  | HammingDistanceTooLarge
  | UnknownProvider ed_key

record current_epoch_state =
  ces_epoch :: nat
  ces_randomness :: nat
  ces_leader_input :: leader_inputs
  ces_pow_input :: pow_inputs

record target_epoch_state =
  tes_epoch :: nat
  tes_providers :: "(ed_key \<times> nat \<times> nat) list"
  tes_minimum_network_size :: nat
  tes_evaluation :: token_evaluation
  tes_verifier :: poq_inputs
  tes_income :: nat

record target_epoch_tracker =
  submitted_proofs :: "(ed_key \<times> nat \<times> nat) list"
  min_distance :: nat
  premium_providers :: "ed_key set"

definition tracker_new :: target_epoch_tracker where
  "tracker_new = \<lparr>submitted_proofs = [], min_distance = 2 ^ 64 - 1, premium_providers = {}\<rparr>"

definition verify_proof ::
  "blend_extern \<Rightarrow> target_epoch_state \<Rightarrow> ed_key \<Rightarrow> activity_proof \<Rightarrow> current_epoch_state \<Rightarrow> (rewards_error + nat \<times> nat) option" where
  "verify_proof B ts provider_id p cs =
     bind_res (ensure (ap_epoch p = tes_epoch ts) (InvalidEpoch (tes_epoch ts) (ap_epoch p))) (\<lambda>_.
     bind_res (run (if tes_minimum_network_size ts \<le> length (tes_providers ts) then Some () else None)) (\<lambda>_.
     bind_res (ok_or (UnknownProvider provider_id) (map_of (tes_providers ts) provider_id)) (\<lambda>(zk_id, index).
     bind_res (ok_or RewardsInvalidProof (verify_and_build B (tes_verifier ts) p index (length (tes_providers ts)))) (\<lambda>token.
     bind_res (ok_or HammingDistanceTooLarge (evaluate_token B (tes_evaluation ts) token (ces_randomness cs))) (\<lambda>distance.
     ok (zk_id, distance))))))"

definition with_update :: "nat \<Rightarrow> ed_key \<Rightarrow> target_epoch_tracker \<Rightarrow> target_epoch_tracker" where
  "with_update distance provider t =
     (if distance < min_distance t then t\<lparr>min_distance := distance, premium_providers := {provider}\<rparr>
      else if distance = min_distance t then t\<lparr>premium_providers := insert provider (premium_providers t)\<rparr>
      else t)"

definition tracker_insert ::
  "ed_key \<Rightarrow> nat \<Rightarrow> nat \<Rightarrow> nat \<Rightarrow> target_epoch_tracker \<Rightarrow> (rewards_error + target_epoch_tracker) option" where
  "tracker_insert provider_id epoch zk_id distance t =
     bind_res (ensure (map_of (submitted_proofs t) provider_id = None) (DuplicateActiveMessage epoch provider_id)) (\<lambda>_.
     ok (with_update distance provider_id (t\<lparr>submitted_proofs := AList.update provider_id (zk_id, distance) (submitted_proofs t)\<rparr>)))"

definition create_reward_op_id :: "extern \<Rightarrow> blend_extern \<Rightarrow> nat \<Rightarrow> service_type \<Rightarrow> nat" where
  "create_reward_op_id X B epoch service = blake2b X (service_bytes B service @ to_le_bytes 4 epoch)"

definition distribute_rewards :: "extern \<Rightarrow> blend_extern \<Rightarrow> (nat \<times> nat) list \<Rightarrow> nat \<Rightarrow> service_type \<Rightarrow> utxo list" where
  "distribute_rewards X B rewards epoch service =
     map (\<lambda>(output_index, zk_id, amount).
            \<lparr>utxo_op_id = create_reward_op_id X B epoch service, output_index = output_index, utxo_note = \<lparr>note_value = amount, note_pk = zk_id\<rparr>\<rparr>)
       (enumerate 0 (sort_key fst (filter (\<lambda>(_, amount). 0 < amount) rewards)))"

definition tracker_finalize :: "extern \<Rightarrow> blend_extern \<Rightarrow> target_epoch_state \<Rightarrow> target_epoch_tracker \<Rightarrow> (target_epoch_tracker \<times> utxo list) option" where
  "tracker_finalize X B ts t =
     (if submitted_proofs t = [] then Some (tracker_new, [])
      else do {
        base_reward \<leftarrow> checked_div (tes_income ts) (wrapping_add 64 (length (submitted_proofs t)) (card (premium_providers t)));
        let rewards = fold (\<lambda>(provider_id, zk_id, _). AList.update zk_id
              (if provider_id \<in> premium_providers t then wrapping_mul 64 base_reward 2 else base_reward)) (submitted_proofs t) [];
        Some (tracker_new, distribute_rewards X B rewards (tes_epoch ts) BlendNetwork) })"

subsection \<open>The current epoch\<close>

definition current_epoch_state_new :: "extern \<Rightarrow> epoch_state \<Rightarrow> rewards_parameters \<Rightarrow> current_epoch_state option" where
  "current_epoch_state_new X e p =
     do { l \<leftarrow> leader_inputs_of X p e;
          w \<leftarrow> pow_inputs_of p e;
          Some \<lparr>ces_epoch = eps_epoch e, ces_randomness = eps_nonce e, ces_leader_input = l, ces_pow_input = w\<rparr> }"

definition merkle_root_of_ordered :: "blend_extern \<Rightarrow> nat list \<Rightarrow> nat option" where
  "merkle_root_of_ordered B keys =
     (if keys = [] \<or> 2 ^ 20 < length keys \<or> \<not> distinct keys then None else Some (core_root B keys))"

definition providers_and_zk_root :: "blend_extern \<Rightarrow> sdp_declaration list \<Rightarrow> ((ed_key \<times> nat \<times> nat) list \<times> nat) option" where
  "providers_and_zk_root B ds =
     (let providers = sort_key snd (map (\<lambda>d. (decl_provider_id d, decl_zk_id d)) ds)
      in do { zk_root \<leftarrow> merkle_root_of_ordered B (map snd providers);
              Some (fold (\<lambda>(i, provider_id, zk_id). AList.update provider_id (zk_id, i)) (enumerate 0 providers) [], zk_root) })"

text \<open>The tracker of the current epoch is its income; \<open>expect_ok\<close> panics on an error.  Finalising gives the next target epoch, if there is one, and the next current epoch with its income.\<close>

definition expect_ok :: "'e + 'a \<Rightarrow> 'a option" where
  "expect_ok r = (case r of Inl _ \<Rightarrow> None | Inr a \<Rightarrow> Some a)"

definition current_finalize ::
  "extern \<Rightarrow> blend_extern \<Rightarrow> current_epoch_state \<Rightarrow> epoch_state \<Rightarrow> epoch_state \<Rightarrow> rewards_parameters \<Rightarrow> rewards_parameters \<Rightarrow> nat
     \<Rightarrow> (target_epoch_state option \<times> current_epoch_state \<times> nat) option" where
  "current_finalize X B cs last_state next_state target_settings settings income =
     (if eps_epoch last_state \<noteq> ces_epoch cs \<or> \<not> eps_epoch last_state < eps_epoch next_state then None
      else do {
        following \<leftarrow> epoch_strict_add (eps_epoch last_state) 1;
        cs' \<leftarrow> current_epoch_state_new X next_state settings;
        if following < eps_epoch next_state then Some (None, cs', 0)
        else (let ds = (case eps_active last_state BlendNetwork of None \<Rightarrow> [] | Some ds \<Rightarrow> ds) in
          if length ds < minimum_network_size target_settings then Some (None, cs', 0)
          else do {
            (providers, zk_root) \<leftarrow> providers_and_zk_root B (map snd ds);
            evaluation \<leftarrow> core_quota_and_token_evaluation B target_settings (length providers);
            (quota, ev) \<leftarrow> expect_ok evaluation;
            Some (Some \<lparr>tes_epoch = eps_epoch last_state, tes_providers = providers, tes_minimum_network_size = minimum_network_size target_settings,
                        tes_evaluation = ev,
                        tes_verifier = \<lparr>core_zk_root = zk_root, core_node_quota = quota, leader_in = ces_leader_input cs, pow_in = ces_pow_input cs\<rparr>,
                        tes_income = income\<rparr>, cs', 0) }) })"

subsection \<open>Rewards\<close>

datatype blend_rewards =
    WithoutTargetEpoch current_epoch_state nat
  | WithTargetEpoch target_epoch_state target_epoch_tracker current_epoch_state nat

definition rewards_new :: "extern \<Rightarrow> rewards_parameters \<Rightarrow> epoch_state \<Rightarrow> blend_rewards option" where
  "rewards_new X p e = do { cs \<leftarrow> current_epoch_state_new X e p; Some (WithoutTargetEpoch cs 0) }"

definition rewards_update_active :: "blend_extern \<Rightarrow> ed_key \<Rightarrow> activity_metadata \<Rightarrow> blend_rewards \<Rightarrow> (rewards_error + blend_rewards) option" where
  "rewards_update_active B provider_id m r =
     (case r of
        WithoutTargetEpoch _ _ \<Rightarrow> fail TargetEpochNotSet
      | WithTargetEpoch ts t cs income \<Rightarrow>
          (case m of Blend p \<Rightarrow>
             bind_res (verify_proof B ts provider_id p cs) (\<lambda>(zk_id, distance).
             bind_res (tracker_insert provider_id (tes_epoch ts) zk_id distance t) (\<lambda>t'.
             ok (WithTargetEpoch ts t' cs income)))))"

definition from_current_output :: "target_epoch_state option \<times> current_epoch_state \<times> nat \<Rightarrow> target_epoch_tracker \<Rightarrow> blend_rewards" where
  "from_current_output out t =
     (case out of (None, cs, income) \<Rightarrow> WithoutTargetEpoch cs income | (Some ts, cs, income) \<Rightarrow> WithTargetEpoch ts t cs income)"

definition rewards_update_epoch ::
  "extern \<Rightarrow> blend_extern \<Rightarrow> epoch_state \<Rightarrow> epoch_state \<Rightarrow> rewards_parameters \<Rightarrow> rewards_parameters \<Rightarrow> blend_rewards \<Rightarrow> (blend_rewards \<times> utxo list) option" where
  "rewards_update_epoch X B last_state next_state last_params params r =
     (case r of
        WithoutTargetEpoch cs income \<Rightarrow>
          do { out \<leftarrow> current_finalize X B cs last_state next_state last_params params income;
               Some (from_current_output out tracker_new, []) }
      | WithTargetEpoch ts t cs income \<Rightarrow>
          do { (t', us) \<leftarrow> tracker_finalize X B ts t;
               out \<leftarrow> current_finalize X B cs last_state next_state last_params params income;
               Some (from_current_output out t', us) })"

definition rewards_add_income :: "nat \<Rightarrow> blend_rewards \<Rightarrow> blend_rewards" where
  "rewards_add_income income r =
     (case r of
        WithoutTargetEpoch cs i \<Rightarrow> WithoutTargetEpoch cs (wrapping_add 64 i income)
      | WithTargetEpoch ts t cs i \<Rightarrow> WithTargetEpoch ts t cs (wrapping_add 64 i income))"

subsection \<open>Paying the shares\<close>

abbreviation values_of :: "utxo list \<Rightarrow> nat" where
  "values_of us \<equiv> sum_list (map utxo_value us)"

abbreviation payments :: "utxo list \<Rightarrow> (nat \<times> nat) list" where
  "payments us \<equiv> map (\<lambda>u. (note_pk (utxo_note u), utxo_value u)) us"

lemma sum_list_update_le: "sum_list (map snd (AList.update k v m)) \<le> sum_list (map snd m) + (v::nat)"
  by (induction m) auto

lemma sum_list_updates_le:
  "sum_list (map snd (fold (\<lambda>(k, v). AList.update k v) xs m)) \<le> sum_list (map snd m) + sum_list (map snd xs :: nat list)"
proof (induction xs arbitrary: m)
  case (Cons x xs)
  then show ?case using le_trans [OF Cons.IH [of "AList.update (fst x) (snd x) m"] add_right_mono [OF sum_list_update_le [of "fst x" "snd x" m]]]
    by (simp add: case_prod_beta add.assoc)
qed simp

lemma update_fresh: "k \<notin> fst ` set m \<Longrightarrow> AList.update k v m = m @ [(k, v)]"
  by (induction m) auto

lemma updates_fresh:
  "distinct (map fst xs) \<Longrightarrow> fst ` set xs \<inter> fst ` set m = {} \<Longrightarrow> fold (\<lambda>(k, v). AList.update k v) xs m = m @ xs"
proof (induction xs arbitrary: m)
  case (Cons x xs)
  then show ?case using Cons.IH [of "m @ [x]"] by (cases x) (auto simp: update_fresh)
qed simp

lemma sum_list_positive: "sum_list (map snd (filter (\<lambda>(_, a). 0 < a) m)) = sum_list (map snd m :: nat list)"
  by (induction m) auto

lemma distributed_payments: "payments (distribute_rewards X B m e srv) = sort_key fst (filter (\<lambda>(_, a). 0 < a) m)"
proof -
  have "payments (map (\<lambda>(i, z, a). \<lparr>utxo_op_id = k, output_index = i, utxo_note = \<lparr>note_value = a, note_pk = z\<rparr>\<rparr>) (enumerate n xs)) = xs" for k n xs
    by (induction xs arbitrary: n) auto
  then show ?thesis by (simp only: distribute_rewards_def)
qed

lemma values_of_distributed: "values_of (distribute_rewards X B m e srv) = sum_list (map snd m)"
proof -
  have "values_of (distribute_rewards X B m e srv) = sum_list (map snd (payments (distribute_rewards X B m e srv)))" by (simp add: o_def)
  also have "\<dots> = sum_mset (image_mset snd (mset (filter (\<lambda>(_, a). 0 < a) m)))"
    unfolding distributed_payments by (metis mset_map mset_sort sum_mset_sum_list)
  also have "\<dots> = sum_list (map snd m)" by (metis mset_map sum_list_positive sum_mset_sum_list)
  finally show ?thesis .
qed

subsection \<open>Well-formed trackers\<close>

definition target_ok :: "target_epoch_state \<Rightarrow> bool" where
  "target_ok ts \<longleftrightarrow> tes_income ts < 2 ^ 64 \<and> length (tes_providers ts) \<le> 2 ^ 20 \<and> distinct (map fst (tes_providers ts)) \<and>
     distinct (map (\<lambda>(_, zk_id, _). zk_id) (tes_providers ts))"

definition tracker_ok :: "target_epoch_state \<Rightarrow> target_epoch_tracker \<Rightarrow> bool" where
  "tracker_ok ts t \<longleftrightarrow> distinct (map fst (submitted_proofs t)) \<and>
     (\<forall>(p, z, d) \<in> set (submitted_proofs t). min_distance t \<le> d \<and> (\<exists>i. (p, z, i) \<in> set (tes_providers ts))) \<and>
     premium_providers t = {p. \<exists>z. (p, z, min_distance t) \<in> set (submitted_proofs t)} \<and>
     (if submitted_proofs t = [] then min_distance t = 2 ^ 64 - 1 else premium_providers t \<noteq> {})"

lemma tracker_new_ok: "tracker_ok ts tracker_new"
  by (simp add: tracker_ok_def tracker_new_def)

lemma tracker_insert_ok:
  assumes "tracker_ok ts t" "tracker_insert p e z d t = ok t'" "(p, z, i) \<in> set (tes_providers ts)" "d < 2 ^ 64"
  shows "tracker_ok ts t'"
proof -
  have "p \<notin> fst ` set (submitted_proofs t)" "t' = with_update d p (t\<lparr>submitted_proofs := AList.update p (z, d) (submitted_proofs t)\<rparr>)"
    using assms(2) by (auto simp: tracker_insert_def bind_res_ok_iff map_of_eq_None_iff)
  then have t': "t' = with_update d p (t\<lparr>submitted_proofs := submitted_proofs t @ [(p, z, d)]\<rparr>)" and p: "p \<notin> fst ` set (submitted_proofs t)"
    by (simp_all add: update_fresh)
  have "distinct (map fst (submitted_proofs t'))" using assms(1) p by (auto simp: t' tracker_ok_def with_update_def)
  moreover have "premium_providers t' = {q. \<exists>z. (q, z, min_distance t') \<in> set (submitted_proofs t')}"
    using assms(1) unfolding t' tracker_ok_def with_update_def by fastforce
  moreover have "min_distance t' \<le> c \<and> (\<exists>i. (q, w, i) \<in> set (tes_providers ts))" if "(q, w, c) \<in> set (submitted_proofs t')" for q w c
  proof (cases "(q, w, c) \<in> set (submitted_proofs t)")
    case True
    then have "min_distance t \<le> c" "\<exists>i. (q, w, i) \<in> set (tes_providers ts)" using assms(1) by (auto simp: tracker_ok_def)
    then show ?thesis by (auto simp: t' with_update_def)
  next
    case False
    then have "(q, w, c) = (p, z, d)" using that by (auto simp: t' with_update_def split: if_splits)
    then show ?thesis using assms(3) by (auto simp: t' with_update_def)
  qed
  moreover have "premium_providers t' \<noteq> {}"
    using assms(1,4) by (cases "submitted_proofs t = []") (auto simp: t' tracker_ok_def with_update_def split: if_splits)
  moreover have "submitted_proofs t' \<noteq> []" by (simp add: t' with_update_def)
  ultimately show ?thesis unfolding tracker_ok_def by auto
qed

lemma distinct_map_inj: "distinct (map f xs) \<Longrightarrow> x \<in> set xs \<Longrightarrow> y \<in> set xs \<Longrightarrow> f x = f y \<Longrightarrow> x = y"
  by (simp add: distinct_map inj_on_def)

lemma tracker_ok_counts:
  assumes "tracker_ok ts t" "target_ok ts"
  shows "length (submitted_proofs t) \<le> 2 ^ 20" "card (premium_providers t) \<le> length (submitted_proofs t)" "finite (premium_providers t)"
    and "distinct (map (\<lambda>(_, z, _). z) (submitted_proofs t))"
proof -
  have d: "distinct (map fst (submitted_proofs t))" and "fst ` set (submitted_proofs t) \<subseteq> fst ` set (tes_providers ts)"
    using assms(1) by (force simp: tracker_ok_def)+
  then have "card (fst ` set (submitted_proofs t)) \<le> card (fst ` set (tes_providers ts))" by (intro card_mono) auto
  also have "\<dots> \<le> length (tes_providers ts)" by (metis card_length length_map list.set_map)
  finally show "length (submitted_proofs t) \<le> 2 ^ 20"
    using assms(2) d by (metis distinct_card le_trans length_map list.set_map target_ok_def)
  have sub: "premium_providers t \<subseteq> fst ` set (submitted_proofs t)" using assms(1) by (force simp: tracker_ok_def)
  then show "finite (premium_providers t)" by (rule finite_subset) simp
  show "card (premium_providers t) \<le> length (submitted_proofs t)"
    using card_mono [OF _ sub] by (metis card_length finite_imageI finite_set le_trans length_map list.set_map)
  show "distinct (map (\<lambda>(_, z, _). z) (submitted_proofs t))"
    unfolding distinct_map
  proof (intro conjI inj_onI)
    show "distinct (submitted_proofs t)" using d by (simp add: distinct_map)
    fix x y assume xy: "x \<in> set (submitted_proofs t)" "y \<in> set (submitted_proofs t)" "(case x of (_, z, _) \<Rightarrow> z) = (case y of (_, z, _) \<Rightarrow> z)"
    obtain p z a q w b where x: "x = (p, z, a)" "y = (q, w, b)" by (metis prod.exhaust)
    have w: "w = z" using xy(3) by (simp add: x)
    have known: "\<forall>(p, z, d) \<in> set (submitted_proofs t). \<exists>i. (p, z, i) \<in> set (tes_providers ts)" using assms(1) by (auto simp: tracker_ok_def)
    obtain i where i: "(p, z, i) \<in> set (tes_providers ts)" using bspec [OF known xy(1)] by (auto simp: x)
    obtain j where j: "(q, z, j) \<in> set (tes_providers ts)" using bspec [OF known xy(2)] by (auto simp: x w)
    have "distinct (map (\<lambda>(_, z, _). z) (tes_providers ts))" using assms(2) by (simp add: target_ok_def)
    then have "p = q" using distinct_map_inj [where f = "\<lambda>(_, z, _). z", OF _ i j] by simp
    then show "x = y" using distinct_map_inj [OF d xy(1,2)] x by simp
  qed
qed

subsection \<open>The income of an epoch is shared\<close>

definition base_share :: "target_epoch_state \<Rightarrow> target_epoch_tracker \<Rightarrow> nat" where
  "base_share ts t = tes_income ts div (length (submitted_proofs t) + card (premium_providers t))"

definition shares :: "target_epoch_state \<Rightarrow> target_epoch_tracker \<Rightarrow> (nat \<times> nat) list" where
  "shares ts t = map (\<lambda>(p, z, d). (z, if p \<in> premium_providers t then 2 * base_share ts t else base_share ts t)) (submitted_proofs t)"

lemma sort_key_mset_eq: "mset xs = mset ys \<Longrightarrow> inj_on f (set xs) \<Longrightarrow> sort_key f xs = sort_key f ys"
  by (rule sort_key_inj_key_eq) simp_all

lemma distribute_rewards_mset:
  assumes "mset m = mset m'" "distinct (map fst m)"
  shows "distribute_rewards X B m e srv = distribute_rewards X B m' e srv"
proof -
  have "sort_key fst (filter (\<lambda>(_, a). 0 < a) m) = sort_key fst (filter (\<lambda>(_, a). 0 < a) m')"
    using assms by (intro sort_key_mset_eq) (auto simp: distinct_map intro: inj_on_subset)
  then show ?thesis by (simp add: distribute_rewards_def)
qed

lemma tracker_finalize_shares:
  assumes "tracker_ok ts t" "target_ok ts" "submitted_proofs t \<noteq> []"
  shows "tracker_finalize X B ts t = Some (tracker_new, distribute_rewards X B (shares ts t) (tes_epoch ts) BlendNetwork)"
proof -
  let ?n = "length (submitted_proofs t)" and ?p = "card (premium_providers t)" and ?b = "base_share ts t"
  note c = tracker_ok_counts [OF assms(1,2)]
  have n: "0 < ?n" using assms(3) by simp
  have "?n + ?p \<le> 2 ^ 21" using c(1,2) by simp
  also have "\<dots> < (2::nat) ^ 64" by simp
  finally have w: "wrapping_add 64 ?n ?p = ?n + ?p" by (rule wrapping_add_exact)
  have twice: "wrapping_mul 64 ?b 2 = 2 * ?b" if "p \<in> premium_providers t" for p
  proof -
    have "0 < ?p" using that c(3) card_gt_0_iff by blast
    then have "2 \<le> ?n + ?p" using n by linarith
    then have "2 * ?b \<le> (?n + ?p) * ?b" by (rule mult_le_mono1)
    also have "\<dots> \<le> tes_income ts" by (simp add: base_share_def)
    finally have "?b * 2 < 2 ^ 64" using assms(2) unfolding target_ok_def by (metis le_less_trans mult.commute)
    then show ?thesis by (simp add: wrapping_mul_exact mult.commute)
  qed
  have "fold (\<lambda>(p, z, _). AList.update z (if p \<in> premium_providers t then wrapping_mul 64 ?b 2 else ?b)) xs m
      = fold (\<lambda>(k, v). AList.update k v) (map (\<lambda>(p, z, d). (z, if p \<in> premium_providers t then 2 * ?b else ?b)) xs) m"
    for xs :: "(ed_key \<times> nat \<times> nat) list" and m
    by (induction xs arbitrary: m) (auto simp: twice)
  then have "fold (\<lambda>(p, z, _). AList.update z (if p \<in> premium_providers t then wrapping_mul 64 ?b 2 else ?b)) (submitted_proofs t) []
      = fold (\<lambda>(k, v). AList.update k v) (shares ts t) []"
    by (simp only: shares_def)
  also have "\<dots> = shares ts t"
  proof -
    have "map fst (shares ts t) = map (\<lambda>(_, z, _). z) (submitted_proofs t)" by (auto simp: shares_def)
    then show ?thesis using c(4) by (subst updates_fresh) simp_all
  qed
  finally show ?thesis using assms(3) n w by (simp add: tracker_finalize_def checked_div_def base_share_def [symmetric])
qed

lemma shares_total:
  assumes "tracker_ok ts t" "target_ok ts"
  shows "sum_list (map snd (shares ts t)) = base_share ts t * (length (submitted_proofs t) + card (premium_providers t))"
proof -
  let ?b = "base_share ts t"
  have "map snd (shares ts t) = map (\<lambda>x. ?b + (if fst x \<in> premium_providers t then ?b else 0)) (submitted_proofs t)"
    by (simp add: shares_def case_prod_beta)
  then have "sum_list (map snd (shares ts t)) = ?b * length (submitted_proofs t) + sum_list (map (\<lambda>p. if p \<in> premium_providers t then ?b else 0) (map fst (submitted_proofs t)))"
    by (simp add: sum_list_addf sum_list_triv o_def mult.commute)
  also have "sum_list (map (\<lambda>p. if p \<in> premium_providers t then ?b else 0) (map fst (submitted_proofs t)))
      = (\<Sum>p \<in> fst ` set (submitted_proofs t). if p \<in> premium_providers t then ?b else 0)"
    using assms(1) unfolding tracker_ok_def by (subst sum_list_distinct_conv_sum_set) auto
  also have "\<dots> = ?b * card (fst ` set (submitted_proofs t) \<inter> premium_providers t)"
    by (simp add: sum.If_cases Int_def)
  also have "fst ` set (submitted_proofs t) \<inter> premium_providers t = premium_providers t"
    using assms(1) by (force simp: tracker_ok_def)
  finally show ?thesis by (simp add: algebra_simps)
qed

lemma tracker_finalize_le:
  assumes "tracker_ok ts t" "target_ok ts" "tracker_finalize X B ts t = Some (t', us)"
  shows "t' = tracker_new" "values_of us \<le> tes_income ts"
proof -
  show "t' = tracker_new" using assms(3) by (auto simp: tracker_finalize_def bind_Some_iff Let_def split: if_splits)
  show "values_of us \<le> tes_income ts"
  proof (cases "submitted_proofs t = []")
    case True
    then show ?thesis using assms(3) by (auto simp: tracker_finalize_def)
  next
    case False
    then have "values_of us = base_share ts t * (length (submitted_proofs t) + card (premium_providers t))"
      using tracker_finalize_shares [OF assms(1,2) False, of X B] assms(3) shares_total [OF assms(1,2)] by (simp add: values_of_distributed)
    also have "\<dots> \<le> tes_income ts" by (simp add: base_share_def)
    finally show ?thesis .
  qed
qed

subsection \<open>Runs\<close>

lemma set_update_subset: "set (AList.update k v m) \<subseteq> insert (k, v) (set m)"
  by (induction m) auto

lemma length_update_le: "length (AList.update k v m) \<le> Suc (length m)"
  by (induction m) auto

lemma updates_subset:
  fixes xs m :: "('k \<times> 'v) list"
  defines "m' \<equiv> fold (\<lambda>(k, v). AList.update k v) xs m"
  shows "set m' \<subseteq> set xs \<union> set m" "length m' \<le> length xs + length m" "distinct (map fst m) \<Longrightarrow> distinct (map fst m')"
proof -
  have "set m' \<subseteq> set xs \<union> set m \<and> length m' \<le> length xs + length m \<and> (distinct (map fst m) \<longrightarrow> distinct (map fst m'))"
    unfolding m'_def
  proof (induction xs arbitrary: m)
    case (Cons x xs)
    obtain k v where x: "x = (k, v)" by (cases x)
    show ?case using Cons.IH [of "AList.update k v m"] set_update_subset [of k v m] length_update_le [of k v m] distinct_update [of m k v]
      by (auto simp: x)
  qed simp
  then show "set m' \<subseteq> set xs \<union> set m" "length m' \<le> length xs + length m" "distinct (map fst m) \<Longrightarrow> distinct (map fst m')" by simp_all
qed

lemma providers_and_zk_root_ok:
  assumes "providers_and_zk_root B ds = Some (ps, root)"
  shows "length ps \<le> 2 ^ 20" "distinct (map fst ps)" "distinct (map (\<lambda>(_, z, _). z) ps)"
proof -
  let ?qs = "sort_key snd (map (\<lambda>d. (decl_provider_id d, decl_zk_id d)) ds)"
  let ?xs = "map (\<lambda>(i, p, z). (p, z, i)) (enumerate 0 ?qs)"
  have k: "length ?qs \<le> 2 ^ 20" "distinct (map snd ?qs)" and "ps = fold (\<lambda>(i, p, z). AList.update p (z, i)) (enumerate 0 ?qs) []"
    using assms by (auto simp: providers_and_zk_root_def merkle_root_of_ordered_def bind_Some_iff Let_def split: if_splits)
  moreover have "fold (\<lambda>(i, p, z). AList.update p (z, i)) xs m = fold (\<lambda>(k, v). AList.update k v) (map (\<lambda>(i, p, z). (p, z, i)) xs) m"
    for xs :: "(nat \<times> ed_key \<times> nat) list" and m
    by (induction xs arbitrary: m) auto
  ultimately have ps: "ps = fold (\<lambda>(k, v). AList.update k v) ?xs []" by simp
  have l: "length ps \<le> length ?xs" and s: "set ps \<subseteq> set ?xs" using updates_subset(1,2) [of ?xs "[]"] by (simp_all add: ps)
  have d: "distinct (map fst ps)" unfolding ps by (rule updates_subset(3)) simp
  show "length ps \<le> 2 ^ 20" using le_trans [OF l] k(1) by simp
  show "distinct (map fst ps)" by (rule d)
  have "map (\<lambda>(_, z, _). z) (map (\<lambda>(i, p, z). (p, z, i)) (enumerate n xs)) = map snd xs" for n :: nat and xs :: "(ed_key \<times> nat) list"
    by (induction xs arbitrary: n) auto
  then have "distinct (map (\<lambda>(_, z, _). z) ?xs)" using k(2) by metis
  then have "inj_on (\<lambda>(_, z, _). z) (set ps)" using s by (meson distinct_map inj_on_subset)
  then show "distinct (map (\<lambda>(_, z, _). z) ps)" using d by (simp add: distinct_map)
qed

fun blend_ok :: "blend_rewards \<Rightarrow> bool" where
  "blend_ok (WithoutTargetEpoch cs i) \<longleftrightarrow> i < 2 ^ 64"
| "blend_ok (WithTargetEpoch ts t cs i) \<longleftrightarrow> i < 2 ^ 64 \<and> target_ok ts \<and> tracker_ok ts t"

fun blend_income :: "blend_rewards \<Rightarrow> nat" where
  "blend_income (WithoutTargetEpoch cs i) = i"
| "blend_income (WithTargetEpoch ts t cs i) = tes_income ts + i"

fun blend_epoch :: "blend_rewards \<Rightarrow> nat" where
  "blend_epoch (WithoutTargetEpoch cs i) = ces_epoch cs"
| "blend_epoch (WithTargetEpoch ts t cs i) = ces_epoch cs"

lemma rewards_new_ok: "rewards_new X p e = Some r \<Longrightarrow> blend_ok r \<and> blend_income r = 0 \<and> blend_epoch r = eps_epoch e"
  by (auto simp: rewards_new_def current_epoch_state_new_def bind_Some_iff)

lemma rewards_add_income_ok:
  "blend_ok r \<Longrightarrow> blend_ok (rewards_add_income i r)" "blend_income (rewards_add_income i r) \<le> blend_income r + i"
  "blend_epoch (rewards_add_income i r) = blend_epoch r"
  by (cases r; simp add: rewards_add_income_def wrapping_add_def add.assoc)+

lemma rewards_update_active_ok:
  assumes "rewards_update_active B p m r = ok r'" "blend_ok r"
  shows "blend_ok r'" "blend_income r' = blend_income r" "blend_epoch r' = blend_epoch r"
proof -
  obtain a where m: "m = Blend a" by (cases m)
  obtain ts t cs i z d t' where r: "r = WithTargetEpoch ts t cs i" "r' = WithTargetEpoch ts t' cs i" and v: "verify_proof B ts p a cs = ok (z, d)"
      and t': "tracker_insert p (tes_epoch ts) z d t = ok t'"
    using assms(1) by (auto simp: rewards_update_active_def m bind_res_ok_iff split: blend_rewards.splits)
  obtain k where "map_of (tes_providers ts) p = Some (z, k)" using v by (auto simp: verify_proof_def bind_res_ok_iff)
  then have "(p, z, k) \<in> set (tes_providers ts)" by (rule map_of_SomeD)
  moreover have "d < 2 ^ 64"
    using v by (auto simp: verify_proof_def bind_res_ok_iff evaluate_token_def Let_def hamming_distance_def hamming_def split: if_splits)
  ultimately show "blend_ok r'" using tracker_insert_ok [OF _ t'] assms(2) by (simp add: r)
  show "blend_income r' = blend_income r" "blend_epoch r' = blend_epoch r" by (simp_all add: r)
qed

lemma expect_ok_Some_iff [simp]: "expect_ok r = Some a \<longleftrightarrow> r = Inr a"
  by (auto simp: expect_ok_def split: sum.splits)

lemma current_finalize_spec:
  assumes "current_finalize X B cs e e' p p' i = Some (ts, cs', i')"
  shows "i' = 0" "ces_epoch cs' = eps_epoch e'" "eps_epoch e = ces_epoch cs" "eps_epoch e < eps_epoch e'"
    "i < 2 ^ 64 \<Longrightarrow> ts = Some t \<Longrightarrow> target_ok t \<and> tes_income t = i"
proof -
  have e: "eps_epoch e = ces_epoch cs" "eps_epoch e < eps_epoch e'" using assms by (auto simp: current_finalize_def split: if_splits)
  obtain f where new: "current_epoch_state_new X e' p' = Some f" using assms e by (auto simp: current_finalize_def bind_Some_iff)
  then have f: "ces_epoch f = eps_epoch e'" by (auto simp: current_epoch_state_new_def bind_Some_iff)
  define ds where "ds = (case eps_active e BlendNetwork of None \<Rightarrow> [] | Some ds \<Rightarrow> ds)"
  consider "ts = None" "cs' = f" "i' = 0"
    | ps root q ev l where "providers_and_zk_root B (map snd ds) = Some (ps, root)" "cs' = f" "i' = 0" "ts = Some \<lparr>tes_epoch = eps_epoch e, tes_providers = ps,
        tes_minimum_network_size = minimum_network_size p, tes_evaluation = ev,
        tes_verifier = \<lparr>core_zk_root = root, core_node_quota = q, leader_in = ces_leader_input cs, pow_in = ces_pow_input cs\<rparr>, tes_income = i\<rparr>"
    using assms e new
    by (auto simp: current_finalize_def bind_Some_iff ds_def [symmetric] split: if_splits sum.split_asm)
  then have "i' = 0 \<and> ces_epoch cs' = eps_epoch e' \<and> (i < 2 ^ 64 \<longrightarrow> ts = Some t \<longrightarrow> target_ok t \<and> tes_income t = i)"
    by cases (auto simp: f target_ok_def dest: providers_and_zk_root_ok)
  then show "i' = 0" "ces_epoch cs' = eps_epoch e'" "i < 2 ^ 64 \<Longrightarrow> ts = Some t \<Longrightarrow> target_ok t \<and> tes_income t = i" by simp_all
  show "eps_epoch e = ces_epoch cs" "eps_epoch e < eps_epoch e'" by (fact e)+
qed

lemma rewards_update_epoch_ok:
  assumes "rewards_update_epoch X B e e' p p' r = Some (r', us)" "blend_ok r"
  shows "blend_ok r'" "values_of us + blend_income r' \<le> blend_income r" "blend_epoch r' = eps_epoch e'"
proof -
  have out: "blend_ok (from_current_output out tracker_new) \<and> blend_income (from_current_output out tracker_new) \<le> i \<and>
      blend_epoch (from_current_output out tracker_new) = eps_epoch e'"
    if "current_finalize X B cs e e' p p' i = Some out" "i < 2 ^ 64" for cs i out
  proof -
    obtain ts cs' i' where out: "out = (ts, cs', i')" by (rule prod_cases3)
    show ?thesis using current_finalize_spec [OF that(1) [unfolded out]] that(2)
      by (cases ts) (simp_all add: out from_current_output_def tracker_new_ok)
  qed
  show "blend_ok r'" "values_of us + blend_income r' \<le> blend_income r" "blend_epoch r' = eps_epoch e'"
  proof (atomize (full), cases r)
    case (WithoutTargetEpoch cs i)
    then show "blend_ok r' \<and> values_of us + blend_income r' \<le> blend_income r \<and> blend_epoch r' = eps_epoch e'"
      using assms out by (auto simp: rewards_update_epoch_def bind_Some_iff)
  next
    case (WithTargetEpoch ts t cs i)
    then obtain t' c where f: "tracker_finalize X B ts t = Some (t', us)" "current_finalize X B cs e e' p p' i = Some c" "r' = from_current_output c t'"
      using assms(1) by (auto simp: rewards_update_epoch_def bind_Some_iff)
    have k: "tracker_ok ts t" "target_ok ts" "i < 2 ^ 64" using assms(2) WithTargetEpoch by simp_all
    show "blend_ok r' \<and> values_of us + blend_income r' \<le> blend_income r \<and> blend_epoch r' = eps_epoch e'"
      using tracker_finalize_le [OF k(1,2) f(1)] out [OF f(2) k(3)] f(3) WithTargetEpoch add_mono by simp
  qed
qed

inductive blend_run :: "extern \<Rightarrow> blend_extern \<Rightarrow> blend_rewards \<Rightarrow> bool" for X B where
  blend_start: "rewards_new X p e = Some r \<Longrightarrow> blend_run X B r"
| blend_active: "blend_run X B r \<Longrightarrow> rewards_update_active B provider m r = ok r' \<Longrightarrow> blend_run X B r'"
| blend_collect: "blend_run X B r \<Longrightarrow> blend_run X B (rewards_add_income income r)"
| blend_rotate: "blend_run X B r \<Longrightarrow> rewards_update_epoch X B e e' p p' r = Some (r', us) \<Longrightarrow> blend_run X B r'"

lemma blend_run_ok: "blend_run X B r \<Longrightarrow> blend_ok r"
  by (induction rule: blend_run.induct)
    (auto dest: rewards_new_ok rewards_update_active_ok(1) rewards_add_income_ok(1) rewards_update_epoch_ok(1))

lemma premium_iff_smallest:
  assumes "tracker_ok ts t" "(p, z, d) \<in> set (submitted_proofs t)"
  shows "p \<in> premium_providers t \<longleftrightarrow> (\<forall>(_, _, d') \<in> set (submitted_proofs t). d \<le> d')"
proof -
  have "premium_providers t \<noteq> {}" using assms by (auto simp: tracker_ok_def split: if_splits)
  then obtain q w where q: "(q, w, min_distance t) \<in> set (submitted_proofs t)" using assms(1) by (auto simp: tracker_ok_def)
  have le: "\<forall>(_, _, d') \<in> set (submitted_proofs t). min_distance t \<le> d'" using assms(1) by (auto simp: tracker_ok_def)
  have dist: "distinct (map fst (submitted_proofs t))" and prem: "premium_providers t = {p. \<exists>z. (p, z, min_distance t) \<in> set (submitted_proofs t)}"
    using assms(1) by (simp_all add: tracker_ok_def)
  have "p \<in> premium_providers t \<longleftrightarrow> d = min_distance t"
    using distinct_map_inj [OF dist _ assms(2)] assms(2) by (auto simp: prem)
  also have "\<dots> \<longleftrightarrow> (\<forall>(_, _, d') \<in> set (submitted_proofs t). d \<le> d')"
    using q le bspec [OF le assms(2)] by (auto intro: antisym)
  finally show ?thesis .
qed

lemma tracker_ok_reorder:
  assumes "tracker_ok ts t" "mset xs = mset (submitted_proofs t)"
  shows "tracker_ok ts (t\<lparr>submitted_proofs := xs\<rparr>)" "mset (shares ts (t\<lparr>submitted_proofs := xs\<rparr>)) = mset (shares ts t)"
proof -
  have xs: "set xs = set (submitted_proofs t)" "length xs = length (submitted_proofs t)" using assms(2) mset_eq_setD mset_eq_length by blast+
  have "mset (map fst xs) = mset (map fst (submitted_proofs t))" using assms(2) by simp
  then have "distinct (map fst xs) \<longleftrightarrow> distinct (map fst (submitted_proofs t))" by (rule mset_eq_imp_distinct_iff)
  moreover have "xs = [] \<longleftrightarrow> submitted_proofs t = []" using xs(2) by auto
  ultimately show "tracker_ok ts (t\<lparr>submitted_proofs := xs\<rparr>)" using assms(1) by (auto simp: tracker_ok_def xs(1) split: if_splits)
  show "mset (shares ts (t\<lparr>submitted_proofs := xs\<rparr>)) = mset (shares ts t)"
  proof -
    have "base_share ts (t\<lparr>submitted_proofs := xs\<rparr>) = base_share ts t" by (simp add: base_share_def xs(2))
    then show ?thesis unfolding shares_def by (simp only:) (simp add: assms(2))
  qed
qed

text \<open>
  C23: At the end of an epoch its predecessor's income is shared by the providers that proved their activity in it: a provider with the smallest Hamming distance gets two shares, another one, in
  one note per provider, ordered by key.  This is so whatever order the hash map of the proofs is iterated in, nothing panics, and together the notes are worth at most the
  income and less than one coin per share less.
\<close>

theorem blend_income_shared:
  assumes "blend_run X B (WithTargetEpoch ts t cs i)" "mset order = mset (submitted_proofs t)" "order \<noteq> []"
  defines "best \<equiv> \<lambda>d. \<forall>(_, _, d') \<in> set order. d \<le> d'"
  defines "n \<equiv> length order + length (filter (\<lambda>(_, _, d). best d) order)"
  shows "\<exists>us. tracker_finalize X B ts (t\<lparr>submitted_proofs := order\<rparr>) = Some (tracker_new, us) \<and>
    payments us = sort_key fst (filter (\<lambda>(_, a). 0 < a)
      (map (\<lambda>(p, z, d). (z, if best d then 2 * (tes_income ts div n) else tes_income ts div n)) (submitted_proofs t))) \<and>
    values_of us \<le> tes_income ts \<and> tes_income ts < values_of us + n"
proof -
  let ?t = "t\<lparr>submitted_proofs := order\<rparr>"
  have ok: "target_ok ts" "tracker_ok ts t" using blend_run_ok [OF assms(1)] by simp_all
  note r = tracker_ok_reorder [OF ok(2) assms(2)]
  note best = premium_iff_smallest [OF r(1), simplified]
  have "map fst (filter (\<lambda>(_, _, d). best d) order) = filter (\<lambda>p. p \<in> premium_providers t) (map fst order)"
    using best by (force simp: filter_map o_def best_def intro!: arg_cong [of _ _ "map fst"] filter_cong)
  then have "length (filter (\<lambda>(_, _, d). best d) order) = length (filter (\<lambda>p. p \<in> premium_providers t) (map fst order))"
    by (metis length_map)
  also have "\<dots> = card (set (filter (\<lambda>p. p \<in> premium_providers t) (map fst order)))"
    using r(1) by (intro distinct_card [symmetric] distinct_filter) (simp add: tracker_ok_def)
  also have "set (filter (\<lambda>p. p \<in> premium_providers t) (map fst order)) = premium_providers t"
    using r(1) by (force simp: tracker_ok_def)
  finally have "length (filter (\<lambda>(_, _, d). best d) order) = card (premium_providers t)" .
  then have n: "n = length (submitted_proofs ?t) + card (premium_providers ?t)" by (simp add: n_def)
  have b: "base_share ts ?t = tes_income ts div n" by (simp add: base_share_def n)
  let ?us = "distribute_rewards X B (shares ts ?t) (tes_epoch ts) BlendNetwork"
  have f: "tracker_finalize X B ts ?t = Some (tracker_new, ?us)" using tracker_finalize_shares [OF r(1) ok(1)] assms(3) by simp
  have bt: "base_share ts t = tes_income ts div n"
    using mset_eq_length [OF assms(2)] by (simp add: base_share_def n)
  have "set order = set (submitted_proofs t)" using assms(2) by (rule mset_eq_setD)
  then have sh: "shares ts t = map (\<lambda>(p, z, d). (z, if best d then 2 * (tes_income ts div n) else tes_income ts div n)) (submitted_proofs t)"
    using best by (force simp: shares_def bt best_def)
  have "map fst (shares ts t) = map (\<lambda>(_, z, _). z) (submitted_proofs t)" by (auto simp: shares_def)
  then have "distinct (map fst (shares ts t))" using tracker_ok_counts(4) [OF ok(2,1)] by simp
  then have us: "?us = distribute_rewards X B (shares ts t) (tes_epoch ts) BlendNetwork"
    by (intro distribute_rewards_mset [symmetric]) (simp_all add: r(2))
  have v: "values_of ?us = tes_income ts div n * n" using shares_total [OF r(1) ok(1)] by (simp add: values_of_distributed b n)
  have "0 < n" using assms(3) by (simp add: n_def)
  then have "values_of ?us \<le> tes_income ts" "tes_income ts < values_of ?us + n"
    unfolding v by (simp_all add: div_times_less_eq_dividend) (metis add.commute dividend_less_div_times)
  moreover have "payments ?us = sort_key fst (filter (\<lambda>(_, a). 0 < a) (shares ts t))" unfolding us by (rule distributed_payments)
  ultimately show ?thesis using f unfolding sh by blast
qed

text \<open>Two providers share an income of 100; the first has distance 0 and gets two shares of 33, the second has distance 2.\<close>

definition example_blend :: blend_extern where
  "example_blend = \<lparr>float_quota = (\<lambda>_ _. 5), ceil_log2 = (\<lambda>n. if n \<le> 8 then 2 else 8), blake2b_var = (\<lambda>n x. replicate n (hd (x @ [0]))),
     verify_quota = (\<lambda>_ _ _. True), verify_selection = (\<lambda>_ _ _ _. True), token_bytes = (\<lambda>k _ _. to_le_bytes 32 k), core_root = (\<lambda>_. 0), service_bytes = (\<lambda>_. [])\<rparr>"

definition example_provider :: "ed_key \<Rightarrow> nat \<Rightarrow> sdp_declaration" where
  "example_provider p z = \<lparr>decl_service_type = BlendNetwork, decl_provider_id = p, decl_service_note_id = 3, decl_locators = [], decl_zk_id = z, decl_created = 0,
     decl_active = 2, decl_withdraw_at = None, decl_nonce = \<lparr>lifecycle_epoch = 0, nonce_sequence = 0\<rparr>\<rparr>"

definition example_epoch :: "nat \<Rightarrow> epoch_state" where
  "example_epoch e = \<lparr>eps_epoch = e, eps_nonce = 0, eps_blend_difficulty = 9, eps_utxos = store_new, eps_total_stake = 1, eps_lottery_0 = 1, eps_lottery_1 = 1,
     eps_active = [BlendNetwork \<mapsto> [(1, example_provider 21 41), (2, example_provider 22 42)]]\<rparr>"

definition example_parameters :: rewards_parameters where
  "example_parameters = \<lparr>rounds_per_epoch = 10, message_frequency_per_round = 1, cover_replication_factor = 0, num_blend_layers = 1,
     data_replication_factor = 0, minimum_network_size = 2, activity_threshold_sensitivity = 0\<rparr>"

definition example_activity :: "ed_key \<Rightarrow> activity_metadata" where
  "example_activity k = Blend \<lparr>ap_epoch = 0, ap_signing_key = k, ap_proof_of_quota = \<lparr>key_nullifier = 0, poq_proof = 0\<rparr>, ap_selection_randomness = 0\<rparr>"

lemmas example_blend_defs = example_blend_def example_provider_def example_epoch_def example_parameters_def example_activity_def

lemma store_root_returns: "store_ok E s \<Longrightarrow> \<exists>r. store_root E s = Some r"
  by (simp add: store_root_def tree_root_merkle store_ok_def)

lemma example_current:
  "\<exists>cs. current_epoch_state_new plain_extern (example_epoch e) example_parameters = Some cs \<and> ces_epoch cs = e \<and> ces_randomness cs = 0"
proof -
  have "\<exists>r. store_root (note_tree plain_extern) (store_new :: utxos) = Some r"
    by (rule store_root_returns) (rule store_new_ok)
  then show ?thesis
    by (auto simp: current_epoch_state_new_def leader_inputs_of_def pow_inputs_of_def encapsulations_per_message_def quota_try_new_def wrapping_add_def wrapping_mul_def
        example_epoch_def example_parameters_def)
qed

lemma example_target:
  assumes "current_epoch_state_new plain_extern (example_epoch 0) example_parameters = Some cs" "ces_epoch cs = 0"
    and "current_epoch_state_new plain_extern (example_epoch 1) example_parameters = Some cs'"
  shows "\<exists>ts. rewards_update_epoch plain_extern example_blend (example_epoch 0) (example_epoch 1) example_parameters example_parameters (WithoutTargetEpoch cs 100)
      = Some (WithTargetEpoch ts tracker_new cs' 0, []) \<and>
    tes_epoch ts = 0 \<and> tes_income ts = 100 \<and> tes_minimum_network_size ts = 2 \<and> tes_providers ts = [(21, 41, 0), (22, 42, 1)] \<and>
    tes_evaluation ts = \<lparr>token_count_byte_len = 1, activity_threshold = 6\<rparr>"
  using assms
  by (simp add: rewards_update_epoch_def current_finalize_def epoch_strict_add_def checked_add_def example_blend_defs providers_and_zk_root_def merkle_root_of_ordered_def
      core_quota_and_token_evaluation_def core_quota_def quota_try_new_def token_evaluation_new_def token_count_bit_len_def compute_activity_threshold_def checked_mul_def
      div_ceil_def expect_ok_def from_current_output_def)

lemma hd_le_bytes: "hd (to_le_bytes 32 n @ xs) = word_of_nat n"
proof -
  have "to_le_bytes 32 n = to_le_bytes (Suc 31) n" by simp
  then show ?thesis by (simp only: to_le_bytes.simps) simp
qed

lemma example_distance:
  "evaluate_token example_blend \<lparr>token_count_byte_len = 1, activity_threshold = 6\<rparr> (to_le_bytes 32 0) 0 = Some 0"
  "evaluate_token example_blend \<lparr>token_count_byte_len = 1, activity_threshold = 6\<rparr> (to_le_bytes 32 1) 0 = Some 1"
  by (simp_all add: evaluate_token_def hamming_distance_def hash_var_def hamming_def example_blend_def hd_le_bytes bit_1_iff upt_rec)

theorem blend_income_shared_witness:
  "\<exists>ts t cs us. blend_run plain_extern example_blend (WithTargetEpoch ts t cs 0) \<and> tes_income ts = 100 \<and>
    tracker_finalize plain_extern example_blend ts t = Some (tracker_new, us) \<and> payments us = [(41, 66), (42, 33)]"
proof -
  obtain cs0 cs where c0: "current_epoch_state_new plain_extern (example_epoch 0) example_parameters = Some cs0" "ces_epoch cs0 = 0"
      and c1: "current_epoch_state_new plain_extern (example_epoch 1) example_parameters = Some cs" "ces_randomness cs = 0"
    using example_current by metis
  obtain ts where ts: "rewards_update_epoch plain_extern example_blend (example_epoch 0) (example_epoch 1) example_parameters example_parameters (WithoutTargetEpoch cs0 100)
        = Some (WithTargetEpoch ts tracker_new cs 0, [])"
      and t: "tes_epoch ts = 0" "tes_income ts = 100" "tes_minimum_network_size ts = 2" "tes_providers ts = [(21, 41, 0), (22, 42, 1)]"
        "tes_evaluation ts = \<lparr>token_count_byte_len = 1, activity_threshold = 6\<rparr>"
    using example_target [OF c0 c1(1)] by blast
  have "rewards_new plain_extern example_parameters (example_epoch 0) = Some (WithoutTargetEpoch cs0 0)" using c0(1) by (simp add: rewards_new_def)
  then have "blend_run plain_extern example_blend (WithoutTargetEpoch cs0 0)" by (rule blend_start)
  from blend_collect [OF this, of 100] have r0: "blend_run plain_extern example_blend (WithoutTargetEpoch cs0 100)"
    by (simp add: rewards_add_income_def wrapping_add_def)
  define t1 where "t1 = \<lparr>submitted_proofs = [(21, 41, 0)], min_distance = 0, premium_providers = {21 :: ed_key}\<rparr>"
  define t2 where "t2 = \<lparr>submitted_proofs = [(21, 41, 0), (22, 42, 1)], min_distance = 0, premium_providers = {21 :: ed_key}\<rparr>"
  have build: "verify_and_build example_blend v \<lparr>ap_epoch = 0, ap_signing_key = k, ap_proof_of_quota = \<lparr>key_nullifier = 0, poq_proof = 0\<rparr>, ap_selection_randomness = 0\<rparr> n m
      = Some (to_le_bytes 32 k)" for v k n m
    by (simp add: verify_and_build_def example_blend_def)
  have a1: "rewards_update_active example_blend 21 (example_activity 0) (WithTargetEpoch ts tracker_new cs 0) = ok (WithTargetEpoch ts t1 cs 0)"
    by (simp add: rewards_update_active_def example_activity_def verify_proof_def bind_ensure t build c1(2) example_distance [unfolded One_nat_def] tracker_insert_def tracker_new_def with_update_def t1_def)
  have a2: "rewards_update_active example_blend 22 (example_activity 1) (WithTargetEpoch ts t1 cs 0) = ok (WithTargetEpoch ts t2 cs 0)"
    by (simp add: rewards_update_active_def example_activity_def verify_proof_def bind_ensure t build c1(2) example_distance [unfolded One_nat_def] tracker_insert_def with_update_def t1_def t2_def)
  have run: "blend_run plain_extern example_blend (WithTargetEpoch ts t2 cs 0)"
    by (rule blend_active [OF blend_active [OF blend_rotate [OF r0 ts] a1] a2])
  have s: "t2\<lparr>submitted_proofs := submitted_proofs t2\<rparr> = t2" by simp
  obtain us where "tracker_finalize plain_extern example_blend ts t2 = Some (tracker_new, us)" "payments us = [(41, 66), (42, 33)]"
    using blend_income_shared [OF run refl, unfolded s] by (auto simp: t2_def t)
  then show ?thesis using run t(2) by (intro exI conjI)
qed

end
