(* ===== verification/SdpLedger.thy ===== *)
theory SdpLedger
  imports BlendRewards
begin

text \<open>
  The service ledger of \<^verbatim>\<open>ledger/src/mantle/sdp/mod.rs\<close>: the registries and rewards of the services, and the notes they hold.

  \<^verbatim>\<open>ServiceType\<close> has one value, and \<^verbatim>\<open>Service\<close> one variant, so the maps over services have at most one entry; a \<^verbatim>\<open>Service\<close> is its
  \<^verbatim>\<open>ServiceState\<close>.  The lemmas show that every operation keeps the registries consistent, the rewards well-formed and in step with the epoch,
  and accounts for the income.
\<close>

record service_parameters =
  sp_inactivity_period :: nat
  sp_epoch :: nat

record sdp_config =
  sc_service_params :: "service_type \<rightharpoonup> service_parameters"
  sc_blend_rewards :: rewards_parameters
  sc_min_stake :: min_stake

datatype sdp_ledger_error =
    SlDeclarationNotFound declaration_id
  | SlWithdrawalWhileUsedInService
  | SlServiceNotFound service_type
  | SlDuplicateDeclaration declaration_id
  | SlEpochParamsNotFound service_type
  | SlServiceParamsNotFound service_type
  | SlNotGenesisBlock
  | SlTimeTravel nat nat
  | SlLockingError service_notes_error
  | SlInvalidSignature
  | SlNoteNotFound note_id
  | SlInvalidProof
  | SlRewardsError rewards_error
  | SlSdpOp sdp_error
  | SlInvalidDeferral

record service_state =
  ss_service_type :: service_type
  ss_declarations :: declarations
  ss_provider_index :: provider_index
  ss_rewards :: blend_rewards

record sdp_ledger =
  sl_services :: "service_type \<rightharpoonup> service_state"
  sl_service_notes :: service_notes
  sl_epoch :: nat

definition service_registry :: "sdp_ledger \<Rightarrow> service_state \<Rightarrow> registry" where
  "service_registry l st = \<lparr>reg_declarations = ss_declarations st, reg_providers = ss_provider_index st, reg_notes = sl_service_notes l\<rparr>"

subsection \<open>Headers\<close>

definition sdp_ledger_new :: "nat \<Rightarrow> sdp_ledger" where
  "sdp_ledger_new epoch = \<lparr>sl_services = Map.empty, sl_service_notes = sn_new, sl_epoch = epoch\<rparr>"

definition with_blend_service :: "extern \<Rightarrow> rewards_parameters \<Rightarrow> epoch_state \<Rightarrow> sdp_ledger \<Rightarrow> sdp_ledger option" where
  "with_blend_service X p e l =
     (if eps_epoch e \<noteq> sl_epoch l then None
      else do { r \<leftarrow> rewards_new X p e;
                Some (l\<lparr>sl_services := (sl_services l)(BlendNetwork \<mapsto>
                  \<lparr>ss_service_type = BlendNetwork, ss_declarations = [], ss_provider_index = Map.empty, ss_rewards = r\<rparr>)\<rparr>) })"

definition service_apply_header ::
  "extern \<Rightarrow> blend_extern \<Rightarrow> epoch_state \<Rightarrow> epoch_state \<Rightarrow> service_notes \<Rightarrow> rewards_parameters \<Rightarrow> rewards_parameters \<Rightarrow> service_state
     \<Rightarrow> (service_state \<times> service_notes \<times> utxo list \<times> header_event list) option" where
  "service_apply_header X B last_state next_state sn last_params params st =
     (if eps_epoch last_state < eps_epoch next_state
      then do { (rewards, reward_utxos) \<leftarrow> rewards_update_epoch X B last_state next_state last_params params (ss_rewards st);
                (reg, removed) \<leftarrow> remove_withdrawn_declarations (eps_epoch next_state)
                  \<lparr>reg_declarations = ss_declarations st, reg_providers = ss_provider_index st, reg_notes = sn\<rparr>;
                Some (st\<lparr>ss_declarations := reg_declarations reg, ss_provider_index := reg_providers reg, ss_rewards := rewards\<rparr>, reg_notes reg, reward_utxos,
                      map (SdpRewardDistributed (ss_service_type st)) reward_utxos @ removed) }
      else Some (st, sn, [], []))"

definition sdp_apply_header ::
  "extern \<Rightarrow> blend_extern \<Rightarrow> sdp_config \<Rightarrow> sdp_config \<Rightarrow> epoch_state \<Rightarrow> epoch_state \<Rightarrow> sdp_ledger
     \<Rightarrow> (sdp_ledger_error + sdp_ledger \<times> utxo list \<times> header_event list) option" where
  "sdp_apply_header X B last_config config last_state next_state l =
     (case sl_services l BlendNetwork of
        None \<Rightarrow> ok (l\<lparr>sl_services := Map.empty, sl_epoch := eps_epoch next_state\<rparr>, [], [])
      | Some st \<Rightarrow>
          bind_res (ok_or (SlEpochParamsNotFound BlendNetwork) (sc_service_params config BlendNetwork)) (\<lambda>_.
          bind_res (run (service_apply_header X B last_state next_state (sl_service_notes l) (sc_blend_rewards last_config) (sc_blend_rewards config) st))
            (\<lambda>(st, sn, reward_utxos, events).
          ok (\<lparr>sl_services = [BlendNetwork \<mapsto> st], sl_service_notes = sn, sl_epoch = eps_epoch next_state\<rparr>, reward_utxos, events))))"

subsection \<open>Messages\<close>

definition try_apply_sdp_declaration ::
  "extern \<Rightarrow> utxos \<Rightarrow> sdp_config \<Rightarrow> declaration_message \<Rightarrow> sdp_ledger \<Rightarrow> (sdp_ledger_error + sdp_ledger \<times> tx_event list) option" where
  "try_apply_sdp_declaration X us config op l =
     bind_res (ok_or (SlServiceNotFound (dm_service_type op)) (sl_services l (dm_service_type op))) (\<lambda>st.
     bind_res (map_err SlSdpOp (declare_execute X us (sl_epoch l) (sc_min_stake config) op (service_registry l st))) (\<lambda>(reg, events).
     ok (l\<lparr>sl_service_notes := reg_notes reg,
           sl_services := (sl_services l)(dm_service_type op \<mapsto> st\<lparr>ss_declarations := reg_declarations reg, ss_provider_index := reg_providers reg\<rparr>)\<rparr>, events)))"

definition get_service :: "sdp_config \<Rightarrow> sdp_ledger \<Rightarrow> declaration_id \<Rightarrow> (sdp_ledger_error + service_type \<times> service_parameters) option" where
  "get_service config l did =
     (case sl_services l BlendNetwork of
        Some st \<Rightarrow> if map_of (ss_declarations st) did = None then fail (SlDeclarationNotFound did)
                    else bind_res (ok_or (SlServiceParamsNotFound BlendNetwork) (sc_service_params config BlendNetwork)) (\<lambda>p. ok (BlendNetwork, p))
      | None \<Rightarrow> fail (SlDeclarationNotFound did))"

definition apply_active_msg ::
  "blend_extern \<Rightarrow> sdp_config \<Rightarrow> active_message \<Rightarrow> sdp_ledger \<Rightarrow> (sdp_ledger_error + sdp_ledger \<times> tx_event list) option" where
  "apply_active_msg B config op l =
     bind_res (get_service config l (am_declaration_id op)) (\<lambda>(service, _).
     bind_res (ok_or (SlServiceNotFound service) (sl_services l service)) (\<lambda>st.
     bind_res (map_err SlSdpOp (active_execute (sl_epoch l) op (ss_declarations st))) (\<lambda>(ds, events).
     bind_res (run (map_of ds (am_declaration_id op))) (\<lambda>d.
     bind_res (map_err SlRewardsError (rewards_update_active B (decl_provider_id d) (am_metadata op) (ss_rewards st))) (\<lambda>r.
     ok (l\<lparr>sl_services := (sl_services l)(service \<mapsto> st\<lparr>ss_declarations := ds, ss_rewards := r\<rparr>)\<rparr>, events))))))"

definition apply_withdrawn_msg :: "sdp_config \<Rightarrow> withdraw_message \<Rightarrow> sdp_ledger \<Rightarrow> (sdp_ledger_error + sdp_ledger \<times> tx_event list) option" where
  "apply_withdrawn_msg config op l =
     bind_res (get_service config l (wm_declaration_id op)) (\<lambda>(service, _).
     bind_res (ok_or (SlServiceNotFound service) (sl_services l service)) (\<lambda>st.
     bind_res (map_err SlSdpOp (sdp_withdraw_execute (sl_epoch l) op (ss_declarations st))) (\<lambda>(ds, events).
     ok (l\<lparr>sl_services := (sl_services l)(service \<mapsto> st\<lparr>ss_declarations := ds\<rparr>)\<rparr>, events))))"

definition add_blend_income :: "nat \<Rightarrow> sdp_ledger \<Rightarrow> sdp_ledger" where
  "add_blend_income income l =
     (case sl_services l BlendNetwork of
        None \<Rightarrow> l
      | Some st \<Rightarrow> l\<lparr>sl_services := (sl_services l)(BlendNetwork \<mapsto> st\<lparr>ss_rewards := rewards_add_income income (ss_rewards st)\<rparr>)\<rparr>)"

subsection \<open>Queries\<close>

definition is_active :: "sdp_declaration \<Rightarrow> nat \<Rightarrow> service_parameters \<Rightarrow> bool option" where
  "is_active d current_epoch p =
     do { until \<leftarrow> epoch_strict_add (decl_active d) (sp_inactivity_period p);
          Some (current_epoch \<le> until \<and> (case decl_withdraw_at d of None \<Rightarrow> True | Some withdraw_at \<Rightarrow> current_epoch < withdraw_at)) }"

definition active_declarations :: "nat \<Rightarrow> (service_type \<rightharpoonup> service_parameters) \<Rightarrow> sdp_ledger \<Rightarrow> (service_type \<rightharpoonup> declarations) option" where
  "active_declarations epoch params l =
     (case (sl_services l BlendNetwork, params BlendNetwork) of
        (Some st, Some p) \<Rightarrow>
          do { active \<leftarrow> those (map (\<lambda>(did, d). map_option (\<lambda>a. (a, did, d)) (is_active d epoch p)) (ss_declarations st));
               let ds = map snd (filter fst active);
               Some (if ds = [] then Map.empty else [BlendNetwork \<mapsto> ds]) }
      | _ \<Rightarrow> Some Map.empty)"

definition get_declaration :: "sdp_ledger \<Rightarrow> declaration_id \<Rightarrow> sdp_declaration option" where
  "get_declaration l did = Option.bind (sl_services l BlendNetwork) (\<lambda>st. map_of (ss_declarations st) did)"

definition get_declarations_by_service :: "sdp_ledger \<Rightarrow> service_type \<Rightarrow> declarations option" where
  "get_declarations_by_service l service = map_option ss_declarations (sl_services l service)"

definition get_provider_index_by_service :: "sdp_ledger \<Rightarrow> service_type \<Rightarrow> provider_index option" where
  "get_provider_index_by_service l service = map_option ss_provider_index (sl_services l service)"

subsection \<open>Genesis\<close>

definition sdp_from_genesis ::
  "extern \<Rightarrow> sdp_config \<Rightarrow> utxos \<Rightarrow> channels \<Rightarrow> epoch_state \<Rightarrow> declaration_message list \<Rightarrow> (sdp_ledger_error + sdp_ledger \<times> tx_event list) option" where
  "sdp_from_genesis X config us cs e ops =
     bind_res (run (with_blend_service X (sc_blend_rewards config) e (sdp_ledger_new (eps_epoch e)))) (\<lambda>l.
     try_fold (\<lambda>op (l, events).
       bind_res (ok_or (SlServiceNotFound (dm_service_type op)) (sl_services l (dm_service_type op))) (\<lambda>st.
       bind_res (map_err SlSdpOp (declare_verify_genesis X us cs (sl_service_notes l) (ss_declarations st) (ss_provider_index st) (sc_min_stake config) op)) (\<lambda>_.
       bind_res (try_apply_sdp_declaration X us config op l) (\<lambda>(l, ev). ok (l, events @ ev))))) ops (l, []))"

subsection \<open>The invariant\<close>

text \<open>Each service has a consistent registry and well-formed rewards, whose current epoch is the epoch of the ledger.\<close>

definition sdp_ledger_ok :: "extern \<Rightarrow> sdp_ledger \<Rightarrow> bool" where
  "sdp_ledger_ok X l \<longleftrightarrow>
     (\<forall>st. sl_services l BlendNetwork = Some st \<longrightarrow>
        ss_service_type st = BlendNetwork \<and> registry_ok X (service_registry l st) \<and> blend_ok (ss_rewards st) \<and> blend_epoch (ss_rewards st) = sl_epoch l)"

definition sdp_income :: "sdp_ledger \<Rightarrow> nat" where
  "sdp_income l = (case sl_services l BlendNetwork of None \<Rightarrow> 0 | Some st \<Rightarrow> blend_income (ss_rewards st))"

lemma service_type_eq: "(s :: service_type) = BlendNetwork"
  by (cases s)

lemma get_service_ok_iff:
  "get_service c l did = ok (t, p) \<longleftrightarrow> t = BlendNetwork \<and> sc_service_params c BlendNetwork = Some p \<and>
     (\<exists>st. sl_services l BlendNetwork = Some st \<and> map_of (ss_declarations st) did \<noteq> None)"
  by (auto simp: get_service_def bind_res_ok_iff split: option.splits if_splits)

lemma with_blend_service_ok:
  assumes "with_blend_service X p e (sdp_ledger_new (eps_epoch e)) = Some l"
  shows "sdp_ledger_ok X l \<and> sdp_income l = 0 \<and> sl_epoch l = eps_epoch e"
proof -
  obtain r where r: "rewards_new X p e = Some r" "l = (sdp_ledger_new (eps_epoch e))\<lparr>sl_services :=
      [BlendNetwork \<mapsto> \<lparr>ss_service_type = BlendNetwork, ss_declarations = [], ss_provider_index = Map.empty, ss_rewards = r\<rparr>]\<rparr>"
    using assms by (auto simp: with_blend_service_def sdp_ledger_new_def bind_Some_iff)
  then show ?thesis using rewards_new_ok [OF r(1)] registry_new_ok [of X]
    by (simp add: sdp_ledger_ok_def sdp_income_def sdp_ledger_new_def service_registry_def registry_new_def)
qed

lemma sdp_apply_header_ok:
  assumes "sdp_apply_header X B c c' e e' l = ok (l', us, ev)" "sdp_ledger_ok X l" "eps_epoch e = sl_epoch l" "eps_epoch e \<le> eps_epoch e'"
  shows "sdp_ledger_ok X l'" "values_of us + sdp_income l' \<le> sdp_income l" "sl_epoch l' = eps_epoch e'"
proof -
  have "sdp_ledger_ok X l' \<and> values_of us + sdp_income l' \<le> sdp_income l \<and> sl_epoch l' = eps_epoch e'"
  proof (cases "sl_services l BlendNetwork")
    case None
    then show ?thesis using assms(1) by (auto simp: sdp_apply_header_def sdp_ledger_ok_def sdp_income_def)
  next
    case (Some st)
    obtain st' sn where h: "service_apply_header X B e e' (sl_service_notes l) (sc_blend_rewards c) (sc_blend_rewards c') st = Some (st', sn, us, ev)"
        and l': "l' = \<lparr>sl_services = [BlendNetwork \<mapsto> st'], sl_service_notes = sn, sl_epoch = eps_epoch e'\<rparr>"
      using assms(1) Some by (auto simp: sdp_apply_header_def bind_res_ok_iff)
    have ok: "ss_service_type st = BlendNetwork" "registry_ok X (service_registry l st)" "blend_ok (ss_rewards st)" "blend_epoch (ss_rewards st) = sl_epoch l"
      using assms(2) Some by (auto simp: sdp_ledger_ok_def)
    show ?thesis
    proof (cases "eps_epoch e < eps_epoch e'")
      case True
      obtain r reg rm where r: "rewards_update_epoch X B e e' (sc_blend_rewards c) (sc_blend_rewards c') (ss_rewards st) = Some (r, us)"
          and reg: "remove_withdrawn_declarations (eps_epoch e') (service_registry l st) = Some (reg, rm)"
          and st': "st' = st\<lparr>ss_declarations := reg_declarations reg, ss_provider_index := reg_providers reg, ss_rewards := r\<rparr>" "sn = reg_notes reg"
        using h True by (auto simp: service_apply_header_def service_registry_def bind_Some_iff)
      have "registry_ok X \<lparr>reg_declarations = reg_declarations reg, reg_providers = reg_providers reg, reg_notes = reg_notes reg\<rparr>"
        using remove_withdrawn_spec [OF ok(2), of "eps_epoch e'"] reg by (cases reg) auto
      then show ?thesis using rewards_update_epoch_ok [OF r ok(3)] ok(1) Some
        by (simp add: l' st' sdp_ledger_ok_def sdp_income_def service_registry_def)
    next
      case False
      then have "st' = st" "sn = sl_service_notes l" "us = []" "eps_epoch e' = sl_epoch l"
        using h assms(3,4) by (simp_all add: service_apply_header_def)
      then show ?thesis using ok Some by (simp add: l' sdp_ledger_ok_def sdp_income_def service_registry_def)
    qed
  qed
  then show "sdp_ledger_ok X l'" "values_of us + sdp_income l' \<le> sdp_income l" "sl_epoch l' = eps_epoch e'" by simp_all
qed

lemma add_blend_income_ok:
  "sdp_ledger_ok X l \<Longrightarrow> sdp_ledger_ok X (add_blend_income i l)" "sdp_income (add_blend_income i l) \<le> sdp_income l + i"
  "sl_epoch (add_blend_income i l) = sl_epoch l" "sl_service_notes (add_blend_income i l) = sl_service_notes l"
  using rewards_add_income_ok
  by (auto simp: add_blend_income_def sdp_ledger_ok_def sdp_income_def service_registry_def split: option.splits)

lemma sdp_service_update:
  assumes "sdp_ledger_ok X l" "sl_services l BlendNetwork = Some st"
    and "registry_ok X \<lparr>reg_declarations = ds, reg_providers = pr, reg_notes = sn\<rparr>" "blend_ok r" "blend_epoch r = blend_epoch (ss_rewards st)"
  shows "sdp_ledger_ok X (l\<lparr>sl_service_notes := sn, sl_services := (sl_services l)(BlendNetwork \<mapsto> st\<lparr>ss_declarations := ds, ss_provider_index := pr, ss_rewards := r\<rparr>)\<rparr>)"
  using assms by (auto simp: sdp_ledger_ok_def service_registry_def)

lemma sdp_declaration_ok:
  assumes "try_apply_sdp_declaration X us c op l = ok (l', ev)" "sdp_ledger_ok X l" "sl_services l (dm_service_type op) = Some st"
    and "store_get us (dm_service_note_id op) = Some u"
    and "declare_validate X op (utxo_note u) cs (ss_declarations st) (ss_provider_index st) (sl_service_notes l) (sc_min_stake c) = ok w"
  shows "sdp_ledger_ok X l'" "sdp_income l' = sdp_income l" "sl_epoch l' = sl_epoch l" "ev = []"
proof -
  note t = service_type_eq [of "dm_service_type op"]
  note st = assms(3) [unfolded t]
  obtain reg where x: "declare_execute X us (sl_epoch l) (sc_min_stake c) op (service_registry l st) = ok (reg, ev)"
      and l': "l' = l\<lparr>sl_service_notes := reg_notes reg,
        sl_services := (sl_services l)(BlendNetwork \<mapsto> st\<lparr>ss_declarations := reg_declarations reg, ss_provider_index := reg_providers reg, ss_rewards := ss_rewards st\<rparr>)\<rparr>"
    using assms(1) st by (auto simp: try_apply_sdp_declaration_def bind_res_ok_iff t)
  have "epoch_strict_add (sl_epoch l) SNAPSHOT_FINALIZATION_DELAY \<noteq> None"
    using x by (auto simp: declare_execute_def declaration_new_def bind_Some_iff)
  then have b: "sl_epoch l + SNAPSHOT_FINALIZATION_DELAY < 2 ^ 32" by (auto simp: epoch_strict_add_def checked_add_def split: if_splits)
  have ok: "registry_ok X (service_registry l st)" "blend_ok (ss_rewards st)" using assms(2) st by (auto simp: sdp_ledger_ok_def)
  have "registry_ok X reg \<and> ev = []"
    using declare_execute_spec [OF ok(1) assms(4) b, of cs "sc_min_stake c" w] assms(5) x by (auto simp: service_registry_def)
  then have "registry_ok X \<lparr>reg_declarations = reg_declarations reg, reg_providers = reg_providers reg, reg_notes = reg_notes reg\<rparr>" "ev = []"
    by (cases reg; simp)+
  then show "sdp_ledger_ok X l'" "sdp_income l' = sdp_income l" "sl_epoch l' = sl_epoch l" "ev = []"
    using sdp_service_update [OF assms(2) st _ ok(2) refl] st by (simp_all add: l' sdp_income_def)
qed

lemma sdp_active_ok:
  assumes "apply_active_msg B c op l = ok (l', ev)" "sdp_ledger_ok X l"
  shows "sdp_ledger_ok X l'" "sdp_income l' = sdp_income l" "sl_epoch l' = sl_epoch l" "sl_service_notes l' = sl_service_notes l"
proof -
  obtain st d r where st: "sl_services l BlendNetwork = Some st" and d: "map_of (ss_declarations st) (am_declaration_id op) = Some d"
      and r: "rewards_update_active B (decl_provider_id d) (am_metadata op) (ss_rewards st) = ok r"
      and l': "l' = l\<lparr>sl_services := (sl_services l)(BlendNetwork \<mapsto> st\<lparr>ss_declarations :=
         AList.update (am_declaration_id op) (d\<lparr>decl_active := sl_epoch l, decl_nonce := am_nonce op\<rparr>) (ss_declarations st), ss_rewards := r\<rparr>)\<rparr>"
    using assms(1) by (auto simp: apply_active_msg_def bind_res_ok_iff get_service_ok_iff active_execute_def bind_Some_iff update_conv' split: prod.splits)
  have ok: "registry_ok X (service_registry l st)" "blend_ok (ss_rewards st)" using assms(2) st by (auto simp: sdp_ledger_ok_def)
  have m: "map_of (reg_declarations (service_registry l st)) (am_declaration_id op) = Some d" using d by (simp add: service_registry_def)
  note g = registry_update [OF ok(1) m, of "d\<lparr>decl_active := sl_epoch l, decl_nonce := am_nonce op\<rparr>", simplified, unfolded service_registry_def, simplified]
  show "sdp_ledger_ok X l'" "sdp_income l' = sdp_income l" "sl_epoch l' = sl_epoch l" "sl_service_notes l' = sl_service_notes l"
    using sdp_service_update [OF assms(2) st g rewards_update_active_ok(1) [OF r ok(2)] rewards_update_active_ok(3) [OF r ok(2)]]
      rewards_update_active_ok(2) [OF r ok(2)] st by (simp_all add: l' sdp_income_def)
qed

lemma sdp_withdrawn_ok:
  assumes "apply_withdrawn_msg c op l = ok (l', ev)" "sdp_ledger_ok X l"
  shows "sdp_ledger_ok X l'" "sdp_income l' = sdp_income l" "sl_epoch l' = sl_epoch l" "sl_service_notes l' = sl_service_notes l"
proof -
  obtain st d w where st: "sl_services l BlendNetwork = Some st" and d: "map_of (ss_declarations st) (wm_declaration_id op) = Some d"
      and l': "l' = l\<lparr>sl_services := (sl_services l)(BlendNetwork \<mapsto> st\<lparr>ss_declarations :=
         AList.update (wm_declaration_id op) (d\<lparr>decl_withdraw_at := Some w, decl_nonce := wm_nonce op\<rparr>) (ss_declarations st)\<rparr>)\<rparr>"
    using assms(1) by (auto simp: apply_withdrawn_msg_def bind_res_ok_iff get_service_ok_iff sdp_withdraw_execute_def bind_Some_iff split: prod.splits)
  have ok: "registry_ok X (service_registry l st)" "blend_ok (ss_rewards st)" using assms(2) st by (auto simp: sdp_ledger_ok_def)
  have m: "map_of (reg_declarations (service_registry l st)) (wm_declaration_id op) = Some d" using d by (simp add: service_registry_def)
  note g = registry_update [OF ok(1) m, of "d\<lparr>decl_withdraw_at := Some w, decl_nonce := wm_nonce op\<rparr>", simplified, unfolded service_registry_def, simplified]
  show "sdp_ledger_ok X l'" "sdp_income l' = sdp_income l" "sl_epoch l' = sl_epoch l" "sl_service_notes l' = sl_service_notes l"
    using sdp_service_update [OF assms(2) st g ok(2) refl] st by (simp_all add: l' sdp_income_def)
qed

lemma sdp_from_genesis_ok:
  assumes "sdp_from_genesis X c us cs e ops = ok (l, ev)"
  shows "sdp_ledger_ok X l \<and> sdp_income l = 0 \<and> sl_epoch l = eps_epoch e"
proof -
  define P where "P = (\<lambda>(l, ev :: tx_event list). sdp_ledger_ok X l \<and> sdp_income l = 0 \<and> sl_epoch l = eps_epoch e)"
  obtain l0 where l0: "with_blend_service X (sc_blend_rewards c) e (sdp_ledger_new (eps_epoch e)) = Some l0"
      and f: "try_fold (\<lambda>op (l, events).
       bind_res (ok_or (SlServiceNotFound (dm_service_type op)) (sl_services l (dm_service_type op))) (\<lambda>st.
       bind_res (map_err SlSdpOp (declare_verify_genesis X us cs (sl_service_notes l) (ss_declarations st) (ss_provider_index st) (sc_min_stake c) op)) (\<lambda>_.
       bind_res (try_apply_sdp_declaration X us c op l) (\<lambda>(l, ev). ok (l, events @ ev))))) ops (l0, []) = ok (l, ev)"
    using assms by (auto simp: sdp_from_genesis_def bind_res_ok_iff)
  have "P (l, ev)"
  proof (rule try_fold_invariant [OF f])
    show "P (l0, [])" using with_blend_service_ok [OF l0] by (simp add: P_def)
  next
    fix op and s s' :: "sdp_ledger \<times> tx_event list"
    assume P: "P s" and st: "(case s of (l, events) \<Rightarrow>
       bind_res (ok_or (SlServiceNotFound (dm_service_type op)) (sl_services l (dm_service_type op))) (\<lambda>st.
       bind_res (map_err SlSdpOp (declare_verify_genesis X us cs (sl_service_notes l) (ss_declarations st) (ss_provider_index st) (sc_min_stake c) op)) (\<lambda>_.
       bind_res (try_apply_sdp_declaration X us c op l) (\<lambda>(l, ev). ok (l, events @ ev))))) = ok s'"
    obtain l1 evs where s: "s = (l1, evs)" by (cases s)
    obtain sv u w l2 ev2 where "sl_services l1 (dm_service_type op) = Some sv" "store_get us (dm_service_note_id op) = Some u"
        "declare_validate X op (utxo_note u) cs (ss_declarations sv) (ss_provider_index sv) (sl_service_notes l1) (sc_min_stake c) = ok w"
        "try_apply_sdp_declaration X us c op l1 = ok (l2, ev2)" "s' = (l2, evs @ ev2)"
      using st unfolding s by (auto simp: bind_res_ok_iff declare_verify_genesis_def)
    then show "P s'" using P sdp_declaration_ok [of X us c op l1 l2 ev2 sv u cs w] by (simp add: P_def s)
  qed
  then show ?thesis by (simp add: P_def)
qed

end
