(* ===== verification/Leaders.thy ===== *)
theory Leaders
  imports MMR NoteLedger
begin

text \<open>
  Leader rewards: the state of \<^verbatim>\<open>ledger/src/mantle/leader.rs\<close> and the claim operation of \<^verbatim>\<open>core/src/mantle/ops/leader_claim.rs\<close>.

  Each block adds a voucher commitment and a reward; each epoch makes the rewards of the epoch before claimable
  and fixes the root of the vouchers that claims are proved against.  The lemmas show that a nullifier is paid at most once
  and that no more is paid than was collected.
\<close>

record leader_state =
  leader_epoch :: nat
  snapshot_root :: nat
  snapshot_count :: nat
  nullifiers :: "nat set"
  claimable_rewards :: nat
  pending_rewards :: nat
  vouchers :: "nat mmr"

datatype leader_error =
    DuplicatedVoucherNullifier
  | VoucherNotFound
  | LeaderInvalidEpoch nat nat

definition leader_new :: leader_state where
  "leader_new = \<lparr>leader_epoch = 0, snapshot_root = 0, snapshot_count = 0, nullifiers = {}, claimable_rewards = 0, pending_rewards = 0, vouchers = []\<rparr>"

definition add_pending_rewards :: "nat \<Rightarrow> leader_state \<Rightarrow> leader_state" where
  "add_pending_rewards rewards s = s\<lparr>pending_rewards := wrapping_add 64 (pending_rewards s) rewards\<rparr>"

definition add_voucher :: "extern \<Rightarrow> nat \<Rightarrow> leader_state \<Rightarrow> leader_state option" where
  "add_voucher X voucher_cm s =
     (case push (zk_compress X) ACCEPTABLE_MAX_HEIGHT (vouchers s) voucher_cm of
        Some (Inr vs) \<Rightarrow> Some (s\<lparr>vouchers := vs\<rparr>) | _ \<Rightarrow> None)"

definition snapshot_vouchers :: "extern \<Rightarrow> leader_state \<Rightarrow> leader_state option" where
  "snapshot_vouchers X s =
     do { root \<leftarrow> frontier_root (zk_compress X) 0 ACCEPTABLE_MAX_HEIGHT (vouchers s);
          Some (s\<lparr>snapshot_root := root, snapshot_count := mmr_len (vouchers s)\<rparr>) }"

definition update_claimable_rewards :: "leader_state \<Rightarrow> leader_state" where
  "update_claimable_rewards s =
     s\<lparr>claimable_rewards := wrapping_add 64 (claimable_rewards s) (pending_rewards s), pending_rewards := 0\<rparr>"

definition leader_update_epoch :: "extern \<Rightarrow> nat \<Rightarrow> leader_state \<Rightarrow> (leader_error + leader_state) option" where
  "leader_update_epoch X epoch s =
     (if epoch = leader_epoch s then ok s
      else if epoch < leader_epoch s then fail (LeaderInvalidEpoch (leader_epoch s) epoch)
      else run (do { s \<leftarrow> snapshot_vouchers X s; Some ((update_claimable_rewards s)\<lparr>leader_epoch := epoch\<rparr>) }))"

definition leader_apply_header :: "extern \<Rightarrow> nat \<Rightarrow> nat \<Rightarrow> leader_state \<Rightarrow> (leader_error + leader_state) option" where
  "leader_apply_header X epoch voucher_cm s = bind_res (leader_update_epoch X epoch s) (\<lambda>s. run (add_voucher X voucher_cm s))"

definition reward_amount :: "leader_state \<Rightarrow> nat" where
  "reward_amount s =
     (case checked_div (claimable_rewards s) (snapshot_count s - card (nullifiers s)) of None \<Rightarrow> 0 | Some amount \<Rightarrow> amount)"

subsection \<open>Claims\<close>

datatype leader_claim_error = ClaimedNullifier | VouchersRootMismatch | InvalidPoC

definition voucher_cm :: "extern \<Rightarrow> nat \<Rightarrow> nat" where
  "voucher_cm X secret = zk_compress X (from_le_bytes (ascii ''REWARD_VOUCHER'')) secret"

definition nullifier_of_secret :: "extern \<Rightarrow> nat \<Rightarrow> nat" where
  "nullifier_of_secret X secret = zk_compress X (from_le_bytes (ascii ''VOUCHER_NF'')) secret"

definition leader_claim_op_id :: "extern \<Rightarrow> leader_claim_op \<Rightarrow> nat option" where
  "leader_claim_op_id X op = map_option (op_id X) (c_enc leader_claim_c op)"

definition leader_claim_utxo :: "extern \<Rightarrow> leader_claim_op \<Rightarrow> nat \<Rightarrow> utxo option" where
  "leader_claim_utxo X op amount =
     do { oid \<leftarrow> leader_claim_op_id X op;
          Some \<lparr>utxo_op_id = oid, output_index = 0, utxo_note = \<lparr>note_value = amount, note_pk = lc_pk op\<rparr>\<rparr> }"

text \<open>The verifier of the circuit is a parameter; \<^term>\<open>None\<close> is its error.\<close>

definition leader_claim_preverify ::
  "(nat \<Rightarrow> nat list \<Rightarrow> bool option) \<Rightarrow> nat \<Rightarrow> leader_claim_op \<Rightarrow> nat \<Rightarrow> (leader_claim_error + unit) option" where
  "leader_claim_preverify poc_verify h op proof =
     ensure (poc_verify proof [voucher_nullifier op, rewards_root op, hash_to_fr h] = Some True) InvalidPoC"

definition leader_claim_verify ::
  "nat set \<Rightarrow> nat \<Rightarrow> nat \<Rightarrow> leader_claim_op \<Rightarrow> nat \<Rightarrow> (leader_claim_error + deferred_leader_claim) option" where
  "leader_claim_verify nfs claimable_root h op proof =
     bind_res (ensure (voucher_nullifier op \<notin> nfs) ClaimedNullifier) (\<lambda>_.
     bind_res (ensure (claimable_root = rewards_root op) VouchersRootMismatch) (\<lambda>_.
     ok \<lparr>dl_proof = proof, dl_inputs = [voucher_nullifier op, claimable_root, hash_to_fr h]\<rparr>))"

record leader_claim_context =
  lcc_nullifiers :: "nat set"
  lcc_claimable :: nat
  lcc_utxos :: utxos

definition leader_claim_execute ::
  "extern \<Rightarrow> nat \<Rightarrow> nat \<Rightarrow> leader_claim_op \<Rightarrow> leader_claim_context \<Rightarrow> (leader_claim_error + leader_claim_context \<times> tx_event list) option" where
  "leader_claim_execute X h amount op ctx =
     run (do { u \<leftarrow> leader_claim_utxo X op amount;
               (us, _) \<leftarrow> store_insert (note_tree X) (utxo_id X u) u (lcc_utxos ctx);
               Some (\<lparr>lcc_nullifiers = insert (voucher_nullifier op) (lcc_nullifiers ctx),
                      lcc_claimable = wrapping_sub 64 (lcc_claimable ctx) amount, lcc_utxos = us\<rparr>,
                     [\<lparr>ev_tx_hash = h, ev_op_id = utxo_op_id u, ev_payload = LeaderRewardClaimed (voucher_nullifier op) u\<rparr>]) })"

subsection \<open>What is paid\<close>

lemma reward_amount_le: "reward_amount s \<le> claimable_rewards s"
  by (simp add: reward_amount_def checked_div_def)

lemma wrapping_add_le: "wrapping_add w a b \<le> a + b"
  by (simp add: wrapping_add_def)

lemma add_voucher_iff:
  "add_voucher X cm s = Some s' \<longleftrightarrow>
     (\<exists>vs. push (zk_compress X) ACCEPTABLE_MAX_HEIGHT (vouchers s) cm = ok vs \<and> s' = s\<lparr>vouchers := vs\<rparr>)"
  by (auto simp: add_voucher_def split: option.splits sum.splits)

lemma leader_header_rewards:
  assumes "leader_apply_header X epoch cm s = ok s'"
  shows "claimable_rewards s' + pending_rewards s' \<le> claimable_rewards s + pending_rewards s" "nullifiers s' = nullifiers s"
  using assms wrapping_add_le [of 64 "claimable_rewards s" "pending_rewards s"]
  by (auto simp: leader_apply_header_def leader_update_epoch_def snapshot_vouchers_def update_claimable_rewards_def add_voucher_iff
      bind_res_ok_iff bind_Some_iff split: if_splits)

text \<open>A header is applied while the range of vouchers has room; the snapshot then commits to all vouchers before it.\<close>

lemma leader_header_returns:
  assumes "vouchers s = peaks (zk_compress X) ACCEPTABLE_MAX_HEIGHT vs" "length vs < 2 ^ 32" "leader_epoch s \<le> epoch"
  shows "\<exists>s'. leader_apply_header X epoch cm s = ok s' \<and> vouchers s' = peaks (zk_compress X) ACCEPTABLE_MAX_HEIGHT (vs @ [cm]) \<and>
    leader_epoch s' = epoch \<and> nullifiers s' = nullifiers s \<and>
    (if epoch = leader_epoch s then claimable_rewards s' = claimable_rewards s \<and> pending_rewards s' = pending_rewards s \<and> snapshot_count s' = snapshot_count s
     else claimable_rewards s' = wrapping_add 64 (claimable_rewards s) (pending_rewards s) \<and> pending_rewards s' = 0 \<and> snapshot_count s' = length vs)"
proof -
  have h: "length vs \<le> 2 ^ (ACCEPTABLE_MAX_HEIGHT - 1)" "length vs < 2 ^ (ACCEPTABLE_MAX_HEIGHT - 1)" "1 \<le> ACCEPTABLE_MAX_HEIGHT" "ACCEPTABLE_MAX_HEIGHT \<le> 33"
    using assms(2) by (simp_all add: ACCEPTABLE_MAX_HEIGHT_def)
  have "push (zk_compress X) ACCEPTABLE_MAX_HEIGHT (vouchers s) cm = ok (peaks (zk_compress X) ACCEPTABLE_MAX_HEIGHT (vs @ [cm]))"
    unfolding assms(1) by (rule push_peaks [OF h(2-4)])
  moreover have "\<exists>root. frontier_root (zk_compress X) 0 ACCEPTABLE_MAX_HEIGHT (vouchers s) = Some root" "mmr_len (vouchers s) = length vs"
    unfolding assms(1) using frontier_root_peaks [OF h(1,3,4)] mmr_len_peaks [OF h(1,3,4)] by auto
  ultimately show ?thesis
    using assms(3) by (auto simp: leader_apply_header_def leader_update_epoch_def snapshot_vouchers_def update_claimable_rewards_def add_voucher_def)
qed

lemma leader_claim_execute_iff:
  "leader_claim_execute X h amount op ctx = ok (ctx', ev) \<longleftrightarrow>
     (\<exists>u us pos. leader_claim_utxo X op amount = Some u \<and> store_insert (note_tree X) (utxo_id X u) u (lcc_utxos ctx) = Some (us, pos) \<and>
       ctx' = \<lparr>lcc_nullifiers = insert (voucher_nullifier op) (lcc_nullifiers ctx), lcc_claimable = wrapping_sub 64 (lcc_claimable ctx) amount, lcc_utxos = us\<rparr> \<and>
       ev = [\<lparr>ev_tx_hash = h, ev_op_id = utxo_op_id u, ev_payload = LeaderRewardClaimed (voucher_nullifier op) u\<rparr>])"
  by (auto simp: leader_claim_execute_def bind_Some_iff)

text \<open>Runs: headers, rewards collected by blocks, and claims, which are labelled with the nullifier and the amount paid.\<close>

inductive leader_run :: "extern \<Rightarrow> nat list \<Rightarrow> (nat \<times> nat) list \<Rightarrow> leader_state \<Rightarrow> bool" for X where
  leader_start: "leader_run X [] [] leader_new"
| leader_header: "leader_run X collected paid s \<Longrightarrow> leader_apply_header X epoch cm s = ok s' \<Longrightarrow> leader_run X collected paid s'"
| leader_collect: "leader_run X collected paid s \<Longrightarrow> leader_run X (r # collected) paid (add_pending_rewards r s)"
| leader_claimed: "leader_run X collected paid s \<Longrightarrow> leader_claim_verify (nullifiers s) (snapshot_root s) h op sg = ok d \<Longrightarrow>
    leader_claim_execute X h (reward_amount s) op \<lparr>lcc_nullifiers = nullifiers s, lcc_claimable = claimable_rewards s, lcc_utxos = us\<rparr> = ok (ctx, ev) \<Longrightarrow>
    leader_run X collected ((voucher_nullifier op, reward_amount s) # paid) (s\<lparr>nullifiers := lcc_nullifiers ctx, claimable_rewards := lcc_claimable ctx\<rparr>)"

text \<open>
  C8: Over any run, a voucher nullifier is paid at most once, the nullifiers recorded are exactly those paid, and what was paid together with what remains
  in the pools is at most what the blocks collected.
\<close>

theorem leader_rewards_paid_once:
  assumes "leader_run X collected paid s"
  shows "distinct (map fst paid) \<and> nullifiers s = fst ` set paid \<and>
    sum_list (map snd paid) + claimable_rewards s + pending_rewards s \<le> sum_list collected"
  using assms
proof induction
  case leader_start
  then show ?case by (simp add: leader_new_def)
next
  case (leader_header collected paid s epoch cm s')
  then show ?case using leader_header_rewards [OF leader_header(2)] by simp
next
  case (leader_collect collected paid s r)
  then show ?case using wrapping_add_le [of 64 "pending_rewards s" r] by (simp add: add_pending_rewards_def)
next
  case (leader_claimed collected paid s h op sg d us ctx ev)
  then have "voucher_nullifier op \<notin> nullifiers s" by (simp add: leader_claim_verify_def bind_res_ok_iff)
  moreover have "lcc_nullifiers ctx = insert (voucher_nullifier op) (nullifiers s)" "lcc_claimable ctx = claimable_rewards s - reward_amount s"
    using leader_claimed(3) reward_amount_le [of s] by (auto simp: leader_claim_execute_iff)
  ultimately show ?case using leader_claimed(4) reward_amount_le [of s] by (simp add: image_iff)
qed

text \<open>A run with one voucher, one reward of 10, and its claim in the next epoch.\<close>

theorem leader_rewards_paid_once_witness:
  "\<exists>s nf. leader_run plain_extern [10] [(nf, 10)] s \<and> nullifiers s = {nf} \<and> claimable_rewards s + pending_rewards s = 0"
proof -
  have e: "vouchers leader_new = peaks (zk_compress plain_extern) ACCEPTABLE_MAX_HEIGHT []" "leader_epoch leader_new \<le> 0"
    by (simp_all add: leader_new_def peaks_def)
  obtain s1 where s1: "leader_apply_header plain_extern 0 7 leader_new = ok s1" "vouchers s1 = peaks (zk_compress plain_extern) ACCEPTABLE_MAX_HEIGHT [7]"
      "leader_epoch s1 = 0" "nullifiers s1 = {}" "claimable_rewards s1 = 0" "pending_rewards s1 = 0"
    using leader_header_returns [OF e(1) _ e(2), of 7] by (auto simp: leader_new_def)
  let ?s2 = "add_pending_rewards 10 s1"
  obtain s3 where s3: "leader_apply_header plain_extern 1 8 ?s2 = ok s3" "nullifiers s3 = {}" "claimable_rewards s3 = 10" "pending_rewards s3 = 0" "snapshot_count s3 = 1"
    using leader_header_returns [of ?s2 plain_extern "[7]" 1 8] s1 by (auto simp: add_pending_rewards_def wrapping_add_def)
  then have r: "reward_amount s3 = 10" by (simp add: reward_amount_def checked_div_def)
  let ?op = "\<lparr>rewards_root = snapshot_root s3, voucher_nullifier = 5, lc_pk = 3\<rparr>"
  have v: "leader_claim_verify (nullifiers s3) (snapshot_root s3) 99 ?op 0 = ok \<lparr>dl_proof = 0, dl_inputs = [5, snapshot_root s3, hash_to_fr 99]\<rparr>"
    using s3 by (simp add: leader_claim_verify_def bind_ensure)
  obtain u where u: "leader_claim_utxo plain_extern ?op 10 = Some u"
    by (auto simp: leader_claim_utxo_def leader_claim_op_id_def leader_claim_c_def conv_c_def pair_c_def fr_c_def pair_encode_def uint_encode_def)
  obtain us' pos where us: "store_insert (note_tree plain_extern) (utxo_id plain_extern u) u (store_new :: utxos) = Some (us', pos)"
    using store_insert_fresh [OF store_new_ok [of "note_tree plain_extern"], of "utxo_id plain_extern u" u]
    by (auto simp: store_room_def store_size_def store_new_def tree_size_def tree_new_def store_get_def)
  have "leader_run plain_extern [10] [(5, 10)] (s3\<lparr>nullifiers := {5}, claimable_rewards := 0\<rparr>)"
    using leader_claimed [OF leader_header [OF leader_collect [OF leader_header [OF leader_start s1(1)]] s3(1)] v, of store_new] r u us s3
    by (simp add: leader_claim_execute_def)
  then show ?thesis using leader_rewards_paid_once by fastforce
qed

end
