(* ===== verification/Markets.thy ===== *)
theory Markets
  imports Crypto
begin

text \<open>
  Prices, rewards and difficulties: gas amounts (\<^verbatim>\<open>core/src/mantle/gas.rs\<close>), the execution and storage markets
  (\<^verbatim>\<open>ledger/src/cryptarchia/mod.rs\<close>), block rewards and the proof-of-work parameters (\<^verbatim>\<open>ledger/src/config.rs\<close>), and the two
  difficulty controllers (\<^verbatim>\<open>ledger/src/mantle/pow/\<close>).

  The plain operators of the source wrap, and are written so; the lemmas show for which parameters they are exact.
  \<^verbatim>\<open>BigUint\<close> is \<^typ>\<open>nat\<close>; its \<^verbatim>\<open>nth_root\<close> is a parameter.
\<close>

subsection \<open>Gas\<close>

datatype gas_overflow = GasOverflow

definition gas_checked_add :: "nat \<Rightarrow> nat \<Rightarrow> (gas_overflow + nat) option" where
  "gas_checked_add a b = ok_or GasOverflow (checked_add 64 a b)"

definition gas_checked_mul :: "nat \<Rightarrow> nat \<Rightarrow> (gas_overflow + nat) option" where
  "gas_checked_mul a b = ok_or GasOverflow (checked_mul 64 a b)"

definition gas_cost_calculate :: "nat \<Rightarrow> nat \<Rightarrow> (gas_overflow + nat) option" where
  "gas_cost_calculate gas price = ok_or GasOverflow (checked_mul 64 gas price)"

definition cost_checked_add :: "nat \<Rightarrow> nat \<Rightarrow> (gas_overflow + nat) option" where
  "cost_checked_add a b = ok_or GasOverflow (checked_add 64 a b)"

definition cost_checked_sub :: "nat \<Rightarrow> nat \<Rightarrow> (gas_overflow + nat) option" where
  "cost_checked_sub a b = ok_or GasOverflow (checked_sub a b)"

record gas_profile =
  gp_transfer :: nat
  gp_channel_config :: nat
  gp_channel_inscribe :: nat
  gp_channel_deposit :: nat
  gp_channel_withdraw :: nat
  gp_channel_transfer :: nat
  gp_sdp_declare :: nat
  gp_sdp_withdraw :: nat
  gp_sdp_active :: nat
  gp_leader_claim :: nat
  gp_claim_pow_reward :: nat

subsection \<open>The markets\<close>

record ratio =
  numerator :: nat
  denominator :: nat

definition proper_fraction_new :: "nat \<Rightarrow> nat \<Rightarrow> ratio option" where
  "proper_fraction_new n d = (if n = 0 \<or> d \<le> n then None else Some \<lparr>numerator = n, denominator = d\<rparr>)"

definition max_gas_per_block_new :: "nat \<Rightarrow> nat option" where
  "max_gas_per_block_new gas = (if 2 \<le> gas then Some gas else None)"

definition gas_target :: "nat \<Rightarrow> nat" where
  "gas_target max_gas = max_gas div 2"

record execution_market_config =
  max_gas_per_block :: nat
  fee_adjustment_rate :: ratio
  execution_smoothing :: ratio

record storage_market_config =
  max_adjustment_factor :: ratio
  storage_smoothing :: ratio

definition update_execution_market :: "execution_market_config \<Rightarrow> nat \<Rightarrow> nat \<Rightarrow> nat \<Rightarrow> nat \<times> nat" where
  "update_execution_market market consumed average base_fee =
     (let q_numerator = numerator (execution_smoothing market);
          q_denominator = denominator (execution_smoothing market);
          avg_numerator = wrapping_add 128 (wrapping_mul 128 (wrapping_sub 128 q_denominator q_numerator) consumed)
                            (wrapping_mul 128 q_numerator average);
          new_average = avg_numerator div q_denominator mod 2 ^ 64;
          phi_numerator = numerator (fee_adjustment_rate market);
          phi_denominator = denominator (fee_adjustment_rate market);
          target = gas_target (max_gas_per_block market);
          fee_numerator = wrapping_mul 128 base_fee
            (wrapping_add 128 (wrapping_mul 128 (wrapping_sub 128 phi_denominator phi_numerator) target)
               (wrapping_mul 128 phi_numerator new_average));
          new_base_fee = div_ceil fee_numerator (wrapping_mul 128 phi_denominator target) mod 2 ^ 64
      in (new_average, new_base_fee))"

definition update_storage_market :: "storage_market_config \<Rightarrow> nat \<Rightarrow> nat \<Rightarrow> nat \<Rightarrow> nat \<times> nat" where
  "update_storage_market market price consumed ema =
     (let beta_numerator = numerator (storage_smoothing market);
          beta_denominator = denominator (storage_smoothing market);
          new_ema = wrapping_add 128 (wrapping_mul 128 beta_numerator consumed)
                      (wrapping_mul 128 (wrapping_sub 128 beta_denominator beta_numerator) ema)
                    div beta_denominator mod 2 ^ 64
      in if new_ema = 0 then (price, new_ema)
         else let alpha_numerator = numerator (max_adjustment_factor market);
                  alpha_denominator = denominator (max_adjustment_factor market);
                  clamp_down = wrapping_sub 128 alpha_denominator alpha_numerator;
                  clamp_up = wrapping_add 128 alpha_denominator alpha_numerator;
                  comparator = wrapping_mul 128 alpha_denominator consumed;
                  new_price =
                    (if comparator \<le> wrapping_mul 128 clamp_down new_ema
                     then div_ceil (wrapping_mul 128 price clamp_down) alpha_denominator
                     else if wrapping_mul 128 clamp_up new_ema \<le> comparator
                     then div_ceil (wrapping_mul 128 price clamp_up) alpha_denominator
                     else div_ceil (wrapping_mul 128 price consumed) new_ema) mod 2 ^ 64
              in (new_price, new_ema))"

subsection \<open>Block rewards\<close>

record block_rewards_config =
  stake_target :: nat
  emission_factor_scale :: nat
  fee_average_numerator :: nat
  max_emission_per_block :: ratio
  blend_share :: ratio

definition block_rewards_new :: "nat \<Rightarrow> nat \<Rightarrow> nat \<Rightarrow> ratio \<Rightarrow> ratio \<Rightarrow> block_rewards_config option" where
  "block_rewards_new target scale fee_average emission share =
     (let bound = do { bound \<leftarrow> checked_mul 128 (denominator emission) scale; checked_mul 128 bound (denominator share) }
      in case bound of
           Some bound \<Rightarrow>
             if bound \<le> (2 ^ 128 - 1) div (2 ^ 64 - 1)
             then Some \<lparr>stake_target = target, emission_factor_scale = scale, fee_average_numerator = fee_average,
                    max_emission_per_block = emission, blend_share = share\<rparr>
             else None
         | None \<Rightarrow> None)"

definition emission_weight :: "block_rewards_config \<Rightarrow> nat \<Rightarrow> nat \<Rightarrow> nat" where
  "emission_weight c pooled_fees total_stake =
     min (saturating_add 128 (stake_target c) (saturating_mul 128 (fee_average_numerator c) pooled_fees) - total_stake)
       (emission_factor_scale c)"

definition rewards :: "block_rewards_config \<Rightarrow> nat \<Rightarrow> nat \<Rightarrow> nat \<Rightarrow> (nat \<times> nat) option" where
  "rewards c pooled_fees block_fee total_stake =
     (let scale = emission_factor_scale c;
          weight = emission_weight c pooled_fees total_stake;
          emission_denominator = denominator (max_emission_per_block c);
          reward_numerator =
            wrapping_add 128 (wrapping_mul 128 (numerator (max_emission_per_block c)) weight)
              (wrapping_mul 128 (wrapping_mul 128 emission_denominator (wrapping_sub 128 scale weight)) block_fee);
          blend_numerator = numerator (blend_share c);
          share_denominator = denominator (blend_share c);
          denom = saturating_mul 128 (saturating_mul 128 emission_denominator scale) share_denominator;
          share = (\<lambda>numer. try_from 64 (wrapping_mul 128 reward_numerator numer div denom))
      in do { blend \<leftarrow> share blend_numerator;
              leader \<leftarrow> share (wrapping_sub 128 share_denominator blend_numerator);
              Some (blend, leader) })"

subsection \<open>Proof-of-work parameters\<close>

type_synonym modulus_shift = nat

definition MODULUS_SHIFT_MAX :: nat where
  "MODULUS_SHIFT_MAX = 253"

definition modulus_shift_try_new :: "nat \<Rightarrow> modulus_shift option" where
  "modulus_shift_try_new shift = (if 1 \<le> shift \<and> shift \<le> MODULUS_SHIFT_MAX then Some shift else None)"

definition shift_target :: "modulus_shift \<Rightarrow> nat" where
  "shift_target shift = drop_bit shift fr_modulus"

record reward_pow_config =
  minimum_difficulty :: modulus_shift
  ema_smoothing_factor :: nat
  ema_smoothing_precision :: nat
  target_claims_per_block :: nat
  rate_num :: nat
  rate_den :: nat
  target_claim_per_block :: nat
  pow_share :: nat
  share_den :: nat
  slot_window :: nat

datatype reward_pow_config_error =
    EmaSmoothingFactorNotBelowPrecision nat nat
  | ClaimRateScaleOverflow nat nat
  | PowShareExceedsDenominator nat nat
  | TargetCapNotAboveFloor modulus_shift nat

definition checked_reward_target_floor :: "reward_pow_config \<Rightarrow> (reward_pow_config_error + nat) option" where
  "checked_reward_target_floor c =
     (let factor = ema_smoothing_factor c; precision = ema_smoothing_precision c;
          weight = do { w \<leftarrow> checked_sub precision factor; if w = 0 then None else Some w }
      in bind_res (ok_or (EmaSmoothingFactorNotBelowPrecision factor precision) weight) (\<lambda>w. ok (max (div_ceil factor w) 1)))"

definition reward_target_floor :: "reward_pow_config \<Rightarrow> nat option" where
  "reward_target_floor c =
     (case checked_reward_target_floor c of Some (Inr floor) \<Rightarrow> Some floor | _ \<Rightarrow> None)"

definition checked_claim_rate_scale :: "reward_pow_config \<Rightarrow> (reward_pow_config_error + nat) option" where
  "checked_claim_rate_scale c =
     bind_res (ok_or (ClaimRateScaleOverflow (rate_den c) (target_claim_per_block c)) (checked_mul 64 (rate_den c) (target_claim_per_block c)))
       (\<lambda>product. if product = 0 then None else ok product)"

definition claim_rate_scale :: "reward_pow_config \<Rightarrow> nat option" where
  "claim_rate_scale c = (case checked_claim_rate_scale c of Some (Inr scale) \<Rightarrow> Some scale | _ \<Rightarrow> None)"

definition validate_reward_pow :: "reward_pow_config \<Rightarrow> (reward_pow_config_error + unit) option" where
  "validate_reward_pow c =
     bind_res (ensure (ema_smoothing_factor c < ema_smoothing_precision c)
                (EmaSmoothingFactorNotBelowPrecision (ema_smoothing_factor c) (ema_smoothing_precision c))) (\<lambda>_.
     bind_res (ensure (pow_share c \<le> share_den c) (PowShareExceedsDenominator (pow_share c) (share_den c))) (\<lambda>_.
     bind_res (checked_reward_target_floor c) (\<lambda>floor.
     bind_res (ensure (floor < shift_target (minimum_difficulty c)) (TargetCapNotAboveFloor (minimum_difficulty c) floor)) (\<lambda>_.
     bind_res (checked_claim_rate_scale c) (\<lambda>_. ok ())))))"

definition pow_fee_share :: "reward_pow_config \<Rightarrow> nat \<Rightarrow> nat option" where
  "pow_fee_share c collected_fees =
     (if pow_share c \<le> share_den c
      then do { product \<leftarrow> checked_mul 128 collected_fees (pow_share c);
                share \<leftarrow> checked_div product (share_den c);
                try_from 64 share }
      else None)"

definition claim_rate_denominator :: "reward_pow_config \<Rightarrow> nat \<Rightarrow> nat option" where
  "claim_rate_denominator c expected_blocks =
     do { configured \<leftarrow> claim_rate_scale c;
          let denom = wrapping_mul 128 configured expected_blocks;
          if denom = 0 then None else Some denom }"

definition compute_epoch_pow_reward :: "reward_pow_config \<Rightarrow> nat \<Rightarrow> nat \<Rightarrow> nat option" where
  "compute_epoch_pow_reward c expected_blocks pool =
     do { denom \<leftarrow> claim_rate_denominator c expected_blocks;
          let reward = wrapping_mul 128 pool (rate_num c) div denom;
          Some (if reward < 2 ^ 64 then reward else 2 ^ 64 - 1) }"

subsection \<open>Difficulty controllers\<close>

definition compute_new_reward_difficulty :: "nat \<Rightarrow> nat \<Rightarrow> reward_pow_config \<Rightarrow> nat option" where
  "compute_new_reward_difficulty claims current c =
     do { observation_weight \<leftarrow> checked_sub (ema_smoothing_precision c) (ema_smoothing_factor c);
          let demand_numerator = max (observation_weight * claims + ema_smoothing_factor c * target_claims_per_block c) 1;
          let demand_denominator = current * ema_smoothing_precision c;
          let new_target = target_claims_per_block c * demand_denominator div demand_numerator;
          target_floor \<leftarrow> reward_target_floor c;
          Some (min (max new_target target_floor) (shift_target (minimum_difficulty c)) mod fr_modulus) }"

record blend_pow_config =
  base_difficulty :: modulus_shift
  target_transactions_per_block :: nat
  max_step :: nat
  damping_num :: nat
  damping_den_offset :: nat

record closed_epoch_load =
  load_transactions :: nat
  load_blocks :: nat

definition damping_exponent :: "blend_pow_config \<Rightarrow> (nat \<times> nat) option" where
  "damping_exponent c = do { d \<leftarrow> checked_add 32 (damping_num c) (damping_den_offset c); if d = 0 then None else Some (damping_num c, d) }"

definition compute_epoch_blend_difficulty ::
  "(nat \<Rightarrow> nat \<Rightarrow> nat) \<Rightarrow> closed_epoch_load \<Rightarrow> nat \<Rightarrow> blend_pow_config \<Rightarrow> nat option" where
  "compute_epoch_blend_difficulty nth_root load previous c =
     (let low = previous div max_step c; high = previous * max_step c
      in if load_transactions load = 0 then Some (fr_from_biguint_saturating high)
         else do { (a, b) \<leftarrow> damping_exponent c;
                   let denom = target_transactions_per_block c * load_blocks load;
                   let radicand = shift_target (base_difficulty c) ^ b * denom ^ a div load_transactions load ^ a;
                   let target = nth_root b radicand;
                   Some (fr_from_biguint_saturating (max low (min target high))) })"

subsection \<open>Block rewards\<close>

lemma block_rewards_new_iff:
  "block_rewards_new target scale fee_average emission share = Some c \<longleftrightarrow>
     denominator emission * scale < 2 ^ 128 \<and> denominator emission * scale * denominator share \<le> 2 ^ 64 + 1 \<and>
     c = \<lparr>stake_target = target, emission_factor_scale = scale, fee_average_numerator = fee_average,
          max_emission_per_block = emission, blend_share = share\<rparr>"
  by (auto simp: block_rewards_new_def Let_def checked_mul_def split: if_splits option.splits)

lemma proper_fraction_new_iff:
  "proper_fraction_new n d = Some r \<longleftrightarrow> 0 < n \<and> n < d \<and> r = \<lparr>numerator = n, denominator = d\<rparr>"
  by (auto simp: proper_fraction_new_def)

text \<open>The reward before it is split, as a fraction of the emission's denominator times the scale.\<close>

definition reward_numerator :: "block_rewards_config \<Rightarrow> nat \<Rightarrow> nat \<Rightarrow> nat \<Rightarrow> nat" where
  "reward_numerator c pooled_fees block_fee total_stake =
     (let w = emission_weight c pooled_fees total_stake
      in numerator (max_emission_per_block c) * w
         + denominator (max_emission_per_block c) * (emission_factor_scale c - w) * block_fee)"

lemma emission_weight_le: "emission_weight c pooled stake \<le> emission_factor_scale c"
  by (simp add: emission_weight_def)

lemma reward_numerator_le:
  assumes "numerator (max_emission_per_block c) \<le> denominator (max_emission_per_block c) * m" "fee \<le> m"
  shows "reward_numerator c pooled fee stake \<le> denominator (max_emission_per_block c) * emission_factor_scale c * m"
proof -
  let ?w = "emission_weight c pooled stake" and ?d = "denominator (max_emission_per_block c)" and ?s = "emission_factor_scale c"
  have "numerator (max_emission_per_block c) * ?w + ?d * (?s - ?w) * fee \<le> ?d * m * ?w + ?d * (?s - ?w) * m"
    using assms by (intro add_mono mult_le_mono) auto
  also have "\<dots> = ?d * (?w + (?s - ?w)) * m" by (simp add: algebra_simps)
  also have "?w + (?s - ?w) = ?s" using emission_weight_le by simp
  finally show ?thesis by (simp add: reward_numerator_def Let_def)
qed

lemma rewards_exact:
  assumes "block_rewards_new target scale fee_average emission share = Some c" "proper_fraction_new n d = Some share"
    and "0 < scale" "0 < denominator emission" "numerator emission < 2 ^ 32" "fee < 2 ^ 64"
  shows "rewards c pooled fee stake =
    Some (reward_numerator c pooled fee stake * n div (denominator emission * scale * d),
          reward_numerator c pooled fee stake * (d - n) div (denominator emission * scale * d))"
proof -
  let ?e = "denominator emission" and ?w = "emission_weight c pooled stake" and ?r = "reward_numerator c pooled fee stake"
  have c: "emission_factor_scale c = scale" "max_emission_per_block c = emission" "blend_share c = share"
      and b: "?e * scale < 2 ^ 128" "?e * scale * d \<le> 2 ^ 64 + 1" and f: "numerator share = n" "denominator share = d" "0 < n" "n < d"
    using assms(1,2) by (auto simp: block_rewards_new_iff proper_fraction_new_iff)
  have w: "?w \<le> scale" using emission_weight_le [of c pooled stake] c by simp
  have r: "?r = numerator emission * ?w + ?e * (scale - ?w) * fee" by (simp add: reward_numerator_def Let_def c)
  have "numerator emission \<le> ?e * (2 ^ 64 - 1)" using assms(4,5) by (cases ?e) auto
  then have "?r \<le> ?e * scale * (2 ^ 64 - 1)" using reward_numerator_le [of c "2 ^ 64 - 1" fee pooled stake] assms(6) c by simp
  then have rd: "?r * m \<le> ?e * scale * d * (2 ^ 64 - 1)" if "m \<le> d" for m
    using mult_le_mono [of ?r "?e * scale * (2 ^ 64 - 1)", OF _ that] by (simp add: ac_simps)
  have "?e * scale * d * (2 ^ 64 - 1) \<le> (2 ^ 64 + 1) * (2 ^ 64 - 1)" using b(2) by (rule mult_le_mono1)
  also have "\<dots> < 2 ^ 128" by simp
  finally have top: "?e * scale * d * (2 ^ 64 - 1) < 2 ^ 128" .
  have rs: "?r * m < 2 ^ 128" if "m \<le> d" for m using rd [OF that] top by simp
  have r1: "?r < 2 ^ 128" using rs [of 1] f by simp
  then have parts: "numerator emission * ?w < 2 ^ 128" "?e * (scale - ?w) * fee < 2 ^ 128" unfolding r by simp_all
  have es: "?e * (scale - ?w) < 2 ^ 128" using b(1) by (meson diff_le_self le_less_trans mult_le_mono2)
  have den: "?e * scale * d < 2 ^ 128" "0 < ?e * scale * d" using b(2) assms(3,4) f by auto
  have sat: "saturating_mul 128 (saturating_mul 128 ?e scale) d = ?e * scale * d"
    using b(1) den(1) by (simp add: saturating_mul_def)
  have num: "wrapping_add 128 (wrapping_mul 128 (numerator emission) ?w)
      (wrapping_mul 128 (wrapping_mul 128 ?e (wrapping_sub 128 scale ?w)) fee) = ?r"
    using parts es w r1 unfolding r by (simp add: wrapping_mul_exact wrapping_add_exact)
  have "?r * m div (?e * scale * d) < 2 ^ 64" if "m \<le> d" for m
  proof -
    have "?r * m div (?e * scale * d) \<le> ?e * scale * d * (2 ^ 64 - 1) div (?e * scale * d)" using rd [OF that] by (rule div_le_mono)
    also have "\<dots> = 2 ^ 64 - 1" using den(2) by (metis nonzero_mult_div_cancel_left not_less0)
    finally show ?thesis by simp
  qed
  then show ?thesis
    unfolding rewards_def Let_def c f num sat using rs f(4) by (simp add: wrapping_mul_exact try_from_def)
qed

subsection \<open>Difficulty controllers\<close>

lemma validate_reward_pow_iff:
  "validate_reward_pow c = ok u \<longleftrightarrow>
     ema_smoothing_factor c < ema_smoothing_precision c \<and> pow_share c \<le> share_den c \<and>
     max (div_ceil (ema_smoothing_factor c) (ema_smoothing_precision c - ema_smoothing_factor c)) 1 < shift_target (minimum_difficulty c) \<and>
     0 < rate_den c * target_claim_per_block c \<and> rate_den c * target_claim_per_block c < 2 ^ 64"
  by (auto simp: validate_reward_pow_def bind_res_ok_iff checked_reward_target_floor_def checked_claim_rate_scale_def Let_def
      checked_sub_def checked_mul_def ok_or_def split: if_splits option.splits)

lemma reward_target_floor_Some:
  "ema_smoothing_factor c < ema_smoothing_precision c \<Longrightarrow>
     reward_target_floor c = Some (max (div_ceil (ema_smoothing_factor c) (ema_smoothing_precision c - ema_smoothing_factor c)) 1)"
  by (simp add: reward_target_floor_def checked_reward_target_floor_def Let_def checked_sub_def)

lemma shift_target_less: "0 < shift \<Longrightarrow> shift_target shift < fr_modulus"
  using one_less_power [of "2 :: nat" shift] by (simp add: shift_target_def drop_bit_eq_div fr_modulus_def div_less_dividend)

text \<open>The share of the fees that refills the pool never exceeds them.\<close>

lemma pow_fee_share_le:
  assumes "validate_reward_pow c = ok ()" "0 < share_den c" "share_den c < 2 ^ 64" "fees < 2 ^ 64"
  shows "\<exists>share. pow_fee_share c fees = Some share \<and> share \<le> fees"
proof -
  have p: "pow_share c \<le> share_den c" using assms(1) by (simp add: validate_reward_pow_iff)
  have "fees * pow_share c \<le> (2 ^ 64 - 1) * (2 ^ 64 - 1)" using assms(3,4) p by (intro mult_le_mono) auto
  also have "\<dots> < (2 ^ 128 :: nat)" by simp
  finally have "fees * pow_share c < 2 ^ 128" .
  moreover have "fees * pow_share c div share_den c \<le> fees"
    using p assms(2) by (metis div_le_mono mult_le_mono2 nonzero_mult_div_cancel_right not_less0)
  ultimately show ?thesis using p assms(2,4) by (simp add: pow_fee_share_def checked_mul_def checked_div_def try_from_def)
qed

text \<open>The Blend difficulty moves by at most the configured factor, whatever the root function returns.\<close>

lemma blend_difficulty_bounded:
  assumes "compute_epoch_blend_difficulty nth_root load previous c = Some d" "previous < fr_modulus" "0 < max_step c"
  shows "previous div max_step c \<le> d" "d \<le> previous * max_step c" "d < fr_modulus"
proof -
  have l: "previous div max_step c \<le> previous" "previous \<le> previous * max_step c" using assms(3) by auto
  note ll = le_trans [OF l]
  have clamp: "\<exists>t. min (max (previous div max_step c) (min x (previous * max_step c))) m = min t m \<and>
      previous div max_step c \<le> t \<and> t \<le> previous * max_step c" for x m
    using ll by (intro exI [of _ "max (previous div max_step c) (min x (previous * max_step c))"]) auto
  have "\<exists>t. d = min t (fr_modulus - 1) \<and> previous div max_step c \<le> t \<and> t \<le> previous * max_step c"
  proof (cases "load_transactions load = 0")
    case True
    then show ?thesis using assms(1) ll
      by (intro exI [of _ "previous * max_step c"]) (auto simp: compute_epoch_blend_difficulty_def Let_def fr_from_biguint_saturating_def)
  next
    case False
    then show ?thesis using assms(1) clamp
      by (auto simp: compute_epoch_blend_difficulty_def Let_def bind_Some_iff fr_from_biguint_saturating_def)
  qed
  moreover have "previous div max_step c \<le> fr_modulus - 1" using le_less_trans [OF l(1) assms(2)] by simp
  ultimately show "previous div max_step c \<le> d" "d \<le> previous * max_step c" "d < fr_modulus"
    by (auto simp: fr_modulus_def)
qed

subsection \<open>The markets\<close>

definition fraction_ok :: "ratio \<Rightarrow> bool" where
  "fraction_ok r \<longleftrightarrow> 0 < numerator r \<and> numerator r < denominator r \<and> denominator r < 2 ^ 32"

lemma weighted_le:
  fixes n d a b m :: nat
  assumes "n \<le> d" "a \<le> m" "b \<le> m"
  shows "(d - n) * a + n * b \<le> d * m"
proof -
  have "(d - n) * a + n * b \<le> (d - n) * m + n * m" using assms by (intro add_mono mult_le_mono) auto
  also have "\<dots> = d * m" using assms(1) by (simp add: add_mult_distrib [symmetric])
  finally show ?thesis .
qed

lemma small_product: "(a :: nat) < 2 ^ 32 \<Longrightarrow> b < 2 ^ 64 \<Longrightarrow> a * b < 2 ^ 96"
  using mult_strict_mono [of a "2 ^ 32" b "2 ^ 64"] by (cases "b = 0") simp_all

text \<open>A weighted average, as both markets compute it, is exact and stays within its arguments.\<close>

lemma weighted_average:
  assumes "fraction_ok r" "a \<le> m" "b \<le> m" "m < 2 ^ 64"
  shows "wrapping_add 128 (wrapping_mul 128 (wrapping_sub 128 (denominator r) (numerator r)) a) (wrapping_mul 128 (numerator r) b)
      div denominator r mod 2 ^ 64 = ((denominator r - numerator r) * a + numerator r * b) div denominator r"
    and "((denominator r - numerator r) * a + numerator r * b) div denominator r \<le> m"
proof -
  let ?n = "numerator r" and ?d = "denominator r"
  have r: "0 < ?n" "?n < ?d" "?d < 2 ^ 32" using assms(1) by (auto simp: fraction_ok_def)
  have s: "(?d - ?n) * a + ?n * b \<le> ?d * m" using weighted_le [of ?n ?d a m b] r assms(2,3) by simp
  then show m: "((?d - ?n) * a + ?n * b) div ?d \<le> m" using div_le_mono [OF s, of ?d] r by simp
  have "?d * m < 2 ^ 96" using small_product r assms(4) by blast
  then have "(?d - ?n) * a + ?n * b < 2 ^ 128" using s by simp
  then show "wrapping_add 128 (wrapping_mul 128 (wrapping_sub 128 ?d ?n) a) (wrapping_mul 128 ?n b) div ?d mod 2 ^ 64
      = ((?d - ?n) * a + ?n * b) div ?d"
    using r m assms(4) by (simp add: wrapping_mul_exact wrapping_add_exact)
qed

lemma execution_market_exact:
  assumes "fraction_ok (fee_adjustment_rate m)" "fraction_ok (execution_smoothing m)" "2 \<le> max_gas_per_block m" "max_gas_per_block m < 2 ^ 64"
    and "consumed \<le> max_gas_per_block m" "average \<le> max_gas_per_block m"
    and "3 * fee < 2 ^ 64" "fee * denominator (fee_adjustment_rate m) * max_gas_per_block m < 2 ^ 128"
    and "update_execution_market m consumed average fee = (average', fee')"
  shows "average' = ((denominator (execution_smoothing m) - numerator (execution_smoothing m)) * consumed
           + numerator (execution_smoothing m) * average) div denominator (execution_smoothing m)"
    and "average' \<le> max_gas_per_block m"
    and "fee' = div_ceil (fee * ((denominator (fee_adjustment_rate m) - numerator (fee_adjustment_rate m)) * gas_target (max_gas_per_block m)
           + numerator (fee_adjustment_rate m) * average')) (denominator (fee_adjustment_rate m) * gas_target (max_gas_per_block m))"
proof -
  let ?q = "execution_smoothing m" and ?n = "numerator (fee_adjustment_rate m)" and ?d = "denominator (fee_adjustment_rate m)"
  let ?max = "max_gas_per_block m" and ?t = "gas_target (max_gas_per_block m)"
  let ?u = "(?d - ?n) * ?t + ?n * average'"
  show avg: "average' = ((denominator ?q - numerator ?q) * consumed + numerator ?q * average) div denominator ?q"
    using assms(9) weighted_average(1) [OF assms(2,5,6,4)] by (simp add: update_execution_market_def Let_def)
  show le: "average' \<le> ?max" unfolding avg by (rule weighted_average(2) [OF assms(2,5,6,4)])
  have r: "0 < ?n" "?n < ?d" "?d < 2 ^ 32" using assms(1) by (auto simp: fraction_ok_def)
  have t: "?t \<le> ?max" "0 < ?t" "?max \<le> 3 * ?t" using assms(3) by (auto simp: gas_target_def)
  have u: "?u \<le> ?d * ?max" using weighted_le [of ?n ?d ?t ?max average'] r t(1) le by simp
  moreover have "?d * ?max < 2 ^ 96" using small_product r assms(4) by blast
  ultimately have u': "?u < 2 ^ 128" by simp
  have "fee * ?u \<le> fee * ?d * ?max" using u by (simp add: mult.assoc)
  from le_less_trans [OF this assms(8)] have fu: "fee * ?u < 2 ^ 128" .
  have "?d * ?t < 2 ^ 96" using mult_le_mono2 [OF t(1), of ?d] \<open>?d * ?max < 2 ^ 96\<close> by (rule le_less_trans)
  then have dt: "?d * ?t < 2 ^ 128" "0 < ?d * ?t" using r t(2) by auto
  have "div_ceil (fee * ?u) (?d * ?t) \<le> 3 * fee"
  proof -
    have "fee * ?u \<le> fee * (?d * (3 * ?t))" using u t(3) by (meson le_trans mult_le_mono2)
    then show ?thesis unfolding div_ceil_le_iff [OF dt(2)] by (simp add: ac_simps)
  qed
  then have small: "div_ceil (fee * ?u) (?d * ?t) < 2 ^ 64" using assms(7) by simp
  have "fee' = div_ceil (wrapping_mul 128 fee (wrapping_add 128 (wrapping_mul 128 (wrapping_sub 128 ?d ?n) ?t) (wrapping_mul 128 ?n average')))
      (wrapping_mul 128 ?d ?t) mod 2 ^ 64"
    using assms(9) by (auto simp: update_execution_market_def Let_def)
  also have "\<dots> = div_ceil (fee * ?u) (?d * ?t)"
    using r u' fu dt(1) small by (simp add: wrapping_mul_exact wrapping_add_exact)
  finally show "fee' = div_ceil (fee * ?u) (?d * ?t)" .
qed

lemma storage_market_exact:
  assumes "fraction_ok (max_adjustment_factor m)" "fraction_ok (storage_smoothing m)"
    and "consumed < 2 ^ 64" "ema < 2 ^ 64" "2 * price < 2 ^ 64"
    and "update_storage_market m price consumed ema = (price', ema')"
  defines "n \<equiv> numerator (max_adjustment_factor m)" and "d \<equiv> denominator (max_adjustment_factor m)"
  shows "ema' = (numerator (storage_smoothing m) * consumed + (denominator (storage_smoothing m) - numerator (storage_smoothing m)) * ema)
           div denominator (storage_smoothing m)"
    and "ema' \<le> max consumed ema"
    and "price' = (if ema' = 0 then price
       else if d * consumed \<le> (d - n) * ema' then div_ceil (price * (d - n)) d
       else if (d + n) * ema' \<le> d * consumed then div_ceil (price * (d + n)) d
       else div_ceil (price * consumed) ema')"
proof -
  let ?b = "storage_smoothing m" and ?m = "max consumed ema"
  have m: "ema \<le> ?m" "consumed \<le> ?m" "?m < 2 ^ 64" using assms(3,4) by auto
  have comm: "wrapping_add 128 x y = wrapping_add 128 y x" for x y by (simp add: wrapping_add_def add.commute)
  show e: "ema' = (numerator ?b * consumed + (denominator ?b - numerator ?b) * ema) div denominator ?b"
    using assms(6) weighted_average(1) [OF assms(2) m]
    by (auto simp: update_storage_market_def Let_def comm [of "wrapping_mul 128 (numerator ?b) consumed"] add.commute split: if_splits)
  show le: "ema' \<le> ?m" unfolding e using weighted_average(2) [OF assms(2) m] by (simp add: add.commute)
  then have e64: "ema' < 2 ^ 64" using m(3) by (rule le_less_trans)
  have r: "0 < n" "n < d" "d < 2 ^ 32" using assms(1) by (auto simp: fraction_ok_def n_def d_def)
  have dn: "d - n < 2 ^ 32" "d + n < 2 ^ 33" using r by auto
  have p64: "price < 2 ^ 64" using assms(5) by simp
  have exact: "wrapping_sub 128 d n = d - n" "wrapping_add 128 d n = d + n" "wrapping_mul 128 d consumed = d * consumed"
      "wrapping_mul 128 (d - n) ema' = (d - n) * ema'" "wrapping_mul 128 price (d - n) = price * (d - n)"
    using r small_product [of d consumed] small_product [of "d - n" ema'] small_product [of "d - n" price] assms(3) e64 p64 dn
    by (simp_all add: wrapping_mul_exact wrapping_add_exact mult.commute)
  have big: "wrapping_mul 128 (d + n) x = (d + n) * x" "wrapping_mul 128 x (d + n) = x * (d + n)" if "x < 2 ^ 64" for x
  proof -
    have "(d + n) * x \<le> 2 ^ 33 * (2 ^ 64 - 1)" using dn(2) that by (intro mult_le_mono) auto
    then have "(d + n) * x < 2 ^ 128" by simp
    then show "wrapping_mul 128 (d + n) x = (d + n) * x" "wrapping_mul 128 x (d + n) = x * (d + n)"
      by (simp_all add: wrapping_mul_exact mult.commute)
  qed
  have "price * consumed \<le> (2 ^ 64 - 1) * (2 ^ 64 - 1)" using p64 assms(3) by (intro mult_le_mono) auto
  then have pc: "wrapping_mul 128 price consumed = price * consumed" by (intro wrapping_mul_exact) simp
  have small: "div_ceil (price * x) y mod 2 ^ 64 = div_ceil (price * x) y" if "x \<le> 2 * y" "0 < y" for x y
  proof -
    have "div_ceil (price * x) y \<le> 2 * price"
      unfolding div_ceil_le_iff [OF that(2)] using mult_le_mono2 [OF that(1), of price] by (simp add: ac_simps)
    then show ?thesis using assms(5) by simp
  qed
  have third: "consumed \<le> 2 * ema'" if "\<not> (d + n) * ema' \<le> d * consumed"
  proof -
    have "d * consumed < (d + n) * ema'" using that by simp
    also have "\<dots> \<le> d * (2 * ema')" using r by (simp add: add_mult_distrib)
    finally show ?thesis using r by simp
  qed
  have "price' = (if ema' = 0 then price
       else (if d * consumed \<le> (d - n) * ema' then div_ceil (price * (d - n)) d
       else if (d + n) * ema' \<le> d * consumed then div_ceil (price * (d + n)) d
       else div_ceil (price * consumed) ema') mod 2 ^ 64)"
    using assms(6) exact big [OF e64] big [OF p64] pc unfolding n_def d_def by (auto simp: update_storage_market_def Let_def split: if_splits)
  then show "price' = (if ema' = 0 then price
       else if d * consumed \<le> (d - n) * ema' then div_ceil (price * (d - n)) d
       else if (d + n) * ema' \<le> d * consumed then div_ceil (price * (d + n)) d
       else div_ceil (price * consumed) ema')"
    using small [of "d - n" d] small [of "d + n" d] small [of consumed ema'] third r by auto
qed

subsection \<open>Properties\<close>

lemma split_div_sum:
  fixes a b c :: nat
  shows "a div c + b div c \<le> (a + b) div c" "(a + b) div c \<le> a div c + b div c + 1"
proof -
  have "(a mod c + b mod c) div c \<le> 1"
  proof (cases "c = 0")
    case False
    then have "a mod c + b mod c < 2 * c" using mod_less_divisor [of c a] mod_less_divisor [of c b] by linarith
    then show ?thesis by (simp add: div_less_iff_less_mult False less_Suc_eq_le [symmetric])
  qed simp
  then show "a div c + b div c \<le> (a + b) div c" "(a + b) div c \<le> a div c + b div c + 1" by (simp_all add: div_add1_eq [of a b c])
qed

lemma reward_bound:
  fixes fee :: nat
  assumes "0 < denominator (max_emission_per_block c)" "0 < emission_factor_scale c"
  defines "m \<equiv> max (numerator (max_emission_per_block c) div denominator (max_emission_per_block c)) fee"
  shows "reward_numerator c pooled fee stake div (denominator (max_emission_per_block c) * emission_factor_scale c) \<le> m"
proof -
  let ?n = "numerator (max_emission_per_block c)" and ?d = "denominator (max_emission_per_block c)" and ?s = "emission_factor_scale c"
  let ?w = "emission_weight c pooled stake"
  have n: "?n < ?d * (m + 1)" using assms(1) div_less_iff_less_mult [of ?d ?n "m + 1"] by (simp add: m_def mult.commute less_Suc_eq_le)
  have f: "fee < m + 1" by (simp add: m_def)
  have "?n * ?w + ?d * (?s - ?w) * fee < ?d * ?s * (m + 1)"
  proof (cases "?w = 0")
    case True
    then show ?thesis using mult_less_mono2 [OF f, of "?d * ?s"] assms(1,2) by simp
  next
    case False
    then have "?n * ?w < ?d * (m + 1) * ?w" using n by simp
    moreover have "?d * (?s - ?w) * fee \<le> ?d * (?s - ?w) * (m + 1)" using f by (intro mult_le_mono) auto
    ultimately have "?n * ?w + ?d * (?s - ?w) * fee < ?d * (m + 1) * ?w + ?d * (?s - ?w) * (m + 1)" by (rule add_less_le_mono)
    also have "\<dots> = ?d * (?w + (?s - ?w)) * (m + 1)" by (simp only: add_mult_distrib add_mult_distrib2 ac_simps)
    also have "?w + (?s - ?w) = ?s" using emission_weight_le by simp
    finally show ?thesis .
  qed
  then have "reward_numerator c pooled fee stake div (?d * ?s) < m + 1"
    using assms(1,2) by (simp add: reward_numerator_def Let_def div_less_iff_less_mult mult.commute)
  then show ?thesis by simp
qed

lemma base_fee_direction:
  fixes fee n d t a :: nat
  assumes "0 < n" "n < d" "0 < t" "fee' = div_ceil (fee * ((d - n) * t + n * a)) (d * t)"
  shows "t \<le> a \<Longrightarrow> fee \<le> fee'" "a \<le> t \<Longrightarrow> fee' \<le> fee" "0 < fee \<Longrightarrow> 0 < fee'"
    "t < a \<Longrightarrow> 0 < fee \<Longrightarrow> fee < fee'"
proof -
  have dt: "0 < d * t" "(d - n) * t + n * t = d * t" using assms(1-3) by (simp_all add: add_mult_distrib [symmetric])
  show "fee' \<le> fee" if "a \<le> t"
  proof -
    have "(d - n) * t + n * a \<le> d * t" using that dt(2) mult_le_mono2 [OF that, of n] by linarith
    then show ?thesis unfolding assms(4) div_ceil_le_iff [OF dt(1)] by (rule mult_le_mono2)
  qed
  show "fee \<le> fee'" if "t \<le> a"
  proof (cases fee)
    case (Suc k)
    have "d * t \<le> (d - n) * t + n * a" using that dt(2) mult_le_mono2 [OF that, of n] by linarith
    then have "fee * (d * t) \<le> fee * ((d - n) * t + n * a)" by (rule mult_le_mono2)
    moreover have "k * (d * t) < fee * (d * t)" using Suc dt(1) by simp
    ultimately have "k * (d * t) < fee * ((d - n) * t + n * a)" by (rule less_le_trans [rotated])
    then show ?thesis unfolding assms(4) using le_div_ceil_iff [OF dt(1)] Suc by (simp add: Suc_le_eq)
  qed simp
  show "0 < fee'" if "0 < fee"
    unfolding assms(4) le_div_ceil_iff [OF dt(1)] using that assms(2,3) by simp
  show "fee < fee'" if "t < a" "0 < fee"
  proof -
    have "d * t < (d - n) * t + n * a" using that(1) dt(2) mult_less_mono2 [OF that(1) assms(1)] by linarith
    then show ?thesis unfolding assms(4) le_div_ceil_iff [OF dt(1)] using that(2) by simp
  qed
qed

lemma storage_price_direction:
  fixes price n d e used :: nat
  assumes "0 < n" "n < d"
    and "price' = (if e = 0 then price
       else if d * used \<le> (d - n) * e then div_ceil (price * (d - n)) d
       else if (d + n) * e \<le> d * used then div_ceil (price * (d + n)) d
       else div_ceil (price * used) e)"
  shows "used \<le> e \<Longrightarrow> price' \<le> price" "0 < e \<Longrightarrow> e < used \<Longrightarrow> 0 < price \<Longrightarrow> price < price'"
proof -
  have d: "0 < d" using assms(2) by simp
  show "price' \<le> price" if u: "used \<le> e"
  proof (cases "e = 0")
    case False
    have "d * used \<le> d * e" using u by (rule mult_le_mono2)
    also have "\<dots> < (d + n) * e" using assms(1) False by simp
    finally have "d * used < (d + n) * e" .
    then show ?thesis
      using False u d div_ceil_le_iff [of e "price * used" price] div_ceil_le_iff [of d "price * (d - n)" price] by (simp add: assms(3))
  qed (simp add: assms(3))
  show "price < price'" if e: "0 < e" "e < used" "0 < price"
  proof -
    have "(d - n) * e \<le> d * e" by (intro mult_le_mono1) simp
    also have "\<dots> < d * used" using e(2) d by simp
    finally show ?thesis
      using e d assms(1) le_div_ceil_iff [of e price "price * used"] le_div_ceil_iff [of d price "price * (d + n)"] by (simp add: assms(3))
  qed
qed

lemma storage_price_bounds:
  fixes price n d e used :: nat
  assumes "0 < n" "n < d"
    and "price' = (if e = 0 then price
       else if d * used \<le> (d - n) * e then div_ceil (price * (d - n)) d
       else if (d + n) * e \<le> d * used then div_ceil (price * (d + n)) d
       else div_ceil (price * used) e)"
  shows "(d - n) * price \<le> d * price'" "d * price' < (d + n) * price + d"
proof -
  have ceil: "x \<le> y * div_ceil x y" "y * div_ceil x y < x + y" if "0 < y" for x y :: nat
  proof -
    show "x \<le> y * div_ceil x y" using div_ceil_le_iff [OF that, of x "div_ceil x y"] by (simp add: mult.commute)
    show "y * div_ceil x y < x + y"
    proof (cases "div_ceil x y")
      case (Suc k)
      then have "k * y < x" using le_div_ceil_iff [OF that, of k x] by simp
      then show ?thesis using Suc by (simp add: mult.commute)
    qed (use that in simp)
  qed
  consider "e = 0" | "0 < e" "d * used \<le> (d - n) * e" | "0 < e" "(d - n) * e < d * used" "(d + n) * e \<le> d * used"
    | "0 < e" "(d - n) * e < d * used" "d * used < (d + n) * e" by linarith
  then have "(d - n) * price \<le> d * price' \<and> d * price' < (d + n) * price + d"
  proof cases
    case 1
    then show ?thesis using assms by (simp add: add_mult_distrib)
  next
    case 2
    have "price * (d - n) \<le> price * (d + n)" by (intro mult_le_mono2) simp
    then have "x < price * (d - n) + d \<Longrightarrow> x < price * (d + n) + d" for x by linarith
    then show ?thesis using 2 assms(3) ceil [of d "price * (d - n)"] assms(2) by (simp add: mult.commute)
  next
    case 3
    have "price * (d - n) \<le> price * (d + n)" by (intro mult_le_mono2) simp
    then have "price * (d + n) \<le> x \<Longrightarrow> price * (d - n) \<le> x" for x by linarith
    then show ?thesis using 3 assms(3) ceil [of d "price * (d + n)"] assms(2) by (simp add: mult.commute)
  next
    case 4
    then have p: "price' = div_ceil (price * used) e" using assms(3) by simp
    note c = ceil [OF 4(1), of "price * used", folded p]
    have "(d - n) * price * e \<le> d * (price * used)" using 4(2) by (metis less_imp_le mult.assoc mult.commute mult_le_mono2)
    also have "\<dots> \<le> d * price' * e" using c(1) by (simp add: ac_simps)
    finally have l: "(d - n) * price \<le> d * price'" using 4(1) by simp
    have "d * price' * e < d * (price * used) + d * e" using c(2) assms(2) by (metis add_mult_distrib2 gr0I less_nat_zero_code mult.assoc mult.commute mult_less_mono2)
    also have "d * (price * used) \<le> (d + n) * price * e" using 4(3) by (metis less_imp_le mult.assoc mult.commute mult_le_mono2)
    finally have "d * price' * e < ((d + n) * price + d) * e" by (simp add: add_mult_distrib)
    then show ?thesis using l by simp
  qed
  then show "(d - n) * price \<le> d * price'" "d * price' < (d + n) * price + d" by simp_all
qed

lemma rewards_split:
  assumes "block_rewards_new target scale fee_average emission share = Some c" "proper_fraction_new n d = Some share"
    and "0 < scale" "0 < denominator emission" "numerator emission < 2 ^ 32" "fee < 2 ^ 64"
  shows "\<exists>blend leader. rewards c pooled fee stake = Some (blend, leader) \<and>
    blend + leader \<le> reward_numerator c pooled fee stake div (denominator emission * scale) \<and>
    reward_numerator c pooled fee stake div (denominator emission * scale) \<le> blend + leader + 1"
proof -
  let ?r = "reward_numerator c pooled fee stake" and ?e = "denominator emission"
  have f: "0 < n" "n < d" using assms(2) by (auto simp: proper_fraction_new_iff)
  have "?r * n + ?r * (d - n) = ?r * d" using f by (simp add: add_mult_distrib2 [symmetric])
  then have "(?r * n + ?r * (d - n)) div (?e * scale * d) = ?r div (?e * scale)" using f by simp
  moreover note split_div_sum(1) [of "?r * n" "?e * scale * d" "?r * (d - n)"] split_div_sum(2) [of "?r * n" "?r * (d - n)" "?e * scale * d"]
  ultimately show ?thesis using rewards_exact [OF assms, of pooled stake] by simp
qed

text \<open>Parameters that the source accepts, and the full emission of a block.\<close>

definition block_rewards_ok :: "block_rewards_config \<Rightarrow> bool" where
  "block_rewards_ok c \<longleftrightarrow>
     block_rewards_new (stake_target c) (emission_factor_scale c) (fee_average_numerator c) (max_emission_per_block c) (blend_share c) = Some c \<and>
     proper_fraction_new (numerator (blend_share c)) (denominator (blend_share c)) = Some (blend_share c) \<and>
     0 < emission_factor_scale c \<and> 0 < denominator (max_emission_per_block c) \<and> numerator (max_emission_per_block c) < 2 ^ 32"

definition full_emission :: "block_rewards_config \<Rightarrow> nat" where
  "full_emission c = numerator (max_emission_per_block c) div denominator (max_emission_per_block c)"

lemma rewards_total:
  assumes "block_rewards_ok c" "fee < 2 ^ 64" "rewards c pooled fee stake = Some (blend, leader)"
  shows "blend + leader \<le> full_emission c + fee"
proof -
  note ok = assms(1) [unfolded block_rewards_ok_def]
  have "blend + leader \<le> reward_numerator c pooled fee stake div (denominator (max_emission_per_block c) * emission_factor_scale c)"
    using rewards_split [of "stake_target c" "emission_factor_scale c" "fee_average_numerator c" "max_emission_per_block c" "blend_share c" c
        "numerator (blend_share c)" "denominator (blend_share c)" fee pooled stake] ok assms(2,3) by auto
  also have "\<dots> \<le> max (full_emission c) fee"
    using reward_bound [of c pooled fee stake] ok by (simp add: full_emission_def)
  finally show ?thesis by simp
qed

text \<open>
  C38: Whatever the fees and the stake, a reward computed under accepted parameters neither panics nor wraps.  What the Blend nodes and the leader
  get together is the mix of the full emission and the block's fee, rounded down by at most one unit, and never more than the larger of the two.
\<close>

theorem block_rewards_bounded:
  assumes "block_rewards_new target scale fee_average emission share = Some c" "proper_fraction_new n d = Some share"
    and "0 < scale" "0 < denominator emission" "numerator emission < 2 ^ 32" "fee < 2 ^ 64"
  shows "\<exists>blend leader. rewards c pooled fee stake = Some (blend, leader) \<and>
    blend + leader \<le> max (numerator emission div denominator emission) fee \<and>
    blend + leader \<le> reward_numerator c pooled fee stake div (denominator emission * scale) \<and>
    reward_numerator c pooled fee stake div (denominator emission * scale) \<le> blend + leader + 1"
proof -
  have f: "emission_factor_scale c = scale" "max_emission_per_block c = emission" using assms(1) by (auto simp: block_rewards_new_iff)
  have "reward_numerator c pooled fee stake div (denominator emission * scale) \<le> max (numerator emission div denominator emission) fee"
    using reward_bound [where c = c and fee = fee and pooled = pooled and stake = stake] assms(3,4) f by simp
  then show ?thesis using rewards_split [OF assms, of pooled stake] by fastforce
qed

theorem block_rewards_bounded_witness:
  "\<exists>c blend leader. block_rewards_new 1000 100 2 \<lparr>numerator = 70, denominator = 2\<rparr> \<lparr>numerator = 1, denominator = 4\<rparr> = Some c \<and>
     rewards c 30 20 1000 = Some (blend, leader) \<and> blend + leader \<le> 35 \<and> 28 \<le> blend + leader"
proof -
  let ?e = "\<lparr>numerator = 70, denominator = 2\<rparr>" and ?s = "\<lparr>numerator = 1, denominator = 4\<rparr>"
  obtain c where c: "block_rewards_new 1000 100 2 ?e ?s = Some c" by (simp add: block_rewards_new_iff)
  then have "emission_weight c 30 1000 = 60"
    by (simp add: block_rewards_new_iff emission_weight_def saturating_add_def saturating_mul_def)
  then have "reward_numerator c 30 20 1000 div (2 * 100) = 29" using c by (simp add: block_rewards_new_iff reward_numerator_def)
  then show ?thesis
    using block_rewards_bounded [OF c, of 1 4 20 30 1000] c by (auto simp: proper_fraction_new_iff)
qed

text \<open>The control law of the reward difficulty: \<open>new_target\<close> of a block with \<open>claims\<close> claims, where the weights add up to \<open>P\<close>.\<close>

lemma demand_rule:
  fixes W F P T claims current :: nat
  defines "target \<equiv> \<lambda>claims. T * (current * P) div max (W * claims + F * T) 1"
  assumes W: "0 < W" "W + F = P"
  shows "T \<le> claims \<Longrightarrow> target claims \<le> current"
    and "T < claims \<Longrightarrow> 0 < current \<Longrightarrow> target claims < current"
    and "claims \<le> T \<Longrightarrow> 0 < T \<Longrightarrow> current \<le> target claims"
    and "div_ceil F W \<le> current \<Longrightarrow> 0 < T \<Longrightarrow> 0 < F \<Longrightarrow> current < target 0"
    and "claims \<le> claims' \<Longrightarrow> target claims' \<le> target claims"
proof -
  define N where "N = max (W * claims + F * T) 1"
  have N: "0 < N" and t: "target claims = T * (current * P) div N" by (simp_all add: N_def target_def)
  have P: "T * P = W * T + F * T" by (simp add: W(2) [symmetric] add_mult_distrib2 mult.commute)
  show "target claims \<le> current" if "T \<le> claims"
  proof -
    have "T * P \<le> W * claims + F * T" using mult_le_mono2 [OF that, of W] P by linarith
    then have "T * P \<le> N" by (simp add: N_def)
    then have "T * (current * P) \<le> current * N" using mult_le_mono2 [of _ N current] by (simp add: ac_simps)
    then show ?thesis using div_le_mono [of _ "current * N" N] N by (simp add: t)
  qed
  show "target claims < current" if "T < claims" "0 < current"
  proof -
    have "T * P < W * claims + F * T" using mult_less_mono2 [OF that(1) W(1)] P by linarith
    then have "T * P < N" by (simp add: N_def)
    then have "T * (current * P) < current * N" using mult_less_mono2 [of _ N current] that(2) by (simp add: ac_simps)
    then show ?thesis using N by (simp add: t div_less_iff_less_mult)
  qed
  show "current \<le> target claims" if "claims \<le> T" "0 < T"
  proof -
    have "W * claims + F * T \<le> T * P" using mult_le_mono2 [OF that(1), of W] P by linarith
    moreover have "1 \<le> T * P" using that(2) W(1) by (simp add: W(2) [symmetric])
    ultimately have "N \<le> T * P" by (simp add: N_def)
    then have "current * N \<le> T * (current * P)" using mult_le_mono2 [of N _ current] by (simp add: ac_simps)
    then show ?thesis using div_le_mono [of "current * N" _ N] N by (simp add: t)
  qed
  show "current < target 0" if "div_ceil F W \<le> current" "0 < T" "0 < F"
  proof -
    have "F \<le> current * W" using that(1) div_ceil_le_iff [OF W(1)] by simp
    then have "(current + 1) * F \<le> current * P" by (simp add: W(2) [symmetric] add_mult_distrib2)
    then have "(current + 1) * (F * T) \<le> T * (current * P)" by (metis mult.assoc mult.commute mult_le_mono1)
    moreover have "max (W * 0 + F * T) 1 = F * T" using mult_le_mono [of 1 F 1 T] that(2,3) by simp
    ultimately have "(current + 1) * (F * T) div (F * T) \<le> target 0" unfolding target_def by (simp only: div_le_mono)
    then show ?thesis using that(2,3) by simp
  qed
  show "target claims' \<le> target claims" if "claims \<le> claims'"
    unfolding target_def using mult_le_mono2 [OF that, of W] by (intro div_le_mono2 max.mono add_right_mono) simp_all
qed


definition example_reward_pow :: reward_pow_config where
  "example_reward_pow = \<lparr>minimum_difficulty = 26, ema_smoothing_factor = 9, ema_smoothing_precision = 10, target_claims_per_block = 10,
     rate_num = 1, rate_den = 1, target_claim_per_block = 10, pow_share = 1, share_den = 10, slot_window = 100\<rparr>"

lemma example_reward_pow_ok:
  "validate_reward_pow example_reward_pow = ok ()" "reward_target_floor example_reward_pow = Some 9" "1000 < shift_target 26"
  by (simp_all add: validate_reward_pow_iff example_reward_pow_def reward_target_floor_Some div_ceil_def shift_target_def drop_bit_eq_div fr_modulus_def)


text \<open>
  C40: As long as the base fee is below a third of \<open>2 ^ 64\<close>, the fee times the denominator of its adjustment rate times the block's gas limit fits 128 bits,
  and the storage price is below \<open>2 ^ 63\<close>, the updates do not wrap and have the value of the formulas over the natural numbers:
  the averages are exponential moving averages, the base fee is scaled by the average usage relative to the target, and the storage price by
  the usage relative to its average, cut to the adjustment factor.  So the base fee strictly rises when the average usage is above the target and does not rise
  at or below it, the storage price strictly rises when the usage is above its average and does not rise at or below it,
  the storage price moves by at most its adjustment factor, and neither price falls from a positive value to zero.
\<close>

theorem market_prices_follow_usage:
  assumes "fraction_ok (fee_adjustment_rate em)" "fraction_ok (execution_smoothing em)" "2 \<le> max_gas_per_block em" "max_gas_per_block em < 2 ^ 64"
    and "consumed \<le> max_gas_per_block em" "average \<le> max_gas_per_block em"
    and "3 * fee < 2 ^ 64" "fee * denominator (fee_adjustment_rate em) * max_gas_per_block em < 2 ^ 128"
    and "fraction_ok (max_adjustment_factor sm)" "fraction_ok (storage_smoothing sm)" "stored < 2 ^ 64" "ema < 2 ^ 64" "2 * price < 2 ^ 64"
    and "update_execution_market em consumed average fee = (average', fee')" "update_storage_market sm price stored ema = (price', ema')"
    and "execution_smoothing em = \<lparr>numerator = qn, denominator = qd\<rparr>" "fee_adjustment_rate em = \<lparr>numerator = fn, denominator = fd\<rparr>"
    and "storage_smoothing sm = \<lparr>numerator = bn, denominator = bd\<rparr>" "max_adjustment_factor sm = \<lparr>numerator = n, denominator = d\<rparr>"
    and "gas_target (max_gas_per_block em) = t"
  shows "average' = ((qd - qn) * consumed + qn * average) div qd \<and> average' \<le> max_gas_per_block em \<and>
    fee' = div_ceil (fee * ((fd - fn) * t + fn * average')) (fd * t) \<and>
    (t < average' \<and> 0 < fee \<longrightarrow> fee < fee') \<and> (t \<le> average' \<longrightarrow> fee \<le> fee') \<and> (average' \<le> t \<longrightarrow> fee' \<le> fee) \<and> (0 < fee \<longrightarrow> 0 < fee') \<and>
    ema' = (bn * stored + (bd - bn) * ema) div bd \<and>
    (ema' = 0 \<longrightarrow> price' = price) \<and>
    (0 < ema' \<and> d * stored \<le> (d - n) * ema' \<longrightarrow> price' = div_ceil (price * (d - n)) d) \<and>
    (0 < ema' \<and> (d + n) * ema' \<le> d * stored \<longrightarrow> price' = div_ceil (price * (d + n)) d) \<and>
    ((d - n) * ema' < d * stored \<and> d * stored < (d + n) * ema' \<longrightarrow> price' = div_ceil (price * stored) ema') \<and>
    (0 < ema' \<and> ema' < stored \<and> 0 < price \<longrightarrow> price < price') \<and> (stored \<le> ema' \<longrightarrow> price' \<le> price) \<and>
    (d - n) * price \<le> d * price' \<and> d * price' < (d + n) * price + d \<and> (0 < price \<longrightarrow> 0 < price')"
proof -
  note e = execution_market_exact [OF assms(1-8,14), unfolded assms(16,17,20) ratio.simps]
    and s = storage_market_exact [OF assms(9-13,15), unfolded assms(18,19) ratio.simps]
  have f: "0 < fn" "fn < fd" "0 < n" "n < d" using assms(1,9) by (simp_all add: fraction_ok_def assms(17,19))
  have t: "0 < t" using assms(3,20) by (auto simp: gas_target_def)
  note b = storage_price_bounds [OF f(3,4) s(3)] storage_price_direction [OF f(3,4) s(3)]
  have "\<not> d * stored \<le> (d - n) * ema'" if "0 < ema'" "(d + n) * ema' \<le> d * stored"
  proof -
    have "(d - n) * ema' < (d + n) * ema'" using that(1) f by simp
    also note that(2)
    finally show ?thesis by simp
  qed
  then have p: "ema' = 0 \<longrightarrow> price' = price" "0 < ema' \<and> d * stored \<le> (d - n) * ema' \<longrightarrow> price' = div_ceil (price * (d - n)) d"
    "0 < ema' \<and> (d + n) * ema' \<le> d * stored \<longrightarrow> price' = div_ceil (price * (d + n)) d"
    "(d - n) * ema' < d * stored \<and> d * stored < (d + n) * ema' \<longrightarrow> price' = div_ceil (price * stored) ema'"
    by (simp_all add: s(3))
  have "0 < price'" if "0 < price"
  proof (rule ccontr)
    assume "\<not> 0 < price'"
    then show False using b(1) that f(4) by simp
  qed
  then show ?thesis using e(1-3) s(1) p base_fee_direction [OF f(1,2) t e(3)] b by blast
qed

theorem market_prices_follow_usage_witness:
  "update_execution_market \<lparr>max_gas_per_block = 1000, fee_adjustment_rate = \<lparr>numerator = 1, denominator = 8\<rparr>, execution_smoothing = \<lparr>numerator = 1, denominator = 2\<rparr>\<rparr>
       900 700 100 = (800, 108) \<and>
   update_storage_market \<lparr>max_adjustment_factor = \<lparr>numerator = 1, denominator = 8\<rparr>, storage_smoothing = \<lparr>numerator = 1, denominator = 2\<rparr>\<rparr> 80 500 100 = (90, 300)"
proof -
  let ?em = "\<lparr>max_gas_per_block = 1000, fee_adjustment_rate = \<lparr>numerator = 1, denominator = 8\<rparr>, execution_smoothing = \<lparr>numerator = 1, denominator = 2\<rparr>\<rparr>"
  let ?sm = "\<lparr>max_adjustment_factor = \<lparr>numerator = 1, denominator = 8\<rparr>, storage_smoothing = \<lparr>numerator = 1, denominator = 2\<rparr>\<rparr>"
  obtain average' fee' where e: "update_execution_market ?em 900 700 100 = (average', fee')" by (rule prod.exhaust)
  obtain price' ema' where s: "update_storage_market ?sm 80 500 100 = (price', ema')" by (rule prod.exhaust)
  show ?thesis
    using market_prices_follow_usage [OF _ _ _ _ _ _ _ _ _ _ _ _ _ e s] e s
    by (simp add: fraction_ok_def gas_target_def div_ceil_def)
qed

end
