(* ===== verification/PowRewards.thy ===== *)
theory PowRewards
  imports NoteLedger Markets EraTime
begin

text \<open>
  Proof-of-work rewards: the claim operation of \<^verbatim>\<open>core/src/mantle/ops/pow.rs\<close> and the state of \<^verbatim>\<open>ledger/src/mantle/pow/\<close>.

  A claim names the block its puzzle is anchored to and is accepted while that block is within the acceptance window of
  its era.  Blocks and nullifiers are forgotten when their window closes.  The lemmas show that forgetting them never lets a claim be paid twice.
  The maps that the source iterates are association lists; their order does not matter.
\<close>

subsection \<open>Transaction density\<close>

record epoch_totals =
  et_blocks :: nat
  et_txs :: nat

record tx_density =
  current_epoch :: epoch_totals
  last_closed_epoch :: "epoch_totals option"

definition density_new :: tx_density where
  "density_new = \<lparr>current_epoch = \<lparr>et_blocks = 0, et_txs = 0\<rparr>, last_closed_epoch = None\<rparr>"

definition totals_record_block :: "nat \<Rightarrow> epoch_totals \<Rightarrow> epoch_totals option" where
  "totals_record_block txs_in_block t =
     do { blocks \<leftarrow> checked_add 64 (et_blocks t) 1; txs \<leftarrow> checked_add 64 (et_txs t) txs_in_block; Some \<lparr>et_blocks = blocks, et_txs = txs\<rparr> }"

definition density_record_block :: "nat \<Rightarrow> tx_density \<Rightarrow> tx_density option" where
  "density_record_block txs_in_block d = do { t \<leftarrow> totals_record_block txs_in_block (current_epoch d); Some (d\<lparr>current_epoch := t\<rparr>) }"

definition close_epoch :: "tx_density \<Rightarrow> tx_density" where
  "close_epoch d = \<lparr>current_epoch = \<lparr>et_blocks = 0, et_txs = 0\<rparr>, last_closed_epoch = Some (current_epoch d)\<rparr>"

definition last_closed_epoch_load :: "tx_density \<Rightarrow> closed_epoch_load option" where
  "last_closed_epoch_load d = map_option (\<lambda>t. \<lparr>load_transactions = et_txs t, load_blocks = et_blocks t\<rparr>) (last_closed_epoch d)"

subsection \<open>The state\<close>

type_synonym slot_windows = "nat era_schedule"

record pow_state =
  reward_pool :: nat
  epoch_reward :: nat
  reward_difficulty :: nat
  refill_rewards :: nat
  pow_nullifiers :: "(nat \<times> slot) list"
  block_slots :: "(nat \<times> slot) list"
  density :: tx_density

datatype pow_pool_overflow = PowRewardPoolOverflow

text \<open>The number of blocks an epoch is expected to have, from the consensus configuration, is an argument where the reward depends on it.\<close>

definition pow_new :: "reward_pow_config \<Rightarrow> nat \<Rightarrow> nat \<Rightarrow> pow_state option" where
  "pow_new c expected_blocks pool =
     do { reward \<leftarrow> compute_epoch_pow_reward c expected_blocks pool;
          Some \<lparr>reward_pool = pool, epoch_reward = reward, reward_difficulty = shift_target (minimum_difficulty c), refill_rewards = 0,
            pow_nullifiers = [], block_slots = [], density = density_new\<rparr> }"

definition add_rewards_to_pool :: "reward_pow_config \<Rightarrow> nat \<Rightarrow> pow_state \<Rightarrow> (pow_pool_overflow + pow_state) option" where
  "add_rewards_to_pool c expected_blocks s =
     bind_res (ok_or PowRewardPoolOverflow (checked_add 64 (reward_pool s) (refill_rewards s))) (\<lambda>pool.
     run (do { reward \<leftarrow> compute_epoch_pow_reward c expected_blocks pool;
               Some (s\<lparr>reward_pool := pool, refill_rewards := 0, epoch_reward := reward\<rparr>) }))"

definition add_reward_refill_rewards :: "nat \<Rightarrow> pow_state \<Rightarrow> (pow_pool_overflow + pow_state) option" where
  "add_reward_refill_rewards reward s =
     bind_res (ok_or PowRewardPoolOverflow (checked_add 64 (refill_rewards s) reward)) (\<lambda>refill. ok (s\<lparr>refill_rewards := refill\<rparr>))"

definition update_difficulty :: "nat \<Rightarrow> reward_pow_config \<Rightarrow> pow_state \<Rightarrow> pow_state option" where
  "update_difficulty claims_in_block c s =
     do { d \<leftarrow> compute_new_reward_difficulty claims_in_block (reward_difficulty s) c; Some (s\<lparr>reward_difficulty := d\<rparr>) }"

definition is_within_slot_window :: "slot_windows \<Rightarrow> slot \<Rightarrow> slot \<Rightarrow> bool option" where
  "is_within_slot_window windows anchor_slot current =
     do { era \<leftarrow> at_slot windows anchor_slot; Some (slot_saturating_sub current anchor_slot \<le> ev_parameters era) }"

definition prune_by_slots :: "slot_windows \<Rightarrow> slot \<Rightarrow> (nat \<times> slot) list \<Rightarrow> (nat \<times> slot) list option" where
  "prune_by_slots windows current xs =
     do { kept \<leftarrow> those (map (\<lambda>(key, anchor_slot). map_option (\<lambda>within. (within, key, anchor_slot)) (is_within_slot_window windows anchor_slot current)) xs);
          Some (map snd (filter fst kept)) }"

definition add_seen_block_slots :: "nat \<Rightarrow> slot \<Rightarrow> pow_state \<Rightarrow> pow_state" where
  "add_seen_block_slots hash sl s = s\<lparr>block_slots := AList.update hash sl (block_slots s)\<rparr>"

definition prune_seen_block_slots :: "slot_windows \<Rightarrow> slot \<Rightarrow> pow_state \<Rightarrow> pow_state option" where
  "prune_seen_block_slots windows current s = do { bs \<leftarrow> prune_by_slots windows current (block_slots s); Some (s\<lparr>block_slots := bs\<rparr>) }"

definition prune_nullifiers_by_slots :: "slot_windows \<Rightarrow> slot \<Rightarrow> pow_state \<Rightarrow> pow_state option" where
  "prune_nullifiers_by_slots windows current s = do { ns \<leftarrow> prune_by_slots windows current (pow_nullifiers s); Some (s\<lparr>pow_nullifiers := ns\<rparr>) }"

definition add_seen_block :: "slot_windows \<Rightarrow> nat \<Rightarrow> slot \<Rightarrow> pow_state \<Rightarrow> pow_state option" where
  "add_seen_block windows hash sl s =
     do { s \<leftarrow> prune_seen_block_slots windows sl (add_seen_block_slots hash sl s); prune_nullifiers_by_slots windows sl s }"

definition record_block_txs :: "nat \<Rightarrow> pow_state \<Rightarrow> pow_state option" where
  "record_block_txs txs_in_block s = do { d \<leftarrow> density_record_block txs_in_block (density s); Some (s\<lparr>density := d\<rparr>) }"

definition pow_apply_header :: "reward_pow_config \<Rightarrow> nat \<Rightarrow> epoch \<Rightarrow> epoch \<Rightarrow> pow_state \<Rightarrow> (pow_pool_overflow + pow_state) option" where
  "pow_apply_header c expected_blocks previous_epoch next_epoch s =
     (if next_epoch \<le> previous_epoch then ok s
      else bind_res (add_rewards_to_pool c expected_blocks s) (\<lambda>s.
           ok (s\<lparr>density := (close_epoch ^^ (next_epoch - previous_epoch)) (density s)\<rparr>)))"

subsection \<open>Claims\<close>

datatype claim_pow_error =
    InsufficientPoolBalance nat nat
  | EmptyRewards
  | MismatchEpochNonce nat "nat \<times> nat"
  | InvalidPoWRewardTicket
  | DoubleClaimed
  | OutOfWindowSlot slot slot
  | MissingBlock nat

record pow_context =
  pc_current_block_slot :: slot
  pc_reward_difficulty :: nat
  pc_nullifiers :: "(nat \<times> slot) list"
  pc_epoch_reward :: nat
  pc_reward_pool :: nat
  pc_current_epoch_nonce :: nat
  pc_previous_epoch_nonce :: nat
  pc_blocks_slot :: "(nat \<times> slot) list"
  pc_slot_windows :: slot_windows

definition are_pow_reward_enabled :: "pow_context \<Rightarrow> (claim_pow_error + unit) option" where
  "are_pow_reward_enabled ctx =
     bind_res (ensure (pc_epoch_reward ctx \<noteq> 0) EmptyRewards) (\<lambda>_.
     ensure (\<not> pc_reward_pool ctx < pc_epoch_reward ctx) (InsufficientPoolBalance (pc_reward_pool ctx) (pc_epoch_reward ctx)))"

definition validate_epoch_nonce :: "pow_context \<Rightarrow> nat \<Rightarrow> (claim_pow_error + unit) option" where
  "validate_epoch_nonce ctx nonce =
     ensure (nonce = pc_current_epoch_nonce ctx \<or> nonce = pc_previous_epoch_nonce ctx)
       (MismatchEpochNonce nonce (pc_previous_epoch_nonce ctx, pc_current_epoch_nonce ctx))"

definition accept_claim :: "pow_context \<Rightarrow> nat \<Rightarrow> (claim_pow_error + unit) option" where
  "accept_claim ctx block_id =
     bind_res (ok_or (MissingBlock block_id) (map_of (pc_blocks_slot ctx) block_id)) (\<lambda>block_slot.
     bind_res (run (at_slot (pc_slot_windows ctx) block_slot)) (\<lambda>era.
     bind_res (ok_or (OutOfWindowSlot block_slot (pc_current_block_slot ctx)) (slot_checked_sub (pc_current_block_slot ctx) block_slot)) (\<lambda>slot_gap.
     ensure (\<not> ev_parameters era < slot_gap) (OutOfWindowSlot block_slot (pc_current_block_slot ctx)))))"

definition validate_difficulty_reward :: "nat \<Rightarrow> nat \<Rightarrow> (claim_pow_error + unit) option" where
  "validate_difficulty_reward difficulty ticket = ensure (\<not> difficulty \<le> ticket) InvalidPoWRewardTicket"

definition validate_double_claiming :: "pow_context \<Rightarrow> nat \<Rightarrow> (claim_pow_error + unit) option" where
  "validate_double_claiming ctx ticket = ensure (map_of (pc_nullifiers ctx) ticket = None) DoubleClaimed"

definition claim_pow_verify :: "extern \<Rightarrow> pow_context \<Rightarrow> claim_pow_reward_op \<Rightarrow> (claim_pow_error + unit) option" where
  "claim_pow_verify X ctx op =
     bind_res (are_pow_reward_enabled ctx) (\<lambda>_.
     bind_res (validate_epoch_nonce ctx (epoch_nonce op)) (\<lambda>_.
     bind_res (accept_claim ctx (block_hash op)) (\<lambda>_.
     bind_res (validate_difficulty_reward (pc_reward_difficulty ctx) (puzzle_ticket X op)) (\<lambda>_.
     validate_double_claiming ctx (puzzle_ticket X op)))))"

definition claim_pow_op_id :: "extern \<Rightarrow> claim_pow_reward_op \<Rightarrow> nat option" where
  "claim_pow_op_id X op = map_option (op_id X) (c_enc claim_pow_reward_c op)"

record claim_pow_context =
  cp_reward_pool :: nat
  cp_nullifiers :: "(nat \<times> slot) list"
  cp_utxos :: utxos

definition claim_pow_execute ::
  "extern \<Rightarrow> nat \<Rightarrow> nat \<Rightarrow> (nat \<times> slot) list \<Rightarrow> claim_pow_reward_op \<Rightarrow> claim_pow_context \<Rightarrow> (claim_pow_error + claim_pow_context \<times> tx_event list) option" where
  "claim_pow_execute X h reward blocks op ctx =
     run (do { sl \<leftarrow> map_of blocks (block_hash op);
               oid \<leftarrow> claim_pow_op_id X op;
               let u = \<lparr>utxo_op_id = oid, output_index = 0, utxo_note = \<lparr>note_value = reward, note_pk = public_key op\<rparr>\<rparr>;
               (us, _) \<leftarrow> store_insert (note_tree X) (utxo_id X u) u (cp_utxos ctx);
               pool \<leftarrow> checked_sub (cp_reward_pool ctx) reward;
               Some (\<lparr>cp_reward_pool = pool, cp_nullifiers = AList.update (puzzle_ticket X op) sl (cp_nullifiers ctx), cp_utxos = us\<rparr>,
                     [\<lparr>ev_tx_hash = h, ev_op_id = oid, ev_payload = PoWRewardClaimed (puzzle_ticket X op) u\<rparr>]) })"

definition update_from_claim :: "claim_pow_context \<Rightarrow> pow_state \<Rightarrow> pow_state" where
  "update_from_claim ctx s = s\<lparr>pow_nullifiers := cp_nullifiers ctx, reward_pool := cp_reward_pool ctx\<rparr>"

subsection \<open>Pruning\<close>

definition closed :: "slot_windows \<Rightarrow> slot \<Rightarrow> slot \<Rightarrow> bool" where
  "closed windows anchor current \<longleftrightarrow> (\<exists>era. at_slot windows anchor = Some era \<and> ev_parameters era < current - anchor)"

lemma closed_mono: "closed windows anchor c \<Longrightarrow> c \<le> c' \<Longrightarrow> closed windows anchor c'"
  by (fastforce simp: closed_def)

lemma prune_by_slots_spec:
  assumes "prune_by_slots windows current xs = Some ys" "distinct (map fst xs)"
  shows "distinct (map fst ys)" "map_of ys k = (case map_of xs k of None \<Rightarrow> None | Some a \<Rightarrow> if closed windows a current then None else Some a)"
proof -
  let ?f = "\<lambda>(key, anchor_slot). map_option (\<lambda>within. (within, key, anchor_slot)) (is_within_slot_window windows anchor_slot current)"
  obtain kept where kept: "those (map ?f xs) = Some kept" "ys = map snd (filter fst kept)"
    using assms(1) by (auto simp: prune_by_slots_def bind_Some_iff)
  let ?g = "\<lambda>(k, a). (\<not> closed windows a current, k, a)"
  have g: "?f x = Some y \<Longrightarrow> y = ?g x" for x y
    by (cases x) (auto simp: is_within_slot_window_def closed_def slot_saturating_sub_def bind_Some_iff)
  have "kept = map ?g xs"
    using kept(1) unfolding those_map_Some_iff by (intro nth_equalityI) (simp_all add: g [symmetric])
  moreover have "map snd (filter fst (map ?g zs)) = filter (\<lambda>(_, a). \<not> closed windows a current) zs" for zs by (induction zs) auto
  ultimately have ys: "ys = filter (\<lambda>(_, a). \<not> closed windows a current) xs" unfolding kept(2) by simp
  show "distinct (map fst ys)" unfolding ys using assms(2) by (rule distinct_map_filter)
  show "map_of ys k = (case map_of xs k of None \<Rightarrow> None | Some a \<Rightarrow> if closed windows a current then None else Some a)"
    unfolding ys using assms(2) by (induction xs) (auto simp: map_of_eq_None_iff split: option.splits)
qed

lemma add_seen_block_spec:
  assumes "add_seen_block windows hash sl s = Some s'" "distinct (map fst (block_slots s))" "distinct (map fst (pow_nullifiers s))"
  shows "distinct (map fst (block_slots s'))" "distinct (map fst (pow_nullifiers s'))"
    "map_of (block_slots s') h = Some a \<Longrightarrow> map_of (block_slots s) h = Some a \<or> h = hash \<and> a = sl"
    "map_of (pow_nullifiers s') t = (case map_of (pow_nullifiers s) t of None \<Rightarrow> None | Some a \<Rightarrow> if closed windows a sl then None else Some a)"
    "reward_pool s' = reward_pool s" "refill_rewards s' = refill_rewards s" "epoch_reward s' = epoch_reward s"
proof -
  obtain bs ns where b: "prune_by_slots windows sl (AList.update hash sl (block_slots s)) = Some bs"
      and n: "prune_by_slots windows sl (pow_nullifiers s) = Some ns" and s': "s' = s\<lparr>block_slots := bs, pow_nullifiers := ns\<rparr>"
    using assms(1) by (auto simp: add_seen_block_def prune_seen_block_slots_def prune_nullifiers_by_slots_def add_seen_block_slots_def bind_Some_iff)
  have d: "distinct (map fst (AList.update hash sl (block_slots s)))" using assms(2) by (rule distinct_update)
  note b' = prune_by_slots_spec [OF b d] and n' = prune_by_slots_spec [OF n assms(3)]
  show "distinct (map fst (block_slots s'))" "distinct (map fst (pow_nullifiers s'))" using b'(1) n'(1) s' by simp_all
  show "map_of (block_slots s) h = Some a \<or> h = hash \<and> a = sl" if "map_of (block_slots s') h = Some a"
    using that b'(2) [of h] s' by (auto simp: update_conv' split: option.splits if_splits)
  show "map_of (pow_nullifiers s') t = (case map_of (pow_nullifiers s) t of None \<Rightarrow> None | Some a \<Rightarrow> if closed windows a sl then None else Some a)"
    using n'(2) s' by simp
  show "reward_pool s' = reward_pool s" "refill_rewards s' = refill_rewards s" "epoch_reward s' = epoch_reward s" using s' by simp_all
qed

subsection \<open>Claims\<close>

lemma claim_pow_verify_iff:
  "claim_pow_verify X ctx op = ok u \<longleftrightarrow>
     0 < pc_epoch_reward ctx \<and> pc_epoch_reward ctx \<le> pc_reward_pool ctx \<and>
     (epoch_nonce op = pc_current_epoch_nonce ctx \<or> epoch_nonce op = pc_previous_epoch_nonce ctx) \<and>
     (\<exists>anchor era. map_of (pc_blocks_slot ctx) (block_hash op) = Some anchor \<and> at_slot (pc_slot_windows ctx) anchor = Some era \<and>
        anchor \<le> pc_current_block_slot ctx \<and> pc_current_block_slot ctx - anchor \<le> ev_parameters era) \<and>
     puzzle_ticket X op < pc_reward_difficulty ctx \<and> map_of (pc_nullifiers ctx) (puzzle_ticket X op) = None"
  by (auto simp: claim_pow_verify_def are_pow_reward_enabled_def validate_epoch_nonce_def accept_claim_def validate_difficulty_reward_def
      validate_double_claiming_def bind_res_ok_iff slot_checked_sub_def checked_Some_iffs not_less not_le)

lemma claim_pow_execute_iff:
  "claim_pow_execute X h reward blocks op ctx = ok (ctx', ev) \<longleftrightarrow>
     (\<exists>sl oid u us pos. map_of blocks (block_hash op) = Some sl \<and> claim_pow_op_id X op = Some oid \<and>
        u = \<lparr>utxo_op_id = oid, output_index = 0, utxo_note = \<lparr>note_value = reward, note_pk = public_key op\<rparr>\<rparr> \<and>
        store_insert (note_tree X) (utxo_id X u) u (cp_utxos ctx) = Some (us, pos) \<and> reward \<le> cp_reward_pool ctx \<and>
        ctx' = \<lparr>cp_reward_pool = cp_reward_pool ctx - reward, cp_nullifiers = AList.update (puzzle_ticket X op) sl (cp_nullifiers ctx), cp_utxos = us\<rparr> \<and>
        ev = [\<lparr>ev_tx_hash = h, ev_op_id = oid, ev_payload = PoWRewardClaimed (puzzle_ticket X op) u\<rparr>])"
  by (auto simp: claim_pow_execute_def bind_Some_iff Let_def checked_Some_iffs)

definition pow_context_of :: "slot_windows \<Rightarrow> slot \<Rightarrow> nat \<Rightarrow> nat \<Rightarrow> pow_state \<Rightarrow> pow_context" where
  "pow_context_of windows current nonce previous s =
     \<lparr>pc_current_block_slot = current, pc_reward_difficulty = reward_difficulty s, pc_nullifiers = pow_nullifiers s, pc_epoch_reward = epoch_reward s,
      pc_reward_pool = reward_pool s, pc_current_epoch_nonce = nonce, pc_previous_epoch_nonce = previous, pc_blocks_slot = block_slots s, pc_slot_windows = windows\<rparr>"

text \<open>
  Runs of a chain: blocks with new hashes at increasing slots, epoch changes, refills and retargets, and the claims that the blocks carry, each with
  what it was paid.  \<open>seen\<close> lists all blocks, \<open>funds\<close> what entered the pool.
\<close>

inductive pow_run ::
  "extern \<Rightarrow> slot_windows \<Rightarrow> (nat \<times> slot) list \<Rightarrow> nat \<Rightarrow> (claim_pow_reward_op \<times> nat) list \<Rightarrow> slot \<Rightarrow> pow_state \<Rightarrow> bool" for X windows where
  pow_start: "pow_new c n pool = Some s \<Longrightarrow> pow_run X windows [] pool [] sl s"
| pow_block: "pow_run X windows seen funds paid current s \<Longrightarrow> hash \<notin> fst ` set seen \<Longrightarrow> current \<le> sl \<Longrightarrow>
    add_seen_block windows hash sl s = Some s' \<Longrightarrow> pow_run X windows ((hash, sl) # seen) funds paid sl s'"
| pow_header: "pow_run X windows seen funds paid current s \<Longrightarrow> pow_apply_header c n e e' s = ok s' \<Longrightarrow> pow_run X windows seen funds paid current s'"
| pow_refill: "pow_run X windows seen funds paid current s \<Longrightarrow> add_reward_refill_rewards r s = ok s' \<Longrightarrow> pow_run X windows seen (funds + r) paid current s'"
| pow_retarget: "pow_run X windows seen funds paid current s \<Longrightarrow> update_difficulty n c s = Some s' \<Longrightarrow> pow_run X windows seen funds paid current s'"
| pow_claimed: "pow_run X windows seen funds paid current s \<Longrightarrow> claim_pow_verify X (pow_context_of windows current nonce previous s) op = ok u \<Longrightarrow>
    claim_pow_execute X h (epoch_reward s) (block_slots s) op \<lparr>cp_reward_pool = reward_pool s, cp_nullifiers = pow_nullifiers s, cp_utxos = us\<rparr> = ok (ctx, ev) \<Longrightarrow>
    pow_run X windows seen funds ((op, epoch_reward s) # paid) current (update_from_claim ctx s)"

text \<open>Every claim paid is still recorded under the slot of its block, or the window of that block is closed.\<close>

definition pow_ok ::
  "extern \<Rightarrow> slot_windows \<Rightarrow> (nat \<times> slot) list \<Rightarrow> nat \<Rightarrow> (claim_pow_reward_op \<times> nat) list \<Rightarrow> slot \<Rightarrow> pow_state \<Rightarrow> bool" where
  "pow_ok X windows seen funds paid current s \<longleftrightarrow>
     distinct (map fst seen) \<and> distinct (map fst (block_slots s)) \<and> distinct (map fst (pow_nullifiers s)) \<and>
     (\<forall>h a. map_of (block_slots s) h = Some a \<longrightarrow> map_of seen h = Some a) \<and>
     distinct (map fst paid) \<and> sum_list (map snd paid) + reward_pool s + refill_rewards s = funds \<and>
     (\<forall>op \<in> fst ` set paid. \<exists>a. map_of seen (block_hash op) = Some a \<and>
        (closed windows a current \<or> map_of (pow_nullifiers s) (puzzle_ticket X op) = Some a))"

lemma pow_ok_same:
  assumes "pow_ok X windows seen funds paid current s" "block_slots s' = block_slots s" "pow_nullifiers s' = pow_nullifiers s"
    and "reward_pool s' + refill_rewards s' = reward_pool s + refill_rewards s + r"
  shows "pow_ok X windows seen (funds + r) paid current s'"
  using assms unfolding pow_ok_def by (metis (no_types, lifting) add.assoc)

lemma pow_ok_paid:
  assumes "pow_ok X windows seen funds paid current s" "op \<in> fst ` set paid"
  obtains a where "map_of seen (block_hash op) = Some a" "closed windows a current \<or> map_of (pow_nullifiers s) (puzzle_ticket X op) = Some a"
  using assms unfolding pow_ok_def by blast

lemma pow_run_ok: "pow_run X windows seen funds paid current s \<Longrightarrow> pow_ok X windows seen funds paid current s"
proof (induction rule: pow_run.induct)
  case (pow_start c n pool s sl)
  then show ?case by (auto simp: pow_ok_def pow_new_def bind_Some_iff)
next
  case (pow_block seen funds paid current s hash sl s')
  note I = pow_block(5)
  have d: "distinct (map fst (block_slots s))" "distinct (map fst (pow_nullifiers s))" using I by (simp_all add: pow_ok_def)
  note b = add_seen_block_spec [OF pow_block(4) d]
  have "\<exists>a. map_of ((hash, sl) # seen) (block_hash op) = Some a \<and> (closed windows a sl \<or> map_of (pow_nullifiers s') (puzzle_ticket X op) = Some a)"
    if p: "op \<in> fst ` set paid" for op
  proof -
    obtain a where a: "map_of seen (block_hash op) = Some a" "closed windows a current \<or> map_of (pow_nullifiers s) (puzzle_ticket X op) = Some a"
      by (rule pow_ok_paid [OF I p])
    have "block_hash op \<noteq> hash" using a(1) pow_block(2) by (metis map_of_eq_None_iff option.distinct(1))
    then show ?thesis using a closed_mono [OF _ pow_block(3)] b(4) [of "puzzle_ticket X op"] by (auto split: if_splits)
  qed
  moreover have "map_of ((hash, sl) # seen) h = Some a" if "map_of (block_slots s') h = Some a" for h a
  proof -
    have "map_of seen h = Some a \<Longrightarrow> h \<noteq> hash" using pow_block(2) by (metis map_of_eq_None_iff option.distinct(1))
    then show ?thesis using b(3) [OF that] I by (auto simp: pow_ok_def)
  qed
  ultimately show ?case using I b(1,2,5,6) pow_block(2) by (simp add: pow_ok_def)
next
  case (pow_header seen funds paid current s c n e e' s')
  then show ?case using pow_ok_same [of X windows seen funds paid current s s' 0]
    by (auto simp: pow_apply_header_def add_rewards_to_pool_def bind_res_ok_iff bind_Some_iff checked_Some_iffs split: if_splits)
next
  case (pow_refill seen funds paid current s r s')
  then show ?case using pow_ok_same [of X windows seen funds paid current s s' r]
    by (auto simp: add_reward_refill_rewards_def bind_res_ok_iff checked_Some_iffs)
next
  case (pow_retarget seen funds paid current s n c s')
  then show ?case using pow_ok_same [of X windows seen funds paid current s s' 0] by (auto simp: update_difficulty_def bind_Some_iff)
next
  case (pow_claimed seen funds paid current s nonce previous op u h us ctx ev)
  note I = pow_claimed(4)
  obtain anchor era where v: "map_of (block_slots s) (block_hash op) = Some anchor" "at_slot windows anchor = Some era"
      "current - anchor \<le> ev_parameters era" "map_of (pow_nullifiers s) (puzzle_ticket X op) = None"
    using pow_claimed(2) by (auto simp: claim_pow_verify_iff pow_context_of_def)
  have c: "cp_nullifiers ctx = AList.update (puzzle_ticket X op) anchor (pow_nullifiers s)" "cp_reward_pool ctx + epoch_reward s = reward_pool s"
    using pow_claimed(3) v(1) by (auto simp: claim_pow_execute_iff)
  have open_: "\<not> closed windows anchor current" using v(2,3) by (auto simp: closed_def)
  have seen: "map_of seen (block_hash op) = Some anchor" using I v(1) by (simp add: pow_ok_def)
  have "op \<notin> fst ` set paid"
  proof
    assume "op \<in> fst ` set paid"
    then obtain a where "map_of seen (block_hash op) = Some a" "closed windows a current \<or> map_of (pow_nullifiers s) (puzzle_ticket X op) = Some a"
      by (rule pow_ok_paid [OF I])
    then show False using seen open_ v(4) by auto
  qed
  moreover have "\<exists>a. map_of seen (block_hash op') = Some a \<and> (closed windows a current \<or> map_of (cp_nullifiers ctx) (puzzle_ticket X op') = Some a)"
    if "op' \<in> insert op (fst ` set paid)" for op'
  proof (cases "op' = op")
    case True
    then show ?thesis using seen c(1) by (simp add: update_conv')
  next
    case False
    then have "op' \<in> fst ` set paid" using that by blast
    then obtain a where "map_of seen (block_hash op') = Some a" "closed windows a current \<or> map_of (pow_nullifiers s) (puzzle_ticket X op') = Some a"
      by (rule pow_ok_paid [OF I])
    then show ?thesis using v(4) c(1) by (auto simp: update_conv')
  qed
  moreover have "distinct (map fst (cp_nullifiers ctx))" using I c(1) by (simp add: pow_ok_def distinct_update)
  ultimately show ?case using I c(2) by (simp add: pow_ok_def update_from_claim_def)
qed

text \<open>
  C9: Over any chain, whose blocks have different hashes and slots in order, no proof-of-work claim is paid twice, although nullifiers are forgotten when the window of
  their block closes; and what was paid together with what the pool holds is exactly what entered the pool.
\<close>

theorem pow_claims_paid_once:
  assumes "pow_run X windows seen funds paid current s"
  shows "distinct (map fst paid) \<and> sum_list (map snd paid) + reward_pool s + refill_rewards s = funds"
  using pow_run_ok [OF assms] by (simp add: pow_ok_def)

text \<open>A pool of 1000 that pays a hundredth of itself for a claim, a block, and its claim in the same block.\<close>

definition example_windows :: slot_windows where
  "example_windows = \<lparr>es_genesis = \<lparr>se_first_slot = 0, se_start_time = 0, se_parameters = 5\<rparr>, es_after_genesis = []\<rparr>"

definition example_claim :: claim_pow_reward_op where
  "example_claim = \<lparr>epoch_nonce = 4, block_hash = 7, public_key = 3\<rparr>"

lemma example_windows_at [simp]:
  "at_slot example_windows sl = Some \<lparr>ev_era = 0, ev_first_epoch = 0, ev_first_slot = 0, ev_start_time = 0, ev_parameters = 5\<rparr>"
  by (simp add: example_windows_def at_slot_def last_started_def iter_def eras_after_genesis_def genesis_def view_def enumerate_eq_zip)

lemma example_claim_ticket: "puzzle_ticket plain_extern example_claim = 15"
  by (simp add: puzzle_ticket_def plain_digest example_claim_def fr_modulus_def)

lemma example_epoch_reward: "compute_epoch_pow_reward example_reward_pow 10 1000 = Some 10"
  by (simp add: compute_epoch_pow_reward_def claim_rate_denominator_def claim_rate_scale_def checked_claim_rate_scale_def checked_mul_def example_reward_pow_def wrapping_mul_def)

theorem pow_claims_paid_once_witness:
  "\<exists>s. pow_run plain_extern example_windows [(7, 3)] 1000 [(example_claim, 10)] 3 s \<and> 10 + reward_pool s + refill_rewards s = 1000"
proof -
  let ?s = "\<lparr>reward_pool = 1000, epoch_reward = 10, reward_difficulty = shift_target 26, refill_rewards = 0,
    pow_nullifiers = [], block_slots = [], density = density_new\<rparr>"
  have new: "pow_new example_reward_pow 10 1000 = Some ?s"
    using example_epoch_reward by (simp add: pow_new_def) (simp add: example_reward_pow_def)
  let ?t = "?s\<lparr>block_slots := [(7, 3)]\<rparr>"
  have block: "add_seen_block example_windows 7 3 ?s = Some ?t"
    by (simp add: add_seen_block_def prune_seen_block_slots_def add_seen_block_slots_def prune_nullifiers_by_slots_def prune_by_slots_def is_within_slot_window_def
        slot_saturating_sub_def)
  have verify: "claim_pow_verify plain_extern (pow_context_of example_windows 3 4 2 ?t) example_claim = ok ()"
    unfolding claim_pow_verify_iff example_claim_ticket using example_reward_pow_ok(3) by (simp add: pow_context_of_def example_claim_def)
  obtain oid where oid: "claim_pow_op_id plain_extern example_claim = Some oid"
    by (auto simp: claim_pow_op_id_def claim_pow_reward_c_def conv_c_def pair_c_def fr_c_def pair_encode_def uint_encode_def uint_c_def)
  let ?u = "\<lparr>utxo_op_id = oid, output_index = 0, utxo_note = \<lparr>note_value = 10, note_pk = public_key example_claim\<rparr>\<rparr>"
  obtain us pos where us: "store_insert (note_tree plain_extern) (utxo_id plain_extern ?u) ?u (store_new :: utxos) = Some (us, pos)"
    using store_insert_fresh [OF store_new_ok [of "note_tree plain_extern"], of "utxo_id plain_extern ?u" ?u]
    by (auto simp: store_room_def store_size_def store_new_def tree_size_def tree_new_def store_get_def)
  obtain ctx ev where execute: "claim_pow_execute plain_extern 99 (epoch_reward ?t) (block_slots ?t) example_claim
      \<lparr>cp_reward_pool = reward_pool ?t, cp_nullifiers = pow_nullifiers ?t, cp_utxos = store_new\<rparr> = ok (ctx, ev)"
    using oid us by (auto simp: claim_pow_execute_iff) (auto simp: example_claim_def)
  have run: "pow_run plain_extern example_windows [(7, 3)] 1000 [(example_claim, 10)] 3 (update_from_claim ctx ?t)"
    using pow_claimed [OF pow_block [OF pow_start [OF new, of plain_extern example_windows 0] _ _ block] verify execute] by simp
  then show ?thesis using pow_claims_paid_once [OF run] by (intro exI [of _ "update_from_claim ctx ?t"]) simp
qed

end
