(* ===== verification/CryptarchiaLedger.thy ===== *)
theory CryptarchiaLedger
  imports SdpLedger Leaders PowRewards ChannelOps BlockTree "HOL-Library.Signed_Division"
begin

text \<open>
  The consensus part of the ledger: \<^verbatim>\<open>ledger/src/cryptarchia/\<close> (the notes, the nonces, the snapshots of the current and the next epoch, the
  block density and the inference of the total stake, the gas markets) and \<^verbatim>\<open>ledger/src/config.rs\<close>.

  Where an epoch changes, the three cases of \<^verbatim>\<open>update_epoch_state\<close> are kept apart: the same epoch, the next one, and a later one with
  epochs without blocks in between.  The lemmas show that the snapshots always belong to the epoch of the slot and the one after it.

  The floating-point values that the configuration derives, and the constants of the lottery, are fields of the configuration.
  The verifier of leadership proofs is a function of the proof.
\<close>

subsection \<open>Configuration\<close>

record epoch_config =
  epoch_stake_distribution_stabilization :: nat
  epoch_period_nonce_buffer :: nat
  epoch_period_nonce_stabilization :: nat

definition epoch_length :: "epoch_config \<Rightarrow> nat \<Rightarrow> nat" where
  "epoch_length c base_period =
     saturating_mul 64 (saturating_add 64 (saturating_add 64 (epoch_stake_distribution_stabilization c) (epoch_period_nonce_buffer c))
       (epoch_period_nonce_stabilization c)) base_period"

record lottery_constants =
  t0_constant :: nat
  t1_constant :: nat

record pow_config =
  pow_blend :: blend_pow_config
  pow_reward :: reward_pow_config

text \<open>The learning rate and the slot activation coefficient in thousandths, truncated, are what the inference of the stake computes from the floats.\<close>

record ledger_config =
  cfg_epoch :: epoch_config
  cfg_consensus :: config
  cfg_slot_activation :: ratio
  cfg_learning_rate_scaled :: nat
  cfg_slot_activation_scaled :: int
  cfg_lottery :: lottery_constants
  cfg_max_transactions :: nat
  cfg_max_transactions_size :: nat
  cfg_max_op_data_size :: nat
  cfg_sdp :: sdp_config
  cfg_pow :: pow_config
  cfg_accepted_fork_digests :: "nat list"
  cfg_execution_market :: execution_market_config
  cfg_storage_market :: storage_market_config
  cfg_block_rewards :: block_rewards_config
  cfg_gas_profile :: gas_profile

type_synonym era_configs = "ledger_config era_schedule"

text \<open>The length of an epoch, zero where the source panics; \<open>epoch_at\<close> and \<open>epoch_start\<close> panic there.\<close>

definition config_epoch_length :: "ledger_config \<Rightarrow> nat" where
  "config_epoch_length c = (case base_period_length (cfg_consensus c) of None \<Rightarrow> 0 | Some b \<Rightarrow> epoch_length (cfg_epoch c) b)"

definition config_expected_blocks :: "ledger_config \<Rightarrow> nat option" where
  "config_expected_blocks c =
     do { b \<leftarrow> base_period_length (cfg_consensus c);
          expected_blocks_per_epoch (epoch_length (cfg_epoch c) b) (numerator (cfg_slot_activation c)) (denominator (cfg_slot_activation c)) }"

definition nonce_contribution_period :: "ledger_config \<Rightarrow> nat option" where
  "nonce_contribution_period c =
     do { b \<leftarrow> base_period_length (cfg_consensus c);
          phases \<leftarrow> checked_add 64 (epoch_period_nonce_buffer (cfg_epoch c)) (epoch_stake_distribution_stabilization (cfg_epoch c));
          checked_mul 64 b phases }"

definition next_epoch_snapshot :: "ledger_config \<Rightarrow> slot \<Rightarrow> slot option" where
  "next_epoch_snapshot c first_slot = do { period \<leftarrow> nonce_contribution_period c; checked_add 64 first_slot period }"

definition config_for_slot :: "era_configs \<Rightarrow> slot \<Rightarrow> ledger_config option" where
  "config_for_slot es sl = map_option ev_parameters (at_slot es sl)"

definition config_for_epoch :: "era_configs \<Rightarrow> epoch \<Rightarrow> ledger_config option" where
  "config_for_epoch es e = map_option ev_parameters (at_epoch es e)"

definition epoch_at :: "era_configs \<Rightarrow> slot \<Rightarrow> epoch option" where
  "epoch_at es sl = do { c \<leftarrow> config_for_slot es sl; if config_epoch_length c = 0 then None else epoch_for_slot config_epoch_length es sl }"

definition epoch_start :: "era_configs \<Rightarrow> epoch \<Rightarrow> slot option" where
  "epoch_start es e = do { c \<leftarrow> config_for_epoch es e; if config_epoch_length c = 0 then None else starting_slot_for_epoch config_epoch_length es e }"

definition pow_slot_windows :: "era_configs \<Rightarrow> slot_windows option" where
  "pow_slot_windows es = map_schedule es (\<lambda>era. slot_window (pow_reward (cfg_pow (ev_parameters era))))"

definition nonce_snapshot :: "era_configs \<Rightarrow> epoch \<Rightarrow> slot option" where
  "nonce_snapshot es e =
     do { c \<leftarrow> config_for_epoch es (e - 1); first_slot \<leftarrow> epoch_start es (e - 1); next_epoch_snapshot c first_slot }"

definition stake_distribution_snapshot :: "era_configs \<Rightarrow> epoch \<Rightarrow> slot option" where
  "stake_distribution_snapshot es e = epoch_start es (e - 1)"

subsection \<open>The lottery\<close>

definition compute_lottery_values :: "lottery_constants \<Rightarrow> nat \<Rightarrow> (nat \<times> nat) option" where
  "compute_lottery_values l total_stake =
     do { lottery_0 \<leftarrow> checked_div (t0_constant l) total_stake;
          t1 \<leftarrow> checked_div (t1_constant l) (total_stake ^ 2);
          lottery_1 \<leftarrow> checked_sub fr_modulus t1;
          Some (lottery_0 mod fr_modulus, lottery_1 mod fr_modulus) }"

subsection \<open>Block density\<close>

record block_density =
  period_start :: slot
  period_end :: slot
  occupied_slots :: "slot set"

definition density_of_epoch_starting_at :: "slot \<Rightarrow> ledger_config \<Rightarrow> block_density option" where
  "density_of_epoch_starting_at first_slot c =
     do { snapshot \<leftarrow> next_epoch_snapshot c first_slot;
          period \<leftarrow> nonce_contribution_period c;
          Some \<lparr>period_start = slot_saturating_sub snapshot period, period_end = slot_saturating_sub snapshot 1, occupied_slots = {}\<rparr> }"

definition block_density_new :: "epoch \<Rightarrow> era_configs \<Rightarrow> block_density option" where
  "block_density_new e es =
     do { first_slot \<leftarrow> epoch_start es e; c \<leftarrow> config_for_epoch es e; density_of_epoch_starting_at first_slot c }"

definition in_period :: "block_density \<Rightarrow> slot \<Rightarrow> bool" where
  "in_period d sl \<longleftrightarrow> period_start d \<le> sl \<and> sl \<le> period_end d"

definition density_mark_slots :: "slot \<Rightarrow> slot list \<Rightarrow> block_density \<Rightarrow> block_density" where
  "density_mark_slots block_slot uncle_slots d =
     (if \<not> in_period d block_slot then d
      else d\<lparr>occupied_slots := insert block_slot (occupied_slots d) \<union> set (filter (in_period d) uncle_slots)\<rparr>)"

definition current_block_density :: "block_density \<Rightarrow> nat" where
  "current_block_density d = card (occupied_slots d)"

subsection \<open>Stake inference\<close>

record stake_inference =
  learning_rate_scaled :: nat
  slot_activation_scaled :: int
  inference_period :: nat

text \<open>Arithmetic of \<^verbatim>\<open>i128\<close>, whose operators wrap; division truncates.\<close>

definition wrap_i128 :: "int \<Rightarrow> int" where
  "wrap_i128 x = (x + 2 ^ 127) mod 2 ^ 128 - 2 ^ 127"

definition inference_after_epoch :: "era_configs \<Rightarrow> epoch \<Rightarrow> stake_inference option" where
  "inference_after_epoch es e =
     do { measured \<leftarrow> config_for_epoch es e;
          next_epoch \<leftarrow> epoch_strict_add e 1;
          inferred \<leftarrow> config_for_epoch es next_epoch;
          period \<leftarrow> nonce_contribution_period measured;
          Some \<lparr>learning_rate_scaled = cfg_learning_rate_scaled inferred, slot_activation_scaled = cfg_slot_activation_scaled measured, inference_period = period\<rparr> }"

definition total_stake_inference :: "stake_inference \<Rightarrow> nat \<Rightarrow> nat \<Rightarrow> nat option" where
  "total_stake_inference s total_stake_estimate measured_block_density =
     (let estimate = wrap_i128 (int total_stake_estimate * 1000);
          measured = wrap_i128 (int measured_block_density * 1000);
          expected = wrap_i128 (int (inference_period s) * slot_activation_scaled s);
          difference = wrap_i128 (expected - measured)
      in if expected = 0 then None
         else let error = wrap_i128 (estimate * difference) sdiv expected;
                  correction = wrap_i128 (int (learning_rate_scaled s) * error) sdiv 1000;
                  new_estimate = wrap_i128 (estimate - correction) sdiv 1000
              in try_from 64 (nat (max new_estimate 1)))"

subsection \<open>Errors\<close>

datatype mantle_error =
    MantleChannel channel_error
  | MantleLeader leader_error
  | MantleSdp sdp_ledger_error
  | MantleTransfer transfer_error
  | MantleLeaderClaim leader_claim_error
  | MantleClaimPow claim_pow_error
  | MantlePowRewardPool pow_pool_overflow
  | MantleNoteNotFound note_id

datatype verification_error =
    MultiSigVerificationError multi_sig_error
  | ChannelVerificationError channel_error
  | TransferVerificationError transfer_error
  | SDPVerificationError sdp_error
  | LeaderClaimVerificationError leader_claim_error
  | ClaimPowRewardError claim_pow_error

datatype 'id ledger_error =
    LedgerInvalidSlot slot slot
  | ParentNotFound 'id
  | InvalidProof
  | InsufficientBalance
  | LedgerBalanceOverflow
  | UnbalancedTransaction
  | LedgerGasOverflow gas_overflow
  | Mantle mantle_error
  | LedgerInputs inputs_error
  | LedgerOutputs outputs_error
  | InputInGenesis note_id
  | MissingTransferGenesis
  | InsufficientExecutionFee
  | TooMuchTransactionExecutionGas nat nat
  | TooMuchExecutionGas nat nat
  | TooManyTransactions nat
  | TransactionsTooLarge nat nat
  | OpDataTooLarge nat nat
  | InvalidStoragePrice
  | VerificationError verification_error
  | UnacceptedForkDigest nat

subsection \<open>The state\<close>

record cryptarchia_state =
  cl_utxos :: utxos
  cl_nonce :: nat
  cl_previous_epoch_nonce :: nat
  cl_slot :: slot
  cl_next_epoch_state :: epoch_state
  cl_epoch_state :: epoch_state
  cl_block_density :: block_density
  cl_fee_window :: "nat list"
  cl_average_execution_gas :: nat
  cl_execution_base_fee :: nat
  cl_storage_gas_ema :: nat
  cl_storage_gas_price :: nat
  cl_storage_gas_consumed :: nat

text \<open>\<open>nth_root\<close> is the integer root of the big-integer library.\<close>

definition update_from_ledger ::
  "(nat \<Rightarrow> nat \<Rightarrow> nat) \<Rightarrow> era_configs \<Rightarrow> sdp_ledger \<Rightarrow> pow_state \<Rightarrow> cryptarchia_state \<Rightarrow> epoch_state \<Rightarrow> epoch_state option" where
  "update_from_ledger nth_root es sdp pow ledger e =
     do { c \<leftarrow> config_for_epoch es (eps_epoch e);
          (if eps_epoch e = 0 then None else Some ());
          nonce_slot \<leftarrow> nonce_snapshot es (eps_epoch e);
          (nonce, difficulty) \<leftarrow>
            (if cl_slot ledger < nonce_slot
             then do { difficulty \<leftarrow> (case last_closed_epoch_load (density pow) of
                           None \<Rightarrow> Some (eps_blend_difficulty (cl_epoch_state ledger))
                         | Some load \<Rightarrow> compute_epoch_blend_difficulty nth_root load (eps_blend_difficulty (cl_epoch_state ledger)) (pow_blend (cfg_pow c)));
                       Some (cl_nonce ledger, difficulty) }
             else Some (eps_nonce e, eps_blend_difficulty e));
          stake_slot \<leftarrow> stake_distribution_snapshot es (eps_epoch e);
          (us, active) \<leftarrow>
            (if cl_slot ledger < stake_slot
             then do { active \<leftarrow> active_declarations (eps_epoch e) (sc_service_params (cfg_sdp c)) sdp; Some (cl_utxos ledger, active) }
             else Some (eps_utxos e, eps_active e));
          Some (e\<lparr>eps_nonce := nonce, eps_blend_difficulty := difficulty, eps_utxos := us, eps_active := active\<rparr>) }"

text \<open>The loops over the epochs without blocks: the total stake, and the storage market.\<close>

definition infer_skipped :: "era_configs \<Rightarrow> epoch list \<Rightarrow> nat \<Rightarrow> nat option" where
  "infer_skipped es skipped stake =
     fold_run (\<lambda>stake e. do { i \<leftarrow> inference_after_epoch es e; total_stake_inference i stake 0 }) stake skipped"

definition storage_market_skipped :: "era_configs \<Rightarrow> epoch list \<Rightarrow> nat \<times> nat \<Rightarrow> (nat \<times> nat) option" where
  "storage_market_skipped es skipped pe =
     fold_run (\<lambda>(price, ema) e. do { c \<leftarrow> config_for_epoch es e; Some (update_storage_market (cfg_storage_market c) price 0 ema) }) pe skipped"

definition declarations_at :: "era_configs \<Rightarrow> sdp_ledger \<Rightarrow> epoch \<Rightarrow> (service_type \<rightharpoonup> declarations) option" where
  "declarations_at es sdp e = do { c \<leftarrow> config_for_epoch es e; active_declarations e (sc_service_params (cfg_sdp c)) sdp }"

definition enter_next_epoch :: "era_configs \<Rightarrow> slot \<Rightarrow> sdp_ledger \<Rightarrow> epoch \<Rightarrow> epoch \<Rightarrow> epoch_state \<Rightarrow> cryptarchia_state \<Rightarrow> cryptarchia_state option" where
  "enter_next_epoch es sl sdp last_epoch new_epoch next_state s =
     do { i \<leftarrow> inference_after_epoch es last_epoch;
          stake \<leftarrow> total_stake_inference i (eps_total_stake (cl_epoch_state s)) (current_block_density (cl_block_density s));
          new_config \<leftarrow> config_for_epoch es new_epoch;
          (l0, l1) \<leftarrow> compute_lottery_values (cfg_lottery new_config) stake;
          d \<leftarrow> block_density_new new_epoch es;
          let epoch_state = next_state\<lparr>eps_total_stake := stake, eps_lottery_0 := l0, eps_lottery_1 := l1\<rparr>;
          next_epoch \<leftarrow> epoch_strict_add new_epoch 1;
          active \<leftarrow> declarations_at es sdp next_epoch;
          current_config \<leftarrow> config_for_epoch es last_epoch;
          let (price, ema) = update_storage_market (cfg_storage_market current_config) (cl_storage_gas_price s) (cl_storage_gas_consumed s) (cl_storage_gas_ema s);
          Some (s\<lparr>cl_slot := sl,
                  cl_next_epoch_state := \<lparr>eps_epoch = next_epoch, eps_nonce = cl_nonce s, eps_blend_difficulty = eps_blend_difficulty epoch_state,
                    eps_utxos = cl_utxos s, eps_total_stake = stake, eps_lottery_0 = l0, eps_lottery_1 = l1, eps_active = active\<rparr>,
                  cl_epoch_state := epoch_state, cl_previous_epoch_nonce := eps_nonce (cl_epoch_state s), cl_block_density := d,
                  cl_storage_gas_consumed := 0, cl_storage_gas_ema := ema, cl_storage_gas_price := price\<rparr>) }"

definition enter_later_epoch :: "era_configs \<Rightarrow> slot \<Rightarrow> sdp_ledger \<Rightarrow> epoch \<Rightarrow> epoch \<Rightarrow> epoch_state \<Rightarrow> cryptarchia_state \<Rightarrow> cryptarchia_state option" where
  "enter_later_epoch es sl sdp last_epoch new_epoch next_state s =
     do { i \<leftarrow> inference_after_epoch es last_epoch;
          stake \<leftarrow> total_stake_inference i (eps_total_stake (cl_epoch_state s)) (current_block_density (cl_block_density s));
          let skipped = [eps_epoch next_state ..< new_epoch];
          stake \<leftarrow> infer_skipped es skipped stake;
          new_config \<leftarrow> config_for_epoch es new_epoch;
          (l0, l1) \<leftarrow> compute_lottery_values (cfg_lottery new_config) stake;
          current_config \<leftarrow> config_for_epoch es last_epoch;
          (price, ema) \<leftarrow> storage_market_skipped es skipped
            (update_storage_market (cfg_storage_market current_config) (cl_storage_gas_price s) (cl_storage_gas_consumed s) (cl_storage_gas_ema s));
          gap \<leftarrow> epoch_strict_sub new_epoch last_epoch;
          _ \<leftarrow> epoch_strict_sub gap 1;
          d \<leftarrow> block_density_new new_epoch es;
          active \<leftarrow> active_declarations new_epoch (sc_service_params (cfg_sdp new_config)) sdp;
          let epoch_state = \<lparr>eps_epoch = new_epoch, eps_nonce = cl_nonce s, eps_blend_difficulty = eps_blend_difficulty (cl_epoch_state s),
                eps_utxos = cl_utxos s, eps_total_stake = stake, eps_lottery_0 = l0, eps_lottery_1 = l1, eps_active = active\<rparr>;
          next_epoch \<leftarrow> epoch_strict_add new_epoch 1;
          next_active \<leftarrow> declarations_at es sdp next_epoch;
          Some (s\<lparr>cl_slot := sl,
                  cl_next_epoch_state := epoch_state\<lparr>eps_epoch := next_epoch, eps_active := next_active\<rparr>,
                  cl_epoch_state := epoch_state, cl_previous_epoch_nonce := cl_nonce s, cl_block_density := d,
                  cl_storage_gas_consumed := 0, cl_storage_gas_ema := ema, cl_storage_gas_price := price\<rparr>) }"

definition update_epoch_state ::
  "(nat \<Rightarrow> nat \<Rightarrow> nat) \<Rightarrow> era_configs \<Rightarrow> slot \<Rightarrow> sdp_ledger \<Rightarrow> pow_state \<Rightarrow> cryptarchia_state \<Rightarrow> ('id ledger_error + cryptarchia_state) option" where
  "update_epoch_state nth_root es sl sdp pow s =
     (if sl \<le> cl_slot s then fail (LedgerInvalidSlot (cl_slot s) sl)
      else run (do { last_epoch \<leftarrow> epoch_at es (cl_slot s);
                     new_epoch \<leftarrow> epoch_at es sl;
                     next_state \<leftarrow> update_from_ledger nth_root es sdp pow s (cl_next_epoch_state s);
                     if last_epoch = new_epoch then Some (s\<lparr>cl_slot := sl, cl_next_epoch_state := next_state\<rparr>)
                     else do { following \<leftarrow> epoch_strict_add last_epoch 1;
                               if new_epoch = following then enter_next_epoch es sl sdp last_epoch new_epoch next_state s
                               else enter_later_epoch es sl sdp last_epoch new_epoch next_state s } }))"

subsection \<open>Headers\<close>

record leader_public =
  lp_slot :: slot
  lp_epoch_nonce :: nat
  lp_lottery_0 :: nat
  lp_lottery_1 :: nat
  lp_aged_root :: nat
  lp_latest_root :: nat

record leader_proof =
  proof_verify :: "leader_public \<Rightarrow> bool"
  proof_entropy :: nat
  proof_voucher_cm :: nat

definition try_apply_proof :: "extern \<Rightarrow> era_configs \<Rightarrow> slot \<Rightarrow> leader_proof \<Rightarrow> cryptarchia_state \<Rightarrow> ('id ledger_error + cryptarchia_state) option" where
  "try_apply_proof X es sl pr s =
     bind_res (run (do { e \<leftarrow> epoch_at es sl;
                         (if e = eps_epoch (cl_epoch_state s) then Some () else None);
                         aged \<leftarrow> store_root (note_tree X) (eps_utxos (cl_epoch_state s));
                         latest \<leftarrow> store_root (note_tree X) (cl_utxos s);
                         Some \<lparr>lp_slot = sl, lp_epoch_nonce = eps_nonce (cl_epoch_state s), lp_lottery_0 = eps_lottery_0 (cl_epoch_state s),
                           lp_lottery_1 = eps_lottery_1 (cl_epoch_state s), lp_aged_root = aged, lp_latest_root = latest\<rparr> })) (\<lambda>public.
     bind_res (ensure (proof_verify pr public) InvalidProof) (\<lambda>_. ok s))"

definition update_nonce :: "extern \<Rightarrow> nat \<Rightarrow> slot \<Rightarrow> cryptarchia_state \<Rightarrow> cryptarchia_state" where
  "update_nonce X contrib sl s = s\<lparr>cl_nonce := digest X [from_le_bytes (ascii ''EPOCH_NONCE_V1''), cl_nonce s, contrib, sl]\<rparr>"

definition mark_occupied_slots :: "slot \<Rightarrow> slot list \<Rightarrow> cryptarchia_state \<Rightarrow> cryptarchia_state" where
  "mark_occupied_slots sl uncle_slots s = s\<lparr>cl_block_density := density_mark_slots sl uncle_slots (cl_block_density s)\<rparr>"

definition update_epoch_state_and_apply_proof ::
  "extern \<Rightarrow> (nat \<Rightarrow> nat \<Rightarrow> nat) \<Rightarrow> era_configs \<Rightarrow> slot \<Rightarrow> leader_proof \<Rightarrow> sdp_ledger \<Rightarrow> pow_state \<Rightarrow> cryptarchia_state \<Rightarrow> ('id ledger_error + cryptarchia_state) option" where
  "update_epoch_state_and_apply_proof X nth_root es sl pr sdp pow s =
     bind_res (update_epoch_state nth_root es sl sdp pow s) (\<lambda>s. try_apply_proof X es sl pr s)"

definition cryptarchia_apply_header ::
  "extern \<Rightarrow> (nat \<Rightarrow> nat \<Rightarrow> nat) \<Rightarrow> era_configs \<Rightarrow> slot \<Rightarrow> leader_proof \<Rightarrow> slot list \<Rightarrow> sdp_ledger \<Rightarrow> pow_state \<Rightarrow> cryptarchia_state
     \<Rightarrow> ('id ledger_error + cryptarchia_state) option" where
  "cryptarchia_apply_header X nth_root es sl pr uncle_slots sdp pow s =
     bind_res (update_epoch_state_and_apply_proof X nth_root es sl pr sdp pow s) (\<lambda>s.
     ok (mark_occupied_slots sl uncle_slots (update_nonce X (proof_entropy pr) sl s)))"

definition verify_proof_of_leadership ::
  "extern \<Rightarrow> (nat \<Rightarrow> nat \<Rightarrow> nat) \<Rightarrow> era_configs \<Rightarrow> slot \<Rightarrow> leader_proof \<Rightarrow> sdp_ledger \<Rightarrow> pow_state \<Rightarrow> cryptarchia_state \<Rightarrow> ('id ledger_error + unit) option" where
  "verify_proof_of_leadership X nth_root es sl pr sdp pow s =
     bind_res (update_epoch_state_and_apply_proof X nth_root es sl pr sdp pow s) (\<lambda>_. ok ())"

definition epoch_state_for_slot ::
  "(nat \<Rightarrow> nat \<Rightarrow> nat) \<Rightarrow> era_configs \<Rightarrow> slot \<Rightarrow> sdp_ledger \<Rightarrow> pow_state \<Rightarrow> cryptarchia_state \<Rightarrow> ('id ledger_error + epoch_state) option" where
  "epoch_state_for_slot nth_root es sl sdp pow s = bind_res (update_epoch_state nth_root es sl sdp pow s) (\<lambda>s. ok (cl_epoch_state s))"

subsection \<open>Transactions, fees and markets\<close>

definition try_apply_transfer :: "extern \<Rightarrow> transfer_op \<Rightarrow> cryptarchia_state \<Rightarrow> ('id ledger_error + cryptarchia_state \<times> int \<times> tx_event list) option" where
  "try_apply_transfer X op s =
     bind_res (map_err (\<lambda>e. Mantle (MantleTransfer e)) (transfer_balance (cl_utxos s) op)) (\<lambda>balance.
     bind_res (map_err (\<lambda>e. Mantle (MantleTransfer e)) (transfer_execute X op (cl_utxos s))) (\<lambda>(us, events).
     ok (s\<lparr>cl_utxos := us\<rparr>, balance, events)))"

definition cryptarchia_execution_market :: "nat \<Rightarrow> execution_market_config \<Rightarrow> cryptarchia_state \<Rightarrow> cryptarchia_state" where
  "cryptarchia_execution_market gas_used market s =
     (let (average, fee) = update_execution_market market gas_used (cl_average_execution_gas s) (cl_execution_base_fee s)
      in s\<lparr>cl_average_execution_gas := average, cl_execution_base_fee := fee\<rparr>)"

definition add_storage_gas_consumed :: "nat \<Rightarrow> cryptarchia_state \<Rightarrow> (gas_overflow + cryptarchia_state) option" where
  "add_storage_gas_consumed gas s =
     bind_res (gas_checked_add (cl_storage_gas_consumed s) gas) (\<lambda>gas_used. ok (s\<lparr>cl_storage_gas_consumed := gas_used\<rparr>))"

definition WINDOW_SIZE :: nat where
  "WINDOW_SIZE = 120"

definition update_fee_window :: "nat \<Rightarrow> nat \<Rightarrow> cryptarchia_state \<Rightarrow> cryptarchia_state option" where
  "update_fee_window index fee s =
     (if index < length (cl_fee_window s) then Some (s\<lparr>cl_fee_window := (cl_fee_window s)[index := fee]\<rparr>) else None)"

definition get_fee_from_index :: "nat \<Rightarrow> cryptarchia_state \<Rightarrow> nat option" where
  "get_fee_from_index index s = nth_opt (cl_fee_window s) index"

definition get_summed_fees :: "cryptarchia_state \<Rightarrow> nat" where
  "get_summed_fees s = sum_list (cl_fee_window s)"

subsection \<open>Genesis\<close>

text \<open>The sum of the stake is computed in \<^verbatim>\<open>u64\<close> and wraps.\<close>

definition genesis_stake :: "nat list \<Rightarrow> utxos \<Rightarrow> nat" where
  "genesis_stake excluded us =
     max (sum_list (map (utxo_value \<circ> snd) (filter (\<lambda>(_, u). note_pk (utxo_note u) \<notin> set excluded) (store_iter us))) mod 2 ^ 64) 1"

definition cryptarchia_from_utxos :: "extern \<Rightarrow> ledger_config \<Rightarrow> nat list \<Rightarrow> nat \<Rightarrow> utxo list \<Rightarrow> cryptarchia_state option" where
  "cryptarchia_from_utxos X c excluded nonce us =
     do { us \<leftarrow> store_from_iter (note_tree X) (map (\<lambda>u. (utxo_id X u, u)) us);
          let stake = genesis_stake excluded us;
          (l0, l1) \<leftarrow> compute_lottery_values (cfg_lottery c) stake;
          d \<leftarrow> density_of_epoch_starting_at 0 c;
          let e = \<lparr>eps_epoch = 0, eps_nonce = nonce, eps_blend_difficulty = shift_target (base_difficulty (pow_blend (cfg_pow c))),
            eps_utxos = us, eps_total_stake = stake, eps_lottery_0 = l0, eps_lottery_1 = l1, eps_active = Map.empty\<rparr>;
          Some \<lparr>cl_utxos = us, cl_nonce = nonce, cl_previous_epoch_nonce = nonce, cl_slot = 0, cl_next_epoch_state = e\<lparr>eps_epoch := 1\<rparr>, cl_epoch_state = e,
            cl_block_density = d, cl_fee_window = replicate WINDOW_SIZE 0, cl_average_execution_gas = 0, cl_execution_base_fee = 1,
            cl_storage_gas_ema = 0, cl_storage_gas_price = 1, cl_storage_gas_consumed = 0\<rparr> }"

definition cryptarchia_from_genesis_tx ::
  "extern \<Rightarrow> ledger_config \<Rightarrow> nat list \<Rightarrow> nat \<Rightarrow> transfer_op \<Rightarrow> ('id ledger_error + cryptarchia_state) option" where
  "cryptarchia_from_genesis_tx X c excluded nonce op =
     (case t_inputs op of
        i # _ \<Rightarrow> fail (InputInGenesis i)
      | [] \<Rightarrow> run (do { oid \<leftarrow> transfer_op_id X op; cryptarchia_from_utxos X c excluded nonce (output_utxos oid (t_outputs op)) }))"

definition with_genesis_sdp :: "ledger_config \<Rightarrow> sdp_ledger \<Rightarrow> cryptarchia_state \<Rightarrow> cryptarchia_state option" where
  "with_genesis_sdp c sdp s =
     do { active \<leftarrow> active_declarations (eps_epoch (cl_epoch_state s)) (sc_service_params (cfg_sdp c)) sdp;
          next_active \<leftarrow> active_declarations (eps_epoch (cl_next_epoch_state s)) (sc_service_params (cfg_sdp c)) sdp;
          Some (s\<lparr>cl_epoch_state := (cl_epoch_state s)\<lparr>eps_active := active\<rparr>, cl_next_epoch_state := (cl_next_epoch_state s)\<lparr>eps_active := next_active\<rparr>\<rparr>) }"

subsection \<open>Snapshots stay in step with the slot\<close>

definition in_step :: "era_configs \<Rightarrow> cryptarchia_state \<Rightarrow> bool" where
  "in_step es s \<longleftrightarrow> epoch_at es (cl_slot s) = Some (eps_epoch (cl_epoch_state s)) \<and>
     eps_epoch (cl_next_epoch_state s) = Suc (eps_epoch (cl_epoch_state s)) \<and> length (cl_fee_window s) = WINDOW_SIZE"

lemma update_from_ledger_epoch: "update_from_ledger nth_root es sdp pow s e = Some e' \<Longrightarrow> eps_epoch e' = eps_epoch e"
  by (auto simp: update_from_ledger_def bind_Some_iff split: if_splits option.splits)

lemma update_epoch_state_ok:
  assumes "update_epoch_state nth_root es sl sdp pow s = ok s'" "in_step es s"
  shows "in_step es s'" "cl_slot s' = sl" "cl_slot s < sl" "cl_utxos s' = cl_utxos s"
proof -
  obtain c n e where c: "epoch_at es (cl_slot s) = Some c" and n: "epoch_at es sl = Some n" and sl: "cl_slot s < sl"
      and e: "update_from_ledger nth_root es sdp pow s (cl_next_epoch_state s) = Some e"
      and s': "(if c = n then Some (s\<lparr>cl_slot := sl, cl_next_epoch_state := e\<rparr>)
                else do { following \<leftarrow> epoch_strict_add c 1;
                          if n = following then enter_next_epoch es sl sdp c n e s else enter_later_epoch es sl sdp c n e s }) = Some s'"
    using assms(1) by (auto simp: update_epoch_state_def bind_Some_iff split: if_splits)
  have c': "eps_epoch (cl_epoch_state s) = c" "eps_epoch e = Suc c" using c assms(2) update_from_ledger_epoch [OF e] by (auto simp: in_step_def)
  have w: "length (cl_fee_window s) = WINDOW_SIZE" using assms(2) by (simp add: in_step_def)
  have "in_step es s' \<and> cl_slot s' = sl \<and> cl_utxos s' = cl_utxos s"
  proof (cases "c = n")
    case True
    then show ?thesis using s' n c' w by (auto simp: in_step_def)
  next
    case False
    obtain f where f: "epoch_strict_add c 1 = Some f"
        and s'': "(if n = f then enter_next_epoch es sl sdp c n e s else enter_later_epoch es sl sdp c n e s) = Some s'"
      using s' False by (auto simp: bind_Some_iff)
    have "f = Suc c" using f by (auto simp: epoch_strict_add_def checked_Some_iffs)
    then show ?thesis
    proof (cases "n = f")
      case True
      then show ?thesis using s'' n c' w \<open>f = Suc c\<close>
        by (auto simp: in_step_def enter_next_epoch_def bind_Some_iff epoch_strict_add_def checked_Some_iffs case_prod_beta)
    next
      case False
      then show ?thesis using s'' n w
        by (auto simp: in_step_def enter_later_epoch_def Let_def bind_Some_iff epoch_strict_add_def checked_Some_iffs case_prod_beta)
    qed
  qed
  then show "in_step es s'" "cl_slot s' = sl" "cl_slot s < sl" "cl_utxos s' = cl_utxos s" using sl by simp_all
qed

lemma try_apply_proof_same: "try_apply_proof X es sl pr s = ok s' \<Longrightarrow> s' = s"
  by (auto simp: try_apply_proof_def bind_res_ok_iff)

lemma cryptarchia_header_ok:
  assumes "(cryptarchia_apply_header X nth_root es sl pr us sdp pow s :: ('id ledger_error + cryptarchia_state) option) = ok s'" "in_step es s"
  shows "in_step es s'" "cl_slot s' = sl" "cl_slot s < sl" "cl_utxos s' = cl_utxos s"
proof -
  obtain s1 where s1: "(update_epoch_state nth_root es sl sdp pow s :: ('id ledger_error + cryptarchia_state) option) = ok s1" "s' = mark_occupied_slots sl us (update_nonce X (proof_entropy pr) sl s1)"
    using assms(1) by (auto simp: cryptarchia_apply_header_def update_epoch_state_and_apply_proof_def bind_res_ok_iff dest: try_apply_proof_same)
  then show "in_step es s'" "cl_slot s' = sl" "cl_slot s < sl" "cl_utxos s' = cl_utxos s"
    using update_epoch_state_ok [OF s1(1) assms(2)] by (simp_all add: in_step_def mark_occupied_slots_def update_nonce_def)
qed

text \<open>The assertion that the proof is checked in the epoch of its slot never fails.\<close>

lemma proof_epoch_asserted:
  assumes "update_epoch_state nth_root es sl sdp pow s = ok s'" "in_step es s"
  shows "epoch_at es sl = Some (eps_epoch (cl_epoch_state s'))"
  using update_epoch_state_ok [OF assms] by (simp add: in_step_def)

end
