(* ===== verification/LedgerState.thy ===== *)
theory LedgerState
  imports CryptarchiaLedger
begin

text \<open>
  The ledger as a whole: the mantle ledger of \<^verbatim>\<open>ledger/src/mantle/mod.rs\<close> and the application of transactions and blocks of
  \<^verbatim>\<open>ledger/src/lib.rs\<close>, \<^verbatim>\<open>gas_and_fees.rs\<close> and \<^verbatim>\<open>update.rs\<close>, with the stages that a signed operation goes through
  (\<^verbatim>\<open>core/src/mantle/ops/signed_op.rs\<close>).

  Block identifiers are numbers.  A transaction is a \<open>signed_ops\<close>; its types guarantee that each operation has a proof of its kind, other pairs are \<^term>\<open>None\<close>.
  The lemmas bring the components together: every block keeps the epochs of all parts in step, and no sequence of
  blocks creates more than the emission.
\<close>

subsection \<open>The mantle ledger\<close>

record mantle =
  ml_channels :: channels
  ml_sdp :: sdp_ledger
  ml_leaders :: leader_state
  ml_pow :: pow_state

definition pow_from_config :: "nat \<Rightarrow> ledger_config \<Rightarrow> pow_state option" where
  "pow_from_config pool c = do { n \<leftarrow> config_expected_blocks c; pow_new (pow_reward (cfg_pow c)) n pool }"

definition mantle_new :: "extern \<Rightarrow> ledger_config \<Rightarrow> nat \<Rightarrow> epoch_state \<Rightarrow> mantle option" where
  "mantle_new X c pool e =
     do { sdp \<leftarrow> with_blend_service X (sc_blend_rewards (cfg_sdp c)) e (sdp_ledger_new (eps_epoch e));
          pow \<leftarrow> pow_from_config pool c;
          Some \<lparr>ml_channels = channels_new, ml_sdp = sdp, ml_leaders = leader_new, ml_pow = pow\<rparr> }"

definition mantle_from_genesis_tx ::
  "extern \<Rightarrow> ledger_config \<Rightarrow> nat \<Rightarrow> utxos \<Rightarrow> epoch_state \<Rightarrow> inscription_op \<Rightarrow> declaration_message list \<Rightarrow> (mantle_error + mantle \<times> tx_event list) option" where
  "mantle_from_genesis_tx X c pool us e first_inscription declarations =
     bind_res (map_err MantleChannel (channels_from_genesis X first_inscription)) (\<lambda>(cs, events).
     bind_res (map_err MantleSdp (sdp_from_genesis X (cfg_sdp c) us cs e declarations)) (\<lambda>(sdp, sdp_events).
     bind_res (run (pow_from_config pool c)) (\<lambda>pow.
     ok (\<lparr>ml_channels = cs, ml_sdp = sdp, ml_leaders = leader_new, ml_pow = pow\<rparr>, events @ sdp_events))))"

definition mantle_apply_header ::
  "extern \<Rightarrow> blend_extern \<Rightarrow> era_configs \<Rightarrow> epoch_state \<Rightarrow> epoch_state \<Rightarrow> nat \<Rightarrow> mantle \<Rightarrow> (mantle_error + mantle \<times> utxo list \<times> header_event list) option" where
  "mantle_apply_header X B es last_state state voucher m =
     bind_res (run (config_for_epoch es (eps_epoch last_state))) (\<lambda>last_config.
     bind_res (run (config_for_epoch es (eps_epoch state))) (\<lambda>c.
     bind_res (map_err MantleLeader (leader_apply_header X (eps_epoch state) voucher (ml_leaders m))) (\<lambda>leaders.
     bind_res (map_err MantleSdp (sdp_apply_header X B (cfg_sdp last_config) (cfg_sdp c) last_state state (ml_sdp m))) (\<lambda>(sdp, reward_utxos, events).
     bind_res (run (if eps_epoch state \<le> eps_epoch last_state then Some 0 else config_expected_blocks c)) (\<lambda>n.
     bind_res (map_err MantlePowRewardPool (pow_apply_header (pow_reward (cfg_pow c)) n (eps_epoch last_state) (eps_epoch state) (ml_pow m))) (\<lambda>pow.
     ok (m\<lparr>ml_leaders := leaders, ml_sdp := sdp, ml_pow := pow\<rparr>, reward_utxos, events)))))))"

definition mantle_add_seen_block :: "era_configs \<Rightarrow> nat \<Rightarrow> slot \<Rightarrow> mantle \<Rightarrow> mantle option" where
  "mantle_add_seen_block es hash sl m =
     do { windows \<leftarrow> pow_slot_windows es; pow \<leftarrow> add_seen_block windows hash sl (ml_pow m); Some (m\<lparr>ml_pow := pow\<rparr>) }"

subsection \<open>Operations\<close>

record ledger_state =
  ls_block_number :: nat
  ls_cryptarchia :: cryptarchia_state
  ls_mantle :: mantle

definition configuration_threshold_of :: "channels \<Rightarrow> channel_id \<Rightarrow> nat" where
  "configuration_threshold_of cs c = (case ch_channels cs c of None \<Rightarrow> 0 | Some st \<Rightarrow> configuration_threshold st)"

definition transfer_threshold_of :: "channels \<Rightarrow> channel_id \<Rightarrow> nat" where
  "transfer_threshold_of cs c = (case ch_channels cs c of None \<Rightarrow> 0 | Some st \<Rightarrow> transfer_threshold st)"

text \<open>The trait \<^verbatim>\<open>ThresholdSource\<close>: where an operation reads the threshold that it is verified against.\<close>

record threshold_source =
  configuration_threshold_in :: "channel_id \<Rightarrow> nat"
  transfer_threshold_in :: "channel_id \<Rightarrow> nat"

definition channel_thresholds :: "channels \<Rightarrow> threshold_source" where
  "channel_thresholds cs = \<lparr>configuration_threshold_in = configuration_threshold_of cs, transfer_threshold_in = transfer_threshold_of cs\<rparr>"

definition execution_gas :: "gas_profile \<Rightarrow> threshold_source \<Rightarrow> op \<Rightarrow> (gas_overflow + nat) option" where
  "execution_gas p thresholds operation = (case operation of
     ChannelInscribe _ \<Rightarrow> ok (gp_channel_inscribe p)
   | ChannelConfig op \<Rightarrow> gas_checked_mul (gp_channel_config p) (configuration_threshold_in thresholds (cc_channel op))
   | ChannelDeposit _ \<Rightarrow> ok (gp_channel_deposit p)
   | ChannelWithdraw op \<Rightarrow> gas_checked_mul (gp_channel_withdraw p) (transfer_threshold_in thresholds (w_channel_id op))
   | ChannelTransfer op \<Rightarrow> gas_checked_mul (gp_channel_transfer p) (transfer_threshold_in thresholds (ct_channel_id op))
   | SDPDeclare _ \<Rightarrow> ok (gp_sdp_declare p)
   | SDPWithdraw _ \<Rightarrow> ok (gp_sdp_withdraw p)
   | SDPActive _ \<Rightarrow> ok (gp_sdp_active p)
   | LeaderClaim _ \<Rightarrow> ok (gp_leader_claim p)
   | Transfer _ \<Rightarrow> ok (gp_transfer p)
   | ClaimPowReward _ \<Rightarrow> ok (gp_claim_pow_reward p))"

definition preverify_op :: "extern \<Rightarrow> (nat \<Rightarrow> nat list \<Rightarrow> bool option) \<Rightarrow> nat \<Rightarrow> op \<times> op_proof \<Rightarrow> (verification_error + unit) option" where
  "preverify_op X poc_verify h signed_op = (case signed_op of
     (ChannelInscribe op, Ed25519Sig sig) \<Rightarrow> map_err ChannelVerificationError (inscription_preverify X h op sig)
   | (ChannelConfig op, ChannelMultiSigProof _) \<Rightarrow> map_err ChannelVerificationError (config_preverify op)
   | (ChannelDeposit op, ZkSig _) \<Rightarrow> map_err ChannelVerificationError (deposit_preverify op)
   | (ChannelWithdraw op, ChannelMultiSigProof _) \<Rightarrow> map_err ChannelVerificationError (channel_withdraw_preverify op)
   | (ChannelTransfer op, ChannelMultiSigProof _) \<Rightarrow> map_err ChannelVerificationError (channel_transfer_preverify op)
   | (SDPDeclare op, ZkAndEd25519Sigs p) \<Rightarrow> map_err SDPVerificationError (declare_preverify X h op (ed25519_sig p))
   | (SDPWithdraw _, ZkSig _) \<Rightarrow> ok ()
   | (SDPActive _, ZkSig _) \<Rightarrow> ok ()
   | (LeaderClaim op, PoC p) \<Rightarrow> map_err LeaderClaimVerificationError (leader_claim_preverify poc_verify h op p)
   | (Transfer op, ZkSig _) \<Rightarrow> map_err TransferVerificationError (transfer_preverify op)
   | (ClaimPowReward _, NoOpProof) \<Rightarrow> ok ()
   | _ \<Rightarrow> None)"

definition signed_ops_hash :: "extern \<Rightarrow> signed_ops \<Rightarrow> nat option" where
  "signed_ops_hash X tx = tx_hash X (2 ^ 32 - 1) (op_refs tx)"

definition preverify_tx :: "extern \<Rightarrow> (nat \<Rightarrow> nat list \<Rightarrow> bool option) \<Rightarrow> signed_ops \<Rightarrow> (verification_error + signed_ops) option" where
  "preverify_tx X poc_verify tx =
     bind_res (run (signed_ops_hash X tx)) (\<lambda>h. bind_res (try_all (preverify_op X poc_verify h) (so_ops tx)) (\<lambda>_. ok tx))"

text \<open>Verification against a state adds the deferred proofs of the operation to those before it.\<close>

definition verify_op ::
  "extern \<Rightarrow> era_configs \<Rightarrow> nat \<Rightarrow> nat \<Rightarrow> ledger_state \<Rightarrow> deferred_proofs \<Rightarrow> op \<times> op_proof \<Rightarrow> (verification_error + deferred_proofs) option" where
  "verify_op X es op_index h st deferred signed_op =
     (let cs = ml_channels (ls_mantle st); sdp = ml_sdp (ls_mantle st); sn = sl_service_notes sdp;
          us = cl_utxos (ls_cryptarchia st); sl = cl_slot (ls_cryptarchia st);
          leaders = ml_leaders (ls_mantle st); pow = ml_pow (ls_mantle st)
      in case signed_op of
        (ChannelInscribe op, Ed25519Sig _) \<Rightarrow>
          bind_res (map_err ChannelVerificationError (inscription_verify cs sl op)) (\<lambda>_. ok deferred)
      | (ChannelConfig op, ChannelMultiSigProof sigs) \<Rightarrow>
          bind_res (map_err ChannelVerificationError (config_verify X cs h op sigs)) (\<lambda>_. ok deferred)
      | (ChannelDeposit op, ZkSig p) \<Rightarrow>
          bind_res (map_err ChannelVerificationError (deposit_verify X sn cs us h op p)) (\<lambda>d. ok (defer_zk_sig d deferred))
      | (ChannelWithdraw op, ChannelMultiSigProof sigs) \<Rightarrow>
          bind_res (map_err ChannelVerificationError (channel_withdraw_verify X sn cs us h op_index op sigs)) (\<lambda>_. ok deferred)
      | (ChannelTransfer op, ChannelMultiSigProof sigs) \<Rightarrow>
          bind_res (map_err ChannelVerificationError (channel_transfer_verify X sn cs us h op_index op sigs)) (\<lambda>_. ok deferred)
      | (SDPDeclare op, ZkAndEd25519Sigs p) \<Rightarrow>
          bind_res (ok_or (SDPVerificationError (SdpServiceNotFound (dm_service_type op))) (get_declarations_by_service sdp (dm_service_type op))) (\<lambda>ds.
          bind_res (ok_or (SDPVerificationError (SdpServiceNotFound (dm_service_type op))) (get_provider_index_by_service sdp (dm_service_type op))) (\<lambda>index.
          bind_res (run (config_for_slot es sl)) (\<lambda>c.
          bind_res (map_err SDPVerificationError (declare_verify X us cs sn h ds index (sc_min_stake (cfg_sdp c)) op p)) (\<lambda>d. ok (defer_zk_sig d deferred)))))
      | (SDPWithdraw op, ZkSig p) \<Rightarrow>
          bind_res (ok_or (SDPVerificationError (DeclarationNotFound (wm_declaration_id op))) (get_declaration sdp (wm_declaration_id op))) (\<lambda>d.
          bind_res (map_err SDPVerificationError (sdp_withdraw_verify X h sn d op p)) (\<lambda>z. ok (defer_zk_sig z deferred)))
      | (SDPActive op, ZkSig p) \<Rightarrow>
          bind_res (ok_or (SDPVerificationError (DeclarationNotFound (am_declaration_id op))) (get_declaration sdp (am_declaration_id op))) (\<lambda>d.
          bind_res (map_err SDPVerificationError (active_verify X h (leader_epoch leaders) d op p)) (\<lambda>z. ok (defer_zk_sig z deferred)))
      | (LeaderClaim op, PoC p) \<Rightarrow>
          bind_res (map_err LeaderClaimVerificationError (leader_claim_verify (nullifiers leaders) (snapshot_root leaders) h op p)) (\<lambda>d.
          ok (defer_leader_claim d deferred))
      | (Transfer op, ZkSig p) \<Rightarrow>
          bind_res (map_err TransferVerificationError (transfer_verify X sn cs us h op p)) (\<lambda>d. ok (defer_zk_sig d deferred))
      | (ClaimPowReward op, NoOpProof) \<Rightarrow>
          bind_res (run (pow_slot_windows es)) (\<lambda>windows.
          bind_res (map_err ClaimPowRewardError (claim_pow_verify X (pow_context_of windows sl (eps_nonce (cl_epoch_state (ls_cryptarchia st)))
             (cl_previous_epoch_nonce (ls_cryptarchia st)) pow) op)) (\<lambda>_. ok deferred))
      | _ \<Rightarrow> None)"

definition check_op_data_size :: "nat \<Rightarrow> ledger_config \<Rightarrow> (nat ledger_error + unit) option" where
  "check_op_data_size bytes c = ensure (\<not> cfg_max_op_data_size c < bytes) (OpDataTooLarge bytes (cfg_max_op_data_size c))"

definition set_mantle :: "mantle \<Rightarrow> ledger_state \<Rightarrow> ledger_state" where
  "set_mantle m st = st\<lparr>ls_mantle := m\<rparr>"

definition update_channels :: "channels \<Rightarrow> ledger_state \<Rightarrow> ledger_state" where
  "update_channels cs st = st\<lparr>ls_mantle := (ls_mantle st)\<lparr>ml_channels := cs\<rparr>\<rparr>"

definition update_utxos :: "utxos \<Rightarrow> ledger_state \<Rightarrow> ledger_state" where
  "update_utxos us st = st\<lparr>ls_cryptarchia := (ls_cryptarchia st)\<lparr>cl_utxos := us\<rparr>\<rparr>"

definition update_sdp :: "sdp_ledger \<Rightarrow> ledger_state \<Rightarrow> ledger_state" where
  "update_sdp sdp st = st\<lparr>ls_mantle := (ls_mantle st)\<lparr>ml_sdp := sdp\<rparr>\<rparr>"

definition try_apply_op ::
  "extern \<Rightarrow> blend_extern \<Rightarrow> ledger_config \<Rightarrow> nat \<Rightarrow> op \<Rightarrow> ledger_state \<Rightarrow> int \<Rightarrow> tx_event list \<Rightarrow> (nat ledger_error + ledger_state \<times> int \<times> tx_event list) option" where
  "try_apply_op X B c h operation st balance events =
     (let m = ls_mantle st; cs = ml_channels m; us = cl_utxos (ls_cryptarchia st); sl = cl_slot (ls_cryptarchia st)
      in case operation of
        ChannelInscribe op \<Rightarrow>
          bind_res (check_op_data_size (length (inscription op)) c) (\<lambda>_.
          bind_res (map_err (\<lambda>e. Mantle (MantleChannel e)) (inscription_execute X sl op cs)) (\<lambda>(cs, ev). ok (update_channels cs st, balance, events @ ev)))
      | ChannelConfig op \<Rightarrow>
          bind_res (map_err (\<lambda>e. Mantle (MantleChannel e)) (config_execute X sl op cs)) (\<lambda>(cs, ev). ok (update_channels cs st, balance, events @ ev))
      | ChannelDeposit op \<Rightarrow>
          bind_res (check_op_data_size (length (metadata op)) c) (\<lambda>_.
          bind_res (map_err (\<lambda>e. Mantle (MantleChannel e)) (deposit_execute X h op (cs, us))) (\<lambda>((cs, us), ev).
          ok (update_utxos us (update_channels cs st), balance, events @ ev)))
      | ChannelWithdraw op \<Rightarrow>
          bind_res (map_err (\<lambda>e. Mantle (MantleChannel e)) (channel_withdraw_execute op cs)) (\<lambda>(cs, ev). ok (update_channels cs st, balance, events @ ev))
      | ChannelTransfer op \<Rightarrow>
          bind_res (map_err (\<lambda>e. Mantle (MantleChannel e)) (channel_transfer_execute X op (cs, us))) (\<lambda>((cs, us), ev).
          ok (update_utxos us (update_channels cs st), balance, events @ ev))
      | SDPDeclare op \<Rightarrow>
          bind_res (map_err (\<lambda>e. Mantle (MantleSdp e)) (try_apply_sdp_declaration X us (cfg_sdp c) op (ml_sdp m))) (\<lambda>(sdp, ev).
          ok (update_sdp sdp st, balance, events @ ev))
      | SDPActive op \<Rightarrow>
          bind_res (map_err (\<lambda>e. Mantle (MantleSdp e)) (apply_active_msg B (cfg_sdp c) op (ml_sdp m))) (\<lambda>(sdp, ev).
          ok (update_sdp sdp st, balance, events @ ev))
      | SDPWithdraw op \<Rightarrow>
          bind_res (map_err (\<lambda>e. Mantle (MantleSdp e)) (apply_withdrawn_msg (cfg_sdp c) op (ml_sdp m))) (\<lambda>(sdp, ev).
          ok (update_sdp sdp st, balance, events @ ev))
      | LeaderClaim op \<Rightarrow>
          bind_res (map_err (\<lambda>e. Mantle (MantleLeaderClaim e)) (leader_claim_execute X h (reward_amount (ml_leaders m)) op
             \<lparr>lcc_nullifiers = nullifiers (ml_leaders m), lcc_claimable = claimable_rewards (ml_leaders m), lcc_utxos = us\<rparr>)) (\<lambda>(ctx, ev).
          ok (update_utxos (lcc_utxos ctx) (set_mantle (m\<lparr>ml_leaders := (ml_leaders m)\<lparr>nullifiers := lcc_nullifiers ctx, claimable_rewards := lcc_claimable ctx\<rparr>\<rparr>) st),
              balance, events @ ev))
      | Transfer op \<Rightarrow>
          bind_res (try_apply_transfer X op (ls_cryptarchia st)) (\<lambda>(cl, transfer_balance, ev).
          bind_res (ok_or LedgerBalanceOverflow (checked_add_int 128 balance transfer_balance)) (\<lambda>balance.
          ok (st\<lparr>ls_cryptarchia := cl\<rparr>, balance, events @ ev)))
      | ClaimPowReward op \<Rightarrow>
          bind_res (map_err (\<lambda>e. Mantle (MantleClaimPow e)) (claim_pow_execute X h (epoch_reward (ml_pow m)) (block_slots (ml_pow m)) op
             \<lparr>cp_reward_pool = reward_pool (ml_pow m), cp_nullifiers = pow_nullifiers (ml_pow m), cp_utxos = us\<rparr>)) (\<lambda>(ctx, ev).
          ok (update_utxos (cp_utxos ctx) (set_mantle (m\<lparr>ml_pow := update_from_claim ctx (ml_pow m)\<rparr>) st), balance, events @ ev)))"

subsection \<open>Transactions\<close>

record tx_outcome =
  to_state :: ledger_state
  to_balance :: int
  to_gas :: nat
  to_events :: "tx_event list"
  to_deferred :: deferred_proofs

text \<open>Each operation is verified against the state that the operations before it left, priced there, and executed.\<close>

definition apply_signed_op ::
  "extern \<Rightarrow> blend_extern \<Rightarrow> era_configs \<Rightarrow> ledger_config \<Rightarrow> nat \<Rightarrow> nat \<times> op \<times> op_proof \<Rightarrow> tx_outcome \<Rightarrow> (nat ledger_error + tx_outcome) option" where
  "apply_signed_op X B es c h = (\<lambda>(op_index, signed_op) t.
     bind_res (map_err VerificationError (verify_op X es op_index h (to_state t) (to_deferred t) signed_op)) (\<lambda>deferred.
     bind_res (map_err LedgerGasOverflow (execution_gas (cfg_gas_profile c) (channel_thresholds (ml_channels (ls_mantle (to_state t)))) (fst signed_op))) (\<lambda>gas.
     bind_res (map_err LedgerGasOverflow (gas_checked_add (to_gas t) gas)) (\<lambda>gas.
     bind_res (try_apply_op X B c h (fst signed_op) (to_state t) (to_balance t) (to_events t)) (\<lambda>(st, balance, events).
     ok \<lparr>to_state = st, to_balance = balance, to_gas = gas, to_events = events, to_deferred = deferred\<rparr>)))))"

definition try_apply_tx_operations ::
  "extern \<Rightarrow> blend_extern \<Rightarrow> era_configs \<Rightarrow> signed_ops \<Rightarrow> ledger_state \<Rightarrow> (nat ledger_error + tx_outcome) option" where
  "try_apply_tx_operations X B es tx st =
     bind_res (run (config_for_slot es (cl_slot (ls_cryptarchia st)))) (\<lambda>c.
     bind_res (ensure (so_fork_digest tx \<in> set (cfg_accepted_fork_digests c)) (UnacceptedForkDigest (so_fork_digest tx))) (\<lambda>_.
     bind_res (run (signed_ops_hash X tx)) (\<lambda>h.
     try_fold (apply_signed_op X B es c h) (enumerate 0 (so_ops tx))
       \<lparr>to_state = st, to_balance = 0, to_gas = 0, to_events = [], to_deferred = deferred_new\<rparr>)))"

record gas_and_fees =
  gf_execution_gas :: nat
  gf_storage_gas :: nat
  gf_fee_burned :: nat
  gf_fee_tip :: nat

definition gas_and_fees_default :: gas_and_fees where
  "gas_and_fees_default = \<lparr>gf_execution_gas = 0, gf_storage_gas = 0, gf_fee_burned = 0, gf_fee_tip = 0\<rparr>"

definition gas_and_fees_checked_add :: "gas_and_fees \<Rightarrow> gas_and_fees \<Rightarrow> nat \<Rightarrow> (nat ledger_error + gas_and_fees) option" where
  "gas_and_fees_checked_add g transaction max_gas =
     bind_res (ensure (\<not> max_gas < gf_execution_gas transaction) (TooMuchTransactionExecutionGas (gf_execution_gas transaction) max_gas)) (\<lambda>_.
     bind_res (map_err LedgerGasOverflow (gas_checked_add (gf_execution_gas g) (gf_execution_gas transaction))) (\<lambda>execution_gas.
     bind_res (ensure (\<not> max_gas < execution_gas) (TooMuchExecutionGas execution_gas max_gas)) (\<lambda>_.
     bind_res (map_err LedgerGasOverflow (gas_checked_add (gf_storage_gas g) (gf_storage_gas transaction))) (\<lambda>storage_gas.
     bind_res (map_err LedgerGasOverflow (cost_checked_add (gf_fee_burned g) (gf_fee_burned transaction))) (\<lambda>fee_burned.
     bind_res (map_err LedgerGasOverflow (cost_checked_add (gf_fee_tip g) (gf_fee_tip transaction))) (\<lambda>fee_tip.
     ok \<lparr>gf_execution_gas = execution_gas, gf_storage_gas = storage_gas, gf_fee_burned = fee_burned, gf_fee_tip = fee_tip\<rparr>))))))"

definition tx_storage_size :: "extern \<Rightarrow> signed_ops \<Rightarrow> nat option" where
  "tx_storage_size X tx = signed_ops_length X (2 ^ 32 - 1) tx"

definition try_apply_transaction ::
  "extern \<Rightarrow> blend_extern \<Rightarrow> era_configs \<Rightarrow> signed_ops \<Rightarrow> ledger_state
     \<Rightarrow> (nat ledger_error + ledger_state \<times> gas_and_fees \<times> tx_event list \<times> deferred_proofs) option" where
  "try_apply_transaction X B es tx st =
     bind_res (try_apply_tx_operations X B es tx st) (\<lambda>t.
     bind_res (run (tx_storage_size X tx)) (\<lambda>storage_gas.
     bind_res (map_err LedgerGasOverflow (gas_cost_calculate (to_gas t) (cl_execution_base_fee (ls_cryptarchia (to_state t))))) (\<lambda>execution_base_fees.
     bind_res (map_err LedgerGasOverflow (gas_cost_calculate storage_gas (cl_storage_gas_price (ls_cryptarchia (to_state t))))) (\<lambda>permanent_storage_fees.
     bind_res (map_err LedgerGasOverflow (cost_checked_add execution_base_fees permanent_storage_fees)) (\<lambda>total_gas_cost.
     bind_res (ensure (\<not> to_balance t < int total_gas_cost) InsufficientBalance) (\<lambda>_.
     bind_res (map_err LedgerGasOverflow (cost_checked_sub (nat (to_balance t mod 2 ^ 64)) total_gas_cost)) (\<lambda>fee_tip.
     ok (to_state t, \<lparr>gf_execution_gas = to_gas t, gf_storage_gas = storage_gas, gf_fee_burned = total_gas_cost, gf_fee_tip = fee_tip\<rparr>,
         to_events t, to_deferred t))))))))"

subsection \<open>Blocks\<close>

definition compute_block_rewards :: "nat \<Rightarrow> nat \<Rightarrow> ledger_config \<Rightarrow> ledger_state \<Rightarrow> (nat ledger_error + ledger_state) option" where
  "compute_block_rewards total_fee_burned total_fee_tip c st =
     (let window_index = ls_block_number st mod WINDOW_SIZE; m = ls_mantle st in
     bind_res (run (pow_fee_share (pow_reward (cfg_pow c)) total_fee_burned)) (\<lambda>pow_refill.
     bind_res (map_err LedgerGasOverflow (cost_checked_sub total_fee_burned pow_refill)) (\<lambda>pooled.
     bind_res (run (update_fee_window window_index pooled (ls_cryptarchia st))) (\<lambda>cl.
     bind_res (run (do { fee \<leftarrow> get_fee_from_index window_index cl;
                         rewards (cfg_block_rewards c) (get_summed_fees cl) fee (eps_total_stake (cl_epoch_state cl)) })) (\<lambda>(blend_reward, leader_reward).
     bind_res (map_err LedgerGasOverflow (cost_checked_add leader_reward total_fee_tip)) (\<lambda>leader_reward.
     bind_res (map_err (\<lambda>e. Mantle (MantlePowRewardPool e)) (add_reward_refill_rewards pow_refill (ml_pow m))) (\<lambda>pow.
     ok (st\<lparr>ls_cryptarchia := cl, ls_mantle := m\<lparr>ml_leaders := add_pending_rewards leader_reward (ml_leaders m),
           ml_sdp := add_blend_income blend_reward (ml_sdp m), ml_pow := pow\<rparr>\<rparr>))))))))"

record block_progress =
  bp_state :: ledger_state
  bp_gas_and_fees :: gas_and_fees
  bp_events :: "tx_event list"
  bp_deferred :: deferred_proofs
  bp_size :: nat

definition apply_block_tx ::
  "extern \<Rightarrow> blend_extern \<Rightarrow> era_configs \<Rightarrow> ledger_config \<Rightarrow> nat \<times> signed_ops \<Rightarrow> block_progress \<Rightarrow> (nat ledger_error + block_progress) option" where
  "apply_block_tx X B es c = (\<lambda>(index, tx) b.
     bind_res (ensure (\<not> cfg_max_transactions c \<le> index) (TooManyTransactions (cfg_max_transactions c))) (\<lambda>_.
     bind_res (run (tx_storage_size X tx)) (\<lambda>tx_size.
     let transactions_size = saturating_add 64 (bp_size b) tx_size in
     bind_res (ensure (\<not> cfg_max_transactions_size c < transactions_size) (TransactionsTooLarge transactions_size (cfg_max_transactions_size c))) (\<lambda>_.
     bind_res (try_apply_transaction X B es tx (bp_state b)) (\<lambda>(st, tx_gas_and_fees, events, deferred).
     bind_res (gas_and_fees_checked_add (bp_gas_and_fees b) tx_gas_and_fees (max_gas_per_block (cfg_execution_market c))) (\<lambda>g.
     ok \<lparr>bp_state = st, bp_gas_and_fees = g, bp_events = bp_events b @ events, bp_deferred = deferred_extend (bp_deferred b) deferred,
         bp_size = transactions_size\<rparr>)))))) "

definition try_apply_block_contents ::
  "extern \<Rightarrow> blend_extern \<Rightarrow> era_configs \<Rightarrow> signed_ops list \<Rightarrow> ledger_state \<Rightarrow> (nat ledger_error + ledger_state \<times> tx_event list \<times> deferred_proofs) option" where
  "try_apply_block_contents X B es txs st =
     bind_res (run (config_for_slot es (cl_slot (ls_cryptarchia st)))) (\<lambda>c.
     bind_res (try_fold (apply_block_tx X B es c) (enumerate 0 txs)
       \<lparr>bp_state = st, bp_gas_and_fees = gas_and_fees_default, bp_events = [], bp_deferred = deferred_new, bp_size = 0\<rparr>) (\<lambda>b.
     bind_res (compute_block_rewards (gf_fee_burned (bp_gas_and_fees b)) (gf_fee_tip (bp_gas_and_fees b)) c (bp_state b)) (\<lambda>st.
     let cl = cryptarchia_execution_market (gf_execution_gas (bp_gas_and_fees b)) (cfg_execution_market c) (ls_cryptarchia st) in
     bind_res (map_err LedgerGasOverflow (add_storage_gas_consumed (gf_storage_gas (bp_gas_and_fees b)) cl)) (\<lambda>cl.
     ok (st\<lparr>ls_cryptarchia := cl\<rparr>, bp_events b, bp_deferred b)))))"

definition try_apply_header ::
  "extern \<Rightarrow> blend_extern \<Rightarrow> (nat \<Rightarrow> nat \<Rightarrow> nat) \<Rightarrow> era_configs \<Rightarrow> slot \<Rightarrow> leader_proof \<Rightarrow> slot list \<Rightarrow> ledger_state
     \<Rightarrow> (nat ledger_error + ledger_state \<times> header_event list) option" where
  "try_apply_header X B nth_root es sl pr uncle_slots st =
     (let last_state = cl_epoch_state (ls_cryptarchia st) in
     bind_res (cryptarchia_apply_header X nth_root es sl pr uncle_slots (ml_sdp (ls_mantle st)) (ml_pow (ls_mantle st)) (ls_cryptarchia st)) (\<lambda>cl.
     bind_res (map_err Mantle (mantle_apply_header X B es last_state (cl_epoch_state cl) (proof_voucher_cm pr) (ls_mantle st))) (\<lambda>(m, reward_utxos, events).
     bind_res (run (fold_run (\<lambda>us u. map_option fst (store_insert (note_tree X) (utxo_id X u) u us)) (cl_utxos cl) reward_utxos)) (\<lambda>us.
     bind_res (run (checked_add 64 (ls_block_number st) 1)) (\<lambda>n.
     ok (\<lparr>ls_block_number = n, ls_cryptarchia = cl\<lparr>cl_utxos := us\<rparr>, ls_mantle = m\<rparr>, events))))))"

datatype ledger_event = HeaderEvent header_event | TxEvent tx_event

definition claimed_pow_rewards :: "tx_event list \<Rightarrow> nat" where
  "claimed_pow_rewards events = length (filter (\<lambda>e. case ev_payload e of PoWRewardClaimed _ _ \<Rightarrow> True | _ \<Rightarrow> False) events)"

definition try_update ::
  "extern \<Rightarrow> blend_extern \<Rightarrow> (nat \<Rightarrow> nat \<Rightarrow> nat) \<Rightarrow> era_configs \<Rightarrow> nat \<Rightarrow> slot \<Rightarrow> leader_proof \<Rightarrow> slot list \<Rightarrow> signed_ops list \<Rightarrow> ledger_state
     \<Rightarrow> (nat ledger_error + ledger_state \<times> ledger_event list \<times> deferred_proofs) option" where
  "try_update X B nth_root es block_id sl pr uncle_slots txs st =
     bind_res (try_apply_header X B nth_root es sl pr uncle_slots st) (\<lambda>(st, header_events).
     bind_res (run (mantle_add_seen_block es block_id sl (ls_mantle st))) (\<lambda>m.
     bind_res (try_apply_block_contents X B es txs (set_mantle m st)) (\<lambda>(st, tx_events, deferred).
     bind_res (run (do { c \<leftarrow> config_for_slot es sl;
                         pow \<leftarrow> record_block_txs (min (length txs) (2 ^ 64 - 1)) (ml_pow (ls_mantle st));
                         pow \<leftarrow> update_difficulty (claimed_pow_rewards tx_events) (pow_reward (cfg_pow c)) pow;
                         Some (set_mantle ((ls_mantle st)\<lparr>ml_pow := pow\<rparr>) st) })) (\<lambda>st.
     ok (st, map HeaderEvent header_events @ map TxEvent tx_events, deferred)))))"

subsection \<open>Genesis\<close>

record genesis_tx =
  g_epoch_nonce :: nat
  g_pow_reward_pool :: nat
  g_consensus_excluded_keys :: "nat list"
  g_transfer :: transfer_op
  g_inscription :: inscription_op
  g_declarations :: "declaration_message list"

definition ledger_from_utxos :: "extern \<Rightarrow> ledger_config \<Rightarrow> nat \<Rightarrow> nat list \<Rightarrow> utxo list \<Rightarrow> ledger_state option" where
  "ledger_from_utxos X c pool excluded us =
     do { cl \<leftarrow> cryptarchia_from_utxos X c excluded 0 us;
          m \<leftarrow> mantle_new X c pool (cl_epoch_state cl);
          cl \<leftarrow> with_genesis_sdp c (ml_sdp m) cl;
          Some \<lparr>ls_block_number = 0, ls_cryptarchia = cl, ls_mantle = m\<rparr> }"

definition ledger_from_genesis_tx :: "extern \<Rightarrow> ledger_config \<Rightarrow> genesis_tx \<Rightarrow> (nat ledger_error + ledger_state \<times> tx_event list) option" where
  "ledger_from_genesis_tx X c g =
     bind_res (cryptarchia_from_genesis_tx X c (g_consensus_excluded_keys g) (g_epoch_nonce g) (g_transfer g)) (\<lambda>cl.
     bind_res (map_err Mantle (mantle_from_genesis_tx X c (g_pow_reward_pool g) (cl_utxos cl) (cl_epoch_state cl) (g_inscription g) (g_declarations g))) (\<lambda>(m, events).
     bind_res (run (with_genesis_sdp c (ml_sdp m) cl)) (\<lambda>cl.
     ok (\<lparr>ls_block_number = 0, ls_cryptarchia = cl, ls_mantle = m\<rparr>, events))))"

subsection \<open>The ledger of all branches\<close>

record ledger =
  lg_states :: "nat \<rightharpoonup> ledger_state"
  lg_eras :: era_configs

record prepared_update =
  pu_id :: nat
  pu_state :: ledger_state
  pu_events :: "ledger_event list"
  pu_deferred :: deferred_proofs

record batch_verified_update =
  bu_id :: nat
  bu_state :: ledger_state
  bu_events :: "ledger_event list"

definition ledger_new :: "nat \<Rightarrow> ledger_state \<Rightarrow> era_configs \<Rightarrow> ledger option" where
  "ledger_new block_id st es =
     do { m \<leftarrow> mantle_add_seen_block es block_id (cl_slot (ls_cryptarchia st)) (ls_mantle st);
          Some \<lparr>lg_states = [block_id \<mapsto> set_mantle m st], lg_eras = es\<rparr> }"

definition prepare_update ::
  "extern \<Rightarrow> blend_extern \<Rightarrow> (nat \<Rightarrow> nat \<Rightarrow> nat) \<Rightarrow> nat \<Rightarrow> nat \<Rightarrow> slot \<Rightarrow> leader_proof \<Rightarrow> slot list \<Rightarrow> signed_ops list \<Rightarrow> ledger
     \<Rightarrow> (nat ledger_error + prepared_update) option" where
  "prepare_update X B nth_root block_id parent_id sl pr uncle_slots txs l =
     bind_res (ok_or (ParentNotFound parent_id) (lg_states l parent_id)) (\<lambda>parent_state.
     bind_res (try_update X B nth_root (lg_eras l) block_id sl pr uncle_slots txs parent_state) (\<lambda>(st, events, deferred).
     ok \<lparr>pu_id = block_id, pu_state = st, pu_events = events, pu_deferred = deferred\<rparr>))"

definition verify_batch_proofs ::
  "(deferred_zk_sig list \<Rightarrow> bool option) \<Rightarrow> (deferred_leader_claim list \<Rightarrow> bool option) \<Rightarrow> prepared_update \<Rightarrow> (batch_error + batch_verified_update) option" where
  "verify_batch_proofs zk_batch poc_batch u =
     bind_res (deferred_verify zk_batch poc_batch (pu_deferred u)) (\<lambda>_. ok \<lparr>bu_id = pu_id u, bu_state = pu_state u, bu_events = pu_events u\<rparr>)"

definition commit_update :: "batch_verified_update \<Rightarrow> ledger \<Rightarrow> ledger \<times> ledger_event list" where
  "commit_update u l = (l\<lparr>lg_states := (lg_states l)(bu_id u \<mapsto> bu_state u)\<rparr>, bu_events u)"

definition prune_state_at :: "nat \<Rightarrow> ledger \<Rightarrow> ledger \<times> bool" where
  "prune_state_at block_id l = (l\<lparr>lg_states := (lg_states l)(block_id := None)\<rparr>, lg_states l block_id \<noteq> None)"

end
