(* ===== verification/LedgerSafety.thy ===== *)
theory LedgerSafety
  imports LedgerState
begin

text \<open>
  What holds of every ledger state that blocks can lead to: all parts are in the same epoch (\<open>ledger_ok\<close>), and the supply,
  which is the value of all notes with the rewards that are collected but not yet paid, grows with each block by at most the emission.
  Nothing is assumed about hashes: a note whose identifier collides with that of another can only destroy value.
\<close>

subsection \<open>The value of notes, whatever their identifiers\<close>

lemma store_get_insert: "store_insert E k v s = Some (s', pos) \<Longrightarrow> store_get s' = (store_get s)(k \<mapsto> v)"
  by (auto simp: store_insert_def bind_Some_iff store_get_def update_conv' fun_eq_iff)

lemma store_get_remove:
  assumes "store_remove E k s = ok (s', v)"
  shows "store_get s k = Some v" "store_get s' = (store_get s)(k := None)"
  using assms by (auto simp: store_remove_def bind_res_ok_iff store_get_def delete_conv' fun_eq_iff split: option.splits)

lemma finite_notes: "finite (dom (store_get s))"
  by (rule finite_subset [OF _ finite_dom_map_of [of "mt_items s"]]) (auto simp: store_get_def)

lemma total_value_insert: "store_insert E k u us = Some (us', pos) \<Longrightarrow> total_value us' \<le> total_value us + utxo_value u"
  using map_total_new [OF finite_notes, of us k utxo_value u] map_total_update [OF finite_notes, of us k _ utxo_value u]
  by (cases "store_get us k") (fastforce simp: total_value_def store_get_insert)+

lemma total_value_inserts:
  "fold_run (\<lambda>s u. map_option fst (store_insert E (f u) u s)) us xs = Some us' \<Longrightarrow> total_value us' \<le> total_value us + sum_list (map utxo_value xs)"
proof (induction xs arbitrary: us)
  case (Cons u xs)
  then obtain us1 pos where "store_insert E (f u) u us = Some (us1, pos)" "fold_run (\<lambda>s u. map_option fst (store_insert E (f u) u s)) us1 xs = Some us'"
    by (auto simp: bind_Some_iff)
  then show ?case using Cons.IH total_value_insert by fastforce
qed simp

lemma inputs_removed:
  "inputs_execute X inputs us = ok us' \<Longrightarrow> total_value us' + input_value us inputs = total_value us"
proof (induction inputs arbitrary: us)
  case (Cons i inputs)
  obtain us1 u where r: "store_remove (note_tree X) i us = ok (us1, u)" "inputs_execute X inputs us1 = ok us'"
    using Cons.prems by (auto simp: inputs_execute_def bind_res_ok_iff)
  note g = store_get_remove [OF r(1)]
  have "total_value us1 + utxo_value u = total_value us"
    using map_total_remove [OF finite_notes g(1), of utxo_value] g(2) by (simp add: total_value_def)
  moreover have "store_get us1 j = store_get us j" if "j \<in> set inputs" for j
  proof -
    have "i \<notin> set inputs"
    proof
      assume i: "i \<in> set inputs"
      have "inputs_execute X xs s \<noteq> ok us'" if "store_get s i = None" "i \<in> set xs" for xs s
        using that
      proof (induction xs arbitrary: s)
        case (Cons x xs)
        show ?case
        proof
          assume "inputs_execute X (x # xs) s = ok us'"
          then obtain s1 v where "store_remove (note_tree X) x s = ok (s1, v)" "inputs_execute X xs s1 = ok us'"
            by (auto simp: inputs_execute_def bind_res_ok_iff)
          then show False using Cons store_get_remove [of "note_tree X" x s s1 v] by (cases "x = i") auto
        qed
      qed simp
      then show False using r(2) i g(2) by simp
    qed
    then show ?thesis using that g(2) by auto
  qed
  then have "input_value us1 inputs = input_value us inputs" by (simp add: input_value_def cong: map_cong)
  ultimately show ?case using Cons.IH [OF r(2)] g(1) by (simp add: input_value_def)
qed (simp add: inputs_execute_def input_value_def)

lemma outputs_added: "outputs_execute X oid outputs us = Some us' \<Longrightarrow> total_value us' \<le> total_value us + output_value outputs"
  using total_value_inserts [of "note_tree X" "utxo_id X" us "output_utxos oid outputs" us'] output_utxos_values [of oid outputs]
  by (simp add: outputs_execute_def output_value_def)

lemma transfer_value:
  assumes "transfer_balance us op = ok b" "transfer_execute X op us = ok (us', ev)"
  shows "int (total_value us') + b \<le> int (total_value us)"
proof -
  obtain us1 oid where x: "inputs_execute X (t_inputs op) us = ok us1" "outputs_execute X oid (t_outputs op) us1 = Some us'"
    using assms(2) by (auto simp: transfer_execute_def bind_res_ok_iff bind_Some_iff)
  show ?thesis using inputs_removed [OF x(1)] outputs_added [OF x(2)] assms(1) by (auto simp: transfer_balance_iff)
qed

lemma deposit_value:
  assumes "deposit_execute X h op (cs, us) = ok ((cs', us'), ev)"
  shows "total_value us' \<le> total_value us"
proof -
  obtain outs us1 oid where x: "deposit_outputs us op = ok outs" "inputs_execute X (d_inputs op) us = ok us1" "outputs_execute X oid outs us1 = Some us'"
    using assms by (auto simp: deposit_execute_def bind_res_ok_iff bind_Some_iff)
  have "outs = recreated us (d_inputs op)"
    using x(1) by (auto simp: deposit_outputs_def bind_res_ok_iff try_collect_ok_iff outputs_try_new_def split: if_splits)
  then show ?thesis using inputs_removed [OF x(2)] outputs_added [OF x(3)] recreated_value [of us "d_inputs op"] by simp
qed

lemma channel_transfer_value:
  assumes "channel_transfer_execute X op (cs, us) = ok ((cs', us'), ev)" "input_value us (ct_inputs op) = output_value (ct_outputs op)"
  shows "total_value us' \<le> total_value us"
proof -
  obtain us1 oid where x: "inputs_execute X (ct_inputs op) us = ok us1" "outputs_execute X oid (ct_outputs op) us1 = Some us'"
    using assms(1) by (auto simp: channel_transfer_execute_def bind_res_ok_iff bind_Some_iff)
  show ?thesis using inputs_removed [OF x(1)] outputs_added [OF x(2)] assms(2) by simp
qed

subsection \<open>Operations\<close>

definition total_supply :: "ledger_state \<Rightarrow> nat" where
  "total_supply st = total_value (cl_utxos (ls_cryptarchia st)) +
     (claimable_rewards (ml_leaders (ls_mantle st)) + pending_rewards (ml_leaders (ls_mantle st))) +
     (reward_pool (ml_pow (ls_mantle st)) + refill_rewards (ml_pow (ls_mantle st))) + sdp_income (ml_sdp (ls_mantle st))"

definition ledger_ok :: "extern \<Rightarrow> era_configs \<Rightarrow> ledger_state \<Rightarrow> bool" where
  "ledger_ok X es st \<longleftrightarrow> in_step es (ls_cryptarchia st) \<and> sdp_ledger_ok X (ml_sdp (ls_mantle st)) \<and>
     sl_epoch (ml_sdp (ls_mantle st)) = eps_epoch (cl_epoch_state (ls_cryptarchia st)) \<and>
     leader_epoch (ml_leaders (ls_mantle st)) = eps_epoch (cl_epoch_state (ls_cryptarchia st))"

text \<open>What operations leave alone.\<close>

definition op_frame :: "extern \<Rightarrow> ledger_state \<Rightarrow> ledger_state \<Rightarrow> bool" where
  "op_frame X st st' \<longleftrightarrow>
     (\<exists>us. ls_cryptarchia st' = (ls_cryptarchia st)\<lparr>cl_utxos := us\<rparr>) \<and> ls_block_number st' = ls_block_number st \<and>
     (sdp_ledger_ok X (ml_sdp (ls_mantle st)) \<longrightarrow> sdp_ledger_ok X (ml_sdp (ls_mantle st'))) \<and>
     sl_epoch (ml_sdp (ls_mantle st')) = sl_epoch (ml_sdp (ls_mantle st)) \<and> leader_epoch (ml_leaders (ls_mantle st')) = leader_epoch (ml_leaders (ls_mantle st))"

lemma op_frame_refl: "op_frame X st st"
  by (auto simp: op_frame_def intro: exI [of _ "cl_utxos (ls_cryptarchia st)"])

lemma op_frame_trans: "op_frame X a b \<Longrightarrow> op_frame X b c \<Longrightarrow> op_frame X a c"
  by (auto simp: op_frame_def)

lemma op_frame_ok: "op_frame X st st' \<Longrightarrow> ledger_ok X es st \<Longrightarrow> ledger_ok X es st'"
  by (auto simp: op_frame_def ledger_ok_def in_step_def)

lemma op_frame_slot: "op_frame X st st' \<Longrightarrow> cl_slot (ls_cryptarchia st') = cl_slot (ls_cryptarchia st)"
  by (auto simp: op_frame_def)

lemma op_frame_updates:
  "op_frame X st (update_channels cs st)" "op_frame X st (update_utxos us (update_channels cs st))"
  by (auto simp: op_frame_def update_channels_def update_utxos_def intro: exI [of _ "cl_utxos (ls_cryptarchia st)"])

lemma channel_op_step:
  assumes "try_apply_op X B c h operation st b ev = ok (st', b', ev')" "verify_op X es i h st d (operation, p) = ok d'"
    and "(case operation of ChannelInscribe _ \<Rightarrow> True | ChannelConfig _ \<Rightarrow> True | ChannelDeposit _ \<Rightarrow> True | ChannelWithdraw _ \<Rightarrow> True | ChannelTransfer _ \<Rightarrow> True | _ \<Rightarrow> False)"
  shows "op_frame X st st' \<and> int (total_supply st') + b' \<le> int (total_supply st) + b"
proof (cases operation)
  case (ChannelDeposit op)
  then obtain cs us where "deposit_execute X h op (ml_channels (ls_mantle st), cl_utxos (ls_cryptarchia st)) = ok ((cs, us), drop (length ev) ev')"
      "st' = update_utxos us (update_channels cs st)" "b' = b"
    using assms(1) by (auto simp: try_apply_op_def Let_def bind_res_ok_iff)
  then show ?thesis using deposit_value op_frame_updates by (auto simp: total_supply_def update_utxos_def update_channels_def)
next
  case (ChannelTransfer op)
  then obtain cs us where x: "channel_transfer_execute X op (ml_channels (ls_mantle st), cl_utxos (ls_cryptarchia st)) = ok ((cs, us), drop (length ev) ev')"
      "st' = update_utxos us (update_channels cs st)" "b' = b"
    using assms(1) by (auto simp: try_apply_op_def Let_def bind_res_ok_iff)
  have "input_value (cl_utxos (ls_cryptarchia st)) (ct_inputs op) = output_value (ct_outputs op)"
    using assms(2) ChannelTransfer by (cases p) (auto simp: verify_op_def Let_def bind_res_ok_iff channel_transfer_verify_iff)
  then show ?thesis using x channel_transfer_value [OF x(1)] op_frame_updates by (simp add: total_supply_def update_utxos_def update_channels_def)
qed (use assms(1,3) in \<open>auto simp: try_apply_op_def Let_def bind_res_ok_iff total_supply_def op_frame_updates(1)\<close>,
     simp_all add: update_channels_def)

lemma sdp_op_step:
  assumes "try_apply_op X B c h operation st b ev = ok (st', b', ev')" "verify_op X es i h st d (operation, p) = ok d'"
    and "config_for_slot es (cl_slot (ls_cryptarchia st)) = Some c" "sdp_ledger_ok X (ml_sdp (ls_mantle st))"
    and "(case operation of SDPDeclare _ \<Rightarrow> True | SDPActive _ \<Rightarrow> True | SDPWithdraw _ \<Rightarrow> True | _ \<Rightarrow> False)"
  shows "op_frame X st st' \<and> int (total_supply st') + b' \<le> int (total_supply st) + b"
proof -
  have step: "op_frame X st st' \<and> int (total_supply st') + b' \<le> int (total_supply st) + b"
    if "st' = update_sdp sdp st" "b' = b" "sdp_ledger_ok X sdp" "sdp_income sdp = sdp_income (ml_sdp (ls_mantle st))" "sl_epoch sdp = sl_epoch (ml_sdp (ls_mantle st))" for sdp
    using that by (auto simp: op_frame_def total_supply_def update_sdp_def intro: exI [of _ "cl_utxos (ls_cryptarchia st)"])
  show ?thesis
  proof (cases operation)
    case (SDPDeclare op)
    obtain sdp e where x: "try_apply_sdp_declaration X (cl_utxos (ls_cryptarchia st)) (cfg_sdp c) op (ml_sdp (ls_mantle st)) = ok (sdp, e)"
        "st' = update_sdp sdp st" "b' = b"
      using assms(1) SDPDeclare by (auto simp: try_apply_op_def Let_def bind_res_ok_iff)
    obtain sv u where v: "sl_services (ml_sdp (ls_mantle st)) (dm_service_type op) = Some sv" "store_get (cl_utxos (ls_cryptarchia st)) (dm_service_note_id op) = Some u"
        "declare_validate X op (utxo_note u) (ml_channels (ls_mantle st)) (ss_declarations sv) (ss_provider_index sv) (sl_service_notes (ml_sdp (ls_mantle st)))
           (sc_min_stake (cfg_sdp c)) = ok ()"
      using assms(2,3) SDPDeclare
      by (cases p) (auto simp: verify_op_def Let_def bind_res_ok_iff declare_verify_iff get_declarations_by_service_def get_provider_index_by_service_def)
    show ?thesis using sdp_declaration_ok [OF x(1) assms(4) v] by (intro step [OF x(2,3)])
  next
    case (SDPActive op)
    obtain sdp e where x: "apply_active_msg B (cfg_sdp c) op (ml_sdp (ls_mantle st)) = ok (sdp, e)" "st' = update_sdp sdp st" "b' = b"
      using assms(1) SDPActive by (auto simp: try_apply_op_def Let_def bind_res_ok_iff)
    show ?thesis using sdp_active_ok [OF x(1) assms(4)] by (intro step [OF x(2,3)])
  next
    case (SDPWithdraw op)
    obtain sdp e where x: "apply_withdrawn_msg (cfg_sdp c) op (ml_sdp (ls_mantle st)) = ok (sdp, e)" "st' = update_sdp sdp st" "b' = b"
      using assms(1) SDPWithdraw by (auto simp: try_apply_op_def Let_def bind_res_ok_iff)
    show ?thesis using sdp_withdrawn_ok [OF x(1) assms(4)] by (intro step [OF x(2,3)])
  qed (use assms(5) in simp_all)
qed

lemma value_op_step:
  assumes "try_apply_op X B c h operation st b ev = ok (st', b', ev')"
    and "(case operation of LeaderClaim _ \<Rightarrow> True | Transfer _ \<Rightarrow> True | ClaimPowReward _ \<Rightarrow> True | _ \<Rightarrow> False)"
  shows "op_frame X st st' \<and> int (total_supply st') + b' \<le> int (total_supply st) + b"
proof (cases operation)
  case (LeaderClaim op)
  let ?l = "ml_leaders (ls_mantle st)"
  obtain ctx e where x: "leader_claim_execute X h (reward_amount ?l) op
      \<lparr>lcc_nullifiers = nullifiers ?l, lcc_claimable = claimable_rewards ?l, lcc_utxos = cl_utxos (ls_cryptarchia st)\<rparr> = ok (ctx, e)" and b: "b' = b"
    and st': "st' = update_utxos (lcc_utxos ctx) (set_mantle ((ls_mantle st)\<lparr>ml_leaders := ?l\<lparr>nullifiers := lcc_nullifiers ctx, claimable_rewards := lcc_claimable ctx\<rparr>\<rparr>) st)"
    using assms(1) LeaderClaim by (auto simp: try_apply_op_def Let_def bind_res_ok_iff)
  obtain u us pos where "store_insert (note_tree X) (utxo_id X u) u (cl_utxos (ls_cryptarchia st)) = Some (us, pos)" "utxo_value u = reward_amount ?l"
      "lcc_utxos ctx = us" "lcc_claimable ctx = claimable_rewards ?l - reward_amount ?l"
    using x reward_amount_le [of ?l] by (auto simp: leader_claim_execute_iff leader_claim_utxo_def bind_Some_iff)
  then show ?thesis using total_value_insert reward_amount_le [of ?l]
    by (fastforce simp: b st' total_supply_def op_frame_def update_utxos_def set_mantle_def)
next
  case (Transfer op)
  obtain us tb e where x: "transfer_balance (cl_utxos (ls_cryptarchia st)) op = ok tb" "transfer_execute X op (cl_utxos (ls_cryptarchia st)) = ok (us, e)"
      "b' = b + tb" "st' = st\<lparr>ls_cryptarchia := (ls_cryptarchia st)\<lparr>cl_utxos := us\<rparr>\<rparr>"
    using assms(1) Transfer by (auto simp: try_apply_op_def Let_def try_apply_transfer_def bind_res_ok_iff checked_add_int_def split: if_splits)
  show ?thesis using transfer_value [OF x(1,2)] x(3,4) by (auto simp: total_supply_def op_frame_def)
next
  case (ClaimPowReward op)
  let ?p = "ml_pow (ls_mantle st)"
  obtain ctx e where x: "claim_pow_execute X h (epoch_reward ?p) (block_slots ?p) op
      \<lparr>cp_reward_pool = reward_pool ?p, cp_nullifiers = pow_nullifiers ?p, cp_utxos = cl_utxos (ls_cryptarchia st)\<rparr> = ok (ctx, e)" and b: "b' = b"
    and st': "st' = update_utxos (cp_utxos ctx) (set_mantle ((ls_mantle st)\<lparr>ml_pow := update_from_claim ctx ?p\<rparr>) st)"
    using assms(1) ClaimPowReward by (auto simp: try_apply_op_def Let_def bind_res_ok_iff)
  obtain u us pos where "store_insert (note_tree X) (utxo_id X u) u (cl_utxos (ls_cryptarchia st)) = Some (us, pos)" "utxo_value u = epoch_reward ?p"
      "cp_utxos ctx = us" "epoch_reward ?p \<le> reward_pool ?p" "cp_reward_pool ctx = reward_pool ?p - epoch_reward ?p"
    using x by (fastforce simp: claim_pow_execute_iff)
  then show ?thesis using total_value_insert
    by (fastforce simp: b st' total_supply_def op_frame_def update_utxos_def set_mantle_def update_from_claim_def)
qed (use assms(2) in simp_all)

lemma op_step:
  assumes "try_apply_op X B c h operation st b ev = ok (st', b', ev')" "verify_op X es i h st d (operation, p) = ok d'"
    and "config_for_slot es (cl_slot (ls_cryptarchia st)) = Some c" "ledger_ok X es st"
  shows "op_frame X st st' \<and> int (total_supply st') + b' \<le> int (total_supply st) + b"
  using channel_op_step [OF assms(1,2)] sdp_op_step [OF assms(1-3)] value_op_step [OF assms(1)] assms(4)
  by (cases operation) (simp_all add: ledger_ok_def)

subsection \<open>Transactions\<close>

lemma tx_operations_step:
  assumes "try_apply_tx_operations X B es tx st = ok t" "ledger_ok X es st"
  shows "op_frame X st (to_state t) \<and> int (total_supply (to_state t)) + to_balance t \<le> int (total_supply st)"
proof -
  obtain c h where c: "config_for_slot es (cl_slot (ls_cryptarchia st)) = Some c"
      and f: "try_fold (apply_signed_op X B es c h) (enumerate 0 (so_ops tx))
        \<lparr>to_state = st, to_balance = 0, to_gas = 0, to_events = [], to_deferred = deferred_new\<rparr> = ok t"
    using assms(1) by (auto simp: try_apply_tx_operations_def bind_res_ok_iff)
  show ?thesis
  proof (rule try_fold_invariant [OF f, where P = "\<lambda>t. op_frame X st (to_state t) \<and> int (total_supply (to_state t)) + to_balance t \<le> int (total_supply st)"])
    fix x t t' assume P: "op_frame X st (to_state t) \<and> int (total_supply (to_state t)) + to_balance t \<le> int (total_supply st)"
      and x: "apply_signed_op X B es c h x t = ok t'"
    obtain i operation p where i: "x = (i, operation, p)" by (cases x)
    obtain d where v: "verify_op X es i h (to_state t) (to_deferred t) (operation, p) = ok d"
        and e: "try_apply_op X B c h operation (to_state t) (to_balance t) (to_events t) = ok (to_state t', to_balance t', to_events t')"
      using x by (auto simp: apply_signed_op_def i bind_res_ok_iff)
    have "op_frame X (to_state t) (to_state t') \<and> int (total_supply (to_state t')) + to_balance t' \<le> int (total_supply (to_state t)) + to_balance t"
      using op_step [OF e v, of] P c op_frame_slot op_frame_ok [OF _ assms(2)] by metis
    then show "op_frame X st (to_state t') \<and> int (total_supply (to_state t')) + to_balance t' \<le> int (total_supply st)"
      using P op_frame_trans by fastforce
  qed (simp add: op_frame_refl)
qed

lemma transaction_step:
  assumes "try_apply_transaction X B es tx st = ok (st', g, ev, d)" "ledger_ok X es st"
  shows "op_frame X st st'" "total_supply st' + gf_fee_burned g + gf_fee_tip g \<le> total_supply st"
proof -
  obtain t cost tip where t: "try_apply_tx_operations X B es tx st = ok t" "st' = to_state t" and cost: "\<not> to_balance t < int cost"
      and tip: "cost_checked_sub (nat (to_balance t mod 2 ^ 64)) cost = ok tip" and g: "gf_fee_burned g = cost" "gf_fee_tip g = tip"
    using assms(1) by (auto simp: try_apply_transaction_def bind_res_ok_iff)
  note s = tx_operations_step [OF t(1) assms(2)]
  show "op_frame X st st'" using s t(2) by simp
  have "to_balance t mod 2 ^ 64 \<le> to_balance t" using cost by (intro zmod_le_nonneg_dividend) simp
  moreover have "int tip + int cost = to_balance t mod 2 ^ 64"
    using tip by (auto simp: cost_checked_sub_def checked_Some_iffs)
  ultimately have "int tip + int cost \<le> to_balance t" by simp
  then show "total_supply st' + gf_fee_burned g + gf_fee_tip g \<le> total_supply st" using conjunct2 [OF s] unfolding t(2) g by linarith
qed

subsection \<open>Blocks\<close>

lemma gas_and_fees_added:
  assumes "gas_and_fees_checked_add g t m = ok g'"
  shows "gf_fee_burned g' = gf_fee_burned g + gf_fee_burned t" "gf_fee_tip g' = gf_fee_tip g + gf_fee_tip t" "gf_fee_burned g' < 2 ^ 64"
  using assms by (auto simp: gas_and_fees_checked_add_def bind_res_ok_iff cost_checked_add_def checked_Some_iffs)

lemma block_txs_step:
  assumes "try_fold (apply_block_tx X B es c) (enumerate 0 txs)
       \<lparr>bp_state = st, bp_gas_and_fees = gas_and_fees_default, bp_events = [], bp_deferred = deferred_new, bp_size = 0\<rparr> = ok b" "ledger_ok X es st"
  shows "op_frame X st (bp_state b) \<and> total_supply (bp_state b) + gf_fee_burned (bp_gas_and_fees b) + gf_fee_tip (bp_gas_and_fees b) \<le> total_supply st \<and>
    gf_fee_burned (bp_gas_and_fees b) < 2 ^ 64"
proof (rule try_fold_invariant [OF assms(1), where P = "\<lambda>b. op_frame X st (bp_state b) \<and>
    total_supply (bp_state b) + gf_fee_burned (bp_gas_and_fees b) + gf_fee_tip (bp_gas_and_fees b) \<le> total_supply st \<and> gf_fee_burned (bp_gas_and_fees b) < 2 ^ 64"])
  fix x b b' assume P: "op_frame X st (bp_state b) \<and>
      total_supply (bp_state b) + gf_fee_burned (bp_gas_and_fees b) + gf_fee_tip (bp_gas_and_fees b) \<le> total_supply st \<and> gf_fee_burned (bp_gas_and_fees b) < 2 ^ 64"
    and x: "apply_block_tx X B es c x b = ok b'"
  obtain i tx where i: "x = (i, tx)" by (cases x)
  obtain g ev d where t: "try_apply_transaction X B es tx (bp_state b) = ok (bp_state b', g, ev, d)"
      and a: "gas_and_fees_checked_add (bp_gas_and_fees b) g (max_gas_per_block (cfg_execution_market c)) = ok (bp_gas_and_fees b')"
    using x by (auto simp: apply_block_tx_def i Let_def bind_res_ok_iff)
  note gas_and_fees_added [OF a]
  moreover note transaction_step [OF t op_frame_ok [OF conjunct1 [OF P] assms(2)]]
  ultimately show "op_frame X st (bp_state b') \<and>
      total_supply (bp_state b') + gf_fee_burned (bp_gas_and_fees b') + gf_fee_tip (bp_gas_and_fees b') \<le> total_supply st \<and> gf_fee_burned (bp_gas_and_fees b') < 2 ^ 64"
    using P op_frame_trans by auto
qed (simp add: op_frame_refl gas_and_fees_default_def)

lemma block_rewards_step:
  assumes "compute_block_rewards burned tip c st = ok st'" "ledger_ok X es st" "burned < 2 ^ 64"
  shows "ledger_ok X es st'" "block_rewards_ok (cfg_block_rewards c) \<Longrightarrow> total_supply st' \<le> total_supply st + burned + tip + full_emission (cfg_block_rewards c)"
    "ls_block_number st' = ls_block_number st"
proof -
  let ?i = "ls_block_number st mod WINDOW_SIZE" and ?m = "ls_mantle st" and ?cl = "ls_cryptarchia st"
  obtain refill cl blend leader where r: "refill \<le> burned" and cl: "update_fee_window ?i (burned - refill) ?cl = Some cl"
      and w: "rewards (cfg_block_rewards c) (get_summed_fees cl) (cl_fee_window cl ! ?i) (eps_total_stake (cl_epoch_state cl)) = Some (blend, leader)"
      and st': "st' = st\<lparr>ls_cryptarchia := cl, ls_mantle := ?m\<lparr>ml_leaders := add_pending_rewards (leader + tip) (ml_leaders ?m),
           ml_sdp := add_blend_income blend (ml_sdp ?m), ml_pow := (ml_pow ?m)\<lparr>refill_rewards := refill_rewards (ml_pow ?m) + refill\<rparr>\<rparr>\<rparr>"
    using assms(1) by (auto simp: compute_block_rewards_def Let_def bind_res_ok_iff bind_Some_iff cost_checked_sub_def cost_checked_add_def checked_Some_iffs
        get_fee_from_index_def nth_opt_Some_iff add_reward_refill_rewards_def)
  have cl': "cl = ?cl\<lparr>cl_fee_window := (cl_fee_window ?cl)[?i := burned - refill]\<rparr>" "?i < length (cl_fee_window ?cl)"
    using cl by (auto simp: update_fee_window_def split: if_splits)
  then have fee: "cl_fee_window cl ! ?i = burned - refill" by simp
  have "total_supply st' \<le> total_supply st + blend + leader + tip + refill"
    using wrapping_add_le [of 64 "pending_rewards (ml_leaders ?m)" "leader + tip"] add_blend_income_ok(2) [of blend "ml_sdp ?m"] cl'(1)
    by (simp add: total_supply_def st' add_pending_rewards_def)
  moreover have "blend + leader \<le> full_emission (cfg_block_rewards c) + (burned - refill)" if "block_rewards_ok (cfg_block_rewards c)"
    using rewards_total [OF that _ w [unfolded fee]] assms(3) by simp
  ultimately show "total_supply st' \<le> total_supply st + burned + tip + full_emission (cfg_block_rewards c)" if "block_rewards_ok (cfg_block_rewards c)"
    using r that by fastforce
  show "ledger_ok X es st'" using assms(2) add_blend_income_ok by (simp add: ledger_ok_def in_step_def st' cl'(1) add_pending_rewards_def)
  show "ls_block_number st' = ls_block_number st" by (simp add: st')
qed

lemma block_contents_step:
  assumes "try_apply_block_contents X B es txs st = ok (st', ev, d)" "ledger_ok X es st"
    and "config_for_slot es (cl_slot (ls_cryptarchia st)) = Some c"
  shows "ledger_ok X es st'" "block_rewards_ok (cfg_block_rewards c) \<Longrightarrow> total_supply st' \<le> total_supply st + full_emission (cfg_block_rewards c)" "ls_block_number st' = ls_block_number st"
proof -
  obtain b st1 cl where b: "try_fold (apply_block_tx X B es c) (enumerate 0 txs)
       \<lparr>bp_state = st, bp_gas_and_fees = gas_and_fees_default, bp_events = [], bp_deferred = deferred_new, bp_size = 0\<rparr> = ok b"
      and st1: "compute_block_rewards (gf_fee_burned (bp_gas_and_fees b)) (gf_fee_tip (bp_gas_and_fees b)) c (bp_state b) = ok st1"
      and cl: "add_storage_gas_consumed (gf_storage_gas (bp_gas_and_fees b))
        (cryptarchia_execution_market (gf_execution_gas (bp_gas_and_fees b)) (cfg_execution_market c) (ls_cryptarchia st1)) = ok cl"
      and st': "st' = st1\<lparr>ls_cryptarchia := cl\<rparr>"
    using assms(1,3) by (auto simp: try_apply_block_contents_def Let_def bind_res_ok_iff)
  note P = block_txs_step [OF b assms(2)]
  note Q = block_rewards_step [OF st1 op_frame_ok [OF _ assms(2)]]
  have m: "cl_utxos cl = cl_utxos (ls_cryptarchia st1)" "cl_slot cl = cl_slot (ls_cryptarchia st1)" "cl_epoch_state cl = cl_epoch_state (ls_cryptarchia st1)"
      "cl_next_epoch_state cl = cl_next_epoch_state (ls_cryptarchia st1)" "cl_fee_window cl = cl_fee_window (ls_cryptarchia st1)"
    using cl by (auto simp: add_storage_gas_consumed_def bind_res_ok_iff cryptarchia_execution_market_def split: prod.splits)
  show "ledger_ok X es st'" using P Q(1) by (simp add: st' ledger_ok_def in_step_def m)
  show "total_supply st' \<le> total_supply st + full_emission (cfg_block_rewards c)" if "block_rewards_ok (cfg_block_rewards c)"
    using P Q(2) that by (simp add: st' total_supply_def m)
  show "ls_block_number st' = ls_block_number st" using P Q(3) by (simp add: st' op_frame_def)
qed

lemma leader_header_epoch:
  assumes "leader_apply_header X epoch cm s = ok s'"
  shows "leader_epoch s' = epoch" "leader_epoch s \<le> epoch"
  using assms
  by (auto simp: leader_apply_header_def leader_update_epoch_def snapshot_vouchers_def update_claimable_rewards_def add_voucher_iff bind_res_ok_iff bind_Some_iff
      split: if_splits)

lemma pow_header_pool: "pow_apply_header c n e e' s = ok s' \<Longrightarrow> reward_pool s' + refill_rewards s' = reward_pool s + refill_rewards s"
  by (auto simp: pow_apply_header_def add_rewards_to_pool_def bind_res_ok_iff bind_Some_iff checked_Some_iffs split: if_splits)

lemma mantle_header_step:
  assumes "mantle_apply_header X B es e e' cm m = ok (m', us, ev)" "sdp_ledger_ok X (ml_sdp m)" "sl_epoch (ml_sdp m) = eps_epoch e" "leader_epoch (ml_leaders m) = eps_epoch e"
  shows "sdp_ledger_ok X (ml_sdp m')" "sl_epoch (ml_sdp m') = eps_epoch e'" "leader_epoch (ml_leaders m') = eps_epoch e'"
    "claimable_rewards (ml_leaders m') + pending_rewards (ml_leaders m') + (reward_pool (ml_pow m') + refill_rewards (ml_pow m')) + sdp_income (ml_sdp m') + values_of us
     \<le> claimable_rewards (ml_leaders m) + pending_rewards (ml_leaders m) + (reward_pool (ml_pow m) + refill_rewards (ml_pow m)) + sdp_income (ml_sdp m)"
proof -
  obtain c c' :: ledger_config and n leaders sdp pow where l: "leader_apply_header X (eps_epoch e') cm (ml_leaders m) = ok leaders"
      and s: "sdp_apply_header X B (cfg_sdp c) (cfg_sdp c') e e' (ml_sdp m) = ok (sdp, us, ev)"
      and p: "pow_apply_header (pow_reward (cfg_pow c')) n (eps_epoch e) (eps_epoch e') (ml_pow m) = ok pow"
      and m': "m' = m\<lparr>ml_leaders := leaders, ml_sdp := sdp, ml_pow := pow\<rparr>"
    using assms(1) by (auto simp: mantle_apply_header_def bind_res_ok_iff)
  have le: "eps_epoch e \<le> eps_epoch e'" using leader_header_epoch(2) [OF l] assms(4) by simp
  note S = sdp_apply_header_ok [OF s assms(2) assms(3) [symmetric] le]
  show "sdp_ledger_ok X (ml_sdp m')" "sl_epoch (ml_sdp m') = eps_epoch e'" "leader_epoch (ml_leaders m') = eps_epoch e'"
    using S leader_header_epoch(1) [OF l] by (simp_all add: m')
  show "claimable_rewards (ml_leaders m') + pending_rewards (ml_leaders m') + (reward_pool (ml_pow m') + refill_rewards (ml_pow m')) + sdp_income (ml_sdp m') + values_of us
     \<le> claimable_rewards (ml_leaders m) + pending_rewards (ml_leaders m) + (reward_pool (ml_pow m) + refill_rewards (ml_pow m)) + sdp_income (ml_sdp m)"
    using leader_header_rewards(1) [OF l] pow_header_pool [OF p] S(2) by (simp add: m')
qed

lemma header_step:
  assumes "try_apply_header X B nth_root es sl pr uncles st = ok (st', ev)" "ledger_ok X es st"
  shows "ledger_ok X es st'" "total_supply st' \<le> total_supply st" "ls_block_number st' = Suc (ls_block_number st)" "cl_slot (ls_cryptarchia st') = sl"
proof -
  obtain cl m rs us where cl: "(cryptarchia_apply_header X nth_root es sl pr uncles (ml_sdp (ls_mantle st)) (ml_pow (ls_mantle st)) (ls_cryptarchia st)
        :: (nat ledger_error + cryptarchia_state) option) = ok cl"
      and m: "mantle_apply_header X B es (cl_epoch_state (ls_cryptarchia st)) (cl_epoch_state cl) (proof_voucher_cm pr) (ls_mantle st) = ok (m, rs, ev)"
      and us: "fold_run (\<lambda>us u. map_option fst (store_insert (note_tree X) (utxo_id X u) u us)) (cl_utxos cl) rs = Some us"
      and st': "st' = \<lparr>ls_block_number = Suc (ls_block_number st), ls_cryptarchia = cl\<lparr>cl_utxos := us\<rparr>, ls_mantle = m\<rparr>"
    using assms(1) by (auto simp: try_apply_header_def Let_def bind_res_ok_iff checked_Some_iffs)
  have ok: "in_step es (ls_cryptarchia st)" "sdp_ledger_ok X (ml_sdp (ls_mantle st))" "sl_epoch (ml_sdp (ls_mantle st)) = eps_epoch (cl_epoch_state (ls_cryptarchia st))"
      "leader_epoch (ml_leaders (ls_mantle st)) = eps_epoch (cl_epoch_state (ls_cryptarchia st))"
    using assms(2) by (simp_all add: ledger_ok_def)
  note C = cryptarchia_header_ok [OF cl ok(1)] and M = mantle_header_step [OF m ok(2-4)]
  show "ledger_ok X es st'" using C(1) M by (simp add: st' ledger_ok_def in_step_def)
  show "total_supply st' \<le> total_supply st" using total_value_inserts [OF us] M(4) C(4) by (simp add: st' total_supply_def)
  show "ls_block_number st' = Suc (ls_block_number st)" "cl_slot (ls_cryptarchia st') = sl" using C(2) by (simp_all add: st')
qed

lemma seen_block_step:
  assumes "mantle_add_seen_block es i sl (ls_mantle st) = Some m"
  shows "ledger_ok X es (set_mantle m st) = ledger_ok X es st" "total_supply (set_mantle m st) = total_supply st"
proof -
  obtain w pow where "add_seen_block w i sl (ml_pow (ls_mantle st)) = Some pow" "m = (ls_mantle st)\<lparr>ml_pow := pow\<rparr>"
    using assms by (auto simp: mantle_add_seen_block_def bind_Some_iff)
  then show "ledger_ok X es (set_mantle m st) = ledger_ok X es st" "total_supply (set_mantle m st) = total_supply st"
    by (auto simp: ledger_ok_def total_supply_def set_mantle_def add_seen_block_def prune_seen_block_slots_def prune_nullifiers_by_slots_def
        add_seen_block_slots_def bind_Some_iff)
qed

lemma update_step:
  assumes "try_update X B nth_root es i sl pr uncles txs st = ok (st', ev, d)" "ledger_ok X es st"
    and "config_for_slot es sl = Some c"
  shows "ledger_ok X es st'" "block_rewards_ok (cfg_block_rewards c) \<Longrightarrow> total_supply st' \<le> total_supply st + full_emission (cfg_block_rewards c)" "ls_block_number st' = Suc (ls_block_number st)"
proof -
  obtain st1 hev m st2 tev pow pow' where h: "try_apply_header X B nth_root es sl pr uncles st = ok (st1, hev)"
      and m: "mantle_add_seen_block es i sl (ls_mantle st1) = Some m"
      and b: "try_apply_block_contents X B es txs (set_mantle m st1) = ok (st2, tev, d)"
      and pow: "record_block_txs (min (length txs) (2 ^ 64 - 1)) (ml_pow (ls_mantle st2)) = Some pow"
        "update_difficulty (claimed_pow_rewards tev) (pow_reward (cfg_pow c)) pow = Some pow'"
      and st': "st' = set_mantle ((ls_mantle st2)\<lparr>ml_pow := pow'\<rparr>) st2"
    using assms(1,3) unfolding try_update_def by (auto simp: bind_res_ok_iff bind_Some_iff)
  note H = header_step [OF h assms(2)]
  have sl: "config_for_slot es (cl_slot (ls_cryptarchia (set_mantle m st1))) = Some c" using H(4) assms(3) by (simp add: set_mantle_def)
  note C = block_contents_step [OF b _ sl]
  have "reward_pool pow' = reward_pool (ml_pow (ls_mantle st2))" "refill_rewards pow' = refill_rewards (ml_pow (ls_mantle st2))"
    using pow by (auto simp: record_block_txs_def update_difficulty_def bind_Some_iff)
  then show "ledger_ok X es st'" "block_rewards_ok (cfg_block_rewards c) \<Longrightarrow> total_supply st' \<le> total_supply st + full_emission (cfg_block_rewards c)"
      "ls_block_number st' = Suc (ls_block_number st)"
    using C H seen_block_step(1) [OF m] seen_block_step(2) [OF m] by (simp_all add: st' ledger_ok_def total_supply_def set_mantle_def)
qed

subsection \<open>Genesis\<close>

lemma cryptarchia_genesis:
  assumes "cryptarchia_from_utxos X c excluded nonce us = Some cl" "epoch_at es 0 = Some 0"
  shows "in_step es cl" "total_value (cl_utxos cl) \<le> sum_list (map utxo_value us)" "eps_epoch (cl_epoch_state cl) = 0"
proof -
  obtain s where s: "store_from_iter (note_tree X) (map (\<lambda>u. (utxo_id X u, u)) us) = Some s" "cl_utxos cl = s" and e: "eps_epoch (cl_epoch_state cl) = 0"
      "eps_epoch (cl_next_epoch_state cl) = 1" "cl_slot cl = 0" "length (cl_fee_window cl) = WINDOW_SIZE"
    using assms(1) by (auto simp: cryptarchia_from_utxos_def bind_Some_iff Let_def)
  have "store_get (store_new :: utxos) = Map.empty" by (simp add: store_get_def store_new_def fun_eq_iff)
  then have "total_value (store_new :: utxos) = 0" by (simp add: total_value_def)
  then show "total_value (cl_utxos cl) \<le> sum_list (map utxo_value us)"
    using total_value_inserts [of "note_tree X" "utxo_id X" store_new us s] s by (simp add: store_from_iter_def fold_run_map)
  show "in_step es cl" "eps_epoch (cl_epoch_state cl) = 0" using e assms(2) by (simp_all add: in_step_def)
qed

lemma genesis_step:
  assumes "ledger_from_genesis_tx X c g = ok (st, ev)" "epoch_at es 0 = Some 0"
  shows "ledger_ok X es st" "total_supply st \<le> output_value (t_outputs (g_transfer g)) + g_pow_reward_pool g" "ls_block_number st = 0"
proof -
  obtain oid cl0 cs sdp dev sev pow cl where u: "t_inputs (g_transfer g) = []" "cryptarchia_from_utxos X c (g_consensus_excluded_keys g) (g_epoch_nonce g)
        (output_utxos oid (t_outputs (g_transfer g))) = Some cl0"
      and sdp: "sdp_from_genesis X (cfg_sdp c) (cl_utxos cl0) cs (cl_epoch_state cl0) (g_declarations g) = ok (sdp, sev)"
      and pow: "pow_from_config (g_pow_reward_pool g) c = Some pow" and cl: "with_genesis_sdp c sdp cl0 = Some cl"
      and st: "st = \<lparr>ls_block_number = 0, ls_cryptarchia = cl, ls_mantle = \<lparr>ml_channels = cs, ml_sdp = sdp, ml_leaders = leader_new, ml_pow = pow\<rparr>\<rparr>"
    using assms(1)
    by (auto simp: ledger_from_genesis_tx_def mantle_from_genesis_tx_def cryptarchia_from_genesis_tx_def bind_res_ok_iff bind_Some_iff split: list.splits)
  note C = cryptarchia_genesis [OF u(2) assms(2)] and S = sdp_from_genesis_ok [OF sdp]
  have p: "reward_pool pow = g_pow_reward_pool g" "refill_rewards pow = 0" using pow by (auto simp: pow_from_config_def pow_new_def bind_Some_iff)
  have cl': "cl_slot cl = cl_slot cl0" "eps_epoch (cl_epoch_state cl) = eps_epoch (cl_epoch_state cl0)" "eps_epoch (cl_next_epoch_state cl) = eps_epoch (cl_next_epoch_state cl0)"
      "cl_fee_window cl = cl_fee_window cl0" "cl_utxos cl = cl_utxos cl0"
    using cl by (auto simp: with_genesis_sdp_def bind_Some_iff)
  show "ledger_ok X es st" using C S by (simp add: st ledger_ok_def in_step_def cl' leader_new_def)
  show "total_supply st \<le> output_value (t_outputs (g_transfer g)) + g_pow_reward_pool g"
    using C(2) S by (simp add: st total_supply_def cl' leader_new_def p output_utxos_values output_value_def)
  show "ls_block_number st = 0" by (simp add: st)
qed

subsection \<open>Runs\<close>

text \<open>
  A ledger starts with a genesis transaction; blocks are prepared on a known parent, their deferred proofs verified, and the new state
  committed; states are pruned.
\<close>

inductive ledger_run ::
  "extern \<Rightarrow> blend_extern \<Rightarrow> (nat \<Rightarrow> nat \<Rightarrow> nat) \<Rightarrow> (deferred_zk_sig list \<Rightarrow> bool option) \<Rightarrow> (deferred_leader_claim list \<Rightarrow> bool option) \<Rightarrow> era_configs \<Rightarrow> genesis_tx
     \<Rightarrow> ledger \<Rightarrow> bool" for X B nth_root zk_batch poc_batch es g where
  ledger_genesis: "config_for_slot es 0 = Some c \<Longrightarrow> ledger_from_genesis_tx X c g = ok (st, ev) \<Longrightarrow> ledger_new i st es = Some l \<Longrightarrow>
    ledger_run X B nth_root zk_batch poc_batch es g l"
| ledger_block: "ledger_run X B nth_root zk_batch poc_batch es g l \<Longrightarrow> prepare_update X B nth_root i par sl pr uncles txs l = ok u \<Longrightarrow>
    verify_batch_proofs zk_batch poc_batch u = ok v \<Longrightarrow> ledger_run X B nth_root zk_batch poc_batch es g (fst (commit_update v l))"
| ledger_prune: "ledger_run X B nth_root zk_batch poc_batch es g l \<Longrightarrow> ledger_run X B nth_root zk_batch poc_batch es g (fst (prune_state_at i l))"

lemma epoch_at_genesis:
  assumes "schedule_ok sd config_epoch_length es" "lengths_ok config_epoch_length es"
  shows "epoch_at es 0 = Some 0"
proof -
  have n: "Suc 0 < length (eras es) \<Longrightarrow> 0 < ev_first_slot (eras es ! Suc 0)"
    using schedule_ok_follows [OF assms(1), of 0] lengths_ok_nth [OF assms(2), of 0] by (auto simp: follows_def)
  have g: "ev_first_slot (eras es ! 0) = 0" using schedule_ok_genesis_slot [OF assms(1)] by simp
  have "epoch_for_slot config_epoch_length es 0 = Some 0"
    using n g by (intro epoch_for_slot_eq [OF assms, of 0]) (simp_all add: eras_def)
  moreover obtain v where "v \<in> set (eras es)" "at_slot es 0 = Some v" using at_slot_total [of es 0] assms(1) by (auto simp: schedule_ok_def)
  ultimately show ?thesis using assms(2) by (auto simp: epoch_at_def config_for_slot_def lengths_ok_def list_all_iff)
qed

lemma ledger_run_ok:
  assumes "ledger_run X B nth_root zk_batch poc_batch es g l" "schedule_ok sd config_epoch_length es" "lengths_ok config_epoch_length es"
  shows "lg_eras l = es \<and> (\<forall>i st. lg_states l i = Some st \<longrightarrow> ledger_ok X es st \<and>
    ((\<forall>v \<in> set (eras es). block_rewards_ok (cfg_block_rewards (ev_parameters v)) \<and> full_emission (cfg_block_rewards (ev_parameters v)) \<le> E) \<longrightarrow>
      total_supply st \<le> output_value (t_outputs (g_transfer g)) + g_pow_reward_pool g + E * ls_block_number st))"
  using assms(1)
proof induction
  case (ledger_genesis c st ev i l)
  note G = genesis_step [OF ledger_genesis(2) epoch_at_genesis [OF assms(2,3)]]
  obtain m where m: "mantle_add_seen_block es i (cl_slot (ls_cryptarchia st)) (ls_mantle st) = Some m" and l: "l = \<lparr>lg_states = [i \<mapsto> set_mantle m st], lg_eras = es\<rparr>"
    using ledger_genesis(3) by (auto simp: ledger_new_def bind_Some_iff)
  have "ls_block_number (set_mantle m st) = 0" using G(3) by (simp add: set_mantle_def)
  then show ?case using G seen_block_step(1) [OF m] seen_block_step(2) [OF m] by (auto simp: l)
next
  case (ledger_block l i par sl pr uncles txs u v)
  obtain p st ev d where p: "lg_states l par = Some p" and t: "try_update X B nth_root (lg_eras l) i sl pr uncles txs p = ok (st, ev, d)"
      and u: "u = \<lparr>pu_id = i, pu_state = st, pu_events = ev, pu_deferred = d\<rparr>"
    using ledger_block(2) by (auto simp: prepare_update_def bind_res_ok_iff)
  have v: "bu_id v = i" "bu_state v = st" using ledger_block(3) u by (auto simp: verify_batch_proofs_def bind_res_ok_iff)
  have es: "lg_eras l = es" and ok: "ledger_ok X es p" using ledger_block(4) p by auto
  obtain w where w: "w \<in> set (eras es)" "at_slot es sl = Some w" using at_slot_total [of es sl] assms(2) by (auto simp: schedule_ok_def)
  then have c: "config_for_slot es sl = Some (ev_parameters w)" by (simp add: config_for_slot_def)
  note S = update_step [OF t [unfolded es] ok c]
  have "total_supply st \<le> output_value (t_outputs (g_transfer g)) + g_pow_reward_pool g + E * ls_block_number st"
    if R: "\<forall>v \<in> set (eras es). block_rewards_ok (cfg_block_rewards (ev_parameters v)) \<and> full_emission (cfg_block_rewards (ev_parameters v)) \<le> E"
  proof -
    have "total_supply p \<le> output_value (t_outputs (g_transfer g)) + g_pow_reward_pool g + E * ls_block_number p" using ledger_block(4) p R by blast
    then show ?thesis using S(2,3) R w(1) by fastforce
  qed
  then show ?case using ledger_block(4) S(1) es by (auto simp: commit_update_def v)
next
  case (ledger_prune l i)
  then show ?case by (auto simp: prune_state_at_def)
qed

subsection \<open>An example ledger\<close>

text \<open>A schedule of one era with epochs of 100 slots, and a genesis with one note of 100 and a reward pool of 1000.\<close>

definition example_block_rewards :: block_rewards_config where
  "example_block_rewards = \<lparr>stake_target = 1000, emission_factor_scale = 100, fee_average_numerator = 2,
     max_emission_per_block = \<lparr>numerator = 70, denominator = 2\<rparr>, blend_share = \<lparr>numerator = 1, denominator = 4\<rparr>\<rparr>"

definition example_config :: ledger_config where
  "example_config =
    \<lparr>cfg_epoch = \<lparr>epoch_stake_distribution_stabilization = 3, epoch_period_nonce_buffer = 3, epoch_period_nonce_stabilization = 4\<rparr>,
     cfg_consensus = \<lparr>security_param = 1, genesis_density_window = 10, average_slots_for_blocks = (\<lambda>n. 10 * n), uncle_reference_window_in_block = 0, max_uncles = 0\<rparr>,
     cfg_slot_activation = \<lparr>numerator = 1, denominator = 10\<rparr>, cfg_learning_rate_scaled = 1000, cfg_slot_activation_scaled = 100,
     cfg_lottery = \<lparr>t0_constant = 1000, t1_constant = 1000\<rparr>, cfg_max_transactions = 10, cfg_max_transactions_size = 1000, cfg_max_op_data_size = 100,
     cfg_sdp = \<lparr>sc_service_params = [BlendNetwork \<mapsto> \<lparr>sp_inactivity_period = 2, sp_epoch = 0\<rparr>], sc_blend_rewards = example_parameters, sc_min_stake = \<lparr>threshold = 10, timestamp = 0\<rparr>\<rparr>,
     cfg_pow = \<lparr>pow_blend = \<lparr>base_difficulty = 20, target_transactions_per_block = 1, max_step = 2, damping_num = 1, damping_den_offset = 1\<rparr>, pow_reward = example_reward_pow\<rparr>,
     cfg_accepted_fork_digests = [1],
     cfg_execution_market = \<lparr>max_gas_per_block = 1000, fee_adjustment_rate = \<lparr>numerator = 1, denominator = 8\<rparr>, execution_smoothing = \<lparr>numerator = 1, denominator = 2\<rparr>\<rparr>,
     cfg_storage_market = \<lparr>max_adjustment_factor = \<lparr>numerator = 1, denominator = 8\<rparr>, storage_smoothing = \<lparr>numerator = 1, denominator = 2\<rparr>\<rparr>,
     cfg_block_rewards = example_block_rewards,
     cfg_gas_profile = \<lparr>gp_transfer = 1, gp_channel_config = 1, gp_channel_inscribe = 1, gp_channel_deposit = 1, gp_channel_withdraw = 1, gp_channel_transfer = 1,
       gp_sdp_declare = 1, gp_sdp_withdraw = 1, gp_sdp_active = 1, gp_leader_claim = 1, gp_claim_pow_reward = 1\<rparr>\<rparr>"

definition example_eras :: era_configs where
  "example_eras = \<lparr>es_genesis = \<lparr>se_first_slot = 0, se_start_time = 0, se_parameters = example_config\<rparr>, es_after_genesis = []\<rparr>"

definition example_genesis :: genesis_tx where
  "example_genesis = \<lparr>g_epoch_nonce = 7, g_pow_reward_pool = 1000, g_consensus_excluded_keys = [], g_transfer = \<lparr>t_inputs = [], t_outputs = [\<lparr>note_value = 100, note_pk = 3\<rparr>]\<rparr>,
     g_inscription = example_inscription, g_declarations = []\<rparr>"

lemma example_block_rewards_ok: "block_rewards_ok example_block_rewards" "full_emission example_block_rewards = 35"
  by (simp_all add: block_rewards_ok_def block_rewards_new_iff proper_fraction_new_iff full_emission_def example_block_rewards_def)

lemma example_at [simp]:
  "at_slot example_eras sl = Some \<lparr>ev_era = 0, ev_first_epoch = 0, ev_first_slot = 0, ev_start_time = 0, ev_parameters = example_config\<rparr>"
  "at_epoch example_eras e = Some \<lparr>ev_era = 0, ev_first_epoch = 0, ev_first_slot = 0, ev_start_time = 0, ev_parameters = example_config\<rparr>"
  by (simp_all add: example_eras_def at_slot_def at_epoch_def last_started_def iter_def eras_after_genesis_def genesis_def view_def enumerate_eq_zip)

lemma example_configs [simp]: "config_for_slot example_eras sl = Some example_config" "config_for_epoch example_eras e = Some example_config"
  by (simp_all add: config_for_slot_def config_for_epoch_def)

lemma example_base_period: "base_period_length (cfg_consensus example_config) = Some 10"
  by (simp add: base_period_length_def nonzero_slots_for_blocks_def example_config_def)

lemma example_lengths [simp]: "config_epoch_length example_config = 100" "nonce_contribution_period example_config = Some 60" "config_expected_blocks example_config = Some 10"
  by (simp_all add: config_epoch_length_def nonce_contribution_period_def config_expected_blocks_def example_base_period expected_blocks_per_epoch_def Let_def)
    (simp_all add: example_config_def epoch_length_def saturating_add_def saturating_mul_def checked_add_def checked_mul_def)

lemma example_epochs: "epoch_at example_eras 0 = Some 0" "epoch_at example_eras 1 = Some 0" "epoch_start example_eras 0 = Some 0"
  by (simp_all add: epoch_at_def epoch_start_def epoch_for_slot_def starting_slot_for_epoch_def elapsed_epochs_since_era_start_def checked_sub_def checked_add_def checked_mul_def
      try_from_def Let_def)

lemma example_schedule: "schedule_ok (\<lambda>_. 1) config_epoch_length example_eras" "lengths_ok config_epoch_length example_eras" "eras example_eras = [\<lparr>ev_era = 0, ev_first_epoch = 0, ev_first_slot = 0, ev_start_time = 0, ev_parameters = example_config\<rparr>]"
proof -
  show e: "eras example_eras = [\<lparr>ev_era = 0, ev_first_epoch = 0, ev_first_slot = 0, ev_start_time = 0, ev_parameters = example_config\<rparr>]"
    by (simp add: eras_def genesis_def view_def example_eras_def)
  show "schedule_ok (\<lambda>_. 1) config_epoch_length example_eras" "lengths_ok config_epoch_length example_eras"
    by (simp_all add: schedule_ok_def lengths_ok_def e) (simp_all add: example_eras_def)
qed

lemma example_slot_windows: "pow_slot_windows example_eras = Some \<lparr>es_genesis = \<lparr>se_first_slot = 0, se_start_time = 0, se_parameters = 100\<rparr>, es_after_genesis = []\<rparr>"
  by (simp add: pow_slot_windows_def map_schedule_def map_era_values_def eras_after_genesis_def genesis_def view_def example_eras_def)
    (simp add: example_config_def example_reward_pow_def)

lemma example_fields [simp]:
  "base_difficulty (pow_blend (cfg_pow example_config)) = 20" "pow_reward (cfg_pow example_config) = example_reward_pow" "cfg_block_rewards example_config = example_block_rewards"
  "sc_blend_rewards (cfg_sdp example_config) = example_parameters" "sc_service_params (cfg_sdp example_config) BlendNetwork = Some \<lparr>sp_inactivity_period = 2, sp_epoch = 0\<rparr>"
  "t_inputs (g_transfer example_genesis) = []" "g_pow_reward_pool example_genesis = 1000" "g_epoch_nonce example_genesis = 7" "g_consensus_excluded_keys example_genesis = []"
  "g_inscription example_genesis = example_inscription" "g_declarations example_genesis = []" "output_value (t_outputs (g_transfer example_genesis)) = 100"
  by (simp_all add: example_config_def example_genesis_def output_value_def)

text \<open>The state after genesis, and after one block without transactions at slot 1.\<close>

definition example_snapshot :: "utxos \<Rightarrow> nat \<Rightarrow> nat \<Rightarrow> nat \<Rightarrow> epoch_state" where
  "example_snapshot us stake l0 l1 = \<lparr>eps_epoch = 0, eps_nonce = 7, eps_blend_difficulty = shift_target 20, eps_utxos = us, eps_total_stake = stake,
     eps_lottery_0 = l0, eps_lottery_1 = l1, eps_active = Map.empty\<rparr>"

definition example_cryptarchia :: "epoch_state \<Rightarrow> cryptarchia_state" where
  "example_cryptarchia e = \<lparr>cl_utxos = eps_utxos e, cl_nonce = 7, cl_previous_epoch_nonce = 7, cl_slot = 0, cl_next_epoch_state = e\<lparr>eps_epoch := 1\<rparr>, cl_epoch_state = e,
     cl_block_density = \<lparr>period_start = 0, period_end = 59, occupied_slots = {}\<rparr>, cl_fee_window = replicate WINDOW_SIZE 0, cl_average_execution_gas = 0, cl_execution_base_fee = 1,
     cl_storage_gas_ema = 0, cl_storage_gas_price = 1, cl_storage_gas_consumed = 0\<rparr>"

definition example_pow :: pow_state where
  "example_pow = \<lparr>reward_pool = 1000, epoch_reward = 10, reward_difficulty = shift_target 26, refill_rewards = 0, pow_nullifiers = [], block_slots = [], density = density_new\<rparr>"

definition example_sdp :: "blend_rewards \<Rightarrow> sdp_ledger" where
  "example_sdp r = \<lparr>sl_services = [BlendNetwork \<mapsto> \<lparr>ss_service_type = BlendNetwork, ss_declarations = [], ss_provider_index = Map.empty, ss_rewards = r\<rparr>],
     sl_service_notes = sn_new, sl_epoch = 0\<rparr>"

definition example_state :: "epoch_state \<Rightarrow> channels \<Rightarrow> blend_rewards \<Rightarrow> ledger_state" where
  "example_state e cs r = \<lparr>ls_block_number = 0, ls_cryptarchia = example_cryptarchia e,
     ls_mantle = \<lparr>ml_channels = cs, ml_sdp = example_sdp r, ml_leaders = leader_new, ml_pow = example_pow\<rparr>\<rparr>"

lemma example_inactive [simp]: "active_declarations e (sc_service_params (cfg_sdp example_config)) (example_sdp r) = Some Map.empty"
  by (simp add: active_declarations_def example_sdp_def)

lemma example_lottery: "0 < stake \<Longrightarrow> \<exists>l0 l1. compute_lottery_values (cfg_lottery example_config) stake = Some (l0, l1)"
proof -
  assume "0 < stake"
  moreover have "1000 div stake ^ 2 \<le> 1000" by (rule div_le_dividend)
  then have "1000 div stake ^ 2 \<le> fr_modulus" by (rule order_trans) (simp add: fr_modulus_def)
  ultimately show ?thesis by (simp add: compute_lottery_values_def checked_div_def checked_sub_def example_config_def)
qed

lemma example_rewards: "notes_ok plain_extern (eps_utxos e) \<Longrightarrow> \<exists>r. rewards_new plain_extern example_parameters e = Some r"
  using store_root_returns [of "note_tree plain_extern" "eps_utxos e"]
  by (auto simp: rewards_new_def current_epoch_state_new_def leader_inputs_of_def pow_inputs_of_def encapsulations_per_message_def quota_try_new_def
      example_parameters_def wrapping_add_def wrapping_mul_def)

lemma example_genesis_notes:
  "\<exists>us. transfer_op_id plain_extern (g_transfer example_genesis) = Some 1 \<and> notes_ok plain_extern us \<and>
     store_from_iter (note_tree plain_extern) (map (\<lambda>u. (utxo_id plain_extern u, u)) (output_utxos 1 (t_outputs (g_transfer example_genesis)))) = Some us"
proof -
  have "c_ok transfer_c (g_transfer example_genesis)"
    by (simp add: example_genesis_def transfer_c_def conv_c_def pair_c_def pair_ok_def inputs_c_def ordered_set_c_def outputs_c_def
        vec_c_def bounded_ok_def note_c_def uint_c_def uint_ok_def fr_c_def fr_ok_def fr_modulus_def MAX_TRANSACTION_INPUTS_def MAX_TRANSACTION_OUTPUTS_def)
  then obtain bs where "c_enc transfer_c (g_transfer example_genesis) = Some bs" using lawful_encodes [OF lawful_transfer] by blast
  then have t: "transfer_op_id plain_extern (g_transfer example_genesis) = Some 1" by (simp add: transfer_op_id_def op_id_def plain_extern_def)
  let ?u = "\<lparr>utxo_op_id = 1, output_index = 0, utxo_note = \<lparr>note_value = 100, note_pk = 3\<rparr>\<rparr>"
  obtain us pos where "store_insert (note_tree plain_extern) (utxo_id plain_extern ?u) ?u (store_new :: utxos) = Some (us, pos)" "notes_ok plain_extern us"
    using store_insert_fresh [OF store_new_ok [of "note_tree plain_extern"], of "utxo_id plain_extern ?u" ?u]
    by (auto simp: store_room_def store_size_def store_new_def tree_size_def tree_new_def store_get_def)
  then show ?thesis using t by (simp add: store_from_iter_def output_utxos_def example_genesis_def)
qed

lemma example_started:
  "\<exists>us stake l0 l1 cs r ev. notes_ok plain_extern us \<and>
     ledger_from_genesis_tx plain_extern example_config example_genesis = ok (example_state (example_snapshot us stake l0 l1) cs r, ev)"
proof -
  obtain us where us: "transfer_op_id plain_extern (g_transfer example_genesis) = Some 1" "notes_ok plain_extern us"
      "store_from_iter (note_tree plain_extern) (map (\<lambda>u. (utxo_id plain_extern u, u)) (output_utxos 1 (t_outputs (g_transfer example_genesis)))) = Some us"
    using example_genesis_notes by blast
  let ?stake = "genesis_stake [] us"
  have "0 < ?stake" unfolding genesis_stake_def less_max_iff_disj by simp
  then obtain l0 l1 where l: "compute_lottery_values (cfg_lottery example_config) ?stake = Some (l0, l1)" using example_lottery by blast
  let ?e = "example_snapshot us ?stake l0 l1"
  have d: "density_of_epoch_starting_at 0 example_config = Some \<lparr>period_start = 0, period_end = 59, occupied_slots = {}\<rparr>"
    by (simp add: density_of_epoch_starting_at_def next_epoch_snapshot_def checked_add_def slot_saturating_sub_def)
  have cl: "(cryptarchia_from_genesis_tx plain_extern example_config [] 7 (g_transfer example_genesis) :: (nat ledger_error + cryptarchia_state) option) = ok (example_cryptarchia ?e)"
    using us l d by (simp add: cryptarchia_from_genesis_tx_def cryptarchia_from_utxos_def Let_def example_cryptarchia_def example_snapshot_def)
  obtain cs where cs: "channels_from_genesis plain_extern example_inscription = ok (cs, [])"
    using created_channel_turn [of "i_signer example_inscription" 0] example_ids(1) by (simp add: channels_from_genesis_def inscription_execute_def channels_new_def)
  obtain r where r: "rewards_new plain_extern example_parameters ?e = Some r" using example_rewards [of ?e] us(2) by (auto simp: example_snapshot_def)
  have sdp: "sdp_from_genesis plain_extern (cfg_sdp example_config) us cs ?e [] = ok (example_sdp r, [])"
    using r by (simp add: sdp_from_genesis_def with_blend_service_def sdp_ledger_new_def example_sdp_def example_snapshot_def)
  have pow: "pow_from_config 1000 example_config = Some example_pow"
    using example_epoch_reward by (simp add: pow_from_config_def pow_new_def example_pow_def) (simp add: example_reward_pow_def)
  have m: "mantle_from_genesis_tx plain_extern example_config 1000 us ?e example_inscription [] =
      ok (\<lparr>ml_channels = cs, ml_sdp = example_sdp r, ml_leaders = leader_new, ml_pow = example_pow\<rparr>, [])"
    using cs sdp pow by (simp add: mantle_from_genesis_tx_def)
  have "with_genesis_sdp example_config (example_sdp r) (example_cryptarchia ?e) = Some (example_cryptarchia ?e)"
    by (simp add: with_genesis_sdp_def) (simp add: example_cryptarchia_def example_snapshot_def)
  then have "ledger_from_genesis_tx plain_extern example_config example_genesis = ok (example_state ?e cs r, [])"
    using cl m by (simp add: ledger_from_genesis_tx_def example_state_def) (simp add: example_cryptarchia_def example_snapshot_def)
  then show ?thesis using us(2) by blast
qed

definition example_proof :: leader_proof where
  "example_proof = \<lparr>proof_verify = (\<lambda>_. True), proof_entropy = 5, proof_voucher_cm = 7\<rparr>"

text \<open>The state that \<^verbatim>\<open>Ledger::new\<close> stores: the genesis block is seen.\<close>

definition example_root :: "epoch_state \<Rightarrow> channels \<Rightarrow> blend_rewards \<Rightarrow> ledger_state" where
  "example_root e cs r = \<lparr>ls_block_number = 0, ls_cryptarchia = example_cryptarchia e,
     ls_mantle = \<lparr>ml_channels = cs, ml_sdp = example_sdp r, ml_leaders = leader_new, ml_pow = example_pow\<lparr>block_slots := [(9, 0)]\<rparr>\<rparr>\<rparr>"

lemma example_windows_100:
  "at_slot \<lparr>es_genesis = \<lparr>se_first_slot = 0, se_start_time = 0, se_parameters = 100\<rparr>, es_after_genesis = []\<rparr> sl =
     Some \<lparr>ev_era = 0, ev_first_epoch = 0, ev_first_slot = 0, ev_start_time = 0, ev_parameters = 100\<rparr>"
  by (simp add: at_slot_def last_started_def iter_def eras_after_genesis_def genesis_def view_def enumerate_eq_zip)

lemma example_seen:
  "pow_nullifiers (ml_pow m) = [] \<Longrightarrow> block_slots (ml_pow m) = [] \<Longrightarrow>
     mantle_add_seen_block example_eras 9 0 m = Some (m\<lparr>ml_pow := (ml_pow m)\<lparr>block_slots := [(9, 0)], pow_nullifiers := []\<rparr>\<rparr>)"
  "pow_nullifiers (ml_pow m) = [] \<Longrightarrow> block_slots (ml_pow m) = [(9, 0)] \<Longrightarrow>
     mantle_add_seen_block example_eras 10 1 m = Some (m\<lparr>ml_pow := (ml_pow m)\<lparr>block_slots := [(9, 0), (10, 1)], pow_nullifiers := []\<rparr>\<rparr>)"
  by (simp_all add: mantle_add_seen_block_def example_slot_windows add_seen_block_def prune_seen_block_slots_def add_seen_block_slots_def prune_nullifiers_by_slots_def
      prune_by_slots_def is_within_slot_window_def example_windows_100 slot_saturating_sub_def)

lemma example_new: "ledger_new 9 (example_state e cs r) example_eras = Some \<lparr>lg_states = [9 \<mapsto> example_root e cs r], lg_eras = example_eras\<rparr>"
  by (simp add: ledger_new_def example_state_def example_seen(1) example_pow_def example_cryptarchia_def set_mantle_def example_root_def)

lemma example_cryptarchia_header:
  assumes "notes_ok plain_extern (eps_utxos e)" "eps_epoch e = 0" "density pow = density_new"
  shows "\<exists>cl. (cryptarchia_apply_header plain_extern (\<lambda>_ _. 0) example_eras 1 example_proof [] (example_sdp r) pow (example_cryptarchia e) :: (nat ledger_error + cryptarchia_state) option) = ok cl \<and>
    cl_epoch_state cl = e \<and> cl_slot cl = 1 \<and> cl_fee_window cl = replicate WINDOW_SIZE 0 \<and> cl_storage_gas_consumed cl = 0"
proof -
  let ?n = "e\<lparr>eps_epoch := 1, eps_nonce := 7\<rparr>"
  have n: "nonce_snapshot example_eras 1 = Some 60" "stake_distribution_snapshot example_eras 1 = Some 0"
    by (simp_all add: nonce_snapshot_def stake_distribution_snapshot_def next_epoch_snapshot_def checked_add_def example_epochs)
  have "update_from_ledger (\<lambda>_ _. 0) example_eras (example_sdp r) pow (example_cryptarchia e) (e\<lparr>eps_epoch := 1\<rparr>) = Some ?n"
    using assms(3) n by (simp add: update_from_ledger_def last_closed_epoch_load_def density_new_def example_cryptarchia_def)
  then have u: "(update_epoch_state (\<lambda>_ _. 0) example_eras 1 (example_sdp r) pow (example_cryptarchia e) :: (nat ledger_error + cryptarchia_state) option) =
      ok ((example_cryptarchia e)\<lparr>cl_slot := 1, cl_next_epoch_state := ?n\<rparr>)"
    by (simp add: update_epoch_state_def example_cryptarchia_def example_epochs [unfolded One_nat_def])
  obtain root where root: "store_root (note_tree plain_extern) (eps_utxos e) = Some root" using store_root_returns [OF assms(1)] by blast
  then have "(try_apply_proof plain_extern example_eras 1 example_proof ((example_cryptarchia e)\<lparr>cl_slot := 1, cl_next_epoch_state := ?n\<rparr>) :: (nat ledger_error + cryptarchia_state) option) =
      ok ((example_cryptarchia e)\<lparr>cl_slot := 1, cl_next_epoch_state := ?n\<rparr>)"
    using assms(2) by (simp add: try_apply_proof_def example_epochs [unfolded One_nat_def] example_cryptarchia_def example_proof_def bind_ensure)
  then show ?thesis using u
    by (simp add: cryptarchia_apply_header_def update_epoch_state_and_apply_proof_def mark_occupied_slots_def update_nonce_def example_cryptarchia_def)
qed

lemma example_mantle_header:
  assumes "eps_epoch e = 0"
  shows "\<exists>leaders. mantle_apply_header plain_extern example_blend example_eras e e 7 (ls_mantle (example_root e cs r)) =
    ok ((ls_mantle (example_root e cs r))\<lparr>ml_leaders := leaders\<rparr>, [], [])"
proof -
  obtain leaders where "leader_apply_header plain_extern 0 7 leader_new = ok leaders"
    using leader_header_returns [of leader_new plain_extern "[]" 0 7] by (auto simp: leader_new_def peaks_def)
  then show ?thesis using assms
    by (simp add: mantle_apply_header_def example_root_def sdp_apply_header_def example_sdp_def service_apply_header_def pow_apply_header_def)
qed

lemma example_header:
  assumes "notes_ok plain_extern (eps_utxos e)" "eps_epoch e = 0"
  shows "\<exists>cl leaders. try_apply_header plain_extern example_blend (\<lambda>_ _. 0) example_eras 1 example_proof [] (example_root e cs r) =
      ok (\<lparr>ls_block_number = 1, ls_cryptarchia = cl, ls_mantle = (ls_mantle (example_root e cs r))\<lparr>ml_leaders := leaders\<rparr>\<rparr>, []) \<and>
    cl_slot cl = 1 \<and> cl_fee_window cl = replicate WINDOW_SIZE 0 \<and> cl_storage_gas_consumed cl = 0"
proof -
  let ?s = "example_root e cs r"
  have d: "density (ml_pow (ls_mantle ?s)) = density_new" "ml_sdp (ls_mantle ?s) = example_sdp r" "ls_cryptarchia ?s = example_cryptarchia e" "cl_epoch_state (example_cryptarchia e) = e"
    by (simp_all add: example_root_def example_pow_def example_cryptarchia_def)
  obtain cl where cl: "(cryptarchia_apply_header plain_extern (\<lambda>_ _. 0) example_eras 1 example_proof [] (example_sdp r) (ml_pow (ls_mantle ?s)) (example_cryptarchia e)
      :: (nat ledger_error + cryptarchia_state) option) = ok cl" "cl_epoch_state cl = e" "cl_slot cl = 1" "cl_fee_window cl = replicate WINDOW_SIZE 0" "cl_storage_gas_consumed cl = 0"
    using example_cryptarchia_header [OF assms d(1)] by blast
  obtain leaders where m: "mantle_apply_header plain_extern example_blend example_eras e e 7 (ls_mantle ?s) = ok ((ls_mantle ?s)\<lparr>ml_leaders := leaders\<rparr>, [], [])"
    using example_mantle_header [OF assms(2)] by blast
  have "try_apply_header plain_extern example_blend (\<lambda>_ _. 0) example_eras 1 example_proof [] ?s =
      ok (\<lparr>ls_block_number = 1, ls_cryptarchia = cl, ls_mantle = (ls_mantle ?s)\<lparr>ml_leaders := leaders\<rparr>\<rparr>, [])"
    using cl(1) m unfolding try_apply_header_def d Let_def by (simp add: cl(2) example_proof_def) (simp add: example_root_def checked_add_def)
  then show ?thesis using cl(3-5) by blast
qed

lemma example_rewards_paid: "\<exists>blend leader. rewards example_block_rewards pooled 0 stake = Some (blend, leader) \<and> leader < 2 ^ 64"
proof -
  obtain blend leader where r: "rewards example_block_rewards pooled 0 stake = Some (blend, leader)"
    using rewards_split [of 1000 100 2 "\<lparr>numerator = 70, denominator = 2\<rparr>" "\<lparr>numerator = 1, denominator = 4\<rparr>" example_block_rewards 1 4 0 pooled stake]
    by (auto simp: block_rewards_new_iff proper_fraction_new_iff example_block_rewards_def)
  have "blend + leader \<le> 35 + 0" using rewards_total [OF example_block_rewards_ok(1) _ r] example_block_rewards_ok(2) by simp
  then show ?thesis using r by simp
qed

lemma example_contents:
  assumes "length (cl_fee_window (ls_cryptarchia st)) = WINDOW_SIZE" "refill_rewards (ml_pow (ls_mantle st)) = 0" "cl_storage_gas_consumed (ls_cryptarchia st) = 0"
  shows "\<exists>cl leaders sdp. try_apply_block_contents plain_extern example_blend example_eras [] st =
    ok (st\<lparr>ls_mantle := (ls_mantle st)\<lparr>ml_leaders := leaders, ml_sdp := sdp\<rparr>, ls_cryptarchia := cl\<rparr>, [], deferred_new)"
proof -
  let ?i = "ls_block_number st mod WINDOW_SIZE" and ?cl = "ls_cryptarchia st"
  let ?w = "?cl\<lparr>cl_fee_window := (cl_fee_window ?cl)[?i := 0]\<rparr>"
  have i: "?i < WINDOW_SIZE" by (simp add: WINDOW_SIZE_def)
  obtain blend leader where r: "rewards example_block_rewards (get_summed_fees ?w) 0 (eps_total_stake (cl_epoch_state ?w)) = Some (blend, leader)" "leader < 2 ^ 64"
    using example_rewards_paid by blast
  have f: "pow_fee_share example_reward_pow 0 = Some 0"
    by (simp add: pow_fee_share_def example_reward_pow_def checked_mul_def checked_div_def try_from_def)
  have "compute_block_rewards 0 0 example_config st = ok (st\<lparr>ls_cryptarchia := ?w, ls_mantle := (ls_mantle st)\<lparr>ml_leaders := add_pending_rewards leader (ml_leaders (ls_mantle st)),
      ml_sdp := add_blend_income blend (ml_sdp (ls_mantle st))\<rparr>\<rparr>)"
    using assms i r f by (simp add: compute_block_rewards_def Let_def cost_checked_sub_def cost_checked_add_def checked_sub_def checked_add_def update_fee_window_def
        get_fee_from_index_def nth_opt_def add_reward_refill_rewards_def)
  then show ?thesis using assms(3)
    by (simp add: try_apply_block_contents_def gas_and_fees_default_def cryptarchia_execution_market_def add_storage_gas_consumed_def gas_checked_add_def checked_add_def
        case_prod_beta Let_def) blast
qed

lemma example_difficulty: "\<exists>d. compute_new_reward_difficulty claims current example_reward_pow = Some d"
  using example_reward_pow_ok(2) by (simp add: compute_new_reward_difficulty_def checked_sub_def) (simp add: example_reward_pow_def)

lemma example_update:
  assumes "notes_ok plain_extern (eps_utxos e)" "eps_epoch e = 0"
  shows "\<exists>st. try_update plain_extern example_blend (\<lambda>_ _. 0) example_eras 10 1 example_proof [] [] (example_root e cs r) = ok (st, [], deferred_new) \<and> ls_block_number st = 1"
proof -
  let ?r = "example_root e cs r"
  obtain cl leaders where h: "try_apply_header plain_extern example_blend (\<lambda>_ _. 0) example_eras 1 example_proof [] ?r =
      ok (\<lparr>ls_block_number = 1, ls_cryptarchia = cl, ls_mantle = (ls_mantle ?r)\<lparr>ml_leaders := leaders\<rparr>\<rparr>, [])"
    and cl: "cl_fee_window cl = replicate WINDOW_SIZE 0" "cl_storage_gas_consumed cl = 0"
    using example_header [OF assms] by blast
  define pow where "pow = (ml_pow (ls_mantle ?r))\<lparr>block_slots := [(9, 0), (10, 1)], pow_nullifiers := []\<rparr>"
  define m where "m = (ls_mantle ?r)\<lparr>ml_leaders := leaders, ml_pow := pow\<rparr>"
  have seen: "mantle_add_seen_block example_eras 10 1 ((ls_mantle ?r)\<lparr>ml_leaders := leaders\<rparr>) = Some m"
    using example_seen(2) [of "(ls_mantle ?r)\<lparr>ml_leaders := leaders\<rparr>"] by (simp add: m_def pow_def example_root_def example_pow_def)
  have p: "refill_rewards pow = 0" "density pow = density_new" by (simp_all add: pow_def example_root_def example_pow_def)
  obtain cl' leaders' sdp where c: "try_apply_block_contents plain_extern example_blend example_eras [] \<lparr>ls_block_number = 1, ls_cryptarchia = cl, ls_mantle = m\<rparr> =
      ok (\<lparr>ls_block_number = 1, ls_cryptarchia = cl', ls_mantle = m\<lparr>ml_leaders := leaders', ml_sdp := sdp\<rparr>\<rparr>, [], deferred_new)"
    using example_contents [of "\<lparr>ls_block_number = 1, ls_cryptarchia = cl, ls_mantle = m\<rparr>"] cl p by (auto simp: m_def)
  obtain d where "compute_new_reward_difficulty 0 (reward_difficulty pow) example_reward_pow = Some d" using example_difficulty by blast
  then show ?thesis using h seen c p
    by (simp add: try_update_def set_mantle_def m_def record_block_txs_def density_record_block_def totals_record_block_def density_new_def checked_add_def update_difficulty_def
        claimed_pow_rewards_def)
qed

lemma example_run:
  "\<exists>l st. ledger_run plain_extern example_blend (\<lambda>_ _. 0) (\<lambda>_. Some True) (\<lambda>_. Some True) example_eras example_genesis l \<and>
     lg_states l 10 = Some st \<and> ls_block_number st = 1"
proof -
  obtain us stake l0 l1 cs r ev where g: "notes_ok plain_extern us"
      "ledger_from_genesis_tx plain_extern example_config example_genesis = ok (example_state (example_snapshot us stake l0 l1) cs r, ev)"
    using example_started by blast
  let ?e = "example_snapshot us stake l0 l1"
  let ?l = "\<lparr>lg_states = [9 \<mapsto> example_root ?e cs r], lg_eras = example_eras\<rparr>"
  have run: "ledger_run plain_extern example_blend (\<lambda>_ _. 0) (\<lambda>_. Some True) (\<lambda>_. Some True) example_eras example_genesis ?l"
    by (rule ledger_genesis [OF example_configs(1) g(2) example_new])
  obtain st where u: "try_update plain_extern example_blend (\<lambda>_ _. 0) example_eras 10 1 example_proof [] [] (example_root ?e cs r) = ok (st, [], deferred_new)" "ls_block_number st = 1"
    using example_update [of ?e cs r] g(1) by (auto simp: example_snapshot_def)
  let ?u = "\<lparr>pu_id = 10, pu_state = st, pu_events = [], pu_deferred = deferred_new\<rparr>" and ?v = "\<lparr>bu_id = 10, bu_state = st, bu_events = []\<rparr>"
  have "prepare_update plain_extern example_blend (\<lambda>_ _. 0) 10 9 1 example_proof [] [] ?l = ok ?u" using u(1) by (simp add: prepare_update_def)
  moreover have "verify_batch_proofs (\<lambda>_. Some True) (\<lambda>_. Some True) ?u = ok ?v" by (simp add: verify_batch_proofs_def deferred_verify_def deferred_new_def)
  ultimately show ?thesis using ledger_block [OF run] u(2) by (fastforce simp: commit_update_def)
qed

subsection \<open>What every ledger keeps\<close>

text \<open>
  C5: In every state that a ledger holds, whatever blocks led to it, all parts are in the epoch of the slot: the epoch snapshot belongs to it, the next snapshot to the epoch after it, and
  the leaders, the services and their rewards are in it, so that the assertions of the code on epochs never fail; the fee window has its 120 entries; and the registry of each service is
  consistent with its notes and providers.
\<close>

theorem ledger_parts_in_step:
  assumes "ledger_run X B nth_root zk_batch poc_batch es g l" "schedule_ok sd config_epoch_length es" "lengths_ok config_epoch_length es"
    and "lg_states l i = Some st" "cl = ls_cryptarchia st" "m = ls_mantle st" "e = eps_epoch (cl_epoch_state cl)"
  shows "epoch_at es (cl_slot cl) = Some e \<and> eps_epoch (cl_next_epoch_state cl) = Suc e \<and> leader_epoch (ml_leaders m) = e \<and> sl_epoch (ml_sdp m) = e \<and>
    length (cl_fee_window cl) = WINDOW_SIZE \<and>
    (\<forall>sv. sl_services (ml_sdp m) BlendNetwork = Some sv \<longrightarrow>
       registry_ok X (service_registry (ml_sdp m) sv) \<and> blend_ok (ss_rewards sv) \<and> blend_epoch (ss_rewards sv) = e)"
  using ledger_run_ok [OF assms(1-3)] assms(4) by (auto simp: ledger_ok_def in_step_def sdp_ledger_ok_def assms(5-7))

theorem ledger_parts_in_step_witness:
  "\<exists>l st. ledger_run plain_extern example_blend (\<lambda>_ _. 0) (\<lambda>_. Some True) (\<lambda>_. Some True) example_eras example_genesis l \<and>
     lg_states l 10 = Some st \<and> ls_block_number st = 1 \<and> epoch_at example_eras (cl_slot (ls_cryptarchia st)) = Some (sl_epoch (ml_sdp (ls_mantle st))) \<and>
     leader_epoch (ml_leaders (ls_mantle st)) = sl_epoch (ml_sdp (ls_mantle st))"
proof -
  obtain l st where l: "ledger_run plain_extern example_blend (\<lambda>_ _. 0) (\<lambda>_. Some True) (\<lambda>_. Some True) example_eras example_genesis l"
      "lg_states l 10 = Some st" "ls_block_number st = 1" using example_run by blast
  then show ?thesis using ledger_parts_in_step [OF l(1) example_schedule(1,2) l(2) refl refl refl] by auto
qed

text \<open>
  C1: No sequence of blocks creates value beyond the emission.  In every state of a ledger, the value of all notes, with the rewards of leaders, of Blend nodes and of proof of work that
  are collected but not paid, is at most the value of the genesis notes and the genesis reward pool plus the full emission of one block for each block since.  This holds although some sums of the code wrap around,
  for all transactions and for any hash functions.
\<close>

theorem supply_bounded_by_emission:
  assumes "ledger_run X B nth_root zk_batch poc_batch es g l" "schedule_ok sd config_epoch_length es" "lengths_ok config_epoch_length es"
    and "\<forall>v \<in> set (eras es). block_rewards_ok (cfg_block_rewards (ev_parameters v)) \<and> full_emission (cfg_block_rewards (ev_parameters v)) \<le> emission"
    and "lg_states l i = Some st"
  shows "total_supply st \<le> output_value (t_outputs (g_transfer g)) + g_pow_reward_pool g + emission * ls_block_number st"
  using ledger_run_ok [OF assms(1-3)] assms(4,5) by blast

theorem supply_bounded_by_emission_witness:
  "\<exists>l st. ledger_run plain_extern example_blend (\<lambda>_ _. 0) (\<lambda>_. Some True) (\<lambda>_. Some True) example_eras example_genesis l \<and>
     lg_states l 10 = Some st \<and> ls_block_number st = 1 \<and> total_supply st \<le> 1135"
proof -
  obtain l st where l: "ledger_run plain_extern example_blend (\<lambda>_ _. 0) (\<lambda>_. Some True) (\<lambda>_. Some True) example_eras example_genesis l"
      "lg_states l 10 = Some st" "ls_block_number st = 1" using example_run by blast
  have "\<forall>v \<in> set (eras example_eras). block_rewards_ok (cfg_block_rewards (ev_parameters v)) \<and> full_emission (cfg_block_rewards (ev_parameters v)) \<le> 35"
    by (simp add: example_schedule(3) example_block_rewards_ok)
  then show ?thesis using supply_bounded_by_emission [OF l(1) example_schedule(1,2) _ l(2), of 35] l by auto
qed

end
