(* ===== verification/TxPricing.thy ===== *)
theory TxPricing
  imports LedgerSafety
begin

text \<open>
  What a transaction will cost, as a client predicts it before the transaction is signed: the gas calculator of
  \<^verbatim>\<open>core/src/mantle/transactions/tx_list/ops.rs\<close>, the thresholds of \<^verbatim>\<open>thresholds.rs\<close> and the size of
  \<^verbatim>\<open>codec.rs\<close> beside it.

  An operation is priced by the threshold of its channel, and operations earlier in the transaction may create or configure
  that channel, so the prediction replays their effect on the thresholds.  The lemmas show that the replay follows the ledger, and
  that the predicted size is the size of the signed transaction.
\<close>

record gas_context =
  gc_transfer_thresholds :: "channel_id \<rightharpoonup> nat"
  gc_configuration_thresholds :: "channel_id \<rightharpoonup> nat"
  gc_execution_price :: nat
  gc_storage_price :: nat
  gc_profile :: gas_profile

record ops_context =
  oc_gas_context :: gas_context
  oc_leader_reward_amount :: nat

definition from_channels :: "channels \<Rightarrow> nat \<Rightarrow> nat \<Rightarrow> gas_profile \<Rightarrow> gas_context" where
  "from_channels cs execution_price storage_price p =
     \<lparr>gc_transfer_thresholds = (\<lambda>c. map_option transfer_threshold (ch_channels cs c)),
      gc_configuration_thresholds = (\<lambda>c. map_option configuration_threshold (ch_channels cs c)),
      gc_execution_price = execution_price, gc_storage_price = storage_price, gc_profile = p\<rparr>"

definition tx_context :: "ledger_state \<Rightarrow> gas_profile \<Rightarrow> ops_context" where
  "tx_context st p =
     \<lparr>oc_gas_context = from_channels (ml_channels (ls_mantle st)) (cl_execution_base_fee (ls_cryptarchia st)) (cl_storage_gas_price (ls_cryptarchia st)) p,
      oc_leader_reward_amount = reward_amount (ml_leaders (ls_mantle st))\<rparr>"

subsection \<open>Running thresholds\<close>

record running_thresholds =
  rt_context :: gas_context
  rt_transfer :: "channel_id \<rightharpoonup> nat"
  rt_configuration :: "channel_id \<rightharpoonup> nat"

definition running_new :: "gas_context \<Rightarrow> running_thresholds" where
  "running_new c = \<lparr>rt_context = c, rt_transfer = Map.empty, rt_configuration = Map.empty\<rparr>"

definition running_channel_exists :: "running_thresholds \<Rightarrow> channel_id \<Rightarrow> bool" where
  "running_channel_exists t c \<longleftrightarrow> rt_configuration t c \<noteq> None \<or> gc_configuration_thresholds (rt_context t) c \<noteq> None"

definition running_apply :: "op \<Rightarrow> running_thresholds \<Rightarrow> running_thresholds" where
  "running_apply operation t = (case operation of
     ChannelConfig op \<Rightarrow>
       t\<lparr>rt_transfer := (rt_transfer t)(cc_channel op \<mapsto> cc_transfer_threshold op),
         rt_configuration := (rt_configuration t)(cc_channel op \<mapsto> cc_configuration_threshold op)\<rparr>
   | ChannelInscribe op \<Rightarrow>
       if running_channel_exists t (i_channel_id op) then t
       else t\<lparr>rt_transfer := (rt_transfer t)(i_channel_id op \<mapsto> DEFAULT_TRANSFER_THRESHOLD),
              rt_configuration := (rt_configuration t)(i_channel_id op \<mapsto> 1)\<rparr>
   | _ \<Rightarrow> t)"

definition or_else :: "'a option \<Rightarrow> 'a option \<Rightarrow> 'a option" where
  "or_else a b = (case a of None \<Rightarrow> b | Some _ \<Rightarrow> a)"

definition unwrap_or :: "'a \<Rightarrow> 'a option \<Rightarrow> 'a" where
  "unwrap_or d a = (case a of None \<Rightarrow> d | Some x \<Rightarrow> x)"

definition running_source :: "running_thresholds \<Rightarrow> threshold_source" where
  "running_source t =
     \<lparr>configuration_threshold_in = (\<lambda>c. unwrap_or 0 (or_else (rt_configuration t c) (gc_configuration_thresholds (rt_context t) c))),
      transfer_threshold_in = (\<lambda>c. unwrap_or 0 (or_else (rt_transfer t c) (gc_transfer_thresholds (rt_context t) c)))\<rparr>"

subsection \<open>Gas\<close>

definition execution_gas_consumption :: "gas_context \<Rightarrow> op list \<Rightarrow> (gas_overflow + nat) option" where
  "execution_gas_consumption ctx ops =
     bind_res (try_fold (\<lambda>operation (t, total).
         bind_res (execution_gas (gc_profile ctx) (running_source t) operation) (\<lambda>gas.
         bind_res (gas_checked_add total gas) (\<lambda>total. ok (running_apply operation t, total)))) ops (running_new ctx, 0))
       (\<lambda>(_, total). ok total)"

definition COMPRESSED_PROOF_SIZE :: nat where
  "COMPRESSED_PROOF_SIZE = 128"

definition ED25519_SIGNATURE_SIZE :: nat where
  "ED25519_SIGNATURE_SIZE = 64"

definition multi_sig_proof_byte_size :: "nat \<Rightarrow> nat" where
  "multi_sig_proof_byte_size n = wrapping_add 64 2 (wrapping_mul 64 n (2 + ED25519_SIGNATURE_SIZE))"

definition minimum_proof_size :: "threshold_source \<Rightarrow> op \<Rightarrow> nat" where
  "minimum_proof_size thresholds operation = (case operation of
     ChannelInscribe _ \<Rightarrow> ED25519_SIGNATURE_SIZE
   | ChannelConfig op \<Rightarrow> multi_sig_proof_byte_size (configuration_threshold_in thresholds (cc_channel op))
   | SDPDeclare _ \<Rightarrow> COMPRESSED_PROOF_SIZE + ED25519_SIGNATURE_SIZE
   | SDPWithdraw _ \<Rightarrow> COMPRESSED_PROOF_SIZE
   | SDPActive _ \<Rightarrow> COMPRESSED_PROOF_SIZE
   | LeaderClaim _ \<Rightarrow> COMPRESSED_PROOF_SIZE
   | Transfer _ \<Rightarrow> COMPRESSED_PROOF_SIZE
   | ChannelDeposit _ \<Rightarrow> COMPRESSED_PROOF_SIZE
   | ChannelWithdraw op \<Rightarrow> multi_sig_proof_byte_size (transfer_threshold_in thresholds (w_channel_id op))
   | ChannelTransfer op \<Rightarrow> multi_sig_proof_byte_size (transfer_threshold_in thresholds (ct_channel_id op))
   | ClaimPowReward _ \<Rightarrow> 0)"

definition minimum_signed_transaction_size :: "extern \<Rightarrow> gas_context \<Rightarrow> tx_ops \<Rightarrow> nat option" where
  "minimum_signed_transaction_size X ctx tx =
     do { encoded_ops_size \<leftarrow> c_len (tx_ops_c X (2 ^ 32 - 1)) tx;
          let (_, ops_proofs_size) = fold (\<lambda>operation (t, total).
                (running_apply operation t, wrapping_add 64 total (minimum_proof_size (running_source t) operation))) (tx_op_list tx) (running_new ctx, 0);
          Some (wrapping_add 64 encoded_ops_size ops_proofs_size) }"

definition storage_gas_cost :: "extern \<Rightarrow> gas_context \<Rightarrow> tx_ops \<Rightarrow> (gas_overflow + nat) option" where
  "storage_gas_cost X ctx tx =
     bind_res (run (minimum_signed_transaction_size X ctx tx)) (\<lambda>gas. gas_cost_calculate gas (gc_storage_price ctx))"

definition total_gas_cost :: "extern \<Rightarrow> gas_context \<Rightarrow> tx_ops \<Rightarrow> (gas_overflow + nat) option" where
  "total_gas_cost X ctx tx =
     bind_res (execution_gas_consumption ctx (tx_op_list tx)) (\<lambda>gas.
     bind_res (gas_cost_calculate gas (gc_execution_price ctx)) (\<lambda>execution_gas_cost.
     bind_res (storage_gas_cost X ctx tx) (\<lambda>storage_gas_cost.
     cost_checked_add execution_gas_cost storage_gas_cost)))"

subsection \<open>The replay follows the ledger\<close>

definition follows_channels :: "running_thresholds \<Rightarrow> channels \<Rightarrow> bool" where
  "follows_channels t cs \<longleftrightarrow> running_source t = channel_thresholds cs \<and> (\<forall>c. running_channel_exists t c \<longleftrightarrow> ch_channels cs c \<noteq> None)"

lemma running_new_follows: "follows_channels (running_new (from_channels cs a b p)) cs"
  by (auto simp: follows_channels_def running_source_def running_new_def from_channels_def channel_thresholds_def running_channel_exists_def or_else_def unwrap_or_def
      configuration_threshold_of_def transfer_threshold_of_def fun_eq_iff split: option.splits)

lemma follows_same_channels: "ch_channels cs' = ch_channels cs \<Longrightarrow> follows_channels t cs \<Longrightarrow> follows_channels t cs'"
  by (simp add: follows_channels_def channel_thresholds_def configuration_threshold_of_def transfer_threshold_of_def fun_eq_iff)

lemma follows_set_channel:
  assumes "follows_channels t cs" "ch_channels cs' = (ch_channels cs)(i \<mapsto> c)"
  shows "follows_channels (t\<lparr>rt_transfer := (rt_transfer t)(i \<mapsto> transfer_threshold c), rt_configuration := (rt_configuration t)(i \<mapsto> configuration_threshold c)\<rparr>) cs'"
  using assms by (auto simp: follows_channels_def running_source_def channel_thresholds_def running_channel_exists_def or_else_def unwrap_or_def
      configuration_threshold_of_def transfer_threshold_of_def fun_eq_iff split: option.splits)

lemma follows_keep_channel:
  assumes "follows_channels t cs" "ch_channels cs' = (ch_channels cs)(i \<mapsto> c)" "ch_channels cs i = Some c0"
    and "transfer_threshold c = transfer_threshold c0" "configuration_threshold c = configuration_threshold c0"
  shows "follows_channels t cs'"
  using assms by (auto simp: follows_channels_def channel_thresholds_def configuration_threshold_of_def transfer_threshold_of_def fun_eq_iff split: option.splits)

lemma map_of_const: "map_of (map (\<lambda>u. (f u, c)) us) i = (if i \<in> f ` set us then Some c else None)"
  by (induction us) auto

text \<open>What succeeds in registering notes with a channel, or taking them from it.\<close>

lemma registered:
  assumes "try_fold (\<lambda>u cs. map_err e (Some (register_channel_note (f u) c cs))) us cs = ok cs'"
  shows "cs' = cs\<lparr>ch_notes := ch_notes cs ++ map_of (map (\<lambda>u. (f u, c)) us)\<rparr>"
  using assms
proof (induction us arbitrary: cs)
  case (Cons u us)
  then obtain cs1 where r: "register_channel_note (f u) c cs = Inr cs1" and t: "try_fold (\<lambda>u cs. map_err e (Some (register_channel_note (f u) c cs))) us cs1 = ok cs'"
    by (auto simp: bind_res_ok_iff)
  have "cs1 = cs\<lparr>ch_notes := (ch_notes cs)(f u \<mapsto> c)\<rparr>" using r by (auto simp: register_channel_note_def into_channel_def split: option.splits)
  moreover have "(ch_notes cs)(f u \<mapsto> c) ++ map_of (map (\<lambda>u. (f u, c)) us) = ch_notes cs ++ map_of (map (\<lambda>u. (f u, c)) (u # us))"
    by (auto simp: map_add_def fun_eq_iff map_of_const simp del: map_of.simps list.map)
  ultimately show ?case using Cons.IH [OF t] by (simp del: fun_upd_apply)
qed simp

lemma deposit_registered:
  assumes "try_fold (register_deposit_note X c) us (cs, ns) = ok (cs', ns')"
  shows "cs' = cs\<lparr>ch_notes := ch_notes cs ++ map_of (map (\<lambda>u. (utxo_id X u, c)) us)\<rparr>"
  using assms
proof (induction us arbitrary: cs ns)
  case (Cons u us)
  then obtain cs1 ns1 where r: "register_channel_note (utxo_id X u) c cs = Inr cs1" and t: "try_fold (register_deposit_note X c) us (cs1, ns1) = ok (cs', ns')"
    by (auto simp: bind_res_ok_iff register_deposit_note_def [of X c u])
  have "cs1 = cs\<lparr>ch_notes := (ch_notes cs)(utxo_id X u \<mapsto> c)\<rparr>" using r by (auto simp: register_channel_note_def into_channel_def split: option.splits)
  moreover have "(ch_notes cs)(utxo_id X u \<mapsto> c) ++ map_of (map (\<lambda>u. (utxo_id X u, c)) us) = ch_notes cs ++ map_of (map (\<lambda>u. (utxo_id X u, c)) (u # us))"
    by (auto simp: map_add_def fun_eq_iff map_of_const simp del: map_of.simps list.map)
  ultimately show ?case using Cons.IH [OF t] by (simp del: fun_upd_apply)
qed simp

lemma unregistered:
  assumes "try_fold (unregister_note c) ids cs = ok cs'"
  shows "cs' = cs\<lparr>ch_notes := ch_notes cs |` (- set ids)\<rparr>"
  using assms
proof (induction ids arbitrary: cs)
  case (Cons i ids)
  then obtain cs1 where r: "unregister_note c i cs = ok cs1" and t: "try_fold (unregister_note c) ids cs1 = ok cs'" by (auto simp: bind_res_ok_iff)
  have "cs1 = cs\<lparr>ch_notes := (ch_notes cs)(i := None)\<rparr>"
    using r by (auto simp: unregister_note_def unregister_channel_note_def into_bedrock_def split: option.splits if_splits)
  then show ?case using Cons.IH [OF t] by (simp add: restrict_map_def fun_eq_iff)
qed (simp add: restrict_map_def)

lemma op_follows:
  assumes "try_apply_op X B c h operation st b ev = ok (st', b', ev')" "follows_channels t (ml_channels (ls_mantle st))"
  shows "follows_channels (running_apply operation t) (ml_channels (ls_mantle st'))"
proof (cases operation)
  case (ChannelInscribe op)
  let ?cs = "ml_channels (ls_mantle st)" and ?i = "i_channel_id op" and ?sl = "cl_slot (ls_cryptarchia st)"
  obtain cs e where x: "inscription_execute X ?sl op ?cs = ok (cs, e)" "ml_channels (ls_mantle st') = cs"
    using assms(1) ChannelInscribe by (auto simp: try_apply_op_def Let_def bind_res_ok_iff update_channels_def)
  define c0 where "c0 = (case ch_channels ?cs ?i of Some c \<Rightarrow> c | None \<Rightarrow> created_channel (i_signer op) ?sl)"
  obtain ch where ch: "ch_channels cs = (ch_channels ?cs)(?i \<mapsto> ch)" "transfer_threshold ch = transfer_threshold c0" "configuration_threshold ch = configuration_threshold c0"
    using x(1) by (auto simp: inscription_execute_def Let_def bind_Some_iff c0_def [symmetric])
  show ?thesis
  proof (cases "ch_channels ?cs ?i")
    case None
    then have "c0 = created_channel (i_signer op) ?sl" "\<not> running_channel_exists t ?i" using assms(2) by (simp_all add: c0_def follows_channels_def)
    then show ?thesis using follows_set_channel [OF assms(2) ch(1)] ch(2,3) x(2) ChannelInscribe by (simp add: running_apply_def created_channel_def)
  next
    case (Some c1)
    then have "c0 = c1" "running_channel_exists t ?i" using assms(2) by (simp_all add: c0_def follows_channels_def)
    then show ?thesis using follows_keep_channel [OF assms(2) ch(1) Some] ch(2,3) x(2) ChannelInscribe by (simp add: running_apply_def)
  qed
next
  case (ChannelConfig op)
  obtain cs e where x: "config_execute X (cl_slot (ls_cryptarchia st)) op (ml_channels (ls_mantle st)) = ok (cs, e)" "ml_channels (ls_mantle st') = cs"
    using assms(1) ChannelConfig by (auto simp: try_apply_op_def Let_def bind_res_ok_iff update_channels_def)
  obtain ch where "ch_channels cs = (ch_channels (ml_channels (ls_mantle st)))(cc_channel op \<mapsto> ch)" "transfer_threshold ch = cc_transfer_threshold op"
      "configuration_threshold ch = cc_configuration_threshold op"
    using x(1) by (auto simp: config_execute_def bind_Some_iff Let_def split: option.splits)
  then show ?thesis using follows_set_channel [OF assms(2)] x(2) ChannelConfig by (fastforce simp: running_apply_def)
next
  case (ChannelDeposit op)
  then have "ch_channels (ml_channels (ls_mantle st')) = ch_channels (ml_channels (ls_mantle st))"
    using assms(1) by (auto simp: try_apply_op_def Let_def bind_res_ok_iff bind_Some_iff update_channels_def update_utxos_def deposit_execute_def dest!: deposit_registered)
  then show ?thesis using follows_same_channels assms(2) ChannelDeposit by (simp add: running_apply_def)
next
  case (ChannelWithdraw op)
  then have "ch_channels (ml_channels (ls_mantle st')) = ch_channels (ml_channels (ls_mantle st))"
    using assms(1) by (auto simp: try_apply_op_def Let_def bind_res_ok_iff update_channels_def channel_withdraw_execute_def dest!: unregistered)
  then show ?thesis using follows_same_channels assms(2) ChannelWithdraw by (simp add: running_apply_def)
next
  case (ChannelTransfer op)
  then have "ch_channels (ml_channels (ls_mantle st')) = ch_channels (ml_channels (ls_mantle st))"
    using assms(1) by (auto simp: try_apply_op_def Let_def bind_res_ok_iff bind_Some_iff update_channels_def update_utxos_def channel_transfer_execute_def dest!: unregistered registered)
  then show ?thesis using follows_same_channels assms(2) ChannelTransfer by (simp add: running_apply_def)
qed (use assms in \<open>auto simp: try_apply_op_def Let_def bind_res_ok_iff update_utxos_def update_sdp_def set_mantle_def running_apply_def\<close>)

lemma op_prices:
  assumes "try_apply_op X B c h operation st b ev = ok (st', b', ev')"
  shows "cl_execution_base_fee (ls_cryptarchia st') = cl_execution_base_fee (ls_cryptarchia st)"
    "cl_storage_gas_price (ls_cryptarchia st') = cl_storage_gas_price (ls_cryptarchia st)"
  using assms by (cases operation; auto simp: try_apply_op_def Let_def bind_res_ok_iff update_utxos_def update_channels_def update_sdp_def set_mantle_def try_apply_transfer_def)+

subsection \<open>The predicted size\<close>

lemma multi_sig_size:
  assumes "c_len multi_sig_proof_c (ChannelMultiSigProof sigs) = Some n"
  shows "n = multi_sig_proof_byte_size (length sigs)"
proof -
  have "those (map (pair_length (uint_length 2) (uint_length 64)) sigs) = Some (replicate (length sigs) 66)"
    by (induction sigs) (simp_all add: pair_length_def uint_length_def wrapping_add_def)
  then show ?thesis using assms
    by (auto simp: multi_sig_proof_c_def variant_c_def multi_sig_c_def btree_map_c_def bounded_length_def items_length_def uint_c_def
        wrapping_add_def wrapping_mul_def checked_Some_iffs length_prefix_len_def MAX_SIGNATURES_def multi_sig_proof_byte_size_def ED25519_SIGNATURE_SIZE_def sum_list_replicate
        bind_Some_iff)
qed

lemma proof_size_exact:
  assumes "verify_op X es i h st d (operation, p) = ok d'" "c_len (proof_c operation) p = Some n"
  shows "n = minimum_proof_size (channel_thresholds (ml_channels (ls_mantle st))) operation"
proof -
  have multi: "n = multi_sig_proof_byte_size k" if "c_len multi_sig_proof_c p = Some n" "p = ChannelMultiSigProof sigs" "length sigs = k" for sigs k
    using multi_sig_size [of sigs n] that by simp
  have sizes: "c_len ed25519_proof_c p = Some n \<Longrightarrow> n = 64" "c_len zk_proof_c p = Some n \<Longrightarrow> n = 128"
    by (auto simp: ed25519_proof_c_def zk_proof_c_def variant_c_def uint_c_def uint_length_def bind_Some_iff)
  show ?thesis
  proof (cases operation)
    case (ChannelConfig op)
    then obtain sigs where "p = ChannelMultiSigProof sigs" "config_verify X (ml_channels (ls_mantle st)) h op sigs = ok ()"
      using assms(1) by (cases p) (auto simp: verify_op_def Let_def bind_res_ok_iff)
    then show ?thesis using assms(2) ChannelConfig
      by (auto simp: proof_c_def minimum_proof_size_def channel_thresholds_def configuration_threshold_of_def config_verify_def bind_res_ok_iff split: option.splits intro!: multi)
  next
    case (ChannelWithdraw op)
    then obtain sigs where "p = ChannelMultiSigProof sigs" "channel_withdraw_verify X (sl_service_notes (ml_sdp (ls_mantle st))) (ml_channels (ls_mantle st))
        (cl_utxos (ls_cryptarchia st)) h i op sigs = ok ()"
      using assms(1) by (cases p) (auto simp: verify_op_def Let_def bind_res_ok_iff)
    then show ?thesis using assms(2) ChannelWithdraw
      by (auto simp: proof_c_def minimum_proof_size_def channel_thresholds_def transfer_threshold_of_def channel_withdraw_verify_def check_transfer_signatures_def bind_res_ok_iff
          split: option.splits intro!: multi)
  next
    case (ChannelTransfer op)
    then obtain sigs where "p = ChannelMultiSigProof sigs" "channel_transfer_verify X (sl_service_notes (ml_sdp (ls_mantle st))) (ml_channels (ls_mantle st))
        (cl_utxos (ls_cryptarchia st)) h i op sigs = ok ()"
      using assms(1) by (cases p) (auto simp: verify_op_def Let_def bind_res_ok_iff)
    then show ?thesis using assms(2) ChannelTransfer
      by (auto simp: proof_c_def minimum_proof_size_def channel_thresholds_def transfer_threshold_of_def channel_transfer_verify_def check_transfer_signatures_def bind_res_ok_iff
          split: option.splits intro!: multi)
  next
    case (SDPDeclare op)
    then show ?thesis using assms(2)
      by (auto simp: proof_c_def minimum_proof_size_def variant_c_def zk_and_ed25519_c_def conv_c_def pair_c_def pair_length_def uint_c_def uint_length_def bind_Some_iff
          wrapping_add_def COMPRESSED_PROOF_SIZE_def ED25519_SIGNATURE_SIZE_def)
  next
    case (LeaderClaim op)
    then show ?thesis using assms(2)
      by (auto simp: proof_c_def minimum_proof_size_def variant_c_def uint_c_def uint_length_def bind_Some_iff COMPRESSED_PROOF_SIZE_def)
  next
    case (ClaimPowReward op)
    then show ?thesis using assms(2) by (auto simp: proof_c_def minimum_proof_size_def variant_c_def no_op_proof_c_def bind_Some_iff)
  qed (use assms(2) sizes in \<open>simp_all add: proof_c_def minimum_proof_size_def COMPRESSED_PROOF_SIZE_def ED25519_SIGNATURE_SIZE_def\<close>)
qed

lemma operations_priced:
  assumes "try_fold (apply_signed_op X B es c h) (enumerate k xs) t = ok t'" "follows_channels r (ml_channels (ls_mantle (to_state t)))"
    and "those (map (\<lambda>(operation, p). c_len (proof_c operation) p) xs) = Some ns" "acc < 2 ^ 64" "p = cfg_gas_profile c"
  shows "\<exists>r'. try_fold (\<lambda>operation (r, total).
         bind_res (execution_gas p (running_source r) operation) (\<lambda>gas.
         bind_res (gas_checked_add total gas) (\<lambda>total. ok (running_apply operation r, total)))) (map fst xs) (r, to_gas t) = ok (r', to_gas t') \<and>
    fold (\<lambda>operation (r, total). (running_apply operation r, wrapping_add 64 total (minimum_proof_size (running_source r) operation))) (map fst xs) (r, acc) =
      (r', (acc + sum_list ns) mod 2 ^ 64) \<and>
    cl_execution_base_fee (ls_cryptarchia (to_state t')) = cl_execution_base_fee (ls_cryptarchia (to_state t)) \<and>
    cl_storage_gas_price (ls_cryptarchia (to_state t')) = cl_storage_gas_price (ls_cryptarchia (to_state t))"
  using assms(1-4)
proof (induction xs arbitrary: k t r ns acc)
  case (Cons x xs)
  obtain operation pr where x: "x = (operation, pr)" by (cases x)
  let ?cs = "ml_channels (ls_mantle (to_state t))"
  obtain t1 where t1: "apply_signed_op X B es c h (k, x) t = ok t1" "try_fold (apply_signed_op X B es c h) (enumerate (Suc k) xs) t1 = ok t'"
    using Cons.prems(1) by (auto simp: bind_res_ok_iff)
  obtain d gas where v: "verify_op X es k h (to_state t) (to_deferred t) (operation, pr) = ok d"
      and g: "execution_gas (cfg_gas_profile c) (channel_thresholds ?cs) operation = ok gas" "gas_checked_add (to_gas t) gas = ok (to_gas t1)"
      and a: "try_apply_op X B c h operation (to_state t) (to_balance t) (to_events t) = ok (to_state t1, to_balance t1, to_events t1)"
    using t1(1) by (auto simp: apply_signed_op_def x bind_res_ok_iff)
  obtain n ms where n: "c_len (proof_c operation) pr = Some n" "those (map (\<lambda>(operation, p). c_len (proof_c operation) p) xs) = Some ms" "ns = n # ms"
    using Cons.prems(3) by (auto simp: x split: option.splits)
  have s: "running_source r = channel_thresholds ?cs" using Cons.prems(2) by (simp add: follows_channels_def)
  have "wrapping_add 64 acc n < 2 ^ 64" by (simp add: wrapping_add_def)
  from Cons.IH [OF t1(2) op_follows [OF a Cons.prems(2)] n(2) this]
  obtain r' where r': "try_fold (\<lambda>operation (r, total).
         bind_res (execution_gas p (running_source r) operation) (\<lambda>gas.
         bind_res (gas_checked_add total gas) (\<lambda>total. ok (running_apply operation r, total)))) (map fst xs) (running_apply operation r, to_gas t1) = ok (r', to_gas t')"
      "fold (\<lambda>operation (r, total). (running_apply operation r, wrapping_add 64 total (minimum_proof_size (running_source r) operation))) (map fst xs)
         (running_apply operation r, wrapping_add 64 acc n) = (r', (wrapping_add 64 acc n + sum_list ms) mod 2 ^ 64)"
      "cl_execution_base_fee (ls_cryptarchia (to_state t')) = cl_execution_base_fee (ls_cryptarchia (to_state t1))"
      "cl_storage_gas_price (ls_cryptarchia (to_state t')) = cl_storage_gas_price (ls_cryptarchia (to_state t1))"
    by blast
  have "(wrapping_add 64 acc n + sum_list ms) mod 2 ^ 64 = (acc + sum_list ns) mod 2 ^ 64"
    unfolding wrapping_add_def n(3) by (simp add: mod_add_left_eq add.assoc)
  then show ?case using r' g s proof_size_exact [OF v n(1)] op_prices [OF a] assms(5) by (intro exI [of _ r']) (simp add: x)
qed simp

text \<open>A transaction that spends a note of 1000 to pay for an inscription that creates a channel.\<close>

definition spending_transfer :: transfer_op where
  "spending_transfer = \<lparr>t_inputs = [3], t_outputs = []\<rparr>"

definition creating_inscription :: inscription_op where
  "creating_inscription = \<lparr>i_channel_id = 2, inscription = [7, 8], i_parent = root_msg, i_signer = 12\<rparr>"

definition paying_tx :: signed_ops where
  "paying_tx = \<lparr>so_fork_digest = 1, so_ops = [(Transfer spending_transfer, ZkSig 7), (ChannelInscribe creating_inscription, Ed25519Sig 5)]\<rparr>"

lemma creating_inscription_length: "c_len (op_c plain_extern (2 ^ 32 - 1)) (ChannelInscribe creating_inscription) = Some 103"
proof -
  have "c_len (inscription_c plain_extern (2 ^ 32 - 1)) creating_inscription = Some 102"
    by (simp add: creating_inscription_def inscription_c_def conv_c_def pair_c_def uint_c_def runtime_vec_c_def byte_c_def unverified_key_c_def checked_add_def try_from_def
        runtime_vec_length_def pair_length_def uint_length_def items_length_def wrapping_add_def)
  then show ?thesis by (simp add: op_c_def enum_c_def op_variants_def op_code_def variant_c_def checked_add_def)
qed

lemma paying_tx_encodes:
  "signed_ops_hash plain_extern paying_tx = Some 1" "transfer_op_id plain_extern spending_transfer = Some 1" "inscription_id plain_extern creating_inscription = Some 1"
  "tx_storage_size plain_extern paying_tx = Some 363"
proof -
  note codecs = conv_c_def pair_c_def pair_ok_def uint_c_def uint_ok_def fr_c_def fr_ok_def fr_modulus_def MAX_TRANSACTION_INPUTS_def MAX_TRANSACTION_OUTPUTS_def
    inputs_c_def ordered_set_c_def outputs_c_def vec_c_def bounded_ok_def note_c_def runtime_vec_c_def byte_c_def unverified_key_c_def plain_extern_def example_extern_def
  have t: "c_ok transfer_c spending_transfer" by (simp add: spending_transfer_def transfer_c_def codecs)
  have i: "c_ok (inscription_c plain_extern (2 ^ 32 - 1)) creating_inscription" by (simp add: creating_inscription_def inscription_c_def root_msg_def codecs)
  have l: "(2 ^ 32 - 1 :: nat) < 2 ^ 32" by simp
  obtain bs bs' where "c_enc transfer_c spending_transfer = Some bs" "c_enc (inscription_c plain_extern (2 ^ 32 - 1)) creating_inscription = Some bs'"
    using lawful_encodes [OF lawful_transfer] lawful_encodes [OF lawful_inscription] t i l by blast
  then show "transfer_op_id plain_extern spending_transfer = Some 1" "inscription_id plain_extern creating_inscription = Some 1"
    by (simp_all add: transfer_op_id_def op_id_def inscription_id_def message_id_def plain_extern_def)
  have "c_ok (tx_ops_c plain_extern (2 ^ 32 - 1)) (op_refs paying_tx)"
    using t i by (simp add: paying_tx_def op_refs_def tx_ops_c_def conv_c_def pair_c_def pair_ok_def uint_c_def uint_ok_def vec_c_def bounded_ok_def MAX_OPS_PER_TX_def op_c_def enum_c_def
        op_variants_def op_code_def variant_c_def)
  then obtain e where "c_enc (tx_ops_c plain_extern (2 ^ 32 - 1)) (op_refs paying_tx) = Some e"
    using lawful_encodes [OF lawful_tx_ops] l by blast
  then show "signed_ops_hash plain_extern paying_tx = Some 1" by (simp add: signed_ops_hash_def tx_hash_def plain_extern_def)
  note lengths = checked_add_def try_from_def runtime_vec_length_def pair_length_def uint_length_def bounded_length_def items_length_def length_prefix_len_def wrapping_add_def
  have "c_len transfer_c spending_transfer = Some 34" by (simp add: spending_transfer_def transfer_c_def codecs lengths)
  then have "c_len (op_c plain_extern (2 ^ 32 - 1)) (Transfer spending_transfer) = Some 35"
    by (simp add: op_c_def enum_c_def op_variants_def op_code_def variant_c_def checked_add_def)
  with creating_inscription_length have "c_len (tx_ops_c plain_extern (2 ^ 32 - 1)) (op_refs paying_tx) = Some 171"
    by (simp add: paying_tx_def op_refs_def tx_ops_c_def conv_c_def pair_c_def uint_c_def vec_c_def lengths MAX_OPS_PER_TX_def)
  then show "tx_storage_size plain_extern paying_tx = Some 363"
    by (simp add: tx_storage_size_def signed_ops_length_def) (simp add: paying_tx_def proof_c_def zk_proof_c_def ed25519_proof_c_def variant_c_def uint_c_def uint_length_def wrapping_add_def)
qed

lemma paying_tx_accepted:
  assumes "notes_ok plain_extern us" "store_get us = [3 \<mapsto> example_utxo 1000 21]"
  shows "\<exists>st' ev d. try_apply_transaction plain_extern B example_eras paying_tx (example_state (example_snapshot us stake l0 l1) channels_new r) =
    ok (st', \<lparr>gf_execution_gas = 2, gf_storage_gas = 363, gf_fee_burned = 365, gf_fee_tip = 635\<rparr>, ev, d)"
proof -
  let ?cl = "example_cryptarchia (example_snapshot us stake l0 l1)"
  let ?st = "example_state (example_snapshot us stake l0 l1) channels_new r"
  have cl [simp]: "cl_utxos ?cl = us" "cl_slot ?cl = 0" "cl_execution_base_fee ?cl = 1" "cl_storage_gas_price ?cl = 1" by (simp_all add: example_cryptarchia_def example_snapshot_def)
  have st [simp]: "ls_cryptarchia ?st = ?cl" "ml_channels (ls_mantle ?st) = channels_new" "sl_service_notes (ml_sdp (ls_mantle ?st)) = sn_new"
    by (simp_all add: example_state_def example_sdp_def)
  have p [simp]: "gp_transfer (cfg_gas_profile example_config) = 1" "gp_channel_inscribe (cfg_gas_profile example_config) = 1" "cfg_max_op_data_size example_config = 100"
      "cfg_accepted_fork_digests example_config = [1]" by (simp_all add: example_config_def)
  obtain z where z: "transfer_verify plain_extern sn_new channels_new us 1 spending_transfer 7 = ok z"
    using assms(2) by (auto simp: transfer_verify_iff spending_transfer_def MAX_ZK_SIGNING_KEYS_def sn_contains_def sn_new_def is_channel_note_def cn_contains_def channels_new_def cn_new_def)
  have b: "transfer_balance us spending_transfer = ok 1000"
    using assms(2) by (simp add: transfer_balance_iff spending_transfer_def input_value_def output_value_def example_utxo_def)
  obtain us' where e: "transfer_execute plain_extern spending_transfer us = ok (us', [])"
    using transfer_execute_spec [OF assms(1) _ _ paying_tx_encodes(2)] assms(2) by (fastforce simp: spending_transfer_def fresh_outputs_def output_utxos_def)
  have i: "inscription_verify channels_new 0 creating_inscription = ok ()" by (simp add: inscription_verify_def channels_new_def creating_inscription_def)
  obtain cs where x: "inscription_execute plain_extern 0 creating_inscription channels_new = ok (cs, [])"
    using created_channel_turn [of "i_signer creating_inscription" 0] paying_tx_encodes(3) by (simp add: inscription_execute_def channels_new_def)
  let ?t = "\<lparr>to_state = ?st\<lparr>ls_cryptarchia := ?cl\<lparr>cl_utxos := us'\<rparr>\<rparr>, to_balance = 1000, to_gas = 1, to_events = [], to_deferred = defer_zk_sig z deferred_new\<rparr>"
  have 1: "apply_signed_op plain_extern B example_eras example_config 1 (0, Transfer spending_transfer, ZkSig 7)
      \<lparr>to_state = ?st, to_balance = 0, to_gas = 0, to_events = [], to_deferred = deferred_new\<rparr> = ok ?t"
    using z b e by (simp add: apply_signed_op_def verify_op_def execution_gas_def gas_checked_add_def checked_add_def try_apply_op_def try_apply_transfer_def checked_add_int_def)
  have d: "check_op_data_size (length (inscription creating_inscription)) example_config = ok ()"
    by (simp add: check_op_data_size_def ensure_def creating_inscription_def)
  have 2: "apply_signed_op plain_extern B example_eras example_config 1 (1, ChannelInscribe creating_inscription, Ed25519Sig 5) ?t =
      ok (?t\<lparr>to_state := update_channels cs (to_state ?t), to_gas := 2\<rparr>)"
    using i x d by (simp add: apply_signed_op_def verify_op_def execution_gas_def gas_checked_add_def checked_add_def try_apply_op_def)
  have "try_apply_tx_operations plain_extern B example_eras paying_tx ?st = ok (?t\<lparr>to_state := update_channels cs (to_state ?t), to_gas := 2\<rparr>)"
    using 1 2 paying_tx_encodes(1) by (simp add: try_apply_tx_operations_def) (simp add: paying_tx_def ensure_def)
  then show ?thesis
    by (simp add: try_apply_transaction_def ensure_def paying_tx_encodes(4) update_channels_def gas_cost_calculate_def checked_mul_def cost_checked_add_def checked_add_def cost_checked_sub_def checked_sub_def)
qed

text \<open>
  C12: The fee that a client predicts is the fee that the ledger charges.  If the ledger accepts a transaction, then the cost computed beforehand from its unsigned operations and the thresholds,
  prices and gas profile of the state is exactly the fee that is burned, although operations of the transaction may create or configure the channels that later ones are priced by.
\<close>

theorem predicted_fee_charged:
  assumes "try_apply_transaction X B es tx st = ok (st', g, ev, d)" "config_for_slot es (cl_slot (ls_cryptarchia st)) = Some c"
  shows "total_gas_cost X (oc_gas_context (tx_context st (cfg_gas_profile c))) (op_refs tx) = ok (gf_fee_burned g)"
proof -
  obtain t size e s cost where t: "try_apply_tx_operations X B es tx st = ok t" and size: "tx_storage_size X tx = Some size"
      and e: "gas_cost_calculate (to_gas t) (cl_execution_base_fee (ls_cryptarchia (to_state t))) = ok e"
      and s: "gas_cost_calculate size (cl_storage_gas_price (ls_cryptarchia (to_state t))) = ok s" and cost: "cost_checked_add e s = ok cost" "gf_fee_burned g = cost"
    using assms(1) by (auto simp: try_apply_transaction_def bind_res_ok_iff)
  obtain h where f: "try_fold (apply_signed_op X B es c h) (enumerate 0 (so_ops tx))
        \<lparr>to_state = st, to_balance = 0, to_gas = 0, to_events = [], to_deferred = deferred_new\<rparr> = ok t"
    using t assms(2) by (auto simp: try_apply_tx_operations_def bind_res_ok_iff)
  obtain n ns where n: "c_len (tx_ops_c X (2 ^ 32 - 1)) (op_refs tx) = Some n" "those (map (\<lambda>(operation, p). c_len (proof_c operation) p) (so_ops tx)) = Some ns"
      "size = wrapping_add 64 n (sum_list ns mod 2 ^ 64)"
    using size by (auto simp: tx_storage_size_def signed_ops_length_def bind_Some_iff)
  let ?ctx = "oc_gas_context (tx_context st (cfg_gas_profile c))"
  have "follows_channels (running_new ?ctx) (ml_channels (ls_mantle st))" by (simp add: tx_context_def running_new_follows)
  then obtain r where r: "try_fold (\<lambda>operation (r, total).
         bind_res (execution_gas (cfg_gas_profile c) (running_source r) operation) (\<lambda>gas.
         bind_res (gas_checked_add total gas) (\<lambda>total. ok (running_apply operation r, total)))) (map fst (so_ops tx)) (running_new ?ctx, 0) = ok (r, to_gas t)"
      "fold (\<lambda>operation (r, total). (running_apply operation r, wrapping_add 64 total (minimum_proof_size (running_source r) operation))) (map fst (so_ops tx)) (running_new ?ctx, 0) =
         (r, sum_list ns mod 2 ^ 64)"
      "cl_execution_base_fee (ls_cryptarchia (to_state t)) = cl_execution_base_fee (ls_cryptarchia st)" "cl_storage_gas_price (ls_cryptarchia (to_state t)) = cl_storage_gas_price (ls_cryptarchia st)"
    using operations_priced [OF f _ n(2), of "running_new ?ctx" 0] by auto
  have ctx: "gc_profile ?ctx = cfg_gas_profile c" "gc_execution_price ?ctx = cl_execution_base_fee (ls_cryptarchia st)" "gc_storage_price ?ctx = cl_storage_gas_price (ls_cryptarchia st)"
    by (simp_all add: tx_context_def from_channels_def)
  have "minimum_signed_transaction_size X ?ctx (op_refs tx) = Some size"
    using n r(2) by (simp add: minimum_signed_transaction_size_def op_refs_def)
  moreover have "execution_gas_consumption ?ctx (tx_op_list (op_refs tx)) = ok (to_gas t)"
    using r(1) by (simp add: execution_gas_consumption_def op_refs_def ctx)
  ultimately show ?thesis using e s cost r(3,4) by (simp add: total_gas_cost_def storage_gas_cost_def ctx)
qed

theorem predicted_fee_charged_witness:
  "\<exists>st st' g ev d. try_apply_transaction plain_extern example_blend example_eras paying_tx st = ok (st', g, ev, d) \<and>
     total_gas_cost plain_extern (oc_gas_context (tx_context st (cfg_gas_profile example_config))) (op_refs paying_tx) = ok (gf_fee_burned g) \<and>
     gf_fee_burned g = 365 \<and> gf_fee_tip g = 635"
proof -
  obtain us :: utxos where us: "notes_ok plain_extern us" "store_get us = [3 \<mapsto> example_utxo 1000 21]"
    using store_insert_fresh [OF store_new_ok [of "note_tree plain_extern"], of 3 "example_utxo 1000 21"]
    by (auto simp: store_room_def store_size_def store_new_def tree_size_def tree_new_def store_get_def fun_eq_iff)
  then obtain r where "rewards_new plain_extern example_parameters (example_snapshot us 1000 0 0) = Some r" using example_rewards by (force simp: example_snapshot_def)
  let ?st = "example_state (example_snapshot us 1000 0 0) channels_new r"
  obtain st' ev d where a: "try_apply_transaction plain_extern example_blend example_eras paying_tx ?st =
      ok (st', \<lparr>gf_execution_gas = 2, gf_storage_gas = 363, gf_fee_burned = 365, gf_fee_tip = 635\<rparr>, ev, d)"
    using paying_tx_accepted [OF us] by blast
  show ?thesis using a predicted_fee_charged [OF a example_configs(1)] by (intro exI conjI) (rule a, simp_all)
qed

end
