(* ===== verification/TxBuilder.thy ===== *)
theory TxBuilder
  imports TxPricing
begin

text \<open>
  The incremental construction of transactions, \<^verbatim>\<open>core/src/mantle/transactions/builder.rs\<close>: a builder collects operations, and the notes that one last transfer
  spends and creates to pay for them.

  The lemmas show that the price of a builder depends on how many notes its transfer has and not on what they are, so that a change note can be priced before
  its value is known, and that the builder with its change pays exactly what it has to.
\<close>

subsection \<open>Pushing to a bounded collection\<close>

definition vec_try_push :: "nat \<Rightarrow> 'a \<Rightarrow> 'a list \<Rightarrow> (bounded_error + 'a list) option" where
  "vec_try_push max_n x xs = (if max_n \<le> length xs then fail (TooManyItems (length xs + 1) max_n) else ok (xs @ [x]))"

definition set_try_push :: "nat \<Rightarrow> 'a \<Rightarrow> 'a list \<Rightarrow> (bounded_error + 'a list) option" where
  "set_try_push max_n x xs =
     (if max_n \<le> length xs then fail (TooManyItems (saturating_add 64 (length xs) 1) max_n)
      else if x \<notin> set xs then ok (xs @ [x]) else fail (DuplicateItem (length xs)))"

subsection \<open>The builder\<close>

datatype tx_builder_error =
    InvalidOpsBounds bounded_error
  | InvalidInputsBounds bounded_error
  | InvalidOutputsBounds bounded_error
  | BuilderGasOverflow gas_overflow
  | MissingTransferThreshold channel_id
  | NegativeNetBalance int

record tx_builder =
  tb_ops :: "op list"
  tb_ledger_inputs :: "utxo list"
  tb_pending :: transfer_op
  tb_multi_sig_proofs :: "nat \<rightharpoonup> (nat \<times> ed_sig) list"

definition builder_new :: tx_builder where
  "builder_new = \<lparr>tb_ops = [], tb_ledger_inputs = [], tb_pending = \<lparr>t_inputs = [], t_outputs = []\<rparr>, tb_multi_sig_proofs = Map.empty\<rparr>"

definition extend_ops :: "op list \<Rightarrow> tx_builder \<Rightarrow> (tx_builder_error + tx_builder) option" where
  "extend_ops ops b = try_fold (\<lambda>operation b.
     bind_res (map_err InvalidOpsBounds (vec_try_push MAX_OPS_PER_TX operation (tb_ops b))) (\<lambda>ops. ok (b\<lparr>tb_ops := ops\<rparr>))) ops b"

definition push_op :: "op \<Rightarrow> tx_builder \<Rightarrow> (tx_builder_error + tx_builder) option" where
  "push_op operation b = extend_ops [operation] b"

definition push_input :: "extern \<Rightarrow> utxo \<Rightarrow> tx_builder \<Rightarrow> (tx_builder_error + tx_builder) option" where
  "push_input X u b =
     (if length (t_inputs (tb_pending b)) = length (tb_ledger_inputs b) then
        bind_res (map_err InvalidInputsBounds (set_try_push MAX_TRANSACTION_INPUTS (utxo_id X u) (t_inputs (tb_pending b)))) (\<lambda>ids.
        bind_res (map_err InvalidInputsBounds (vec_try_push MAX_TRANSACTION_INPUTS u (tb_ledger_inputs b))) (\<lambda>us.
        ok (b\<lparr>tb_pending := (tb_pending b)\<lparr>t_inputs := ids\<rparr>, tb_ledger_inputs := us\<rparr>)))
      else None)"

definition extend_ledger_inputs :: "extern \<Rightarrow> utxo list \<Rightarrow> tx_builder \<Rightarrow> (tx_builder_error + tx_builder) option" where
  "extend_ledger_inputs X us b = try_fold (push_input X) us b"

definition add_ledger_input :: "extern \<Rightarrow> utxo \<Rightarrow> tx_builder \<Rightarrow> (tx_builder_error + tx_builder) option" where
  "add_ledger_input X u b = extend_ledger_inputs X [u] b"

definition extend_ledger_outputs :: "ledger_note list \<Rightarrow> tx_builder \<Rightarrow> (tx_builder_error + tx_builder) option" where
  "extend_ledger_outputs notes b = try_fold (\<lambda>n b.
     bind_res (map_err InvalidOutputsBounds (vec_try_push MAX_TRANSACTION_OUTPUTS n (t_outputs (tb_pending b)))) (\<lambda>ns.
     ok (b\<lparr>tb_pending := (tb_pending b)\<lparr>t_outputs := ns\<rparr>\<rparr>))) notes b"

definition add_ledger_output :: "ledger_note \<Rightarrow> tx_builder \<Rightarrow> (tx_builder_error + tx_builder) option" where
  "add_ledger_output n b = extend_ledger_outputs [n] b"

definition transfer_is_empty :: "transfer_op \<Rightarrow> bool" where
  "transfer_is_empty op \<longleftrightarrow> t_inputs op = [] \<and> t_outputs op = []"

definition build :: "nat \<Rightarrow> tx_builder \<Rightarrow> (tx_builder_error + tx_ops) option" where
  "build fd b =
     bind_res (if transfer_is_empty (tb_pending b) then ok (tb_ops b)
               else map_err InvalidOpsBounds (vec_try_push MAX_OPS_PER_TX (Transfer (tb_pending b)) (tb_ops b))) (\<lambda>ops.
     ok \<lparr>fork_digest = fd, tx_op_list = ops\<rparr>)"

subsection \<open>Balance and price\<close>

definition net_balance :: "tx_builder \<Rightarrow> int" where
  "net_balance b = (\<Sum>u\<leftarrow>tb_ledger_inputs b. int (note_value (utxo_note u))) - (\<Sum>n\<leftarrow>t_outputs (tb_pending b). int (note_value n))"

definition tx_fee :: "tx_builder \<Rightarrow> (tx_builder_error + nat) option" where
  "tx_fee b = (if 0 \<le> net_balance b \<and> net_balance b < 2 ^ 64 then ok (nat (net_balance b)) else fail (NegativeNetBalance (net_balance b)))"

definition spends_channel :: "op \<Rightarrow> channel_id option" where
  "spends_channel operation = (case operation of ChannelWithdraw op \<Rightarrow> Some (w_channel_id op) | ChannelTransfer op \<Rightarrow> Some (ct_channel_id op) | _ \<Rightarrow> None)"

definition minimum_gas_cost :: "extern \<Rightarrow> ops_context \<Rightarrow> tx_builder \<Rightarrow> (tx_builder_error + nat) option" where
  "minimum_gas_cost X ctx b =
     bind_res (try_all (\<lambda>operation. case spends_channel operation of
         None \<Rightarrow> ok ()
       | Some c \<Rightarrow> ensure (gc_transfer_thresholds (oc_gas_context ctx) c \<noteq> None) (MissingTransferThreshold c)) (tb_ops b)) (\<lambda>_.
     bind_res (build 0 b) (\<lambda>tx. map_err BuilderGasOverflow (total_gas_cost X (oc_gas_context ctx) tx)))"

definition funding_delta :: "extern \<Rightarrow> ops_context \<Rightarrow> tx_builder \<Rightarrow> (tx_builder_error + int) option" where
  "funding_delta X ctx b = bind_res (minimum_gas_cost X ctx b) (\<lambda>gas. ok (net_balance b - int gas))"

text \<open>The share of the fee that is left as a tip, rounded up.\<close>

definition priority_fee_amount :: "nat \<Rightarrow> nat \<Rightarrow> (tx_builder_error + nat) option" where
  "priority_fee_amount mandatory_fee percent =
     bind_res (ok_or (BuilderGasOverflow GasOverflow) (do { v \<leftarrow> checked_mul 128 mandatory_fee percent; checked_add 128 v 99 })) (\<lambda>numerator.
     ok_or (BuilderGasOverflow GasOverflow) (try_from 64 (numerator div 100)))"

definition required_fee :: "nat \<Rightarrow> nat \<Rightarrow> (tx_builder_error + nat) option" where
  "required_fee mandatory_fee percent =
     bind_res (priority_fee_amount mandatory_fee percent) (\<lambda>amount. ok_or (BuilderGasOverflow GasOverflow) (checked_add 64 mandatory_fee amount))"

definition funding_delta_with_priority_fee :: "extern \<Rightarrow> ops_context \<Rightarrow> nat \<Rightarrow> tx_builder \<Rightarrow> (tx_builder_error + int) option" where
  "funding_delta_with_priority_fee X ctx percent b =
     bind_res (minimum_gas_cost X ctx b) (\<lambda>mandatory_fee.
     bind_res (required_fee mandatory_fee percent) (\<lambda>required. ok (net_balance b - int required)))"

definition with_dummy_change_note :: "tx_builder \<Rightarrow> (tx_builder_error + tx_builder) option" where
  "with_dummy_change_note b = add_ledger_output \<lparr>note_value = 0, note_pk = 0\<rparr> b"

definition return_change :: "extern \<Rightarrow> ops_context \<Rightarrow> nat \<Rightarrow> nat \<Rightarrow> tx_builder \<Rightarrow> (tx_builder_error + tx_builder option) option" where
  "return_change X ctx change_pk percent b =
     bind_res (with_dummy_change_note b) (\<lambda>candidate.
     bind_res (funding_delta_with_priority_fee X ctx percent candidate) (\<lambda>available_change.
     if available_change < 1 then ok None
     else bind_res (run (try_from 64 (nat available_change))) (\<lambda>change.
          bind_res (add_ledger_output \<lparr>note_value = change, note_pk = change_pk\<rparr> b) (\<lambda>tx_with_change. ok (Some tx_with_change)))))"

definition notes_consumed_or_used_in_service :: "extern \<Rightarrow> tx_builder \<Rightarrow> note_id list" where
  "notes_consumed_or_used_in_service X b =
     concat (map (\<lambda>operation. case operation of
         Transfer op \<Rightarrow> t_inputs op
       | ChannelDeposit op \<Rightarrow> d_inputs op
       | SDPDeclare op \<Rightarrow> [dm_service_note_id op]
       | _ \<Rightarrow> []) (tb_ops b)) @ map (utxo_id X) (tb_ledger_inputs b)"

subsection \<open>The price of a change note\<close>

lemma try_fold_snoc: "try_fold f (xs @ [x]) s = bind_res (try_fold f xs s) (f x)"
  by (induction xs arbitrary: s) (simp_all add: bind_res_def split: option.splits sum.splits)

lemma those_const: "those (map (\<lambda>_. Some c) xs) = Some (replicate (length xs) c)"
  by (induction xs) simp_all

lemma int_sum_list: "int (\<Sum>x\<leftarrow>xs. f x) = (\<Sum>x\<leftarrow>xs. int (f x))"
  by (induction xs) simp_all

lemma transfer_length_shape:
  assumes "length (t_inputs t) = length (t_inputs t')" "length (t_outputs t) = length (t_outputs t')"
  shows "c_len (op_c X m) (Transfer t) = c_len (op_c X m) (Transfer t')"
proof -
  have "(\<lambda>n. c_len note_c n) = (\<lambda>_. Some 40)"
    by (simp add: fun_eq_iff note_c_def conv_c_def pair_c_def pair_length_def uint_c_def uint_length_def fr_c_def wrapping_add_def)
  moreover have "uint_length 32 = (\<lambda>_. Some 32)" by (simp add: fun_eq_iff uint_length_def)
  ultimately have "c_len transfer_c t = c_len transfer_c t'" using assms
    by (simp add: transfer_c_def conv_c_def pair_c_def pair_length_def inputs_c_def ordered_set_c_def outputs_c_def vec_c_def bounded_length_def items_length_def
        fr_c_def those_const)
  then show ?thesis by (simp add: op_c_def enum_c_def op_variants_def op_code_def variant_c_def)
qed

lemma cost_shape:
  assumes "length (t_inputs t) = length (t_inputs t')" "length (t_outputs t) = length (t_outputs t')"
  shows "total_gas_cost X ctx \<lparr>fork_digest = fd, tx_op_list = ops @ [Transfer t]\<rparr> = total_gas_cost X ctx \<lparr>fork_digest = fd', tx_op_list = ops @ [Transfer t']\<rparr>"
proof -
  have t: "execution_gas p r (Transfer v) = ok (gp_transfer p)" "running_apply (Transfer v) a = a" "minimum_proof_size r (Transfer v) = COMPRESSED_PROOF_SIZE" for p r v a
    by (simp_all add: execution_gas_def running_apply_def minimum_proof_size_def)
  have "c_len (tx_ops_c X m) \<lparr>fork_digest = fd, tx_op_list = ops @ [Transfer t]\<rparr> = c_len (tx_ops_c X m) \<lparr>fork_digest = fd', tx_op_list = ops @ [Transfer t']\<rparr>" for m
    using transfer_length_shape [OF assms, of X m]
    by (simp add: tx_ops_c_def conv_c_def pair_c_def pair_length_def uint_c_def uint_length_def vec_c_def bounded_length_def items_length_def)
  then have "minimum_signed_transaction_size X ctx \<lparr>fork_digest = fd, tx_op_list = ops @ [Transfer t]\<rparr> =
      minimum_signed_transaction_size X ctx \<lparr>fork_digest = fd', tx_op_list = ops @ [Transfer t']\<rparr>"
    by (simp add: minimum_signed_transaction_size_def t)
  moreover have "execution_gas_consumption ctx (ops @ [Transfer t]) = execution_gas_consumption ctx (ops @ [Transfer t'])"
    by (simp add: execution_gas_consumption_def try_fold_snoc t)
  ultimately show ?thesis by (simp add: total_gas_cost_def storage_gas_cost_def)
qed

text \<open>A builder that differs only in the notes of its transfer, not in their number.\<close>

lemma minimum_gas_cost_shape:
  assumes "tb_ops b' = tb_ops b" "length (t_inputs (tb_pending b')) = length (t_inputs (tb_pending b))" "length (t_outputs (tb_pending b')) = length (t_outputs (tb_pending b))"
  shows "minimum_gas_cost X ctx b' = minimum_gas_cost X ctx b"
proof (cases "transfer_is_empty (tb_pending b)")
  case True
  then have "transfer_is_empty (tb_pending b')" using assms(2,3) by (simp add: transfer_is_empty_def)
  then show ?thesis using True assms(1) by (simp add: minimum_gas_cost_def build_def)
next
  case False
  then have "\<not> transfer_is_empty (tb_pending b')" using assms(2,3) by (auto simp: transfer_is_empty_def)
  then show ?thesis using False assms(1) cost_shape [OF assms(2,3), of X "oc_gas_context ctx" 0 "tb_ops b" 0]
    by (simp add: minimum_gas_cost_def build_def vec_try_push_def)
qed

lemma add_ledger_output_iff:
  "add_ledger_output n b = ok b' \<longleftrightarrow> length (t_outputs (tb_pending b)) < MAX_TRANSACTION_OUTPUTS \<and>
     b' = b\<lparr>tb_pending := (tb_pending b)\<lparr>t_outputs := t_outputs (tb_pending b) @ [n]\<rparr>\<rparr>"
  by (auto simp: add_ledger_output_def extend_ledger_outputs_def vec_try_push_def bind_res_ok_iff)

text \<open>
  A builder is balanced if it builds a transaction, whatever the fork digest, and the notes it spends are worth the outputs of its transfer, the gas cost of that
  transaction and the tip, the given percentage of that cost rounded up.
\<close>

definition pays_exactly :: "extern \<Rightarrow> ops_context \<Rightarrow> nat \<Rightarrow> tx_builder \<Rightarrow> bool" where
  "pays_exactly X ctx percent b \<longleftrightarrow> (\<forall>fd. \<exists>tx fee. build fd b = ok tx \<and> total_gas_cost X (oc_gas_context ctx) tx = ok fee \<and>
     (\<Sum>u\<leftarrow>tb_ledger_inputs b. note_value (utxo_note u)) = (\<Sum>n\<leftarrow>t_outputs (tb_pending b). note_value n) + fee + (fee * percent + 99) div 100)"

lemma cost_fork_digest:
  "total_gas_cost X ctx \<lparr>fork_digest = fd, tx_op_list = ops\<rparr> = total_gas_cost X ctx \<lparr>fork_digest = fd', tx_op_list = ops\<rparr>"
proof -
  have "c_len (tx_ops_c X m) \<lparr>fork_digest = fd, tx_op_list = ops\<rparr> = c_len (tx_ops_c X m) \<lparr>fork_digest = fd', tx_op_list = ops\<rparr>" for m
    by (simp add: tx_ops_c_def conv_c_def pair_c_def pair_length_def uint_c_def uint_length_def)
  then show ?thesis by (simp add: total_gas_cost_def storage_gas_cost_def minimum_signed_transaction_size_def)
qed

lemma build_fork_digest: "build fd b = ok tx \<Longrightarrow> build fd' b = ok \<lparr>fork_digest = fd', tx_op_list = tx_op_list tx\<rparr> \<and> fork_digest tx = fd"
  by (auto simp: build_def bind_res_ok_iff)

lemma required_fee_value: "required_fee fee percent = ok r \<Longrightarrow> r = fee + (fee * percent + 99) div 100"
  by (auto simp: required_fee_def priority_fee_amount_def bind_res_ok_iff bind_Some_iff checked_mul_def checked_add_def try_from_def split: if_splits)

lemma balanced_pays_exactly:
  assumes "funding_delta_with_priority_fee X ctx percent b = ok 0"
  shows "pays_exactly X ctx percent b"
  unfolding pays_exactly_def
proof
  fix fd
  obtain fee where fee: "minimum_gas_cost X ctx b = ok fee" "net_balance b = int (fee + (fee * percent + 99) div 100)"
    using assms required_fee_value by (fastforce simp: funding_delta_with_priority_fee_def bind_res_ok_iff)
  obtain tx where tx: "build 0 b = ok tx" "total_gas_cost X (oc_gas_context ctx) tx = ok fee"
    using fee(1) by (auto simp: minimum_gas_cost_def bind_res_ok_iff)
  have ops: "\<lparr>fork_digest = 0, tx_op_list = tx_op_list tx\<rparr> = tx" using build_fork_digest [OF tx(1)] by simp
  have "total_gas_cost X (oc_gas_context ctx) \<lparr>fork_digest = fd, tx_op_list = tx_op_list tx\<rparr> = ok fee"
    using cost_fork_digest [of X "oc_gas_context ctx" fd "tx_op_list tx" 0] tx(2) unfolding ops by simp
  moreover have "int (\<Sum>u\<leftarrow>tb_ledger_inputs b. note_value (utxo_note u)) =
      int ((\<Sum>n\<leftarrow>t_outputs (tb_pending b). note_value n) + fee + (fee * percent + 99) div 100)"
    using fee(2) by (simp add: net_balance_def int_sum_list)
  ultimately show "\<exists>tx fee. build fd b = ok tx \<and> total_gas_cost X (oc_gas_context ctx) tx = ok fee \<and>
     (\<Sum>u\<leftarrow>tb_ledger_inputs b. note_value (utxo_note u)) = (\<Sum>n\<leftarrow>t_outputs (tb_pending b). note_value n) + fee + (fee * percent + 99) div 100"
    using build_fork_digest [OF tx(1)] unfolding of_nat_eq_iff by blast
qed

lemma return_change_spec:
  assumes "return_change X ctx change_pk percent b = ok (Some b')"
  shows "\<exists>change. 0 < change \<and> change < 2 ^ 64 \<and> pays_exactly X ctx percent b' \<and>
    b' = b\<lparr>tb_pending := (tb_pending b)\<lparr>t_outputs := t_outputs (tb_pending b) @ [\<lparr>note_value = change, note_pk = change_pk\<rparr>]\<rparr>\<rparr>"
proof -
  obtain candidate available where c: "with_dummy_change_note b = ok candidate" "funding_delta_with_priority_fee X ctx percent candidate = ok available" "1 \<le> available"
      and change: "nat available < 2 ^ 64" "add_ledger_output \<lparr>note_value = nat available, note_pk = change_pk\<rparr> b = ok b'"
    using assms by (auto simp: return_change_def bind_res_ok_iff try_from_def split: if_splits)
  have b': "b' = b\<lparr>tb_pending := (tb_pending b)\<lparr>t_outputs := t_outputs (tb_pending b) @ [\<lparr>note_value = nat available, note_pk = change_pk\<rparr>]\<rparr>\<rparr>"
    using change(2) by (simp add: add_ledger_output_iff)
  have candidate: "candidate = b\<lparr>tb_pending := (tb_pending b)\<lparr>t_outputs := t_outputs (tb_pending b) @ [\<lparr>note_value = 0, note_pk = 0\<rparr>]\<rparr>\<rparr>"
    using c(1) by (simp add: with_dummy_change_note_def add_ledger_output_iff)
  have "minimum_gas_cost X ctx b' = minimum_gas_cost X ctx candidate" by (rule minimum_gas_cost_shape) (simp_all add: b' candidate)
  moreover have "net_balance b' = net_balance candidate - available" using c(3) by (simp add: net_balance_def b' candidate)
  ultimately have "pays_exactly X ctx percent b'" using c(2) by (auto intro!: balanced_pays_exactly simp: funding_delta_with_priority_fee_def bind_res_ok_iff)
  then show ?thesis using c(3) change(1) b' by (intro exI [of _ "nat available"]) simp
qed

lemma extend_ledger_inputs_spec:
  assumes "extend_ledger_inputs X us b = ok b'"
  shows "tb_ops b' = tb_ops b" "tb_ledger_inputs b' = tb_ledger_inputs b @ us" "t_inputs (tb_pending b') = t_inputs (tb_pending b) @ map (utxo_id X) us"
    "t_outputs (tb_pending b') = t_outputs (tb_pending b)"
  using assms unfolding extend_ledger_inputs_def
  by (induction us arbitrary: b) (auto simp: bind_res_ok_iff push_input_def set_try_push_def vec_try_push_def split: if_splits)

end
