(* ===== verification/Wallet.thy ===== *)
theory Wallet
  imports TxBuilder
begin

text \<open>
  The wallet, \<^verbatim>\<open>wallet/src/lib.rs\<close>, \<^verbatim>\<open>voucher.rs\<close> and \<^verbatim>\<open>error.rs\<close>: what it takes from a block and the events of its execution, the state that it keeps per
  block, and how it funds a transaction from the notes of its keys.

  Sets that the source iterates are lists without repetition, in any order.  The text of an error of the builder is the error itself.  A key of the wallet is known
  if the map \<open>known\<close> has it; \<open>'k\<close> and \<open>'v\<close> are the identifiers of keys and vouchers.
\<close>

subsection \<open>What the wallet takes from a block\<close>

datatype wallet_header_op = Unlock note_id | SdpReward utxo

datatype wallet_op =
    WTransfer transfer_op
  | WLock note_id
  | WLeaderClaim utxo
  | WClaimPoW utxo
  | WChannelDeposit deposit_op
  | WChannelTransfer channel_transfer_op
  | WChannelWithdraw channel_withdraw_op

record wallet_block =
  wb_id :: nat
  wb_parent :: nat
  wb_epoch :: nat
  wb_voucher_cm :: nat
  wb_header_ops :: "wallet_header_op list"
  wb_txs :: "wallet_op list list"

definition header_op_of :: "header_event \<Rightarrow> wallet_header_op" where
  "header_op_of e = (case e of SdpNoteUnlocked n _ _ \<Rightarrow> Unlock n | SdpRewardDistributed _ u \<Rightarrow> SdpReward u)"

type_synonym tx_events = "nat \<rightharpoonup> (nat \<rightharpoonup> tx_event_payload)"

definition group_event :: "ledger_event \<Rightarrow> header_event list \<times> tx_events \<Rightarrow> header_event list \<times> tx_events" where
  "group_event e = (\<lambda>(header_events, m). case e of
     TxEvent t \<Rightarrow> (header_events, m(ev_tx_hash t \<mapsto> (unwrap_or Map.empty (m (ev_tx_hash t)))(ev_op_id t \<mapsto> ev_payload t)))
   | HeaderEvent h \<Rightarrow> (header_events @ [h], m))"

definition group_events :: "ledger_event list \<Rightarrow> header_event list \<times> tx_events" where
  "group_events events = fold group_event events ([], Map.empty)"

text \<open>The identifier of an operation whose events are looked up; computing it fails only where the encoding would.\<close>

definition op_id_ref :: "extern \<Rightarrow> op \<Rightarrow> nat option option" where
  "op_id_ref X operation = (case operation of
     LeaderClaim op \<Rightarrow> map_option Some (leader_claim_op_id X op)
   | ChannelWithdraw op \<Rightarrow> map_option (\<lambda>bs. Some (op_id X bs)) (c_enc channel_withdraw_c op)
   | ChannelDeposit op \<Rightarrow> map_option Some (deposit_op_id X op)
   | Transfer op \<Rightarrow> map_option Some (transfer_op_id X op)
   | _ \<Rightarrow> Some None)"

definition transform_op :: "op \<Rightarrow> tx_event_payload option \<Rightarrow> wallet_op option option" where
  "transform_op operation event = (case operation of
     Transfer op \<Rightarrow> Some (Some (WTransfer op))
   | ChannelDeposit op \<Rightarrow> Some (Some (WChannelDeposit op))
   | ChannelTransfer op \<Rightarrow> Some (Some (WChannelTransfer op))
   | ChannelWithdraw op \<Rightarrow> Some (Some (WChannelWithdraw op))
   | SDPDeclare op \<Rightarrow> Some (Some (WLock (dm_service_note_id op)))
   | LeaderClaim _ \<Rightarrow> (case event of
         Some (LeaderRewardClaimed _ u) \<Rightarrow> Some (Some (WLeaderClaim u))
       | Some (PoWRewardClaimed _ u) \<Rightarrow> Some (Some (WClaimPoW u))
       | _ \<Rightarrow> None)
   | _ \<Rightarrow> Some None)"

primrec transform_ops :: "extern \<Rightarrow> op list \<Rightarrow> (nat \<rightharpoonup> tx_event_payload) \<Rightarrow> wallet_op list option" where
  "transform_ops X [] events = Some []"
| "transform_ops X (operation # ops) events =
     do { oid \<leftarrow> op_id_ref X operation;
          w \<leftarrow> transform_op operation (Option.bind oid events);
          ws \<leftarrow> transform_ops X ops (case oid of None \<Rightarrow> events | Some i \<Rightarrow> events(i := None));
          Some (case w of None \<Rightarrow> ws | Some w \<Rightarrow> w # ws) }"

primrec transform_txs :: "extern \<Rightarrow> signed_ops list \<Rightarrow> tx_events \<Rightarrow> wallet_op list list option" where
  "transform_txs X [] events = Some []"
| "transform_txs X (tx # txs) events =
     do { h \<leftarrow> signed_ops_hash X tx;
          ws \<leftarrow> transform_ops X (map fst (so_ops tx)) (unwrap_or Map.empty (events h));
          wss \<leftarrow> transform_txs X txs (events(h := None));
          Some (ws # wss) }"

definition from_block :: "extern \<Rightarrow> nat \<Rightarrow> nat \<Rightarrow> nat \<Rightarrow> signed_ops list \<Rightarrow> nat \<Rightarrow> ledger_event list \<Rightarrow> wallet_block option" where
  "from_block X block_id parent_id voucher txs epoch events =
     (let (header_events, tx_events) = group_events events in
      do { wtxs \<leftarrow> transform_txs X txs tx_events;
           Some \<lparr>wb_id = block_id, wb_parent = parent_id, wb_epoch = epoch, wb_voucher_cm = voucher, wb_header_ops = map header_op_of header_events, wb_txs = wtxs\<rparr> })"

definition spent_note_ids :: "wallet_block \<Rightarrow> note_id set" where
  "spent_note_ids b = set (concat (map (\<lambda>w. case w of
       WTransfer op \<Rightarrow> t_inputs op
     | WChannelDeposit op \<Rightarrow> d_inputs op
     | WChannelTransfer op \<Rightarrow> ct_inputs op
     | WLock n \<Rightarrow> [n]
     | _ \<Rightarrow> []) (concat (wb_txs b))))"

subsection \<open>Vouchers\<close>

record 'v voucher_index =
  vi_vouchers :: "nat \<rightharpoonup> 'v"
  vi_nullifiers :: "nat \<rightharpoonup> nat"

definition vouchers_insert :: "nat \<Rightarrow> nat \<Rightarrow> 'v \<Rightarrow> 'v voucher_index \<Rightarrow> 'v voucher_index" where
  "vouchers_insert cm nf vid v = v\<lparr>vi_vouchers := (vi_vouchers v)(cm \<mapsto> vid), vi_nullifiers := (vi_nullifiers v)(nf \<mapsto> cm)\<rparr>"

definition vouchers_get :: "'v voucher_index \<Rightarrow> nat \<Rightarrow> 'v option" where
  "vouchers_get v cm = vi_vouchers v cm"

definition get_by_nullifier :: "'v voucher_index \<Rightarrow> nat \<Rightarrow> 'v option" where
  "get_by_nullifier v nf = do { cm \<leftarrow> vi_nullifiers v nf; vouchers_get v cm }"

definition remove_by_nullifier :: "nat \<Rightarrow> 'v voucher_index \<Rightarrow> 'v voucher_index \<times> 'v option" where
  "remove_by_nullifier nf v = (case vi_nullifiers v nf of
     None \<Rightarrow> (v, None)
   | Some cm \<Rightarrow> (v\<lparr>vi_nullifiers := (vi_nullifiers v)(nf := None), vi_vouchers := (vi_vouchers v)(cm := None)\<rparr>, vi_vouchers v cm))"

subsection \<open>The state of the wallet at a block\<close>

datatype wallet_error =
    UnknownBlock nat
  | InsufficientFunds nat
  | WalletGasOverflow gas_overflow
  | WalletBounded bounded_error
  | WalletInputs inputs_error
  | WalletOutputs outputs_error
  | WalletTxBuilder tx_builder_error
  | InvalidVoucherPath merkle_path_error
  | VoucherMmrFull

type_synonym voucher_paths = "(nat \<times> nat merkle_path) list"

record wallet_state =
  ws_utxos :: "note_id \<rightharpoonup> utxo"
  ws_pk_index :: "nat \<rightharpoonup> note_id list"
  ws_service_notes :: "note_id set"
  ws_channel_notes :: "note_id set"
  ws_epoch :: nat
  ws_vouchers :: "nat mmr"
  ws_voucher_paths :: voucher_paths
  ws_voucher_paths_snapshot :: voucher_paths

definition set_insert :: "'a \<Rightarrow> 'a list \<Rightarrow> 'a list" where
  "set_insert x xs = (if x \<in> set xs then xs else xs @ [x])"

text \<open>The notes of the wallet and their index by key, which every step changes together.\<close>

definition track_utxo :: "extern \<Rightarrow> utxo \<Rightarrow> wallet_state \<Rightarrow> wallet_state" where
  "track_utxo X u w =
     (let pk = note_pk (utxo_note u); note_set = set_insert (utxo_id X u) (unwrap_or [] (ws_pk_index w pk))
      in w\<lparr>ws_utxos := (ws_utxos w)(utxo_id X u \<mapsto> u), ws_pk_index := (ws_pk_index w)(pk \<mapsto> note_set)\<rparr>)"

definition from_ledger :: "extern \<Rightarrow> (nat \<rightharpoonup> 'k) \<Rightarrow> ledger_state \<Rightarrow> wallet_state" where
  "from_ledger X known st =
     fold (\<lambda>(_, u, _) w.
       if known (note_pk (utxo_note u)) = None then w
       else let w = track_utxo X u w;
                w = (if sn_contains (sl_service_notes (ml_sdp (ls_mantle st))) (utxo_id X u)
                     then w\<lparr>ws_service_notes := insert (utxo_id X u) (ws_service_notes w)\<rparr> else w)
            in if is_channel_note (ml_channels (ls_mantle st)) (utxo_id X u)
               then w\<lparr>ws_channel_notes := insert (utxo_id X u) (ws_channel_notes w)\<rparr> else w)
       (mt_items (cl_utxos (ls_cryptarchia st)))
       \<lparr>ws_utxos = Map.empty, ws_pk_index = Map.empty, ws_service_notes = {}, ws_channel_notes = {},
        ws_epoch = eps_epoch (cl_epoch_state (ls_cryptarchia st)), ws_vouchers = vouchers (ml_leaders (ls_mantle st)),
        ws_voucher_paths = [], ws_voucher_paths_snapshot = []\<rparr>"

definition insert_utxo_if_owned :: "extern \<Rightarrow> (nat \<rightharpoonup> 'k) \<Rightarrow> utxo \<Rightarrow> wallet_state \<Rightarrow> wallet_state \<times> bool" where
  "insert_utxo_if_owned X known u w =
     (if known (note_pk (utxo_note u)) = None then (w, False) else (track_utxo X u w, True))"

definition remove_spent_utxo :: "note_id \<Rightarrow> wallet_state \<Rightarrow> wallet_state" where
  "remove_spent_utxo spent w = (case ws_utxos w spent of
     None \<Rightarrow> w
   | Some u \<Rightarrow>
       let pk = note_pk (utxo_note u); w = w\<lparr>ws_utxos := (ws_utxos w)(spent := None)\<rparr>
       in case ws_pk_index w pk of
            None \<Rightarrow> w
          | Some note_set \<Rightarrow>
              let updated_set = remove1 spent note_set
              in w\<lparr>ws_pk_index := (ws_pk_index w)(pk := if updated_set = [] then None else Some updated_set)\<rparr>)"

definition apply_header_op :: "extern \<Rightarrow> (nat \<rightharpoonup> 'k) \<Rightarrow> wallet_header_op \<Rightarrow> wallet_state \<Rightarrow> wallet_state" where
  "apply_header_op X known h w = (case h of
     Unlock n \<Rightarrow> w\<lparr>ws_service_notes := ws_service_notes w - {n}\<rparr>
   | SdpReward u \<Rightarrow> fst (insert_utxo_if_owned X known u w))"

text \<open>A note that enters a channel is marked if the wallet tracks it.\<close>

definition insert_channel_utxo :: "extern \<Rightarrow> (nat \<rightharpoonup> 'k) \<Rightarrow> utxo \<Rightarrow> wallet_state \<Rightarrow> wallet_state" where
  "insert_channel_utxo X known u w =
     (let (w, inserted) = insert_utxo_if_owned X known u w
      in if inserted then w\<lparr>ws_channel_notes := insert (utxo_id X u) (ws_channel_notes w)\<rparr> else w)"

definition deposit_input :: "extern \<Rightarrow> (nat \<rightharpoonup> 'k) \<Rightarrow> nat \<Rightarrow> nat \<times> note_id \<Rightarrow> wallet_state \<Rightarrow> wallet_state" where
  "deposit_input X known oid = (\<lambda>(index, input) w.
     let old = ws_utxos w input; w = remove_spent_utxo input w
     in case old of
          None \<Rightarrow> w
        | Some u \<Rightarrow> insert_channel_utxo X known \<lparr>utxo_op_id = oid, output_index = index, utxo_note = utxo_note u\<rparr> w)"

definition apply_wallet_op :: "extern \<Rightarrow> (nat \<rightharpoonup> 'k) \<Rightarrow> wallet_state \<Rightarrow> wallet_op \<Rightarrow> wallet_state option" where
  "apply_wallet_op X known w wop = (case wop of
     WTransfer op \<Rightarrow>
       do { oid \<leftarrow> transfer_op_id X op;
            Some (fold (\<lambda>u w. fst (insert_utxo_if_owned X known u w)) (output_utxos oid (t_outputs op)) (fold remove_spent_utxo (t_inputs op) w)) }
   | WChannelDeposit op \<Rightarrow>
       do { oid \<leftarrow> deposit_op_id X op; Some (fold (deposit_input X known oid) (enumerate 0 (d_inputs op)) w) }
   | WChannelTransfer op \<Rightarrow>
       do { oid \<leftarrow> channel_transfer_op_id X op;
            Some (fold (insert_channel_utxo X known) (output_utxos oid (ct_outputs op))
              (fold (\<lambda>i w. let w = remove_spent_utxo i w in w\<lparr>ws_channel_notes := ws_channel_notes w - {i}\<rparr>) (ct_inputs op) w)) }
   | WChannelWithdraw op \<Rightarrow> Some (fold (\<lambda>i w. w\<lparr>ws_channel_notes := ws_channel_notes w - {i}\<rparr>) (w_inputs op) w)
   | WLock n \<Rightarrow> Some (if ws_utxos w n \<noteq> None then w\<lparr>ws_service_notes := insert n (ws_service_notes w)\<rparr> else w)
   | WLeaderClaim u \<Rightarrow> Some (fst (insert_utxo_if_owned X known u w))
   | WClaimPoW u \<Rightarrow> Some (fst (insert_utxo_if_owned X known u w)))"

definition apply_voucher :: "extern \<Rightarrow> 'v voucher_index \<Rightarrow> wallet_block \<Rightarrow> wallet_state \<Rightarrow> (wallet_error + nat mmr \<times> voucher_paths \<times> voucher_paths) option" where
  "apply_voucher X known_vouchers b w =
     (let snapshot = (if ws_epoch w < wb_epoch b then ws_voucher_paths w else ws_voucher_paths_snapshot w);
          kept = filter (\<lambda>(cm, _). vouchers_get known_vouchers cm \<noteq> None) (ws_voucher_paths w)
      in bind_res (map_err (\<lambda>e. case e of PushMmrFull _ \<Rightarrow> VoucherMmrFull | InvalidTrackedPath e \<Rightarrow> InvalidVoucherPath e)
           (push_with_paths (zk_compress X) 0 ACCEPTABLE_MAX_HEIGHT (ws_vouchers w) (wb_voucher_cm b) (map snd kept))) (\<lambda>(vs, new_path, paths).
         let voucher_paths = fold (\<lambda>(cm, path). AList.update cm path) (zip (map fst kept) paths) []
         in ok (vs, if vouchers_get known_vouchers (wb_voucher_cm b) \<noteq> None then AList.update (wb_voucher_cm b) new_path voucher_paths else voucher_paths, snapshot)))"

definition state_apply_block :: "extern \<Rightarrow> (nat \<rightharpoonup> 'k) \<Rightarrow> 'v voucher_index \<Rightarrow> wallet_block \<Rightarrow> wallet_state \<Rightarrow> (wallet_error + wallet_state) option" where
  "state_apply_block X known known_vouchers b w =
     bind_res (run (fold_run (apply_wallet_op X known) (fold (apply_header_op X known) (wb_header_ops b) w) (concat (wb_txs b)))) (\<lambda>w'.
     bind_res (apply_voucher X known_vouchers b w) (\<lambda>(vs, paths, snapshot).
     ok (w'\<lparr>ws_epoch := wb_epoch b, ws_vouchers := vs, ws_voucher_paths := paths, ws_voucher_paths_snapshot := snapshot\<rparr>)))"

subsection \<open>Balance and funding\<close>

text \<open>An index that names a note which is not there is a panic.\<close>

definition utxos_owned_by_pks :: "nat list \<Rightarrow> wallet_state \<Rightarrow> utxo list option" where
  "utxos_owned_by_pks pks w = those (map (ws_utxos w) (concat (map (\<lambda>pk. unwrap_or [] (ws_pk_index w pk)) pks)))"

record wallet_balance =
  bal_balance :: nat
  bal_notes :: "note_id \<rightharpoonup> nat"

definition state_balance :: "nat \<Rightarrow> wallet_state \<Rightarrow> wallet_balance option option" where
  "state_balance pk w = (case ws_pk_index w pk of
     None \<Rightarrow> Some None
   | Some ids \<Rightarrow> map_option Some (fold_run (\<lambda>b i.
       if i \<in> ws_channel_notes w then Some b
       else do { u \<leftarrow> ws_utxos w i;
                 Some \<lparr>bal_balance = wrapping_add 64 (bal_balance b) (note_value (utxo_note u)), bal_notes = (bal_notes b)(i \<mapsto> note_value (utxo_note u))\<rparr> })
       \<lparr>bal_balance = 0, bal_notes = Map.empty\<rparr> ids))"

text \<open>The loop of the source takes one more of the notes each time, the largest first.\<close>

fun fund_loop :: "extern \<Rightarrow> ops_context \<Rightarrow> nat \<Rightarrow> nat \<Rightarrow> tx_builder \<Rightarrow> utxo list \<Rightarrow> utxo list \<Rightarrow> (wallet_error + tx_builder option) option" where
  "fund_loop X ctx change_pk percent b taken [] = ok None"
| "fund_loop X ctx change_pk percent b taken (u # us) =
     bind_res (map_err WalletTxBuilder (extend_ledger_inputs X (taken @ [u]) b)) (\<lambda>funded.
     bind_res (map_err WalletTxBuilder (funding_delta_with_priority_fee X ctx percent funded)) (\<lambda>delta.
     if delta < 0 then fund_loop X ctx change_pk percent b (taken @ [u]) us
     else if delta = 0 then ok (Some funded)
     else bind_res (map_err WalletTxBuilder (return_change X ctx change_pk percent funded)) (\<lambda>r.
       case r of Some tx_with_change \<Rightarrow> ok (Some tx_with_change) | None \<Rightarrow> fund_loop X ctx change_pk percent b (taken @ [u]) us)))"

definition excluded_from_funding :: "extern \<Rightarrow> note_id set \<Rightarrow> tx_builder \<Rightarrow> wallet_state \<Rightarrow> note_id set" where
  "excluded_from_funding X excluded b w = set (notes_consumed_or_used_in_service X b) \<union> ws_service_notes w \<union> ws_channel_notes w \<union> excluded"

definition fundable_utxos :: "extern \<Rightarrow> nat list \<Rightarrow> note_id set \<Rightarrow> tx_builder \<Rightarrow> wallet_state \<Rightarrow> utxo list option" where
  "fundable_utxos X pks excluded b w =
     map_option (\<lambda>us. sort_key (\<lambda>u. - int (note_value (utxo_note u))) (filter (\<lambda>u. utxo_id X u \<notin> excluded_from_funding X excluded b w) us)) (utxos_owned_by_pks pks w)"

definition fund_tx :: "extern \<Rightarrow> tx_builder \<Rightarrow> nat \<Rightarrow> nat list \<Rightarrow> ops_context \<Rightarrow> note_id set \<Rightarrow> nat \<Rightarrow> wallet_state \<Rightarrow> (wallet_error + tx_builder) option" where
  "fund_tx X b change_pk pks ctx excluded percent w =
     bind_res (run (fundable_utxos X pks excluded b w)) (\<lambda>us.
     bind_res (map_err WalletTxBuilder (funding_delta_with_priority_fee X ctx percent b)) (\<lambda>delta.
     if delta = 0 then ok b
     else bind_res (if 0 < delta then map_err WalletTxBuilder (return_change X ctx change_pk percent b) else ok None) (\<lambda>r.
       case r of
         Some tx_with_change \<Rightarrow> ok tx_with_change
       | None \<Rightarrow> bind_res (fund_loop X ctx change_pk percent b [] us) (\<lambda>r.
           case r of Some funded \<Rightarrow> ok funded | None \<Rightarrow> fail (InsufficientFunds ((\<Sum>u\<leftarrow>us. note_value (utxo_note u)) mod 2 ^ 64))))))"

subsection \<open>The wallet\<close>

record ('k, 'v) wallet =
  wl_known_keys :: "nat \<rightharpoonup> 'k"
  wl_known_vouchers :: "'v voucher_index"
  wl_states :: "nat \<rightharpoonup> wallet_state"

definition from_lib_wallet_state :: "(nat \<times> 'k) list \<Rightarrow> 'v voucher_index \<Rightarrow> nat \<Rightarrow> wallet_state \<Rightarrow> ('k, 'v) wallet" where
  "from_lib_wallet_state keys vs lib w = \<lparr>wl_known_keys = map_of (rev keys), wl_known_vouchers = vs, wl_states = [lib \<mapsto> w]\<rparr>"

definition from_lib_ledger_state :: "extern \<Rightarrow> (nat \<times> 'k) list \<Rightarrow> 'v voucher_index \<Rightarrow> nat \<Rightarrow> ledger_state \<Rightarrow> ('k, 'v) wallet" where
  "from_lib_ledger_state X keys vs lib st =
     \<lparr>wl_known_keys = map_of (rev keys), wl_known_vouchers = vs, wl_states = [lib \<mapsto> from_ledger X (map_of (rev keys)) st]\<rparr>"

definition add_known_voucher :: "nat \<Rightarrow> nat \<Rightarrow> 'v \<Rightarrow> ('k, 'v) wallet \<Rightarrow> ('k, 'v) wallet" where
  "add_known_voucher cm nf vid wl = wl\<lparr>wl_known_vouchers := vouchers_insert cm nf vid (wl_known_vouchers wl)\<rparr>"

definition wallet_state_at :: "nat \<Rightarrow> ('k, 'v) wallet \<Rightarrow> (wallet_error + wallet_state) option" where
  "wallet_state_at tip wl = ok_or (UnknownBlock tip) (wl_states wl tip)"

definition has_processed_block :: "nat \<Rightarrow> ('k, 'v) wallet \<Rightarrow> bool" where
  "has_processed_block block_id wl \<longleftrightarrow> wl_states wl block_id \<noteq> None"

definition wallet_apply_block :: "extern \<Rightarrow> wallet_block \<Rightarrow> ('k, 'v) wallet \<Rightarrow> (wallet_error + ('k, 'v) wallet) option" where
  "wallet_apply_block X b wl =
     (if wl_states wl (wb_id b) \<noteq> None then ok wl
      else bind_res (wallet_state_at (wb_parent b) wl) (\<lambda>w.
           bind_res (state_apply_block X (wl_known_keys wl) (wl_known_vouchers wl) b w) (\<lambda>w.
           ok (wl\<lparr>wl_states := (wl_states wl)(wb_id b \<mapsto> w)\<rparr>))))"

definition voucher_path_snapshot :: "nat \<Rightarrow> nat \<Rightarrow> ('k, 'v) wallet \<Rightarrow> (wallet_error + nat merkle_path option) option" where
  "voucher_path_snapshot tip cm wl = bind_res (wallet_state_at tip wl) (\<lambda>w. ok (map_of (ws_voucher_paths_snapshot w) cm))"

definition balance_at :: "nat \<Rightarrow> nat \<Rightarrow> ('k, 'v) wallet \<Rightarrow> (wallet_error + wallet_balance option) option" where
  "balance_at tip pk wl = bind_res (wallet_state_at tip wl) (\<lambda>w. run (state_balance pk w))"

definition wallet_fund_tx ::
  "extern \<Rightarrow> nat \<Rightarrow> tx_builder \<Rightarrow> nat \<Rightarrow> nat list \<Rightarrow> ops_context \<Rightarrow> note_id set \<Rightarrow> nat \<Rightarrow> ('k, 'v) wallet \<Rightarrow> (wallet_error + tx_builder) option" where
  "wallet_fund_tx X tip b change_pk pks ctx excluded percent wl =
     bind_res (wallet_state_at tip wl) (\<lambda>w. fund_tx X b change_pk pks ctx excluded percent w)"

definition prune_states :: "nat list \<Rightarrow> ('k, 'v) wallet \<Rightarrow> ('k, 'v) wallet" where
  "prune_states pruned wl = fold (\<lambda>block_id wl. wl\<lparr>wl_states := (wl_states wl)(block_id := None)\<rparr>) pruned wl"

definition prune_vouchers :: "nat list \<Rightarrow> ('k, 'v) wallet \<Rightarrow> ('k, 'v) wallet" where
  "prune_vouchers nfs wl = fold (\<lambda>nf wl. wl\<lparr>wl_known_vouchers := fst (remove_by_nullifier nf (wl_known_vouchers wl))\<rparr>) nfs wl"

subsection \<open>A funded transaction\<close>

text \<open>What a builder may become: the same operations, some of the given notes as further inputs, at most one note more, the change.\<close>

definition funded_from :: "extern \<Rightarrow> nat \<Rightarrow> utxo set \<Rightarrow> tx_builder \<Rightarrow> tx_builder \<Rightarrow> bool" where
  "funded_from X change_pk U b b' \<longleftrightarrow> tb_ops b' = tb_ops b \<and>
     (\<exists>chosen. set chosen \<subseteq> U \<and> tb_ledger_inputs b' = tb_ledger_inputs b @ chosen \<and> t_inputs (tb_pending b') = t_inputs (tb_pending b) @ map (utxo_id X) chosen) \<and>
     (\<exists>change. t_outputs (tb_pending b') = t_outputs (tb_pending b) @ change \<and>
        (change = [] \<or> (\<exists>v. 0 < v \<and> v < 2 ^ 64 \<and> change = [\<lparr>note_value = v, note_pk = change_pk\<rparr>])))"

lemma those_map_member: "those (map f xs) = Some ys \<Longrightarrow> y \<in> set ys \<Longrightarrow> \<exists>x \<in> set xs. f x = Some y"
  by (induction xs arbitrary: ys) (auto split: option.splits)

lemma funded_with_change:
  assumes "return_change X ctx change_pk percent b1 = ok (Some b')" "tb_ops b1 = tb_ops b" "set chosen \<subseteq> U" "tb_ledger_inputs b1 = tb_ledger_inputs b @ chosen"
    and "t_inputs (tb_pending b1) = t_inputs (tb_pending b) @ map (utxo_id X) chosen" "t_outputs (tb_pending b1) = t_outputs (tb_pending b)"
  shows "pays_exactly X ctx percent b' \<and> funded_from X change_pk U b b'"
proof -
  obtain change where c: "0 < change" "change < 2 ^ 64" "pays_exactly X ctx percent b'"
      "b' = b1\<lparr>tb_pending := (tb_pending b1)\<lparr>t_outputs := t_outputs (tb_pending b1) @ [\<lparr>note_value = change, note_pk = change_pk\<rparr>]\<rparr>\<rparr>"
    using return_change_spec [OF assms(1)] by blast
  then have "funded_from X change_pk U b b'" unfolding funded_from_def using assms(2-)
    by (intro conjI exI [of _ chosen] exI [of _ "[\<lparr>note_value = change, note_pk = change_pk\<rparr>]"]) simp_all
  then show ?thesis using c(3) by blast
qed

lemma fund_loop_spec:
  assumes "fund_loop X ctx change_pk percent b taken us = ok (Some b')" "set taken \<union> set us \<subseteq> U"
  shows "pays_exactly X ctx percent b' \<and> funded_from X change_pk U b b'"
  using assms
proof (induction us arbitrary: taken)
  case (Cons u us)
  obtain funded delta where f: "extend_ledger_inputs X (taken @ [u]) b = ok funded" "funding_delta_with_priority_fee X ctx percent funded = ok delta"
    using Cons.prems(1) unfolding fund_loop.simps bind_res_ok_iff map_err_iffs by blast
  note e = extend_ledger_inputs_spec [OF f(1)]
  have U: "set (taken @ [u]) \<subseteq> U" "set (taken @ [u]) \<union> set us \<subseteq> U" using Cons.prems(2) by auto
  have "(if delta < 0 then fund_loop X ctx change_pk percent b (taken @ [u]) us
      else if delta = 0 then ok (Some funded)
      else bind_res (map_err WalletTxBuilder (return_change X ctx change_pk percent funded)) (\<lambda>r.
        case r of Some tx_with_change \<Rightarrow> ok (Some tx_with_change) | None \<Rightarrow> fund_loop X ctx change_pk percent b (taken @ [u]) us)) = ok (Some b')"
    using Cons.prems(1) by (simp only: fund_loop.simps f map_err_simps bind_res_simps)
  then consider "delta = 0" "b' = funded" | "return_change X ctx change_pk percent funded = ok (Some b')"
    | "fund_loop X ctx change_pk percent b (taken @ [u]) us = ok (Some b')"
    by (cases "delta < 0"; cases "delta = 0") (auto simp: bind_res_ok_iff split: option.split_asm)
  then show ?case
  proof cases
    case 1
    have "funded_from X change_pk U b funded" unfolding funded_from_def using e U(1)
      by (intro conjI exI [of _ "taken @ [u]"] exI [of _ "[]"]) simp_all
    then show ?thesis using 1 f(2) by (simp add: balanced_pays_exactly)
  next
    case 2
    then show ?thesis using funded_with_change [OF 2 e(1) U(1) e(2-4)] by blast
  next
    case 3
    then show ?thesis using Cons.IH U(2) by blast
  qed
qed simp

text \<open>A wallet with one note of 1000 that funds an inscription, with a tip of ten percent.\<close>

definition example_context :: ops_context where
  "example_context = \<lparr>oc_gas_context = from_channels channels_new 1 1 (cfg_gas_profile example_config), oc_leader_reward_amount = 0\<rparr>"

definition example_builder :: tx_builder where
  "example_builder = builder_new\<lparr>tb_ops := [ChannelInscribe creating_inscription]\<rparr>"

definition example_wallet :: wallet_state where
  "example_wallet = track_utxo plain_extern (example_utxo 1000 21)
     \<lparr>ws_utxos = Map.empty, ws_pk_index = Map.empty, ws_service_notes = {}, ws_channel_notes = {}, ws_epoch = 0, ws_vouchers = [],
      ws_voucher_paths = [], ws_voucher_paths_snapshot = []\<rparr>"

lemma transfer_length:
  assumes "length (t_inputs t) < 2 ^ 32" "length (t_outputs t) < 2 ^ 32"
  shows "c_len (op_c X m) (Transfer t) = Some (3 + 32 * length (t_inputs t) + 40 * length (t_outputs t))"
proof -
  have n: "c_len note_c = (\<lambda>_. Some 40)" "uint_length 32 = (\<lambda>_. Some 32)"
    by (simp_all add: fun_eq_iff note_c_def conv_c_def pair_c_def pair_length_def uint_c_def uint_length_def fr_c_def wrapping_add_def)
  have "c_len transfer_c t = Some (2 + 32 * length (t_inputs t) + 40 * length (t_outputs t))" using assms
    by (simp add: transfer_c_def conv_c_def pair_c_def pair_length_def inputs_c_def ordered_set_c_def outputs_c_def vec_c_def bounded_length_def items_length_def fr_c_def n those_const
        sum_list_replicate checked_add_def length_prefix_len_def MAX_TRANSACTION_INPUTS_def MAX_TRANSACTION_OUTPUTS_def wrapping_add_def)
  then show ?thesis using assms by (simp add: op_c_def enum_c_def op_variants_def op_code_def variant_c_def checked_add_def)
qed

lemma example_prices:
  "total_gas_cost plain_extern (oc_gas_context example_context) \<lparr>fork_digest = fd, tx_op_list = [ChannelInscribe creating_inscription]\<rparr> = ok 201"
  "length (t_inputs t) = 1 \<Longrightarrow> length (t_outputs t) \<le> 1 \<Longrightarrow>
     total_gas_cost plain_extern (oc_gas_context example_context) \<lparr>fork_digest = fd, tx_op_list = [ChannelInscribe creating_inscription, Transfer t]\<rparr> = ok (365 + 40 * length (t_outputs t))"
proof -
  have i: "c_len (op_c plain_extern (2 ^ 32 - 1)) (ChannelInscribe creating_inscription) = Some 103" by (rule creating_inscription_length)
  have c: "gc_profile (oc_gas_context example_context) = cfg_gas_profile example_config" "gc_execution_price (oc_gas_context example_context) = 1"
      "gc_storage_price (oc_gas_context example_context) = 1" "gp_transfer (cfg_gas_profile example_config) = 1" "gp_channel_inscribe (cfg_gas_profile example_config) = 1"
    by (simp_all add: example_context_def from_channels_def example_config_def)
  note price = total_gas_cost_def execution_gas_consumption_def execution_gas_def gas_checked_add_def gas_cost_calculate_def storage_gas_cost_def cost_checked_add_def
    minimum_signed_transaction_size_def minimum_proof_size_def COMPRESSED_PROOF_SIZE_def ED25519_SIGNATURE_SIZE_def checked_add_def checked_mul_def wrapping_add_def c
  note size = tx_ops_c_def conv_c_def pair_c_def pair_length_def uint_c_def uint_length_def vec_c_def bounded_length_def items_length_def length_prefix_len_def MAX_OPS_PER_TX_def
  show "total_gas_cost plain_extern (oc_gas_context example_context) \<lparr>fork_digest = fd, tx_op_list = [ChannelInscribe creating_inscription]\<rparr> = ok 201"
    using i by (simp add: price size)
  assume t: "length (t_inputs t) = 1" "length (t_outputs t) \<le> 1"
  then have "c_len (op_c plain_extern (2 ^ 32 - 1)) (Transfer t) = Some (35 + 40 * length (t_outputs t))" using transfer_length [of t plain_extern "2 ^ 32 - 1"] by simp
  then show "total_gas_cost plain_extern (oc_gas_context example_context) \<lparr>fork_digest = fd, tx_op_list = [ChannelInscribe creating_inscription, Transfer t]\<rparr> = ok (365 + 40 * length (t_outputs t))"
    using i t(2) by (simp add: price size)
qed

lemma example_funding:
  "\<exists>b'. fund_tx plain_extern example_builder 21 [21] example_context {} 10 example_wallet = ok b' \<and> net_balance b' = 446"
proof -
  let ?u = "example_utxo 1000 21" and ?id = "utxo_id plain_extern (example_utxo 1000 21)"
  let ?b = "\<lambda>outs. example_builder\<lparr>tb_ledger_inputs := [?u], tb_pending := \<lparr>t_inputs = [?id], t_outputs = outs\<rparr>\<rparr>"
  have u: "note_value (utxo_note ?u) = 1000" "note_pk (utxo_note ?u) = 21" by (simp_all add: example_utxo_def)
  have us: "fundable_utxos plain_extern [21] {} example_builder example_wallet = Some [?u]"
    by (simp add: fundable_utxos_def utxos_owned_by_pks_def example_wallet_def track_utxo_def u unwrap_or_def set_insert_def excluded_from_funding_def
        notes_consumed_or_used_in_service_def example_builder_def builder_new_def)
  have fee: "required_fee m 10 = ok (m + (m * 10 + 99) div 100)" if "m < 1000" for m
    using that by (simp add: required_fee_def priority_fee_amount_def checked_mul_def checked_add_def try_from_def)
  have cost: "minimum_gas_cost plain_extern example_context example_builder = ok 201"
      "length outs \<le> 1 \<Longrightarrow> minimum_gas_cost plain_extern example_context (?b outs) = ok (365 + 40 * length outs)" for outs
    by (simp_all add: minimum_gas_cost_def spends_channel_def build_def example_builder_def builder_new_def transfer_is_empty_def vec_try_push_def MAX_OPS_PER_TX_def example_prices)
  have delta: "funding_delta_with_priority_fee plain_extern example_context 10 example_builder = ok (- 222)"
      "funding_delta_with_priority_fee plain_extern example_context 10 (?b []) = ok 598"
      "funding_delta_with_priority_fee plain_extern example_context 10 (?b [\<lparr>note_value = 0, note_pk = 0\<rparr>]) = ok 554"
    by (simp_all add: funding_delta_with_priority_fee_def cost fee net_balance_def u) (simp add: example_builder_def builder_new_def)
  have add: "add_ledger_output n (?b []) = ok (?b [n])" for n by (simp add: add_ledger_output_iff MAX_TRANSACTION_OUTPUTS_def)
  have change: "return_change plain_extern example_context 21 10 (?b []) = ok (Some (?b [\<lparr>note_value = 554, note_pk = 21\<rparr>]))"
    by (simp add: return_change_def with_dummy_change_note_def add delta try_from_def)
  have "extend_ledger_inputs plain_extern [?u] example_builder = ok (?b [])"
    by (simp add: extend_ledger_inputs_def push_input_def set_try_push_def vec_try_push_def example_builder_def builder_new_def MAX_TRANSACTION_INPUTS_def)
  then have "fund_tx plain_extern example_builder 21 [21] example_context {} 10 example_wallet = ok (?b [\<lparr>note_value = 554, note_pk = 21\<rparr>])"
    by (simp add: fund_tx_def us delta change)
  then show ?thesis by (simp add: net_balance_def u)
qed

text \<open>
  C13: The wallet funds a transaction exactly.  The builder it returns has the same operations and builds a transaction, whatever the fork digest; the notes it spends are worth
  precisely the outputs of its own transfer, the gas cost of the built transaction and the tip that was asked for, a percentage of that cost rounded up.  (Transfers that the caller
  pushed as operations are priced as operations, their inputs and outputs are the caller's to balance.)  The wallet adds only notes that it holds for the given keys, none of them in service, owned by
  a channel, excluded by the caller, or already used by the transaction, and at most one output, which pays a positive change to the change key.
\<close>

theorem funded_exactly:
  assumes "fund_tx X b change_pk pks ctx excluded percent w = ok b'"
  shows "pays_exactly X ctx percent b' \<and>
    funded_from X change_pk {u. (\<exists>pk \<in> set pks. \<exists>ids. ws_pk_index w pk = Some ids \<and> (\<exists>i \<in> set ids. ws_utxos w i = Some u)) \<and> utxo_id X u \<notin> ws_service_notes w \<and>
      utxo_id X u \<notin> ws_channel_notes w \<and> utxo_id X u \<notin> excluded \<and> utxo_id X u \<notin> set (notes_consumed_or_used_in_service X b)} b b'"
    (is "_ \<and> funded_from X change_pk ?U b b'")
proof -
  obtain us where us: "fundable_utxos X pks excluded b w = Some us" using assms by (auto simp: fund_tx_def bind_res_ok_iff)
  have "set us \<subseteq> ?U"
  proof -
    obtain all where all: "utxos_owned_by_pks pks w = Some all" "set us = {u \<in> set all. utxo_id X u \<notin> excluded_from_funding X excluded b w}"
      using us by (auto simp: fundable_utxos_def)
    have "\<exists>pk \<in> set pks. \<exists>ids. ws_pk_index w pk = Some ids \<and> (\<exists>i \<in> set ids. ws_utxos w i = Some u)" if u: "u \<in> set all" for u
    proof -
      obtain i where i: "i \<in> set (concat (map (\<lambda>pk. unwrap_or [] (ws_pk_index w pk)) pks))" "ws_utxos w i = Some u"
        using those_map_member [OF all(1) [unfolded utxos_owned_by_pks_def] u] by blast
      obtain pk where "pk \<in> set pks" "i \<in> set (unwrap_or [] (ws_pk_index w pk))" using i(1) by auto
      then show ?thesis using i(2) by (cases "ws_pk_index w pk") (auto simp: unwrap_or_def)
    qed
    then show ?thesis using all(2) by (auto simp: excluded_from_funding_def)
  qed
  then have loop: "fund_loop X ctx change_pk percent b [] us = ok (Some b') \<Longrightarrow> pays_exactly X ctx percent b' \<and> funded_from X change_pk ?U b b'"
    using fund_loop_spec [of X ctx change_pk percent b "[]" us b' ?U] by auto
  obtain delta where delta: "funding_delta_with_priority_fee X ctx percent b = ok delta" using assms us by (auto simp: fund_tx_def bind_res_ok_iff)
  then consider "delta = 0" "b' = b" | "return_change X ctx change_pk percent b = ok (Some b')" | "fund_loop X ctx change_pk percent b [] us = ok (Some b')"
    using assms us by (auto simp: fund_tx_def bind_res_ok_iff split: if_splits option.splits)
  then show ?thesis
  proof cases
    case 1
    then show ?thesis using delta by (simp add: balanced_pays_exactly funded_from_def)
  next
    case 2
    then show ?thesis using funded_with_change [OF 2 refl, of "[]" ?U] by simp
  qed (rule loop)
qed

theorem funded_exactly_witness:
  "\<exists>b' tx fee. fund_tx plain_extern example_builder 21 [21] example_context {} 10 example_wallet = ok b' \<and>
     build 0 b' = ok tx \<and> total_gas_cost plain_extern (oc_gas_context example_context) tx = ok fee \<and> fee + (fee * 10 + 99) div 100 = 446"
proof -
  obtain b' where b': "fund_tx plain_extern example_builder 21 [21] example_context {} 10 example_wallet = ok b'" "net_balance b' = 446"
    using example_funding by blast
  obtain tx fee where tx: "build 0 b' = ok tx" "total_gas_cost plain_extern (oc_gas_context example_context) tx = ok fee"
      "(\<Sum>u\<leftarrow>tb_ledger_inputs b'. note_value (utxo_note u)) = (\<Sum>n\<leftarrow>t_outputs (tb_pending b'). note_value n) + fee + (fee * 10 + 99) div 100"
    using funded_exactly [OF b'(1)] unfolding pays_exactly_def by blast
  then have "int (fee + (fee * 10 + 99) div 100) = 446" using b'(2) by (simp add: net_balance_def int_sum_list [symmetric])
  then have "fee + (fee * 10 + 99) div 100 = 446" by linarith
  then show ?thesis using b'(1) tx by blast
qed

subsection \<open>The paths of vouchers\<close>

text \<open>
  The ledger and a wallet that follows it, as far as vouchers are concerned: both start empty, every header changes both, other changes of the ledger keep its vouchers, and a wallet may
  start over from the state of the ledger.  The set of vouchers that the wallet tracks may be another one for each block.
\<close>

inductive voucher_run :: "extern \<Rightarrow> leader_state \<Rightarrow> wallet_state \<Rightarrow> bool" for X where
  run_start: "ws_vouchers w = [] \<Longrightarrow> ws_epoch w = 0 \<Longrightarrow> ws_voucher_paths w = [] \<Longrightarrow> ws_voucher_paths_snapshot w = [] \<Longrightarrow> voucher_run X leader_new w"
| run_header: "voucher_run X s w \<Longrightarrow> leader_apply_header X (wb_epoch b) (wb_voucher_cm b) s = ok s' \<Longrightarrow>
    state_apply_block X (known :: nat \<rightharpoonup> nat) (known_vouchers :: nat voucher_index) b w = ok w' \<Longrightarrow> voucher_run X s' w'"
| run_ledger: "voucher_run X s w \<Longrightarrow> vouchers s' = vouchers s \<Longrightarrow> leader_epoch s' = leader_epoch s \<Longrightarrow> snapshot_root s' = snapshot_root s \<Longrightarrow> voucher_run X s' w"
| run_restart: "voucher_run X s w \<Longrightarrow> ws_vouchers w' = vouchers s \<Longrightarrow> ws_epoch w' = leader_epoch s \<Longrightarrow> ws_voucher_paths w' = [] \<Longrightarrow>
    ws_voucher_paths_snapshot w' = [] \<Longrightarrow> voucher_run X s w'"

definition paths_ok :: "extern \<Rightarrow> nat list \<Rightarrow> voucher_paths \<Rightarrow> bool" where
  "paths_ok X xs ps \<longleftrightarrow> (\<forall>(cm, p) \<in> set ps. path_of (zk_compress X) 0 ACCEPTABLE_MAX_HEIGHT xs p \<and> xs ! mp_leaf_index p = cm)"

definition vouchers_in_step :: "extern \<Rightarrow> nat list \<Rightarrow> leader_state \<Rightarrow> wallet_state \<Rightarrow> bool" where
  "vouchers_in_step X xs s w \<longleftrightarrow> length xs \<le> 2 ^ (ACCEPTABLE_MAX_HEIGHT - 1) \<and> vouchers s = peaks (zk_compress X) ACCEPTABLE_MAX_HEIGHT xs \<and>
     ws_vouchers w = vouchers s \<and> ws_epoch w = leader_epoch s \<and> paths_ok X xs (ws_voucher_paths w) \<and>
     (\<forall>(cm, p) \<in> set (ws_voucher_paths_snapshot w). path_verify (zk_compress X) p cm (snapshot_root s))"

lemma height_bounds: "1 \<le> ACCEPTABLE_MAX_HEIGHT" "ACCEPTABLE_MAX_HEIGHT \<le> 33"
  by (simp_all add: ACCEPTABLE_MAX_HEIGHT_def)

lemma fold_update_members: "set (fold (\<lambda>(k, v). AList.update k v) zs m) \<subseteq> set zs \<union> set m"
proof (induction zs arbitrary: m)
  case (Cons z zs)
  have "set (AList.update k v m) \<subseteq> insert (k, v) (set m)" for k v by (induction m) auto
  then show ?case using Cons.IH by (cases z) fastforce
qed simp

lemma path_of_verifies:
  assumes "path_of c z mh xs p" "length xs \<le> 2 ^ (mh - 1)"
  shows "path_verify c p (xs ! mp_leaf_index p) (merkle c (padded z xs) (mh - 1) 0)"
proof -
  have p: "mp_leaf_index p < length xs" "length (mp_siblings p) = mh - 1" using assms(1) by (simp_all add: path_of_def)
  have "fold_path c (mp_leaf_index p) (merkle c (padded z xs) 0 (mp_leaf_index p)) (mp_siblings p) =
      merkle c (padded z xs) (0 + length (mp_siblings p)) (mp_leaf_index p div 2 ^ length (mp_siblings p))"
    using assms(1) by (intro fold_path_merkle) (auto simp: path_of_def sibling_hash_def)
  then show ?thesis using p assms(2) by (simp add: path_verify_fold padded_def)
qed

text \<open>A header that the ledger accepts: what becomes of the vouchers, and of the root that claims refer to.\<close>

lemma leader_header_vouchers:
  assumes "leader_apply_header X e cm s = ok s'" "vouchers s = peaks (zk_compress X) ACCEPTABLE_MAX_HEIGHT xs" "length xs \<le> 2 ^ (ACCEPTABLE_MAX_HEIGHT - 1)"
  shows "length xs < 2 ^ (ACCEPTABLE_MAX_HEIGHT - 1)" "vouchers s' = peaks (zk_compress X) ACCEPTABLE_MAX_HEIGHT (xs @ [cm])" "leader_epoch s' = e" "leader_epoch s \<le> e"
    "snapshot_root s' = (if leader_epoch s < e then merkle (zk_compress X) (padded 0 xs) (ACCEPTABLE_MAX_HEIGHT - 1) 0 else snapshot_root s)"
proof -
  obtain s1 where s1: "leader_update_epoch X e s = ok s1" "add_voucher X cm s1 = Some s'" using assms(1) by (auto simp: leader_apply_header_def bind_res_ok_iff)
  have u: "vouchers s1 = vouchers s" "leader_epoch s1 = e" "leader_epoch s \<le> e"
      "snapshot_root s1 = (if leader_epoch s < e then merkle (zk_compress X) (padded 0 xs) (ACCEPTABLE_MAX_HEIGHT - 1) 0 else snapshot_root s)"
    using s1(1) frontier_root_peaks [OF assms(3) height_bounds, of "zk_compress X" 0] assms(2)
    by (auto simp: leader_update_epoch_def snapshot_vouchers_def update_claimable_rewards_def bind_Some_iff split: if_splits)
  obtain vs where vs: "push (zk_compress X) ACCEPTABLE_MAX_HEIGHT (vouchers s) cm = ok vs" "s' = s1\<lparr>vouchers := vs\<rparr>"
    using s1(2) u(1) by (auto simp: add_voucher_iff)
  show l: "length xs < 2 ^ (ACCEPTABLE_MAX_HEIGHT - 1)"
    using vs(1) push_full(1) [of xs ACCEPTABLE_MAX_HEIGHT "zk_compress X" cm] assms(2,3) height_bounds by (cases "length xs = 2 ^ (ACCEPTABLE_MAX_HEIGHT - 1)") auto
  show "vouchers s' = peaks (zk_compress X) ACCEPTABLE_MAX_HEIGHT (xs @ [cm])" using vs push_peaks [OF l height_bounds, of "zk_compress X" cm] assms(2) by simp
  show "leader_epoch s' = e" "leader_epoch s \<le> e"
    "snapshot_root s' = (if leader_epoch s < e then merkle (zk_compress X) (padded 0 xs) (ACCEPTABLE_MAX_HEIGHT - 1) 0 else snapshot_root s)"
    using u vs(2) by simp_all
qed

lemma apply_voucher_in_step:
  assumes "ws_vouchers w = peaks (zk_compress X) ACCEPTABLE_MAX_HEIGHT xs" "length xs < 2 ^ (ACCEPTABLE_MAX_HEIGHT - 1)" "paths_ok X xs (ws_voucher_paths w)"
  shows "\<exists>paths. apply_voucher X known_vouchers b w = ok (peaks (zk_compress X) ACCEPTABLE_MAX_HEIGHT (xs @ [wb_voucher_cm b]), paths,
      if ws_epoch w < wb_epoch b then ws_voucher_paths w else ws_voucher_paths_snapshot w) \<and> paths_ok X (xs @ [wb_voucher_cm b]) paths"
proof -
  let ?c = "zk_compress X" and ?mh = ACCEPTABLE_MAX_HEIGHT and ?ys = "xs @ [wb_voucher_cm b]"
  let ?kept = "filter (\<lambda>(cm, _). vouchers_get known_vouchers cm \<noteq> None) (ws_voucher_paths w)"
  have k: "\<forall>p \<in> set (map snd ?kept). path_of ?c 0 ?mh xs p" using assms(3) by (auto simp: paths_ok_def)
  obtain np ps where push: "push_with_paths ?c 0 ?mh (peaks ?c ?mh xs) (wb_voucher_cm b) (map snd ?kept) = ok (peaks ?c ?mh ?ys, np, ps)"
      and np: "mp_leaf_index np = length xs" "path_of ?c 0 ?mh ?ys np" and ps: "map mp_leaf_index ps = map mp_leaf_index (map snd ?kept)" "\<forall>p \<in> set ps. path_of ?c 0 ?mh ?ys p"
    using push_with_paths_peaks [OF assms(2) height_bounds k, of "wb_voucher_cm b"] by blast
  have "?ys ! mp_leaf_index p = cm" if m: "(cm, p) \<in> set (zip (map fst ?kept) ps)" for cm p
  proof -
    obtain i where i: "i < length ?kept" "i < length ps" "cm = fst (?kept ! i)" "p = ps ! i" using m by (auto simp: in_set_zip)
    have "mp_leaf_index p = mp_leaf_index (snd (?kept ! i))" using arg_cong [OF ps(1), of "\<lambda>l. l ! i"] i by simp
    moreover obtain q where "?kept ! i = (cm, q)" using i(3) by (cases "?kept ! i") simp
    moreover have "(cm, q) \<in> set (ws_voucher_paths w)" using nth_mem [OF i(1)] calculation(2) by simp
    ultimately show ?thesis using assms(3) by (auto simp: paths_ok_def path_of_def nth_append)
  qed
  then have z: "paths_ok X ?ys (zip (map fst ?kept) ps)" using ps(2) by (auto simp: paths_ok_def dest: set_zip_rightD)
  let ?paths = "fold (\<lambda>(cm, path). AList.update cm path) (zip (map fst ?kept) ps) []"
  have f: "paths_ok X ?ys ?paths" using z fold_update_members [of "zip (map fst ?kept) ps" "[]"] by (auto simp: paths_ok_def)
  have "set (AList.update (wb_voucher_cm b) np ?paths) \<subseteq> insert (wb_voucher_cm b, np) (set ?paths)"
    using fold_update_members [of "[(wb_voucher_cm b, np)]" ?paths] by simp
  then have "paths_ok X ?ys (AList.update (wb_voucher_cm b) np ?paths)" using f np by (auto simp: paths_ok_def)
  then show ?thesis using push f assms(1) by (simp add: apply_voucher_def Let_def)
qed

lemma voucher_run_in_step: "voucher_run X s w \<Longrightarrow> \<exists>xs. vouchers_in_step X xs s w"
proof (induction rule: voucher_run.induct)
  case (run_start w)
  then have "vouchers_in_step X [] leader_new w" by (simp add: vouchers_in_step_def leader_new_def peaks_def paths_ok_def)
  then show ?case by blast
next
  case (run_header s w b s' known known_vouchers w')
  then obtain xs where xs: "vouchers_in_step X xs s w" by blast
  note i = xs [unfolded vouchers_in_step_def]
  have v: "vouchers s = peaks (zk_compress X) ACCEPTABLE_MAX_HEIGHT xs" "length xs \<le> 2 ^ (ACCEPTABLE_MAX_HEIGHT - 1)" using i by auto
  note h = leader_header_vouchers [OF run_header.hyps(2) v]
  obtain paths where p: "apply_voucher X known_vouchers b w = ok (peaks (zk_compress X) ACCEPTABLE_MAX_HEIGHT (xs @ [wb_voucher_cm b]), paths,
      if ws_epoch w < wb_epoch b then ws_voucher_paths w else ws_voucher_paths_snapshot w)" "paths_ok X (xs @ [wb_voucher_cm b]) paths"
    using apply_voucher_in_step [of w X xs known_vouchers b] i h(1) by auto
  have w': "ws_vouchers w' = peaks (zk_compress X) ACCEPTABLE_MAX_HEIGHT (xs @ [wb_voucher_cm b])" "ws_epoch w' = wb_epoch b" "ws_voucher_paths w' = paths"
      "ws_voucher_paths_snapshot w' = (if ws_epoch w < wb_epoch b then ws_voucher_paths w else ws_voucher_paths_snapshot w)"
    using run_header.hyps(3) p(1) by (auto simp: state_apply_block_def bind_res_ok_iff)
  have "path_verify (zk_compress X) q cm (snapshot_root s')" if q: "(cm, q) \<in> set (ws_voucher_paths_snapshot w')" for cm q
    using q i h(5) path_of_verifies [OF _ v(2), of "zk_compress X" 0] unfolding w'(4) by (auto simp: paths_ok_def split: if_splits)
  then have "vouchers_in_step X (xs @ [wb_voucher_cm b]) s' w'" unfolding vouchers_in_step_def using h w'(1-3) p(2) by auto
  then show ?case by blast
next
  case (run_ledger s w s')
  then show ?case by (auto simp: vouchers_in_step_def)
next
  case (run_restart s w w')
  then obtain xs where "vouchers_in_step X xs s w" by blast
  then have "vouchers_in_step X xs s w'" using run_restart.hyps by (simp add: vouchers_in_step_def paths_ok_def)
  then show ?case by blast
qed

lemma voucher_run_applies:
  assumes "voucher_run X s w" "leader_apply_header X (wb_epoch b) (wb_voucher_cm b) s = ok s'"
  shows "\<exists>vs paths. apply_voucher X known_vouchers b w = ok (vs, paths, if ws_epoch w < wb_epoch b then ws_voucher_paths w else ws_voucher_paths_snapshot w)"
proof -
  obtain xs where "vouchers_in_step X xs s w" using voucher_run_in_step [OF assms(1)] by blast
  then have i: "vouchers s = peaks (zk_compress X) ACCEPTABLE_MAX_HEIGHT xs" "length xs \<le> 2 ^ (ACCEPTABLE_MAX_HEIGHT - 1)" "ws_vouchers w = vouchers s" "paths_ok X xs (ws_voucher_paths w)"
    by (simp_all add: vouchers_in_step_def)
  show ?thesis using apply_voucher_in_step [OF i(3) [unfolded i(1)] leader_header_vouchers(1) [OF assms(2) i(1,2)] i(4)] by blast
qed

text \<open>
  C14: A wallet that follows the ledger has the same vouchers, and each path of its snapshot proves its voucher against the root that the ledger checks claims against, so that a claim can be
  made.  As long as the ledger accepts a header, the wallet can apply its voucher.
\<close>

theorem claim_paths_verify:
  assumes "voucher_run X s w"
  shows "ws_vouchers w = vouchers s \<and> ws_epoch w = leader_epoch s \<and>
    (\<forall>(cm, p) \<in> set (ws_voucher_paths_snapshot w). path_verify (zk_compress X) p cm (snapshot_root s)) \<and>
    (\<forall>b s'. leader_apply_header X (wb_epoch b) (wb_voucher_cm b) s = ok s' \<longrightarrow> (\<exists>r. apply_voucher X known_vouchers b w = ok r))"
proof -
  obtain xs where xs: "vouchers_in_step X xs s w" using voucher_run_in_step [OF assms] by blast
  then show ?thesis using voucher_run_applies [OF assms, of _ _ known_vouchers] unfolding vouchers_in_step_def by blast
qed

text \<open>A wallet that tracks the voucher of the first block, and takes its snapshot at the first block of a later epoch.\<close>

definition example_voucher_block :: "nat \<Rightarrow> nat \<Rightarrow> wallet_block" where
  "example_voucher_block e cm = \<lparr>wb_id = 0, wb_parent = 0, wb_epoch = e, wb_voucher_cm = cm, wb_header_ops = [], wb_txs = []\<rparr>"

definition example_vouchers :: "nat voucher_index" where
  "example_vouchers = vouchers_insert 7 70 0 \<lparr>vi_vouchers = Map.empty, vi_nullifiers = Map.empty\<rparr>"

lemma example_voucher_run:
  "\<exists>s w p. voucher_run plain_extern s w \<and> ws_voucher_paths_snapshot w = [(7, p)]"
proof -
  let ?c = "zk_compress plain_extern" and ?mh = ACCEPTABLE_MAX_HEIGHT
  let ?w0 = "\<lparr>ws_utxos = Map.empty, ws_pk_index = Map.empty, ws_service_notes = {}, ws_channel_notes = {}, ws_epoch = 0, ws_vouchers = [], ws_voucher_paths = [], ws_voucher_paths_snapshot = []\<rparr>"
  have 0: "voucher_run plain_extern leader_new ?w0" by (rule run_start) simp_all
  have l: "length ([] :: nat list) < 2 ^ (?mh - 1)" "length [7 :: nat] < 2 ^ (?mh - 1)" "length [7 :: nat] \<le> 2 ^ (?mh - 1)" by (simp_all add: ACCEPTABLE_MAX_HEIGHT_def)
  have peaks0: "peaks ?c ?mh [] = []" by (simp add: peaks_def)
  have "push ?c ?mh [] 7 = ok (peaks ?c ?mh [7])" using push_peaks [OF l(1) height_bounds, of ?c 7] peaks0 by simp
  then have h1: "leader_apply_header plain_extern 0 7 leader_new = ok (leader_new\<lparr>vouchers := peaks ?c ?mh [7]\<rparr>)" (is "_ = ok ?s1")
    by (simp add: leader_apply_header_def leader_update_epoch_def add_voucher_def leader_new_def)
  obtain np where "push_with_paths ?c 0 ?mh [] 7 [] = ok (peaks ?c ?mh [7], np, [])"
    using push_with_paths_peaks [OF l(1) height_bounds, of "[]" ?c 0 7] peaks0 by auto
  then have a1: "apply_voucher plain_extern example_vouchers (example_voucher_block 0 7) ?w0 = ok (peaks ?c ?mh [7], [(7, np)], [])"
    by (simp add: apply_voucher_def example_voucher_block_def example_vouchers_def vouchers_insert_def vouchers_get_def)
  let ?w1 = "\<lparr>ws_utxos = Map.empty, ws_pk_index = Map.empty, ws_service_notes = {}, ws_channel_notes = {}, ws_epoch = 0, ws_vouchers = peaks ?c ?mh [7], ws_voucher_paths = [(7, np)],
    ws_voucher_paths_snapshot = []\<rparr>"
  have 1: "voucher_run plain_extern ?s1 ?w1"
    by (rule run_header [OF 0, of "example_voucher_block 0 7" _ Map.empty example_vouchers])
      (simp_all add: h1 a1 state_apply_block_def, simp_all add: h1 example_voucher_block_def)
  obtain root where "frontier_root ?c 0 ?mh (peaks ?c ?mh [7]) = Some root" using frontier_root_peaks [OF l(3) height_bounds, of ?c 0] by blast
  moreover have "push ?c ?mh (peaks ?c ?mh [7]) 8 = ok (peaks ?c ?mh [7, 8])" using push_peaks [OF l(2) height_bounds, of ?c 8] by simp
  ultimately obtain s2 where h2: "leader_apply_header plain_extern 2 8 ?s1 = ok s2"
    by (simp add: leader_apply_header_def leader_update_epoch_def snapshot_vouchers_def update_claimable_rewards_def add_voucher_def leader_new_def)
  obtain vs paths where r': "apply_voucher plain_extern example_vouchers (example_voucher_block 2 8) ?w1 = ok (vs, paths, [(7, np)])"
    using voucher_run_applies [OF 1, of "example_voucher_block 2 8" s2 example_vouchers] h2 by (auto simp: example_voucher_block_def)
  have "voucher_run plain_extern s2 (?w1\<lparr>ws_epoch := 2, ws_vouchers := vs, ws_voucher_paths := paths, ws_voucher_paths_snapshot := [(7, np)]\<rparr>)"
    by (rule run_header [OF 1, of "example_voucher_block 2 8" _ Map.empty example_vouchers])
      (simp_all add: r' state_apply_block_def, simp_all add: h2 example_voucher_block_def)
  then show ?thesis by force
qed

theorem claim_paths_verify_witness:
  "\<exists>s w p. voucher_run plain_extern s w \<and> ws_voucher_paths_snapshot w = [(7, p)] \<and> path_verify (zk_compress plain_extern) p 7 (snapshot_root s)"
proof -
  obtain s w p where r: "voucher_run plain_extern s w" "ws_voucher_paths_snapshot w = [(7, p)]" using example_voucher_run by blast
  then show ?thesis using claim_paths_verify [OF r(1), of example_vouchers] by auto
qed

end
