(* ===== verification/Spec2Isabelle.thy ===== *)
theory Spec2Isabelle
  imports UncleSelection MMR Wallet
begin

text \<open>
  A verification library for the Logos blockchain node: its consensus engine, its ledger, and the data structures and
  encodings that these rest on.  Paths are relative to \<^verbatim>\<open>src/\<close>.

  \<^bold>\<open>The program.\<close>  A node receives blocks.  The consensus engine (\<^verbatim>\<open>consensus/cryptarchia-engine\<close>) keeps the tree of blocks, chooses
  the local chain and moves the latest immutable block (LIB) along it.  The ledger (\<^verbatim>\<open>ledger\<close>) keeps a state per block of the tree: a
  header moves the state to the epoch of its slot and pays the rewards due, then the transactions are verified and executed one operation at a
  time, then the block's rewards are computed.  Operations (\<^verbatim>\<open>core/src/mantle/ops\<close>) transfer notes, write to channels and move their
  funds, declare services, and claim the rewards of leaders and of proof of work.  Notes and vouchers are committed to by Merkle trees (\<^verbatim>\<open>merkle\<close>,
  \<^verbatim>\<open>mmr\<close>); transactions have a canonical encoding (\<^verbatim>\<open>binary-codec\<close>); slots and epochs are laid out in time by a
  schedule of eras (\<^verbatim>\<open>time\<close>), each with its own parameters.

  \<^bold>\<open>Conventions.\<close>  An integer of the source is a natural number with its width written out where an operation can leave the range
  (theory Prelude); \<^verbatim>\<open>i128\<close> is \<^typ>\<open>int\<close>.  A panic is \<^term>\<open>None\<close> of an outer option, an error the left value of a sum:
  \<^verbatim>\<open>Result<A, E>\<close> of code that may panic is \<open>('e + 'a) option\<close>, and \<^verbatim>\<open>?\<close> is \<open>bind_res\<close>.  Plain \<^verbatim>\<open>+\<close> and \<^verbatim>\<open>*\<close> wrap, as in a
  release build, where the source does not check.  A struct is a record, an enum a datatype, a map a partial function, or an association list
  where the source iterates it.  Hashes, keys and identifiers are numbers.  Code of other crates is a parameter: the record \<open>extern\<close> (Poseidon2
  permutation, Blake2b, Ed25519, multiaddresses), \<open>blend_extern\<close> (floats, proofs and encodings of the Blend rewards), \<open>nth_root\<close> of the
  big-integer crate, the batch verifiers of proofs, the iteration order \<open>iter_tips\<close> of a hash set, the trait \<open>leader_proof\<close>, the \<^verbatim>\<open>time\<close> crate.
  What is proved holds for all of them, or names what it assumes.

  \<^bold>\<open>Consensus.\<close>
  \<^item> EraTime: \<^verbatim>\<open>time/src/\<close>.  The schedule of eras, with locale \<open>era_boundary\<close> for the arithmetic that slots and epochs share.  Resolving a schedule
    never panics; slots, epochs and times convert back and forth across eras.
  \<^item> BlockTree, ChainEngine, EnginePruning, EngineSafety: \<^verbatim>\<open>consensus/cryptarchia-engine/src/\<close>.  The tree and its walks, as partial functions
    that are proved to return on well-formed trees; both fork choice rules (locale \<open>fork_rule\<close>); reception of a block, the move of the LIB and
    pruning.  Every engine that can be reached is well formed, blocks are received or rejected without panic, the LIB
    only advances, pruning and the reported changes are exact, and online the longest chain is followed up to forks deeper than \<open>k\<close>.
  \<^item> UncleSelection: \<^verbatim>\<open>select_uncles\<close> of the same crate selects exactly the documented uncles.

  \<^bold>\<open>Accumulators.\<close>
  \<^item> MerkleRef: the reference tree, with the hash as a parameter; two ways up from different leaves to one root give a collision of the hash (\<open>path_collision\<close>).  MMR:
    \<^verbatim>\<open>mmr/src/\<close> (locale \<open>merkle_container\<close>), a refinement of appending to a list, whose root is the reference root and whose tracked paths stay valid.
  \<^item> DynMerkle: \<^verbatim>\<open>merkle/dynamic-merkle\<close>.  Trees are determined by their leaves, and restored from their serialised form; paths carry the right sides and lead to the root.
  \<^item> MerkleStore: \<^verbatim>\<open>merkle/tree\<close> and \<^verbatim>\<open>merkle/utxotree\<close>.  A store is a finite map (locale \<open>keyed_store\<close>, interpreted as \<open>store\<close>), which is what the
    ledger uses of it.

  \<^bold>\<open>Encodings and hashes.\<close>
  \<^item> Codec: \<^verbatim>\<open>binary-codec/src/canonical\<close>, with locales \<open>codec\<close> and \<open>item_codec\<close> for what an encoding promises.  Ops: the operations, their proofs and transactions
    (\<^verbatim>\<open>core/src/mantle/ops\<close>, \<^verbatim>\<open>core/src/mantle/transactions/tx_list\<close>).  A transaction has exactly one encoding, and its hash binds it.
  \<^item> Crypto: the sponge of \<^verbatim>\<open>zk/poseidon2\<close> and the inputs of ZK signatures.

  \<^bold>\<open>The operations of the ledger.\<close>
  \<^item> Channels, ServiceNotes: channels and their notes (\<^verbatim>\<open>core/src/mantle/channel.rs\<close>, \<^verbatim>\<open>channel_notes.rs\<close>), notes in service (\<^verbatim>\<open>core/src/sdp/service_notes.rs\<close>).
  \<^item> NoteLedger: inputs, outputs, transfers and deferred proofs.  ChannelOps: \<^verbatim>\<open>core/src/mantle/ops/channel\<close>.  SdpOps: \<^verbatim>\<open>core/src/mantle/ops/sdp\<close> and \<^verbatim>\<open>core/src/sdp\<close>.
    What each stage accepts, that value is conserved, that channels need their thresholds and nonces are used once.
  \<^item> Markets: gas, prices, block rewards and difficulties.  Leaders, PowRewards: the rewards of leaders and of proof of work, each paid at most once.
  \<^item> BlendRewards, SdpLedger: the rewards of Blend nodes (\<^verbatim>\<open>ledger/src/mantle/sdp/rewards\<close>) and the ledger of services (\<^verbatim>\<open>ledger/src/mantle/sdp/mod.rs\<close>).

  \<^bold>\<open>The ledger.\<close>
  \<^item> CryptarchiaLedger: \<^verbatim>\<open>ledger/src/cryptarchia\<close> and \<^verbatim>\<open>ledger/src/config.rs\<close>; the snapshots of the epochs, stake inference, headers, genesis.
  \<^item> LedgerState: \<^verbatim>\<open>ledger/src/mantle/mod.rs\<close>, \<^verbatim>\<open>ledger/src/lib.rs\<close>, \<^verbatim>\<open>update.rs\<close>, \<^verbatim>\<open>gas_and_fees.rs\<close>; operations, transactions, blocks, and the states of all branches.
  \<^item> LedgerSafety: \<open>ledger_run\<close> is the closure of genesis under accepted blocks and pruning.  Every state is well formed and all its parts are in the same epoch, and the
    supply never exceeds genesis plus emission.
  \<^item> TxPricing: \<^verbatim>\<open>core/src/mantle/transactions\<close> (\<^verbatim>\<open>tx_list/ops.rs\<close>, \<^verbatim>\<open>thresholds.rs\<close>, \<^verbatim>\<open>codec.rs\<close>).  The fee a client predicts for an unsigned transaction is the
    fee the ledger charges.

  \<^bold>\<open>Clients.\<close>
  \<^item> TxBuilder: \<^verbatim>\<open>core/src/mantle/transactions/builder.rs\<close>; the price of a builder and of the change it returns.  Wallet: \<^verbatim>\<open>wallet/src/\<close>; what the wallet takes from blocks,
    its state, and the funding of transactions, whose inputs pay exactly the outputs, the gas cost and the tip, from notes that may be spent.  The
    voucher paths that a wallet keeps prove its vouchers against the root of the ledger (\<open>voucher_run\<close>).

  \<^bold>\<open>Bounds and fuel.\<close>  No definition takes fuel: loops over lists are structural, loops along the tree are \<^theory_text>\<open>partial_function (option)\<close> with theorems that
  they return, and the remaining recursions have termination proofs.  Capacities (heights of trees, lengths of vectors, 120 blocks of fees) are
  the constants of the source.

  \<^bold>\<open>Not modelled.\<close>  Asynchronous services, networking (libp2p, Blend, synchronisation), storage, HTTP interfaces, command-line tools,
  C bindings, the service around the wallet, the zone SDK and Logos SQL, since they are I/O or clients of the modelled code; proving and verifying circuits and
  ciphers, which other crates implement; serde and \<^verbatim>\<open>Debug\<close>; logging; floating point, where its results are parameters
  or fields (the lottery constants, the quota of Blend nodes, the density windows).  Accessors that return a field are read off the record.
\<close>

end
